(* ===== verification/Stm_Prelude.thy ===== *)
theory Stm_Prelude
  imports Main "HOL-Library.Word"
begin

text \<open>
  Shared vocabulary of the development: the names of the machine types of the C code, the
  theorem collections that the component theories extend, and the generic facts on words and
  lists they rest on. Nothing here is about a particular source file.

  \<^item> \<open>stm_word\<close> is \<^verbatim>\<open>stm_word_t\<close> (\<^verbatim>\<open>uintptr_t\<close> of a 64-bit build), \<open>addr\<close> the address of a
    word, \<open>lock_idx\<close> the position of a lock in the array \<^verbatim>\<open>locks\<close>, \<open>tid\<close> names a thread and,
    with it, its transaction descriptor.
  \<^item> \<open>step_defs\<close> collects the definitions of the atomic steps of \<^verbatim>\<open>stm.c\<close>, \<open>frame_simps\<close> the
    equations that say which part of a state an operation leaves alone, \<open>lock_word_simps\<close> the
    laws of the lock encodings.
\<close>

unbundle bit_operations_syntax

type_synonym stm_word = "64 word"
type_synonym addr = "64 word"
type_synonym lock_idx = "64 word"
type_synonym tid = nat

named_theorems step_defs
named_theorems frame_simps
named_theorems lock_word_simps

section \<open>Words\<close>

lemma not_bit_unat_less:
  fixes t :: "'a::len word"
  assumes "unat t < 2 ^ k"
  shows "\<not> bit t k"
proof -
  have "\<not> bit (unat t) k"
    using assms by (simp add: bit_iff_odd)
  then show ?thesis
    by (simp add: bit_unsigned_iff)
qed

lemma drop_bit_push_bit_word:
  fixes t :: "'a::len word"
  assumes "unat t < 2 ^ (LENGTH('a) - n)"
  shows "drop_bit n (push_bit n t) = t"
proof (rule bit_word_eqI)
  fix k assume k: "k < LENGTH('a)"
  have high: "\<not> bit t k" if "LENGTH('a) - n \<le> k"
    using assms that
    by (intro not_bit_unat_less) (meson order_less_le_trans power_increasing one_le_numeral)
  show "bit (drop_bit n (push_bit n t)) k = bit t k"
  proof (cases "LENGTH('a) - n \<le> k")
    case True
    with high k show ?thesis by (auto simp: bit_simps)
  next
    case False
    with k show ?thesis by (auto simp: bit_simps)
  qed
qed

lemma push_bit_and_mask_0:
  fixes t :: "'a::len word"
  shows "k \<le> n \<Longrightarrow> push_bit n t AND mask k = 0"
  by (rule bit_word_eqI) (auto simp: bit_simps)

lemma or_and_not_absorb:
  fixes a m :: "'a::len word"
  shows "a AND m = 0 \<Longrightarrow> (a OR m) AND NOT m = a"
proof (rule bit_word_eqI)
  fix n
  assume "a AND m = 0" and "n < LENGTH('a)"
  then have "\<not> (bit a n \<and> bit m n)"
    by (metis bit_and_iff bit_0_eq bot_apply bot_bool_def)
  with \<open>n < LENGTH('a)\<close> show "bit ((a OR m) AND NOT m) n = bit a n"
    by (auto simp: bit_simps)
qed

text \<open>
  Writing the bits of \<open>v\<close> selected by \<open>m\<close> over \<open>x\<close>: the expression
  \<^verbatim>\<open>(x & ~m) | (v & m)\<close> that the STM uses for every partial store.
\<close>

definition masked :: "stm_word \<Rightarrow> stm_word \<Rightarrow> stm_word \<Rightarrow> stm_word" where
  "masked x v m = (x AND NOT m) OR (v AND m)"

lemma bit_masked:
  "bit (masked x v m) n = (if bit m n then bit v n else bit x n)"
  by (cases "n < 64") (auto simp: masked_def bit_simps dest: bit_imp_le_length)

lemma masked_full [simp]: "masked x v (NOT 0) = v"
  by (simp add: masked_def)

lemma masked_minus_1 [simp]: "masked x v (- 1) = v"
  by (simp add: masked_def)

lemma masked_none [simp]: "masked x v 0 = x"
  by (simp add: masked_def)

lemma masked_masked:
  "masked (masked x v m) v' m' = masked x (masked v v' m') (m OR m')"
  by (rule bit_word_eqI) (auto simp: bit_masked bit_simps)

section \<open>Lists\<close>

lemma find_SomeD:
  "List.find P xs = Some x \<Longrightarrow> x \<in> set xs \<and> P x"
  by (induction xs) (auto split: if_splits)

lemma nth_list_update_if:
  "xs[i := v] ! j = (if i = j \<and> j < length xs then v else xs ! j)"
  by (cases "i < length xs") (auto simp: nth_list_update list_update_beyond)

lemma set_drop_conv_nth: "x \<in> set (drop i xs) \<longleftrightarrow> (\<exists>j. i \<le> j \<and> j < length xs \<and> xs ! j = x)"
proof
  assume "x \<in> set (drop i xs)"
  then obtain n where "n < length xs - i" "xs ! (i + n) = x"
    by (auto simp: in_set_conv_nth)
  then show "\<exists>j. i \<le> j \<and> j < length xs \<and> xs ! j = x"
    by (intro exI [of _ "i + n"]) auto
next
  assume "\<exists>j. i \<le> j \<and> j < length xs \<and> xs ! j = x"
  then obtain j where "i \<le> j" "j < length xs" "xs ! j = x" by blast
  then have "j - i < length (drop i xs)" "drop i xs ! (j - i) = x" by auto
  then show "x \<in> set (drop i xs)"
    using nth_mem by blast
qed

end
