(* ===== verification/Lock_Word.thy ===== *)
theory Lock_Word
  imports Stm_Prelude
begin

text \<open>
  The lock words of \<^verbatim>\<open>tinySTM/src/stm.c\<close>: the macros \<^verbatim>\<open>LOCK_GET_OWNED\<close>, \<^verbatim>\<open>LOCK_SET_TIMESTAMP\<close>
  and their kin, as functions on 64-bit words, for the three layouts the code compiles to:
  write-back (\<^verbatim>\<open>CM != CM_MODULAR\<close>), write-through (with incarnation numbers) and write-back with
  the modular contention manager (a read bit and a write bit).

  The locale \<open>lock_layout\<close> states what the protocol relies on (a timestamp survives the
  encoding as long as it stays in range, a locked word is never mistaken for a timestamp, the
  owner's pointer can be read back) and is interpreted once for each layout.

  The protocol theories use the tagged union \<open>lock\<close> in place of the raw word. The last section
  gives its encoding \<open>enc_lock\<close> and shows that every test the code makes on the word (is it owned,
  by my write set, is it the unit lock, are two words equal) is the test made on the union.
\<close>

section \<open>The macros\<close>

definition MAX_THREADS :: nat where
  "MAX_THREADS = 8192"

definition WRITE_MASK :: stm_word where
  "WRITE_MASK = 1"

definition READ_MASK :: stm_word where
  "READ_MASK = 2"

definition OWNED_MASK :: stm_word where
  "OWNED_MASK = WRITE_MASK"

definition OWNED_MASK_MOD :: stm_word where
  "OWNED_MASK_MOD = WRITE_MASK OR READ_MASK"

text \<open>\<^verbatim>\<open>LOCK_BITS\<close> is 1, 2 or 4 according to the layout; \<^verbatim>\<open>MB_REVALIDATION\<close> is off.\<close>

definition VERSION_MAX :: "nat \<Rightarrow> stm_word" where
  "VERSION_MAX LOCK_BITS = drop_bit LOCK_BITS (NOT 0) - of_nat MAX_THREADS"

definition LOCK_GET_OWNED :: "stm_word \<Rightarrow> stm_word" where
  "LOCK_GET_OWNED l = l AND OWNED_MASK"

definition LOCK_SET_ADDR_WRITE :: "stm_word \<Rightarrow> stm_word" where
  "LOCK_SET_ADDR_WRITE a = a OR WRITE_MASK"

definition LOCK_GET_ADDR :: "stm_word \<Rightarrow> stm_word" where
  "LOCK_GET_ADDR l = l AND NOT OWNED_MASK"

definition LOCK_GET_TIMESTAMP :: "stm_word \<Rightarrow> stm_word" where
  "LOCK_GET_TIMESTAMP l = drop_bit 1 l"

definition LOCK_SET_TIMESTAMP :: "stm_word \<Rightarrow> stm_word" where
  "LOCK_SET_TIMESTAMP t = push_bit 1 t"

definition LOCK_UNIT :: stm_word where
  "LOCK_UNIT = NOT 0"

text \<open>The layout of the modular contention manager: two ownership bits.\<close>

definition LOCK_GET_OWNED_MOD :: "stm_word \<Rightarrow> stm_word" where
  "LOCK_GET_OWNED_MOD l = l AND OWNED_MASK_MOD"

definition LOCK_GET_ADDR_MOD :: "stm_word \<Rightarrow> stm_word" where
  "LOCK_GET_ADDR_MOD l = l AND NOT OWNED_MASK_MOD"

definition LOCK_GET_READ :: "stm_word \<Rightarrow> stm_word" where
  "LOCK_GET_READ l = l AND READ_MASK"

definition LOCK_SET_ADDR_READ :: "stm_word \<Rightarrow> stm_word" where
  "LOCK_SET_ADDR_READ a = a OR READ_MASK"

definition LOCK_UPGRADE :: "stm_word \<Rightarrow> stm_word" where
  "LOCK_UPGRADE l = l OR WRITE_MASK"

definition LOCK_GET_TIMESTAMP_MOD :: "stm_word \<Rightarrow> stm_word" where
  "LOCK_GET_TIMESTAMP_MOD l = drop_bit 2 l"

definition LOCK_SET_TIMESTAMP_MOD :: "stm_word \<Rightarrow> stm_word" where
  "LOCK_SET_TIMESTAMP_MOD t = push_bit 2 t"

text \<open>The write-through layout: three incarnation bits between the lock bit and the timestamp.\<close>

definition INCARNATION_BITS :: nat where
  "INCARNATION_BITS = 3"

definition INCARNATION_MAX :: stm_word where
  "INCARNATION_MAX = push_bit INCARNATION_BITS 1 - 1"

definition INCARNATION_MASK :: stm_word where
  "INCARNATION_MASK = push_bit 1 INCARNATION_MAX"

definition LOCK_GET_TIMESTAMP_WT :: "stm_word \<Rightarrow> stm_word" where
  "LOCK_GET_TIMESTAMP_WT l = drop_bit (1 + INCARNATION_BITS) l"

definition LOCK_SET_TIMESTAMP_WT :: "stm_word \<Rightarrow> stm_word" where
  "LOCK_SET_TIMESTAMP_WT t = push_bit (1 + INCARNATION_BITS) t"

definition LOCK_GET_INCARNATION :: "stm_word \<Rightarrow> stm_word" where
  "LOCK_GET_INCARNATION l = drop_bit 1 (l AND INCARNATION_MASK)"

definition LOCK_SET_INCARNATION :: "stm_word \<Rightarrow> stm_word" where
  "LOCK_SET_INCARNATION i = push_bit 1 i"

definition LOCK_UPD_INCARNATION :: "stm_word \<Rightarrow> stm_word \<Rightarrow> stm_word" where
  "LOCK_UPD_INCARNATION l i =
     (l AND NOT (INCARNATION_MASK OR OWNED_MASK)) OR LOCK_SET_INCARNATION i"

text \<open>The lock that covers an address: \<^verbatim>\<open>LOCK_ARRAY_LOG_SIZE\<close> 20, \<^verbatim>\<open>LOCK_SHIFT_EXTRA\<close> 2.\<close>

definition LOCK_ARRAY_LOG_SIZE :: nat where
  "LOCK_ARRAY_LOG_SIZE = 20"

definition LOCK_SHIFT :: nat where
  "LOCK_SHIFT = 3 + 2"

definition LOCK_IDX :: "addr \<Rightarrow> lock_idx" where
  "LOCK_IDX a = drop_bit LOCK_SHIFT a AND (push_bit LOCK_ARRAY_LOG_SIZE 1 - 1)"

text \<open>\<^verbatim>\<open>lock_idx_swap\<close> exchanges the two low bytes of a 32-bit index.\<close>

definition lock_idx_swap :: "32 word \<Rightarrow> 32 word" where
  "lock_idx_swap idx =
     ((idx AND NOT 0xFFFF) OR push_bit 8 (idx AND 0x00FF)) OR drop_bit 8 (idx AND 0xFF00)"

lemmas mask_defs = WRITE_MASK_def READ_MASK_def OWNED_MASK_def OWNED_MASK_MOD_def
  INCARNATION_BITS_def INCARNATION_MAX_def INCARNATION_MASK_def

lemma unat_mask_word: "n \<le> 64 \<Longrightarrow> unat (mask n :: stm_word) = 2 ^ n - 1"
proof -
  assume "n \<le> 64"
  then have "uint (mask n :: stm_word) = mask n"
    unfolding uint_mask_eq by (simp add: min_def)
  then have "int (unat (mask n :: stm_word)) = int (2 ^ n - 1)"
    by (simp add: mask_eq_exp_minus_1 of_nat_diff del: of_nat_unat) simp
  then show ?thesis by linarith
qed

lemma unat_of_nat_le: "unat (of_nat n :: stm_word) \<le> n"
  by (simp add: unat_of_nat)

section \<open>What the protocol relies on\<close>

locale lock_layout =
  fixes bits :: nat
    and get_owned :: "stm_word \<Rightarrow> stm_word"
    and get_addr :: "stm_word \<Rightarrow> stm_word"
    and set_addr :: "stm_word \<Rightarrow> stm_word"
    and get_ts :: "stm_word \<Rightarrow> stm_word"
    and set_ts :: "stm_word \<Rightarrow> stm_word"
  assumes bits_le: "bits \<le> 32"
    and owned_set_ts: "get_owned (set_ts t) = 0"
    and owned_set_addr: "get_owned (set_addr a) \<noteq> 0"
    and get_set_ts: "unat t < 2 ^ (64 - bits) \<Longrightarrow> get_ts (set_ts t) = t"
    and get_set_addr: "a AND 3 = 0 \<Longrightarrow> get_addr (set_addr a) = a"
begin

lemma ts_is_not_pointer: "set_ts t \<noteq> set_addr a"
  using owned_set_ts owned_set_addr by metis

lemma set_ts_inject:
  "unat t < 2 ^ (64 - bits) \<Longrightarrow> unat u < 2 ^ (64 - bits) \<Longrightarrow> set_ts t = set_ts u \<longleftrightarrow> t = u"
  using get_set_ts by metis

lemma set_addr_inject:
  "a AND 3 = 0 \<Longrightarrow> b AND 3 = 0 \<Longrightarrow> set_addr a = set_addr b \<longleftrightarrow> a = b"
  using get_set_addr by metis

lemma unat_version_max: "unat (VERSION_MAX bits) + MAX_THREADS = 2 ^ (64 - bits) - 1"
proof -
  have "drop_bit bits (NOT 0 :: stm_word) = mask (64 - bits)"
    using bits_le by (intro bit_word_eqI) (auto simp: bit_simps)
  then have m: "VERSION_MAX bits = mask (64 - bits) - of_nat MAX_THREADS"
    by (simp add: VERSION_MAX_def)
  have u: "unat (mask (64 - bits) :: stm_word) = 2 ^ (64 - bits) - 1"
    using bits_le unat_mask_word [of "64 - bits"] by simp
  have "(2::nat) ^ 32 \<le> 2 ^ (64 - bits)"
    using bits_le by (intro power_increasing) auto
  then have big: "MAX_THREADS \<le> 2 ^ (64 - bits) - 1"
    by (simp add: MAX_THREADS_def)
  have o: "unat (of_nat MAX_THREADS :: stm_word) = MAX_THREADS"
    by (simp add: MAX_THREADS_def)
  have "(of_nat MAX_THREADS :: stm_word) \<le> mask (64 - bits)"
    unfolding word_le_nat_alt u o by (rule big)
  then have "unat (VERSION_MAX bits) = 2 ^ (64 - bits) - 1 - MAX_THREADS"
    by (simp add: m unat_sub u o)
  with big show ?thesis by simp
qed

text \<open>Every timestamp that the clock can reach survives the encoding.\<close>

lemma clock_survives:
  assumes "n \<le> unat (VERSION_MAX bits) + MAX_THREADS"
  shows "get_ts (set_ts (of_nat n)) = of_nat n"
proof (rule get_set_ts)
  have "n < 2 ^ (64 - bits)"
    using assms unfolding unat_version_max
    by (metis Suc_pred' less_Suc_eq_le zero_less_numeral zero_less_power)
  then show "unat (of_nat n :: stm_word) < 2 ^ (64 - bits)"
    using unat_of_nat_le [of n] by (rule le_less_trans [rotated])
qed

end

section \<open>The three layouts\<close>

lemma and_3_mask_0:
  fixes a :: stm_word
  assumes "a AND 3 = 0" "m AND 3 = m"
  shows "a AND m = 0"
proof -
  have "a AND m = (a AND 3) AND m"
    using assms(2) by (metis and.assoc and.commute)
  with assms(1) show ?thesis by simp
qed

interpretation wb: lock_layout 1 LOCK_GET_OWNED LOCK_GET_ADDR LOCK_SET_ADDR_WRITE
    LOCK_GET_TIMESTAMP LOCK_SET_TIMESTAMP
proof unfold_locales
  fix t a :: stm_word
  show "LOCK_GET_OWNED (LOCK_SET_TIMESTAMP t) = 0"
    using push_bit_and_mask_0 [of 1 1 t]
    by (simp add: LOCK_GET_OWNED_def LOCK_SET_TIMESTAMP_def mask_defs mask_1)
  show "LOCK_GET_OWNED (LOCK_SET_ADDR_WRITE a) \<noteq> 0"
    by (simp add: LOCK_GET_OWNED_def LOCK_SET_ADDR_WRITE_def mask_defs bit.conj_disj_distrib2)
  show "LOCK_GET_TIMESTAMP (LOCK_SET_TIMESTAMP t) = t" if "unat t < 2 ^ (64 - 1)"
    unfolding LOCK_GET_TIMESTAMP_def LOCK_SET_TIMESTAMP_def
    by (rule drop_bit_push_bit_word) (use that in simp)
  show "LOCK_GET_ADDR (LOCK_SET_ADDR_WRITE a) = a" if "a AND 3 = 0"
    unfolding LOCK_GET_ADDR_def LOCK_SET_ADDR_WRITE_def mask_defs
    by (rule or_and_not_absorb, rule and_3_mask_0 [OF that]) simp
qed simp

interpretation modular: lock_layout 2 LOCK_GET_OWNED_MOD LOCK_GET_ADDR_MOD LOCK_SET_ADDR_WRITE
    LOCK_GET_TIMESTAMP_MOD LOCK_SET_TIMESTAMP_MOD
proof unfold_locales
  fix t a :: stm_word
  show "LOCK_GET_OWNED_MOD (LOCK_SET_TIMESTAMP_MOD t) = 0"
    using push_bit_and_mask_0 [of 2 2 t]
    by (simp add: LOCK_GET_OWNED_MOD_def LOCK_SET_TIMESTAMP_MOD_def mask_defs mask_eq_exp_minus_1)
  have "bit (LOCK_GET_OWNED_MOD (LOCK_SET_ADDR_WRITE a)) 0"
    by (simp add: LOCK_GET_OWNED_MOD_def LOCK_SET_ADDR_WRITE_def mask_defs bit_simps)
  then show "LOCK_GET_OWNED_MOD (LOCK_SET_ADDR_WRITE a) \<noteq> 0"
    by (metis bit_0_eq bot_apply bot_bool_def)
  show "LOCK_GET_TIMESTAMP_MOD (LOCK_SET_TIMESTAMP_MOD t) = t" if "unat t < 2 ^ (64 - 2)"
    unfolding LOCK_GET_TIMESTAMP_MOD_def LOCK_SET_TIMESTAMP_MOD_def
    by (rule drop_bit_push_bit_word) (use that in simp)
  show "LOCK_GET_ADDR_MOD (LOCK_SET_ADDR_WRITE a) = a" if "a AND 3 = 0"
  proof (rule bit_word_eqI)
    fix n assume n: "n < LENGTH(64)"
    have three: "(3::stm_word) = 1 OR 2"
      by simp
    have "\<not> (bit a n \<and> bit (3::stm_word) n)"
      using that by (metis bit_and_iff bit_0_eq bot_apply bot_bool_def)
    then have "\<not> (bit a n \<and> (bit (1::stm_word) n \<or> bit (2::stm_word) n))"
      unfolding three bit_or_iff .
    moreover have "bit OWNED_MASK_MOD n = (bit (1::stm_word) n \<or> bit (2::stm_word) n)"
      unfolding OWNED_MASK_MOD_def WRITE_MASK_def READ_MASK_def bit_or_iff ..
    ultimately show "bit (LOCK_GET_ADDR_MOD (LOCK_SET_ADDR_WRITE a)) n = bit a n"
      using n by (auto simp: LOCK_GET_ADDR_MOD_def LOCK_SET_ADDR_WRITE_def WRITE_MASK_def
          bit_or_iff bit_and_iff bit_not_iff_eq)
  qed
qed simp

interpretation wt: lock_layout 4 LOCK_GET_OWNED LOCK_GET_ADDR LOCK_SET_ADDR_WRITE
    LOCK_GET_TIMESTAMP_WT LOCK_SET_TIMESTAMP_WT
proof unfold_locales
  fix t a :: stm_word
  show "LOCK_GET_OWNED (LOCK_SET_TIMESTAMP_WT t) = 0"
    using push_bit_and_mask_0 [of 1 4 t]
    by (simp add: LOCK_GET_OWNED_def LOCK_SET_TIMESTAMP_WT_def mask_defs mask_1)
  show "LOCK_GET_TIMESTAMP_WT (LOCK_SET_TIMESTAMP_WT t) = t" if "unat t < 2 ^ (64 - 4)"
    unfolding LOCK_GET_TIMESTAMP_WT_def LOCK_SET_TIMESTAMP_WT_def
    by (rule drop_bit_push_bit_word) (use that in \<open>simp add: INCARNATION_BITS_def\<close>)
qed (simp_all add: wb.owned_set_addr wb.get_set_addr)


section \<open>Indices and incarnations\<close>

lemma lock_idx_swap_involution: "lock_idx_swap (lock_idx_swap i) = i"
proof (rule bit_word_eqI)
  fix n assume n: "n < LENGTH(32)"
  have ff: "(0xFFFF::32 word) = mask 16" "(0xFF::32 word) = mask 8"
    "(0xFF00::32 word) = push_bit 8 (mask 8)"
    by (simp_all add: mask_eq_exp_minus_1)
  consider "n < 8" | "8 \<le> n" "n < 16" | "16 \<le> n" by linarith
  then show "bit (lock_idx_swap (lock_idx_swap i)) n = bit i n"
    using n by cases (auto simp: lock_idx_swap_def ff bit_simps)
qed

lemma LOCK_IDX_bound: "unat (LOCK_IDX a) < 2 ^ LOCK_ARRAY_LOG_SIZE"
proof -
  have "LOCK_IDX a = drop_bit LOCK_SHIFT a AND mask LOCK_ARRAY_LOG_SIZE"
    by (simp add: LOCK_IDX_def mask_eq_exp_minus_1)
  then have "uint (LOCK_IDX a) < 2 ^ LOCK_ARRAY_LOG_SIZE"
    by (simp add: and_mask_lt_2p)
  then have "int (unat (LOCK_IDX a)) < int (2 ^ LOCK_ARRAY_LOG_SIZE)"
    by simp
  then show ?thesis
    by (simp only: of_nat_less_iff)
qed

text \<open>Raising the incarnation of a write-through lock keeps its timestamp and frees it.\<close>

lemma upd_incarnation:
  assumes "i \<le> INCARNATION_MAX"
  shows "LOCK_GET_INCARNATION (LOCK_UPD_INCARNATION l i) = i"
    and "LOCK_GET_TIMESTAMP_WT (LOCK_UPD_INCARNATION l i) = LOCK_GET_TIMESTAMP_WT l"
    and "LOCK_GET_OWNED (LOCK_UPD_INCARNATION l i) = 0"
proof -
  have im: "INCARNATION_MAX = mask 3" and ms: "INCARNATION_MASK = push_bit 1 (mask 3)"
    and om: "OWNED_MASK = mask 1"
    by (simp_all add: mask_defs mask_eq_exp_minus_1)
  have "unat i < 2 ^ 3"
    using assms by (simp add: word_le_nat_alt mask_defs)
  then have hi: "\<not> bit i k" if "3 \<le> k" for k
    using that by (intro not_bit_unat_less) (meson order_less_le_trans power_increasing one_le_numeral)
  then have lo: "k < 3" if "bit i k" for k
    using that not_le by blast
  note bits = bit_and_iff bit_or_iff bit_not_iff_eq bit_push_bit_iff bit_drop_bit_eq comp_apply
    bit_mask_iff possible_bit_word
  show "LOCK_GET_INCARNATION (LOCK_UPD_INCARNATION l i) = i"
    unfolding LOCK_GET_INCARNATION_def LOCK_UPD_INCARNATION_def LOCK_SET_INCARNATION_def ms om
    by (rule bit_word_eqI, unfold bits) (auto dest: lo)
  show "LOCK_GET_TIMESTAMP_WT (LOCK_UPD_INCARNATION l i) = LOCK_GET_TIMESTAMP_WT l"
    unfolding LOCK_GET_TIMESTAMP_WT_def LOCK_UPD_INCARNATION_def LOCK_SET_INCARNATION_def ms om
      INCARNATION_BITS_def
    by (rule bit_word_eqI, unfold bits) (auto simp: hi dest: bit_imp_le_length)
  show "LOCK_GET_OWNED (LOCK_UPD_INCARNATION l i) = 0"
    unfolding LOCK_GET_OWNED_def LOCK_UPD_INCARNATION_def LOCK_SET_INCARNATION_def om
    by (rule bit_word_eqI, unfold bits) auto
qed

section \<open>Lock words as a tagged union\<close>

text \<open>
  The three uses of a lock word under commit-time locking: a version number, the address of the
  entry of a committing transaction's write set, and the mark \<^verbatim>\<open>LOCK_UNIT\<close> of a unit store.
  \<open>ws t\<close> is the address of \<^verbatim>\<open>w_set.entries\<close> of thread \<open>t\<close>, whose entries take 64 bytes each
  (\<^verbatim>\<open>w_entry_t\<close> is padded to a cache line).
\<close>

datatype lock = Version nat | Owned tid nat | LockUnit

definition enc_lock :: "(tid \<Rightarrow> addr) \<Rightarrow> lock \<Rightarrow> stm_word" where
  "enc_lock ws lk = (case lk of
     Version n \<Rightarrow> LOCK_SET_TIMESTAMP (of_nat n)
   | Owned t i \<Rightarrow> LOCK_SET_ADDR_WRITE (ws t + 64 * of_nat i)
   | LockUnit \<Rightarrow> LOCK_UNIT)"

text \<open>
  The test \<^verbatim>\<open>tx->w_set.entries <= w && w < tx->w_set.entries + tx->w_set.nb_entries\<close>.
\<close>

definition points_into :: "addr \<Rightarrow> nat \<Rightarrow> stm_word \<Rightarrow> bool" where
  "points_into entries nb_entries l \<longleftrightarrow>
     entries \<le> LOCK_GET_ADDR l \<and> LOCK_GET_ADDR l < entries + 64 * of_nat nb_entries"

text \<open>
  What the allocator guarantees of the write sets: aligned, disjoint, and not reaching the last
  word of the address space. \<open>cap\<close> is \<^verbatim>\<open>w_set.size\<close>.
\<close>

definition ws_layout :: "(tid \<Rightarrow> addr) \<Rightarrow> (tid \<Rightarrow> nat) \<Rightarrow> bool" where
  "ws_layout ws cap \<longleftrightarrow>
     (\<forall>t. ws t AND 3 = 0 \<and> unat (ws t) + 64 * cap t < 2 ^ 64 - 2) \<and>
     (\<forall>t u. t \<noteq> u \<longrightarrow> unat (ws t) + 64 * cap t \<le> unat (ws u) \<or>
                     unat (ws u) + 64 * cap u \<le> unat (ws t))"

definition lock_ok :: "(tid \<Rightarrow> nat) \<Rightarrow> lock \<Rightarrow> bool" where
  "lock_ok cap lk = (case lk of
     Version n \<Rightarrow> n \<le> unat (VERSION_MAX 1) + MAX_THREADS
   | Owned t i \<Rightarrow> i < cap t
   | LockUnit \<Rightarrow> True)"

lemma entry_addr:
  assumes "ws_layout ws cap" "i \<le> cap t"
  shows "unat (ws t + 64 * of_nat i) = unat (ws t) + 64 * i"
    and "(ws t + 64 * of_nat i) AND 3 = 0"
proof -
  have "64 * i \<le> 64 * cap t" "unat (ws t) + 64 * cap t < 2 ^ 64 - 2"
    using assms by (simp_all add: ws_layout_def)
  then have lt: "unat (ws t) + 64 * i < 2 ^ LENGTH(64)"
    by simp
  have "ws t + 64 * of_nat i = of_nat (unat (ws t) + 64 * i)"
    by simp
  then show u: "unat (ws t + 64 * of_nat i) = unat (ws t) + 64 * i"
    using lt by (metis of_nat_inverse)
  have m3: "(3::stm_word) = mask 2"
    by (simp add: mask_eq_exp_minus_1)
  have "ws t AND mask 2 = 0"
    using assms unfolding ws_layout_def m3 by blast
  then have "2 ^ 2 dvd unat (ws t)"
    by (simp only: and_mask_dvd_nat)
  then have "2 ^ 2 dvd unat (ws t) + 64 * i"
    by (intro dvd_add) (auto intro!: dvd_mult2)
  then show "(ws t + 64 * of_nat i) AND 3 = 0"
    unfolding m3 using u by (metis and_mask_dvd_nat)
qed

lemma LOCK_UNIT_pointer: "LOCK_UNIT = LOCK_SET_ADDR_WRITE (NOT 1)" "LOCK_GET_ADDR LOCK_UNIT = NOT 1"
  by (simp_all add: LOCK_UNIT_def LOCK_SET_ADDR_WRITE_def LOCK_GET_ADDR_def mask_defs)

text \<open>The test \<^verbatim>\<open>LOCK_GET_OWNED(l)\<close> separates version numbers from the two kinds of ownership.\<close>

lemma owned_enc:
  "LOCK_GET_OWNED (enc_lock ws lk) \<noteq> 0 \<longleftrightarrow> (\<forall>n. lk \<noteq> Version n)"
  by (cases lk) (simp_all add: enc_lock_def wb.owned_set_ts wb.owned_set_addr LOCK_UNIT_pointer)

text \<open>The version number is read back as it was written.\<close>

lemma get_timestamp_enc:
  assumes "lock_ok cap (Version n)"
  shows "unat (LOCK_GET_TIMESTAMP (enc_lock ws (Version n))) = n"
proof -
  have n: "n \<le> unat (VERSION_MAX 1) + MAX_THREADS"
    using assms by (simp add: lock_ok_def)
  moreover have "(2::nat) ^ (64 - 1) - 1 < 2 ^ LENGTH(64)"
    by simp
  ultimately have "unat (of_nat n :: stm_word) = n"
    unfolding wb.unat_version_max by (intro of_nat_inverse [OF refl]) (rule le_less_trans)
  then show ?thesis
    using wb.clock_survives [OF n] by (simp add: enc_lock_def)
qed

lemma get_addr_enc:
  assumes "ws_layout ws cap" "lock_ok cap lk" "\<forall>n. lk \<noteq> Version n"
  shows "unat (LOCK_GET_ADDR (enc_lock ws lk)) = (case lk of
           Owned t i \<Rightarrow> unat (ws t) + 64 * i | _ \<Rightarrow> 2 ^ 64 - 2)"
proof (cases lk)
  case (Owned t i)
  with assms have "i \<le> cap t" by (simp add: lock_ok_def)
  from entry_addr [OF assms(1) this] Owned show ?thesis
    by (simp add: enc_lock_def wb.get_set_addr)
qed (use assms in \<open>simp_all add: enc_lock_def LOCK_UNIT_pointer(2)\<close>)

text \<open>
  The range test the code uses to recognise its own lock succeeds exactly when the lock is held
  by this thread, through an entry in use.
\<close>

lemma points_into_enc:
  assumes lay: "ws_layout ws cap" and ok: "lock_ok cap lk" and own: "\<forall>n. lk \<noteq> Version n"
    and nb: "nb \<le> cap me"
  shows "points_into (ws me) nb (enc_lock ws lk) \<longleftrightarrow> (\<exists>i<nb. lk = Owned me i)"
proof -
  have me: "unat (ws me) + 64 * cap me < 2 ^ 64 - 2"
    using lay by (simp add: ws_layout_def)
  have test: "points_into (ws me) nb (enc_lock ws lk) \<longleftrightarrow>
      unat (ws me) \<le> unat (LOCK_GET_ADDR (enc_lock ws lk)) \<and>
      unat (LOCK_GET_ADDR (enc_lock ws lk)) < unat (ws me) + 64 * nb"
    using entry_addr(1) [OF lay nb] by (simp add: points_into_def word_le_nat_alt word_less_nat_alt)
  show ?thesis
  proof (cases lk)
    case (Version n)
    with own show ?thesis by simp
  next
    case (Owned t i)
    with ok have "i < cap t" by (simp add: lock_ok_def)
    then have "t = me" if "unat (ws me) \<le> unat (ws t) + 64 * i"
        "unat (ws t) + 64 * i < unat (ws me) + 64 * nb"
      using that lay nb unfolding ws_layout_def by (smt (verit) add_less_cancel_left mult_le_mono2
          nat_mult_less_cancel_disj not_less order_le_less_trans trans_le_add1 add_le_cancel_left
          le_trans zero_less_numeral)
    with Owned show ?thesis
      unfolding test get_addr_enc [OF lay ok own] by auto
  next
    case LockUnit
    with nb me show ?thesis
      unfolding test get_addr_enc [OF lay ok own] by simp
  qed
qed

text \<open>
  Distinct lock states have distinct words, so that the comparisons \<^verbatim>\<open>l != l2\<close> and the
  compare-and-swap of the code decide equality of the union.
\<close>

lemma enc_lock_inject:
  assumes lay: "ws_layout ws cap" and ok: "lock_ok cap k" "lock_ok cap l"
  shows "enc_lock ws k = enc_lock ws l \<longleftrightarrow> k = l"
proof
  assume eq: "enc_lock ws k = enc_lock ws l"
  show "k = l"
  proof (cases "\<forall>n. k \<noteq> Version n")
    case True
    with eq owned_enc have l: "\<forall>n. l \<noteq> Version n" by metis
    have "(case k of Owned t i \<Rightarrow> unat (ws t) + 64 * i | _ \<Rightarrow> 2 ^ 64 - 2) =
        (case l of Owned t i \<Rightarrow> unat (ws t) + 64 * i | _ \<Rightarrow> 2 ^ 64 - 2)"
      using get_addr_enc [OF lay ok(1) True] get_addr_enc [OF lay ok(2) l] eq by simp
    moreover have "(\<exists>i<cap me. k = Owned me i) \<longleftrightarrow> (\<exists>i<cap me. l = Owned me i)" for me
      using points_into_enc [OF lay ok(1) True order_refl]
        points_into_enc [OF lay ok(2) l order_refl] eq by simp
    ultimately have addrs: "(case k of Owned t i \<Rightarrow> unat (ws t) + 64 * i | _ \<Rightarrow> 2 ^ 64 - 2) =
        (case l of Owned t i \<Rightarrow> unat (ws t) + 64 * i | _ \<Rightarrow> 2 ^ 64 - 2)"
      and same: "\<And>me. (\<exists>i<cap me. k = Owned me i) \<longleftrightarrow> (\<exists>i<cap me. l = Owned me i)"
      by blast+
    show ?thesis
    proof (cases k)
      case (Owned t i)
      with ok same [of t] obtain j where "l = Owned t j" by (auto simp: lock_ok_def)
      with Owned addrs show ?thesis by simp
    next
      case LockUnit
      with l ok same show ?thesis by (cases l) (auto simp: lock_ok_def)
    qed (use True in simp)
  next
    case False
    then obtain n where k: "k = Version n" by blast
    with eq owned_enc obtain m where l: "l = Version m" by metis
    have lt: "n < 2 ^ 63" "m < 2 ^ 63"
      using ok k l wb.unat_version_max by (simp_all add: lock_ok_def)
    then have "(of_nat n :: stm_word) = of_nat m"
      using eq k l ok by (metis enc_lock_def lock.case(1) wb.clock_survives lock_ok_def)
    then have "unat (of_nat n :: stm_word) = unat (of_nat m :: stm_word)"
      by simp
    moreover have "unat (of_nat n :: stm_word) = n" "unat (of_nat m :: stm_word) = m"
      using lt by (intro of_nat_inverse; simp)+
    ultimately show ?thesis
      using k l by simp
  qed
qed simp

end
