(* ===== verification/Tick.thy ===== *)
theory Tick
  imports Stm_Prelude
begin

text \<open>
  The extra-tick delivery decision: the control buffer that a thread shares with the kernel
  (\<^verbatim>\<open>timestretch/lib/controlbuffer.h\<close>) and the part of the timer interrupt handler
  \<^verbatim>\<open>my_smp_apic_timer_interrupt\<close> (\<^verbatim>\<open>timestretch/module/timestretch.c\<close>) that reads and writes it.
  \<open>tick_handler\<close> returns the updated buffer and whether the interrupted thread is diverted to
  its callback.

  The C flags are \<^verbatim>\<open>unsigned short\<close> variables that only ever hold 0 or 1: they are booleans
  here. \<^verbatim>\<open>no_val_cost\<close>, a \<^verbatim>\<open>double\<close> the handler only ever clears, is kept as its bit pattern.
\<close>

section \<open>The control buffer\<close>

datatype delivery_mode = MODE_STUBBORN | MODE_STUBBORN_HEURISTIC | MODE_QUIESCENT_HEURISTIC
  | MODE_QUIESCENT_MODEL

record control_buffer =
  tx_on :: bool
  standing :: bool
  recently_validated :: bool
  opt_clock :: "64 word"
  ticks :: "64 word"
  ticks_standing :: "64 word"
  ticks_delivered :: "64 word"
  sec_addr_defined :: bool
  sec_start_addr :: "64 word"
  sec_end_addr :: "64 word"
  no_val_cost :: "64 word"
  val_clock :: "64 word"
  et_clocks :: "64 word"
  mode :: delivery_mode

section \<open>The handler\<close>

definition in_section :: "control_buffer \<Rightarrow> 64 word \<Rightarrow> bool" where
  "in_section cb ip \<longleftrightarrow> \<not> (ip < sec_start_addr cb \<or> ip \<ge> sec_end_addr cb)"

definition count_tick :: "control_buffer \<Rightarrow> control_buffer" where
  "count_tick cb = cb\<lparr>ticks := ticks cb + 1\<rparr>"

text \<open>
  The branch of \<^verbatim>\<open>MODE_STUBBORN\<close> and \<^verbatim>\<open>MODE_QUIESCENT_HEURISTIC\<close>. \<open>gvc\<close> is the global version
  clock and \<open>ts_end\<close> the thread's \<^verbatim>\<open>tx->end\<close>, both read through the pointers in the buffer;
  \<open>now\<close> is the cycle counter and \<open>half\<close> half the stretched tick period.
\<close>

definition stubborn_tick ::
  "nat \<Rightarrow> nat \<Rightarrow> 64 word \<Rightarrow> 64 word \<Rightarrow> 64 word \<Rightarrow> control_buffer \<Rightarrow> control_buffer \<times> bool" where
  "stubborn_tick gvc ts_end now half ip cb =
    (if \<not> tx_on cb then (cb, False)
     else if recently_validated cb then (count_tick (cb\<lparr>recently_validated := False\<rparr>), False)
     else let ts_end = (if mode cb = MODE_STUBBORN_HEURISTIC then drop_bit 31 ts_end else ts_end) in
     if \<not> ts_end < gvc then (count_tick cb, False)
     else if mode cb = MODE_QUIESCENT_HEURISTIC \<and> opt_clock cb = 0 then (count_tick cb, False)
     else if mode cb = MODE_QUIESCENT_HEURISTIC \<and>
             (now < opt_clock cb - half \<or> now \<ge> opt_clock cb + half) then (count_tick cb, False)
     else if sec_addr_defined cb then
       (if sec_start_addr cb \<ge> sec_end_addr cb then (count_tick cb, False)
        else if \<not> in_section cb ip then
          (count_tick (if standing cb then cb
             else cb\<lparr>standing := True, ticks_standing := ticks_standing cb + 1\<rparr>), False)
        else (cb\<lparr>ticks_delivered := ticks_delivered cb + 1\<rparr>, True))
     else (count_tick (cb\<lparr>standing := True, ticks_standing := ticks_standing cb + 1\<rparr>), False))"

text \<open>
  The branch of the two other modes. The handler works on a copy of the buffer and writes back the
  fields from \<^verbatim>\<open>ticks\<close> up to \<^verbatim>\<open>mode\<close>; \<^verbatim>\<open>opt_clock\<close>, which it also clears in its copy, lies
  before them and keeps its value.
\<close>

definition model_tick ::
  "64 word \<Rightarrow> 64 word \<Rightarrow> 64 word \<Rightarrow> control_buffer \<Rightarrow> control_buffer \<times> bool" where
  "model_tick now half ip cb =
    (if \<not> tx_on cb then (cb, False)
     else if sec_addr_defined cb then
       (if sec_start_addr cb \<ge> sec_end_addr cb then (count_tick cb, False)
        else if \<not> in_section cb ip then (count_tick cb, False)
        else if now \<ge> opt_clock cb - half \<and> now < opt_clock cb + half then
          (cb\<lparr>ticks := ticks cb + 1, ticks_delivered := ticks_delivered cb + 1,
              no_val_cost := 0, val_clock := 0\<rparr>, True)
        else (count_tick cb, False))
     else (count_tick cb, False))"

definition tick_handler ::
  "64 word \<Rightarrow> nat \<Rightarrow> nat \<Rightarrow> 64 word \<Rightarrow> 64 word \<Rightarrow> 64 word \<Rightarrow> control_buffer
     \<Rightarrow> control_buffer \<times> bool" where
  "tick_handler callback gvc ts_end now half ip cb =
    (if ip = callback then (cb, False)
     else if mode cb = MODE_STUBBORN \<or> mode cb = MODE_QUIESCENT_HEURISTIC
     then stubborn_tick gvc ts_end now half ip cb
     else model_tick now half ip cb)"

section \<open>When a tick is delivered\<close>

lemmas tick_defs = tick_handler_def stubborn_tick_def model_tick_def count_tick_def Let_def

lemma tick_handler_frame [frame_simps]:
  assumes "tick_handler callback gvc ts_end now half ip cb = (cb', d)"
  shows "tx_on cb' = tx_on cb" "mode cb' = mode cb"
    "sec_addr_defined cb' = sec_addr_defined cb"
    "sec_start_addr cb' = sec_start_addr cb" "sec_end_addr cb' = sec_end_addr cb"
  using assms by (auto simp: tick_defs split: if_splits)

lemma tick_delivered_in_tx:
  "tick_handler callback gvc ts_end now half ip cb = (cb', True) \<Longrightarrow>
     tx_on cb \<and> in_section cb ip"
  by (auto simp: tick_defs split: if_splits)

text \<open>The handler never moves the optimal delivery time of the thread.\<close>

lemma tick_keeps_opt_clock:
  "opt_clock (fst (tick_handler callback gvc ts_end now half ip cb)) = opt_clock cb"
  by (simp add: tick_defs)

lemma tick_delivered_keeps_standing:
  "tick_handler callback gvc ts_end now half ip cb = (cb', True) \<Longrightarrow> standing cb' = standing cb"
  by (auto simp: tick_defs split: if_splits)

end
