(* ===== verification/Stm_Types.thy ===== *)
theory Stm_Types
  imports Lock_Word Tick
begin

text \<open>
  The data of \<^verbatim>\<open>tinySTM/include/stm.h\<close> for the default build (write-back, commit-time locking,
  the \<^verbatim>\<open>SUICIDE\<close> contention manager, internal statistics): read and write sets, the transaction
  descriptor \<open>stm_tx\<close>, the shared memory of the protocol, and the control state of a thread.

  A thread is always at a program counter \<open>pc\<close>. \<open>App\<close> means that it runs application code; every
  other value names a point of \<^verbatim>\<open>stm.c\<close> at which the thread is about to make one access to shared
  memory (a lock, a data word or the clock), together with the local variables that are live
  there. The calls that can be suspended (\<^verbatim>\<open>stm_extend\<close>, \<^verbatim>\<open>stm_rollback\<close>, \<^verbatim>\<open>stm_prepare\<close>) carry
  the place they return to in \<open>ext_ctx\<close>, \<open>rb_ctx\<close> and \<open>prep_ctx\<close>.

  \<^verbatim>\<open>nb_entries\<close> of a set is the length of its list. The sizes of the arrays are natural numbers: the code
  doubles an \<^verbatim>\<open>int\<close> and ends the process when \<^verbatim>\<open>realloc\<close> fails, which is not modelled. Timestamps are natural numbers; they are the
  word-sized values of the code as long as the clock stays below \<^verbatim>\<open>VERSION_MAX\<close> plus
  \<^verbatim>\<open>MAX_THREADS\<close> (\<open>Lock_Word\<close>).
\<close>

section \<open>Configuration\<close>

text \<open>
  The build options of the early-abort extension, and the values found in memory that the code
  leaves uninitialised (the fields \<^verbatim>\<open>version\<close> and \<^verbatim>\<open>value\<close> of a fresh write-set entry).
\<close>

record config =
  ea_extratick :: bool
  ea_simulate_abort :: bool
  ea_simulate_et_user :: bool
  ea_simulate_et_kernel :: bool
  uninit_version :: nat
  uninit_value :: stm_word

definition version_max :: nat where
  "version_max = unat (VERSION_MAX 1)"

section \<open>Reasons for aborting\<close>

definition STM_ABORT_EXPLICIT :: nat where "STM_ABORT_EXPLICIT = push_bit 4 1"
definition STM_ABORT_WW_CONFLICT :: nat where "STM_ABORT_WW_CONFLICT = push_bit 5 1 OR push_bit 8 4"
definition STM_ABORT_VAL_READ :: nat where "STM_ABORT_VAL_READ = push_bit 5 1 OR push_bit 8 5"
definition STM_ABORT_VAL_WRITE :: nat where "STM_ABORT_VAL_WRITE = push_bit 5 1 OR push_bit 8 6"
definition STM_ABORT_VALIDATE :: nat where "STM_ABORT_VALIDATE = push_bit 5 1 OR push_bit 8 7"
definition STM_ABORT_RO_WRITE :: nat where "STM_ABORT_RO_WRITE = push_bit 5 1 OR push_bit 8 8"
definition STM_ABORT_EARLY :: nat where "STM_ABORT_EARLY = push_bit 5 1 OR push_bit 8 31"

section \<open>Transaction descriptors\<close>

datatype tx_status = TX_IDLE | TX_ACTIVE | TX_COMMITTED | TX_ABORTED

definition IS_ACTIVE :: "tx_status \<Rightarrow> bool" where
  "IS_ACTIVE s \<longleftrightarrow> s = TX_ACTIVE"

record tx_attr =
  attr_id :: int
  read_only :: bool
  no_retry :: bool

record r_entry =
  r_version :: nat
  r_lock :: lock_idx

record w_entry =
  w_addr :: addr
  w_value :: stm_word
  w_mask :: stm_word
  w_version :: nat
  w_lock :: lock_idx
  w_no_drop :: bool

record stm_stats =
  retries :: nat
  aborts :: nat
  aborts_1 :: nat
  aborts_2 :: nat
  aborts_ro :: nat
  aborts_locked_write :: nat
  aborts_validate_read :: nat
  aborts_validate_write :: nat
  aborts_validate_commit :: nat
  aborts_early :: nat
  max_retries :: nat

record stm_tx =
  attr :: "tx_attr option"
  status :: tx_status
  tx_start :: nat
  tx_end :: nat
  r_set :: "r_entry list"
  r_size :: nat
  w_set :: "w_entry list"
  w_size :: nat
  nb_acquired :: nat
  ro :: bool
  can_extend :: bool
  nesting :: int
  ea_aborted :: bool
  stats :: stm_stats

section \<open>Shared memory\<close>

record shared =
  mem :: "addr \<Rightarrow> stm_word"
  locks :: "lock_idx \<Rightarrow> lock"
  clock :: nat

definition GET_LOCK :: "addr \<Rightarrow> lock_idx" where
  "GET_LOCK a = LOCK_IDX a"

section \<open>Control state\<close>

datatype ext_ctx =
    ExtRead addr nat stm_word
  | ExtStandLoad stm_word
  | ExtStandStore
  | ExtTick

datatype rb_ctx = RbLoad | RbStore | RbCommit | RbAbort
  | RbStandLoad stm_word | RbStandStore | RbTick

datatype prep_ctx = PrepStart | PrepRollback rb_ctx nat | PrepUnit

datatype pc =
    App
  | R_lock addr | R_val addr nat | R_lock2 addr nat stm_word | R_lock3 addr nat stm_word
  | LoadEnd stm_word
  | E_clock ext_ctx | E_val ext_ctx nat nat
  | W_lock addr stm_word stm_word | WriteEnd
  | C_load nat | C_cas nat nat | C_inc | C_val nat nat
  | C_wb nat nat | C_wst nat nat stm_word | C_rel nat nat | C_end
  | B_rel nat rb_ctx nat | B_end rb_ctx nat
  | P_clock prep_ctx | P_barrier prep_ctx
  | UL_lock addr | UL_val addr nat | UL_lock2 addr nat stm_word
  | UW_lock addr stm_word "nat option" | UW_cas addr stm_word "nat option" nat
  | UW_store addr stm_word "nat option" | UW_inc addr stm_word "nat option"
  | UW_rel addr nat "nat option"

datatype result = RNone | RStart bool | RLoad stm_word | RStore | RCommit bool | RAbort
  | RJmp nat | RUnitLoad stm_word nat | RUnitStore bool "nat option" | RSetExtension

datatype cb_event = CbStart | CbCommit | CbAbort

record thread =
  desc :: stm_tx
  cbuf :: control_buffer
  pc :: pc
  res :: result
  cbs :: "cb_event list"

record state =
  sh :: shared
  thr :: "tid \<Rightarrow> thread"

datatype op =
    OpStart "tx_attr option"
  | OpLoad addr
  | OpStore addr stm_word
  | OpStore2 addr stm_word stm_word
  | OpCommit
  | OpAbort nat
  | OpSetExtension bool "nat option"
  | OpUnitLoad addr
  | OpUnitStore addr stm_word "nat option"
  | OpUnitStore2 addr stm_word stm_word "nat option"

section \<open>Searching the sets\<close>

definition stm_has_read :: "stm_tx \<Rightarrow> lock_idx \<Rightarrow> r_entry option" where
  "stm_has_read tx l = List.find (\<lambda>r. r_lock r = l) (r_set tx)"

definition stm_has_written :: "stm_tx \<Rightarrow> addr \<Rightarrow> w_entry option" where
  "stm_has_written tx a = List.find (\<lambda>w. w_addr w = a) (w_set tx)"

text \<open>Growing the arrays: \<^verbatim>\<open>stm_allocate_rs_entries\<close> and \<^verbatim>\<open>stm_allocate_ws_entries\<close> double them.\<close>

definition stm_allocate_rs_entries :: "stm_tx \<Rightarrow> stm_tx" where
  "stm_allocate_rs_entries tx = tx\<lparr>r_size := r_size tx * 2\<rparr>"

definition stm_allocate_ws_entries :: "stm_tx \<Rightarrow> stm_tx" where
  "stm_allocate_ws_entries tx = tx\<lparr>w_size := w_size tx * 2\<rparr>"

end
