(* ===== verification/Stm_Steps.thy ===== *)
theory Stm_Steps
  imports Stm_Types
begin

text \<open>
  The operations of \<^verbatim>\<open>tinySTM/src/stm.c\<close> as atomic steps. A function that makes no access to
  shared memory before its next suspension point is a function on the thread; a step that makes
  one access takes the shared state too and returns both. \<open>run\<close> executes the step at the
  thread's program counter, \<open>call\<close> enters an operation of the interface, \<open>stm_tick\<close> is a timer
  interrupt, and the relation \<open>stm_step\<close> interleaves the threads.

  The steps follow the control flow of the C functions: a \<^verbatim>\<open>goto restart\<close> is a program counter
  that does not move, \<^verbatim>\<open>siglongjmp\<close> is the result \<open>RJmp\<close> with the thread back in application
  code. Interleaving is at the granularity of single accesses to locks, data words and the clock,
  in sequentially consistent order.
\<close>

section \<open>Rolling back and preparing\<close>

definition leave_stand :: "config \<Rightarrow> thread \<Rightarrow> thread" where
  "leave_stand c th = (if ea_simulate_et_kernel c then th
     else th\<lparr>cbuf := (cbuf th)\<lparr>tx_on := True\<rparr>\<rparr>)"

text \<open>What follows a return from \<^verbatim>\<open>stm_rollback\<close> at each of its call sites.\<close>

definition rb_return :: "config \<Rightarrow> rb_ctx \<Rightarrow> thread \<Rightarrow> thread" where
  "rb_return c ctx th = (case ctx of
     RbLoad \<Rightarrow> th\<lparr>pc := LoadEnd 0\<rparr>
   | RbStore \<Rightarrow> th\<lparr>pc := App, res := RStore\<rparr>
   | RbCommit \<Rightarrow> th\<lparr>pc := App, res := RCommit False\<rparr>
   | RbAbort \<Rightarrow> th\<lparr>pc := App, res := RAbort\<rparr>
   | RbStandLoad v \<Rightarrow> leave_stand c (th\<lparr>pc := App, res := RLoad v\<rparr>)
   | RbStandStore \<Rightarrow> leave_stand c (th\<lparr>pc := App, res := RStore\<rparr>)
   | RbTick \<Rightarrow> th\<lparr>cbuf := (cbuf th)\<lparr>tx_on := True\<rparr>, pc := App\<rparr>)"

text \<open>The beginning of \<^verbatim>\<open>stm_rollback\<close>, up to its first access to a lock.\<close>

definition stm_rollback :: "config \<Rightarrow> rb_ctx \<Rightarrow> nat \<Rightarrow> thread \<Rightarrow> thread" where
  "stm_rollback c ctx reason th =
    (if ea_extratick c \<and> ea_simulate_abort c \<and> \<not> tx_on (cbuf th) then
       rb_return c ctx (th\<lparr>desc := (desc th)\<lparr>ea_aborted := True\<rparr>,
                           cbuf := (cbuf th)\<lparr>standing := False\<rparr>\<rparr>)
     else if nb_acquired (desc th) > 0 then
       th\<lparr>pc := B_rel (length (w_set (desc th)) - 1) ctx reason\<rparr>
     else th\<lparr>pc := B_end ctx reason\<rparr>)"

text \<open>One turn of the loop that drops the locks acquired by a failed commit.\<close>

definition rollback_drop :: "nat \<Rightarrow> rb_ctx \<Rightarrow> nat \<Rightarrow> shared \<times> thread \<Rightarrow> shared \<times> thread" where
  "rollback_drop i ctx reason = (\<lambda>(s, th).
     let w = w_set (desc th) ! i in
     if \<not> w_no_drop w then
       (s\<lparr>locks := (locks s)(w_lock w := Version (w_version w))\<rparr>,
        th\<lparr>desc := (desc th)\<lparr>nb_acquired := nb_acquired (desc th) - 1\<rparr>,
           pc := (if nb_acquired (desc th) - 1 = 0 then B_end ctx reason
                  else B_rel (i - 1) ctx reason)\<rparr>)
     else (s, th\<lparr>pc := B_rel (i - 1) ctx reason\<rparr>))"

definition rollback_stats :: "config \<Rightarrow> nat \<Rightarrow> stm_stats \<Rightarrow> stm_stats" where
  "rollback_stats c reason st =
    (let n = retries st + 1 in
     st\<lparr>retries := n,
        aborts := aborts st + 1,
        aborts_1 := (if n = 1 then aborts_1 st + 1 else aborts_1 st),
        aborts_2 := (if n = 2 then aborts_2 st + 1 else aborts_2 st),
        max_retries := (if max_retries st < n then n else max_retries st),
        aborts_early := (if ea_extratick c \<and> reason = STM_ABORT_EARLY OR STM_ABORT_EXPLICIT
                         then aborts_early st + 1 else aborts_early st)\<rparr>)"

text \<open>Statistics, callbacks and status after the locks have been dropped.\<close>

definition rollback_end :: "config \<Rightarrow> rb_ctx \<Rightarrow> nat \<Rightarrow> thread \<Rightarrow> thread" where
  "rollback_end c ctx reason th =
     th\<lparr>desc := (desc th)\<lparr>stats := rollback_stats c reason (stats (desc th)),
                          status := TX_ABORTED, nesting := 1\<rparr>,
        cbs := cbs th @ [CbAbort],
        pc := P_clock (PrepRollback ctx reason)\<rparr>"

text \<open>The end of \<^verbatim>\<open>stm_rollback\<close>: jump back, or return if the attributes forbid a retry.\<close>

definition rollback_restart :: "config \<Rightarrow> rb_ctx \<Rightarrow> nat \<Rightarrow> thread \<Rightarrow> thread" where
  "rollback_restart c ctx reason th =
    (if (case attr (desc th) of None \<Rightarrow> True | Some at \<Rightarrow> \<not> no_retry at) then
       th\<lparr>cbuf := (if ea_extratick c then
                     (cbuf th)\<lparr>standing := False,
                               tx_on := (tx_on (cbuf th) \<or> \<not> ea_simulate_et_kernel c)\<rparr>
                   else cbuf th),
          pc := App, res := RJmp reason\<rparr>
     else
       rb_return c ctx
        (th\<lparr>desc := (desc th)\<lparr>nesting := 0\<rparr>,
            cbuf := (if ea_extratick c then (cbuf th)\<lparr>standing := False, tx_on := False\<rparr>
                     else cbuf th)\<rparr>))"

text \<open>\<^verbatim>\<open>stm_prepare\<close> after the clock has been read and found below \<^verbatim>\<open>VERSION_MAX\<close>.\<close>

definition prepare_reset :: "config \<Rightarrow> thread \<Rightarrow> thread" where
  "prepare_reset c th =
     th\<lparr>desc := (desc th)\<lparr>nb_acquired := 0, w_set := [], r_set := [], status := TX_ACTIVE,
                          ea_aborted := (if ea_extratick c \<and> ea_simulate_abort c then False
                                         else ea_aborted (desc th))\<rparr>,
        cbuf := (if ea_extratick c then
                   (cbuf th)\<lparr>standing := False, recently_validated := False\<rparr> else cbuf th)\<rparr>"

definition prepare_return :: "config \<Rightarrow> prep_ctx \<Rightarrow> thread \<Rightarrow> thread" where
  "prepare_return c ctx th = (case ctx of
     PrepStart \<Rightarrow> th\<lparr>cbs := cbs th @ [CbStart], pc := App, res := RStart True\<rparr>
   | PrepRollback rctx reason \<Rightarrow> rollback_restart c rctx reason th
   | PrepUnit \<Rightarrow> th\<lparr>pc := App\<rparr>)"

definition stm_prepare :: "config \<Rightarrow> prep_ctx \<Rightarrow> shared \<times> thread \<Rightarrow> shared \<times> thread" where
  "stm_prepare c ctx = (\<lambda>(s, th).
     let th = th\<lparr>desc := (desc th)\<lparr>tx_start := clock s, tx_end := clock s,
                                   can_extend := True\<rparr>\<rparr> in
     if tx_start (desc th) \<ge> version_max then (s, th\<lparr>pc := P_barrier ctx\<rparr>)
     else (s, prepare_return c ctx (prepare_reset c th)))"

section \<open>Validating and extending\<close>

text \<open>The test made on one entry of the read set.\<close>

definition validate_entry :: "tid \<Rightarrow> shared \<Rightarrow> stm_tx \<Rightarrow> r_entry \<Rightarrow> bool" where
  "validate_entry t s tx r = (case locks s (r_lock r) of
     Version v \<Rightarrow> v = r_version r
   | Owned u k \<Rightarrow> u = t \<and> k < length (w_set tx) \<and> w_version (w_set tx ! k) = r_version r
   | LockUnit \<Rightarrow> False)"

definition extend_ok :: "config \<Rightarrow> ext_ctx \<Rightarrow> thread \<Rightarrow> thread" where
  "extend_ok c ctx th =
    (let th = (if ea_extratick c then th\<lparr>cbuf := (cbuf th)\<lparr>standing := False\<rparr>\<rparr> else th) in
     case ctx of
       ExtRead a v value \<Rightarrow> th\<lparr>pc := R_lock3 a v value\<rparr>
     | ExtStandLoad value \<Rightarrow> leave_stand c (th\<lparr>pc := App, res := RLoad value\<rparr>)
     | ExtStandStore \<Rightarrow> leave_stand c (th\<lparr>pc := App, res := RStore\<rparr>)
     | ExtTick \<Rightarrow> th\<lparr>cbuf := (cbuf th)\<lparr>tx_on := True\<rparr>, pc := App\<rparr>)"

definition stm_abort :: "config \<Rightarrow> rb_ctx \<Rightarrow> nat \<Rightarrow> thread \<Rightarrow> thread" where
  "stm_abort c ctx reason th = stm_rollback c ctx (reason OR STM_ABORT_EXPLICIT) th"

definition read_abort :: "config \<Rightarrow> thread \<Rightarrow> thread" where
  "read_abort c th = stm_rollback c RbLoad STM_ABORT_VAL_READ
     (th\<lparr>desc := (desc th)\<lparr>stats := (stats (desc th))
        \<lparr>aborts_validate_read := aborts_validate_read (stats (desc th)) + 1\<rparr>\<rparr>\<rparr>)"

definition extend_failed :: "config \<Rightarrow> ext_ctx \<Rightarrow> thread \<Rightarrow> thread" where
  "extend_failed c ctx th = (case ctx of
     ExtRead a v value \<Rightarrow> read_abort c th
   | ExtStandLoad value \<Rightarrow> stm_abort c (RbStandLoad value) STM_ABORT_EARLY th
   | ExtStandStore \<Rightarrow> stm_abort c RbStandStore STM_ABORT_EARLY th
   | ExtTick \<Rightarrow> stm_abort c RbTick STM_ABORT_EARLY th)"

text \<open>The beginning of \<^verbatim>\<open>stm_extend\<close>, up to its reading of the clock.\<close>

definition stm_extend :: "config \<Rightarrow> ext_ctx \<Rightarrow> thread \<Rightarrow> thread" where
  "stm_extend c ctx th =
    (let on = tx_on (cbuf th);
         th' = (if ea_extratick c \<and> on then
                 th\<lparr>cbuf := (cbuf th)\<lparr>recently_validated := True\<rparr>\<rparr> else th) in
     if ea_extratick c \<and> \<not> on \<and> ea_simulate_et_user c then extend_ok c ctx th'
     else if ea_extratick c \<and> ea_simulate_abort c \<and> \<not> on \<and> ea_aborted (desc th)
     then extend_ok c ctx th'
     else th'\<lparr>pc := E_clock ctx\<rparr>)"

definition extend_clock :: "config \<Rightarrow> ext_ctx \<Rightarrow> shared \<times> thread \<Rightarrow> shared \<times> thread" where
  "extend_clock c ctx = (\<lambda>(s, th).
     if clock s \<ge> version_max then (s, extend_failed c ctx th)
     else (s, th\<lparr>pc := E_val ctx (clock s) 0\<rparr>))"

definition extend_validate ::
  "config \<Rightarrow> tid \<Rightarrow> ext_ctx \<Rightarrow> nat \<Rightarrow> nat \<Rightarrow> shared \<times> thread \<Rightarrow> shared \<times> thread" where
  "extend_validate c t ctx now i = (\<lambda>(s, th).
     if i < length (r_set (desc th)) then
       (if validate_entry t s (desc th) (r_set (desc th) ! i)
        then (s, th\<lparr>pc := E_val ctx now (i + 1)\<rparr>)
        else (s, extend_failed c ctx th))
     else (s, extend_ok c ctx (th\<lparr>desc := (desc th)\<lparr>tx_end := now\<rparr>\<rparr>)))"

text \<open>The trampoline \<^verbatim>\<open>stm_revalidate\<close> of \<^verbatim>\<open>stm_et_callback.S\<close>, entered from the timer interrupt.\<close>

definition stm_revalidate :: "config \<Rightarrow> thread \<Rightarrow> thread" where
  "stm_revalidate c th = stm_extend c ExtTick (th\<lparr>cbuf := (cbuf th)\<lparr>tx_on := False\<rparr>\<rparr>)"

text \<open>The standing tick that \<^verbatim>\<open>stm_load\<close> and \<^verbatim>\<open>stm_write\<close> process on their way out.\<close>

definition stand_extend :: "config \<Rightarrow> ext_ctx \<Rightarrow> thread \<Rightarrow> thread" where
  "stand_extend c ctx th = stm_extend c ctx
     (th\<lparr>cbuf := (cbuf th)\<lparr>tx_on := False, recently_validated := True\<rparr>\<rparr>)"

section \<open>Reading\<close>

definition load_enter :: "addr \<Rightarrow> thread \<Rightarrow> thread" where
  "load_enter a th = (case stm_has_written (desc th) a of
     Some w \<Rightarrow> if w_mask w = NOT 0 then th\<lparr>pc := LoadEnd (w_value w)\<rparr> else th\<lparr>pc := R_lock a\<rparr>
   | None \<Rightarrow> th\<lparr>pc := R_lock a\<rparr>)"

text \<open>\<^verbatim>\<open>restart_no_load\<close>: decide on the lock value at hand.\<close>

definition read_restart :: "addr \<Rightarrow> lock \<Rightarrow> thread \<Rightarrow> thread" where
  "read_restart a l th = (case l of
     Version v \<Rightarrow> th\<lparr>pc := R_val a v\<rparr>
   | _ \<Rightarrow> th\<lparr>pc := R_lock a\<rparr>)"

definition read_lock :: "addr \<Rightarrow> shared \<times> thread \<Rightarrow> shared \<times> thread" where
  "read_lock a = (\<lambda>(s, th). (s, read_restart a (locks s (GET_LOCK a)) th))"

definition read_value :: "addr \<Rightarrow> nat \<Rightarrow> shared \<times> thread \<Rightarrow> shared \<times> thread" where
  "read_value a v = (\<lambda>(s, th). (s, th\<lparr>pc := R_lock2 a v (mem s a)\<rparr>))"

definition add_to_read_set :: "nat \<Rightarrow> lock_idx \<Rightarrow> stm_tx \<Rightarrow> stm_tx" where
  "add_to_read_set v l tx =
    (let tx = (if length (r_set tx) = r_size tx then stm_allocate_rs_entries tx else tx) in
     tx\<lparr>r_set := r_set tx @ [\<lparr>r_version = v, r_lock = l\<rparr>]\<rparr>)"

definition merge_written :: "stm_tx \<Rightarrow> addr \<Rightarrow> stm_word \<Rightarrow> stm_word" where
  "merge_written tx a value = (case stm_has_written tx a of
     Some w \<Rightarrow> masked value (w_value w) (w_mask w)
   | None \<Rightarrow> value)"

definition read_done :: "addr \<Rightarrow> nat \<Rightarrow> stm_word \<Rightarrow> thread \<Rightarrow> thread" where
  "read_done a v value th =
     th\<lparr>desc := (if ro (desc th) then desc th else add_to_read_set v (GET_LOCK a) (desc th)),
        pc := LoadEnd (merge_written (desc th) a value)\<rparr>"

definition read_check :: "config \<Rightarrow> addr \<Rightarrow> nat \<Rightarrow> stm_word \<Rightarrow> shared \<times> thread \<Rightarrow> shared \<times> thread" where
  "read_check c a v value = (\<lambda>(s, th).
     if locks s (GET_LOCK a) \<noteq> Version v then (s, read_restart a (locks s (GET_LOCK a)) th)
     else if v > tx_end (desc th) then
       (if ro (desc th) \<or> \<not> can_extend (desc th) then (s, read_abort c th)
        else (s, stm_extend c (ExtRead a v value) th))
     else (s, read_done a v value th))"

text \<open>After an extension the lock is read again; if it has changed, the code goes back with the
  \<^emph>\<open>old\<close> value of the lock.\<close>

definition read_recheck :: "addr \<Rightarrow> nat \<Rightarrow> stm_word \<Rightarrow> shared \<times> thread \<Rightarrow> shared \<times> thread" where
  "read_recheck a v value = (\<lambda>(s, th).
     if locks s (GET_LOCK a) \<noteq> Version v then (s, read_restart a (Version v) th)
     else (s, read_done a v value th))"

definition load_end :: "config \<Rightarrow> stm_word \<Rightarrow> thread \<Rightarrow> thread" where
  "load_end c value th =
    (if ea_extratick c \<and> standing (cbuf th) then stand_extend c (ExtStandLoad value) th
     else th\<lparr>pc := App, res := RLoad value\<rparr>)"

section \<open>Writing\<close>

definition write_enter :: "config \<Rightarrow> addr \<Rightarrow> stm_word \<Rightarrow> stm_word \<Rightarrow> thread \<Rightarrow> thread" where
  "write_enter c a value msk th =
    (if ro (desc th) then
       stm_rollback c RbStore STM_ABORT_RO_WRITE
        (th\<lparr>desc := (desc th)\<lparr>attr := map_option (\<lambda>at. at\<lparr>read_only := False\<rparr>) (attr (desc th)),
            stats := (stats (desc th))\<lparr>aborts_ro := aborts_ro (stats (desc th)) + 1\<rparr>\<rparr>\<rparr>)
     else th\<lparr>pc := W_lock a value msk\<rparr>)"

definition merge_entry :: "stm_word \<Rightarrow> stm_word \<Rightarrow> w_entry \<Rightarrow> w_entry" where
  "merge_entry value msk w =
     w\<lparr>w_value := masked (w_value w) value msk, w_mask := w_mask w OR msk\<rparr>"

text \<open>Update the first entry for the address in place.\<close>

fun update_written :: "addr \<Rightarrow> (w_entry \<Rightarrow> w_entry) \<Rightarrow> w_entry list \<Rightarrow> w_entry list" where
  "update_written a f [] = []"
| "update_written a f (w # ws) = (if w_addr w = a then f w # ws else w # update_written a f ws)"

definition add_to_write_set :: "config \<Rightarrow> addr \<Rightarrow> stm_word \<Rightarrow> stm_word \<Rightarrow> stm_tx \<Rightarrow> stm_tx" where
  "add_to_write_set c a value msk tx =
    (let tx = (if length (w_set tx) = w_size tx then stm_allocate_ws_entries tx else tx) in
     tx\<lparr>w_set := w_set tx @
       [\<lparr>w_addr = a, w_value = (if msk = 0 then uninit_value c else value), w_mask = msk,
         w_version = uninit_version c, w_lock = GET_LOCK a, w_no_drop = True\<rparr>]\<rparr>)"

definition write_abort :: "config \<Rightarrow> thread \<Rightarrow> thread" where
  "write_abort c th = stm_rollback c RbStore STM_ABORT_VAL_WRITE
     (th\<lparr>desc := (desc th)\<lparr>stats := (stats (desc th))
        \<lparr>aborts_validate_write := aborts_validate_write (stats (desc th)) + 1\<rparr>\<rparr>\<rparr>)"

definition write_lock ::
  "config \<Rightarrow> addr \<Rightarrow> stm_word \<Rightarrow> stm_word \<Rightarrow> shared \<times> thread \<Rightarrow> shared \<times> thread" where
  "write_lock c a value msk = (\<lambda>(s, th). case locks s (GET_LOCK a) of
     Version v \<Rightarrow>
       if stm_has_written (desc th) a \<noteq> None then
         (s, th\<lparr>desc := (desc th)\<lparr>w_set := update_written a (merge_entry value msk)
                                              (w_set (desc th))\<rparr>,
                pc := WriteEnd\<rparr>)
       else if v > tx_end (desc th) \<and>
               (\<not> can_extend (desc th) \<or> stm_has_read (desc th) (GET_LOCK a) \<noteq> None) then
         (s, write_abort c th)
       else (s, th\<lparr>desc := add_to_write_set c a value msk (desc th), pc := WriteEnd\<rparr>)
   | _ \<Rightarrow> (s, th))"

definition write_end :: "config \<Rightarrow> thread \<Rightarrow> thread" where
  "write_end c th =
    (if ea_extratick c \<and> standing (cbuf th) then stand_extend c ExtStandStore th
     else th\<lparr>pc := App, res := RStore\<rparr>)"

section \<open>Committing\<close>

definition commit_next :: "nat \<Rightarrow> pc" where
  "commit_next i = (if i = 0 then C_inc else C_load (i - 1))"

definition commit_conflict :: "config \<Rightarrow> thread \<Rightarrow> thread" where
  "commit_conflict c th = stm_rollback c RbCommit STM_ABORT_WW_CONFLICT
     (th\<lparr>desc := (desc th)\<lparr>stats := (stats (desc th))
        \<lparr>aborts_locked_write := aborts_locked_write (stats (desc th)) + 1\<rparr>\<rparr>\<rparr>)"

definition commit_load :: "config \<Rightarrow> tid \<Rightarrow> nat \<Rightarrow> shared \<times> thread \<Rightarrow> shared \<times> thread" where
  "commit_load c t i = (\<lambda>(s, th). case locks s (w_lock (w_set (desc th) ! i)) of
     Version v \<Rightarrow> (s, th\<lparr>pc := C_cas i v\<rparr>)
   | Owned u k \<Rightarrow> if u = t \<and> k < length (w_set (desc th)) then (s, th\<lparr>pc := commit_next i\<rparr>)
                 else (s, commit_conflict c th)
   | LockUnit \<Rightarrow> (s, commit_conflict c th))"

definition commit_cas :: "tid \<Rightarrow> nat \<Rightarrow> nat \<Rightarrow> shared \<times> thread \<Rightarrow> shared \<times> thread" where
  "commit_cas t i v = (\<lambda>(s, th).
     let w = w_set (desc th) ! i in
     if locks s (w_lock w) = Version v then
       (s\<lparr>locks := (locks s)(w_lock w := Owned t i)\<rparr>,
        th\<lparr>desc := (desc th)\<lparr>w_set := (w_set (desc th))[i := w\<lparr>w_no_drop := False, w_version := v\<rparr>],
                             nb_acquired := nb_acquired (desc th) + 1\<rparr>,
           pc := commit_next i\<rparr>)
     else (s, th\<lparr>pc := C_load i\<rparr>))"

definition commit_inc :: "shared \<times> thread \<Rightarrow> shared \<times> thread" where
  "commit_inc = (\<lambda>(s, th).
     let T = clock s + 1 in
     (s\<lparr>clock := T\<rparr>,
      th\<lparr>pc := (if tx_start (desc th) = T - 1 then C_wb T 0 else C_val T 0)\<rparr>))"

definition commit_invalid :: "config \<Rightarrow> thread \<Rightarrow> thread" where
  "commit_invalid c th = stm_rollback c RbCommit STM_ABORT_VALIDATE
     (th\<lparr>desc := (desc th)\<lparr>stats := (stats (desc th))
        \<lparr>aborts_validate_commit := aborts_validate_commit (stats (desc th)) + 1\<rparr>\<rparr>\<rparr>)"

definition commit_validate ::
  "config \<Rightarrow> tid \<Rightarrow> nat \<Rightarrow> nat \<Rightarrow> shared \<times> thread \<Rightarrow> shared \<times> thread" where
  "commit_validate c t T i = (\<lambda>(s, th).
     if i < length (r_set (desc th)) then
       (if validate_entry t s (desc th) (r_set (desc th) ! i)
        then (s, th\<lparr>pc := C_val T (i + 1)\<rparr>)
        else (s, commit_invalid c th))
     else (s, th\<lparr>pc := C_wb T 0\<rparr>))"

definition write_back_next :: "nat \<Rightarrow> nat \<Rightarrow> thread \<Rightarrow> thread" where
  "write_back_next T i th =
     th\<lparr>pc := (if w_no_drop (w_set (desc th) ! i) then C_wb T (i + 1) else C_rel T i)\<rparr>"

definition write_back :: "nat \<Rightarrow> nat \<Rightarrow> shared \<times> thread \<Rightarrow> shared \<times> thread" where
  "write_back T i = (\<lambda>(s, th).
     if i < length (w_set (desc th)) then
       let w = w_set (desc th) ! i in
       if w_mask w = NOT 0 then
         (s\<lparr>mem := (mem s)(w_addr w := w_value w)\<rparr>, write_back_next T i th)
       else if w_mask w \<noteq> 0 then
         (s, th\<lparr>pc := C_wst T i (masked (mem s (w_addr w)) (w_value w) (w_mask w))\<rparr>)
       else (s, write_back_next T i th)
     else (s, th\<lparr>pc := C_end\<rparr>))"

definition write_back_store :: "nat \<Rightarrow> nat \<Rightarrow> stm_word \<Rightarrow> shared \<times> thread \<Rightarrow> shared \<times> thread" where
  "write_back_store T i value = (\<lambda>(s, th).
     (s\<lparr>mem := (mem s)(w_addr (w_set (desc th) ! i) := value)\<rparr>, write_back_next T i th))"

definition commit_release :: "nat \<Rightarrow> nat \<Rightarrow> shared \<times> thread \<Rightarrow> shared \<times> thread" where
  "commit_release T i = (\<lambda>(s, th).
     (s\<lparr>locks := (locks s)(w_lock (w_set (desc th) ! i) := Version T)\<rparr>,
      th\<lparr>pc := C_wb T (i + 1)\<rparr>))"

definition commit_end :: "config \<Rightarrow> thread \<Rightarrow> thread" where
  "commit_end c th =
     th\<lparr>desc := (desc th)\<lparr>stats := (stats (desc th))\<lparr>retries := 0\<rparr>, status := TX_COMMITTED\<rparr>,
        cbs := cbs th @ [CbCommit],
        cbuf := (if ea_extratick c then (cbuf th)\<lparr>tx_on := False\<rparr> else cbuf th),
        pc := App, res := RCommit True\<rparr>"

definition commit_enter :: "thread \<Rightarrow> thread" where
  "commit_enter th =
    (let th = th\<lparr>desc := (desc th)\<lparr>nesting := nesting (desc th) - 1\<rparr>\<rparr> in
     if nesting (desc th) > 0 then th\<lparr>res := RCommit True\<rparr>
     else if w_set (desc th) = [] then th\<lparr>pc := C_end\<rparr>
     else th\<lparr>pc := C_load (length (w_set (desc th)) - 1)\<rparr>)"

section \<open>Unit transactions\<close>

definition unit_load_restart :: "addr \<Rightarrow> lock \<Rightarrow> thread \<Rightarrow> thread" where
  "unit_load_restart a l th = (case l of
     Version v \<Rightarrow> th\<lparr>pc := UL_val a v\<rparr>
   | _ \<Rightarrow> th\<lparr>pc := UL_lock a\<rparr>)"

definition unit_load_lock :: "addr \<Rightarrow> shared \<times> thread \<Rightarrow> shared \<times> thread" where
  "unit_load_lock a = (\<lambda>(s, th). (s, unit_load_restart a (locks s (GET_LOCK a)) th))"

definition unit_load_value :: "addr \<Rightarrow> nat \<Rightarrow> shared \<times> thread \<Rightarrow> shared \<times> thread" where
  "unit_load_value a v = (\<lambda>(s, th). (s, th\<lparr>pc := UL_lock2 a v (mem s a)\<rparr>))"

definition unit_load_check :: "addr \<Rightarrow> nat \<Rightarrow> stm_word \<Rightarrow> shared \<times> thread \<Rightarrow> shared \<times> thread" where
  "unit_load_check a v value = (\<lambda>(s, th).
     if locks s (GET_LOCK a) \<noteq> Version v then (s, unit_load_restart a (locks s (GET_LOCK a)) th)
     else (s, th\<lparr>pc := App, res := RUnitLoad value v\<rparr>))"

definition unit_write_lock ::
  "addr \<Rightarrow> stm_word \<Rightarrow> nat option \<Rightarrow> shared \<times> thread \<Rightarrow> shared \<times> thread" where
  "unit_write_lock a value ts = (\<lambda>(s, th). case locks s (GET_LOCK a) of
     Version v \<Rightarrow> if (case ts of Some n \<Rightarrow> v > n | None \<Rightarrow> False)
                 then (s, th\<lparr>pc := App, res := RUnitStore False (Some v)\<rparr>)
                 else (s, th\<lparr>pc := UW_cas a value ts v\<rparr>)
   | _ \<Rightarrow> (s, th))"

definition unit_write_cas ::
  "addr \<Rightarrow> stm_word \<Rightarrow> nat option \<Rightarrow> nat \<Rightarrow> shared \<times> thread \<Rightarrow> shared \<times> thread" where
  "unit_write_cas a value ts v = (\<lambda>(s, th).
     if locks s (GET_LOCK a) = Version v then
       (s\<lparr>locks := (locks s)(GET_LOCK a := LockUnit)\<rparr>, th\<lparr>pc := UW_store a value ts\<rparr>)
     else (s, th\<lparr>pc := UW_lock a value ts\<rparr>))"

definition unit_write_store ::
  "addr \<Rightarrow> stm_word \<Rightarrow> nat option \<Rightarrow> shared \<times> thread \<Rightarrow> shared \<times> thread" where
  "unit_write_store a value ts = (\<lambda>(s, th).
     (s\<lparr>mem := (mem s)(a := value)\<rparr>, th\<lparr>pc := UW_inc a value ts\<rparr>))"

definition unit_write_inc :: "addr \<Rightarrow> nat option \<Rightarrow> shared \<times> thread \<Rightarrow> shared \<times> thread" where
  "unit_write_inc a ts = (\<lambda>(s, th).
     (s\<lparr>clock := clock s + 1\<rparr>, th\<lparr>pc := UW_rel a (clock s + 1) ts\<rparr>))"

definition unit_write_release ::
  "addr \<Rightarrow> nat \<Rightarrow> nat option \<Rightarrow> shared \<times> thread \<Rightarrow> shared \<times> thread" where
  "unit_write_release a T ts = (\<lambda>(s, th).
     (s\<lparr>locks := (locks s)(GET_LOCK a := Version T)\<rparr>,
      th\<lparr>res := RUnitStore True (map_option (\<lambda>_. T) ts),
         pc := (if T \<ge> version_max then P_barrier PrepUnit else App)\<rparr>))"

section \<open>The operations of the interface\<close>

definition stm_start :: "config \<Rightarrow> tx_attr option \<Rightarrow> thread \<Rightarrow> thread" where
  "stm_start c at th =
    (let th = (if ea_extratick c \<and> \<not> ea_simulate_et_kernel c
               then th\<lparr>cbuf := (cbuf th)\<lparr>tx_on := True\<rparr>\<rparr> else th);
         n = nesting (desc th);
         th = th\<lparr>desc := (desc th)\<lparr>nesting := n + 1\<rparr>\<rparr> in
     if n > 0 then th\<lparr>res := RStart False\<rparr>
     else th\<lparr>desc := (desc th)\<lparr>attr := at,
               ro := (case at of None \<Rightarrow> False | Some x \<Rightarrow> read_only x)\<rparr>,
             pc := P_clock PrepStart\<rparr>)"

definition stm_set_extension :: "bool \<Rightarrow> nat option \<Rightarrow> thread \<Rightarrow> thread" where
  "stm_set_extension enable ts th =
     th\<lparr>desc := (desc th)\<lparr>can_extend := enable,
          tx_end := (case ts of Some n \<Rightarrow> if n < tx_end (desc th) then n else tx_end (desc th)
                     | None \<Rightarrow> tx_end (desc th))\<rparr>,
        res := RSetExtension\<rparr>"

definition call :: "config \<Rightarrow> op \<Rightarrow> thread \<Rightarrow> thread" where
  "call c oper th = (case oper of
     OpStart at \<Rightarrow> stm_start c at th
   | OpLoad a \<Rightarrow> load_enter a th
   | OpStore a v \<Rightarrow> write_enter c a v (NOT 0) th
   | OpStore2 a v m \<Rightarrow> write_enter c a v m th
   | OpCommit \<Rightarrow> commit_enter th
   | OpAbort reason \<Rightarrow> stm_abort c RbAbort reason th
   | OpSetExtension enable ts \<Rightarrow> stm_set_extension enable ts th
   | OpUnitLoad a \<Rightarrow> th\<lparr>pc := UL_lock a\<rparr>
   | OpUnitStore a v ts \<Rightarrow> th\<lparr>pc := UW_lock a v ts\<rparr>
   | OpUnitStore2 a v m ts \<Rightarrow> th\<lparr>pc := UW_lock a v ts\<rparr>)"

text \<open>
  The contract of the interface: transactional accesses inside a transaction, unit transactions
  outside.
\<close>

definition op_ok :: "op \<Rightarrow> thread \<Rightarrow> bool" where
  "op_ok oper th \<longleftrightarrow> (case oper of
     OpStart _ \<Rightarrow> True
   | OpUnitLoad _ \<Rightarrow> nesting (desc th) = 0
   | OpUnitStore _ _ _ \<Rightarrow> nesting (desc th) = 0
   | OpUnitStore2 _ _ _ _ \<Rightarrow> nesting (desc th) = 0
   | _ \<Rightarrow> nesting (desc th) > 0)"

section \<open>One step of a thread\<close>

definition run :: "config \<Rightarrow> tid \<Rightarrow> shared \<times> thread \<Rightarrow> shared \<times> thread" where
  "run c t = (\<lambda>(s, th). case pc th of
     App \<Rightarrow> (s, th)
   | R_lock a \<Rightarrow> read_lock a (s, th)
   | R_val a v \<Rightarrow> read_value a v (s, th)
   | R_lock2 a v value \<Rightarrow> read_check c a v value (s, th)
   | R_lock3 a v value \<Rightarrow> read_recheck a v value (s, th)
   | LoadEnd value \<Rightarrow> (s, load_end c value th)
   | E_clock ctx \<Rightarrow> extend_clock c ctx (s, th)
   | E_val ctx now i \<Rightarrow> extend_validate c t ctx now i (s, th)
   | W_lock a value msk \<Rightarrow> write_lock c a value msk (s, th)
   | WriteEnd \<Rightarrow> (s, write_end c th)
   | C_load i \<Rightarrow> commit_load c t i (s, th)
   | C_cas i v \<Rightarrow> commit_cas t i v (s, th)
   | C_inc \<Rightarrow> commit_inc (s, th)
   | C_val T i \<Rightarrow> commit_validate c t T i (s, th)
   | C_wb T i \<Rightarrow> write_back T i (s, th)
   | C_wst T i value \<Rightarrow> write_back_store T i value (s, th)
   | C_rel T i \<Rightarrow> commit_release T i (s, th)
   | C_end \<Rightarrow> (s, commit_end c th)
   | B_rel i ctx reason \<Rightarrow> rollback_drop i ctx reason (s, th)
   | B_end ctx reason \<Rightarrow> (s, rollback_end c ctx reason th)
   | P_clock ctx \<Rightarrow> stm_prepare c ctx (s, th)
   | P_barrier ctx \<Rightarrow> (s, th)
   | UL_lock a \<Rightarrow> unit_load_lock a (s, th)
   | UL_val a v \<Rightarrow> unit_load_value a v (s, th)
   | UL_lock2 a v value \<Rightarrow> unit_load_check a v value (s, th)
   | UW_lock a value ts \<Rightarrow> unit_write_lock a value ts (s, th)
   | UW_cas a value ts v \<Rightarrow> unit_write_cas a value ts v (s, th)
   | UW_store a value ts \<Rightarrow> unit_write_store a value ts (s, th)
   | UW_inc a value ts \<Rightarrow> unit_write_inc a ts (s, th)
   | UW_rel a T ts \<Rightarrow> unit_write_release a T ts (s, th))"

text \<open>A timer interrupt on the core of the thread.\<close>

definition stm_tick ::
  "config \<Rightarrow> 64 word \<Rightarrow> 64 word \<Rightarrow> 64 word \<Rightarrow> 64 word \<Rightarrow> shared \<Rightarrow> thread \<Rightarrow> thread" where
  "stm_tick c callback now half ip s th =
    (let (cb, delivered) = tick_handler callback (clock s) (tx_end (desc th)) now half ip (cbuf th);
         th = th\<lparr>cbuf := cb\<rparr>
     in if delivered then stm_revalidate c th else th)"

section \<open>The machine\<close>

definition at_barrier :: "thread \<Rightarrow> bool" where
  "at_barrier th = (case pc th of P_barrier _ \<Rightarrow> True | _ \<Rightarrow> False)"

definition rollover_clock :: "shared \<Rightarrow> shared" where
  "rollover_clock s = s\<lparr>clock := 0, locks := (\<lambda>_. Version 0)\<rparr>"

definition leave_barrier :: "thread \<Rightarrow> thread" where
  "leave_barrier th = (case pc th of
     P_barrier PrepUnit \<Rightarrow> th\<lparr>pc := App\<rparr>
   | P_barrier ctx \<Rightarrow> th\<lparr>pc := P_clock ctx\<rparr>
   | _ \<Rightarrow> th)"

definition put_thread :: "tid \<Rightarrow> shared \<times> thread \<Rightarrow> state \<Rightarrow> state" where
  "put_thread t x S = \<lparr>sh = fst x, thr = (thr S)(t := snd x)\<rparr>"

datatype action =
    Call tid op
  | Run tid
  | Interrupt tid "64 word" "64 word" "64 word" "64 word"
  | Rollover

text \<open>
  \<open>ts\<close> is the set of registered threads. An interrupt may be delivered to the callback only from
  application code: that is what the delivery section of the control buffer delimits. The clock is
  reset when every registered thread has arrived at the barrier (\<^verbatim>\<open>stm_quiesce_barrier\<close>, whose
  own algorithm is in \<open>Quiescence\<close>).
\<close>

definition enabled :: "config \<Rightarrow> tid set \<Rightarrow> action \<Rightarrow> state \<Rightarrow> bool" where
  "enabled c ts act S = (case act of
     Call t oper \<Rightarrow> t \<in> ts \<and> pc (thr S t) = App \<and> op_ok oper (thr S t)
   | Run t \<Rightarrow> t \<in> ts \<and> pc (thr S t) \<noteq> App
   | Interrupt t callback now half ip \<Rightarrow>
       t \<in> ts \<and> ea_extratick c \<and> (in_section (cbuf (thr S t)) ip \<longrightarrow> pc (thr S t) = App)
   | Rollover \<Rightarrow> ts \<noteq> {} \<and> (\<forall>t\<in>ts. at_barrier (thr S t)))"

definition exec :: "config \<Rightarrow> action \<Rightarrow> state \<Rightarrow> state" where
  "exec c act S = (case act of
     Call t oper \<Rightarrow> put_thread t (sh S, call c oper (thr S t)) S
   | Run t \<Rightarrow> put_thread t (run c t (sh S, thr S t)) S
   | Interrupt t callback now half ip \<Rightarrow>
       put_thread t (sh S, stm_tick c callback now half ip (sh S) (thr S t)) S
   | Rollover \<Rightarrow> \<lparr>sh = rollover_clock (sh S), thr = (\<lambda>t. leave_barrier (thr S t))\<rparr>)"

end
