(* ===== verification/Stm_Ghost.thy ===== *)
theory Stm_Ghost
  imports Stm_Steps
begin

text \<open>
  The protocol of \<open>Stm_Steps\<close> observed: a history of the memory, one image per value of the
  clock, and the bookkeeping that relates it to what the threads are doing. Nothing here feeds back
  into the protocol (\<open>grun\<close> has \<open>run\<close> as its first component), so that a fact about an observed
  execution is a fact about the execution.

  \<^item> \<open>hist ts\<close> is the memory as of time \<open>ts\<close>: the initial memory with the writes of all updates
    with commit times up to \<open>ts\<close> applied in the order of these times. An update enters the
    history when its fate is settled: after a successful validation, or right at the increment of
    the clock when no validation is needed. Its time may then be smaller than that of updates
    already in the history.
  \<^item> \<open>cver l\<close> is the time of the last update of a word covered by lock \<open>l\<close>.
  \<^item> \<open>pend l\<close> is the commit time drawn by the holder of \<open>l\<close> while it validates.
  \<^item> \<open>dirty a\<close> names the thread that has an unfinished write to \<open>a\<close>: the history and the memory
    differ there.
  \<^item> \<open>uown l\<close> is the thread that holds \<open>l\<close> for a unit store, \<open>upre l\<close> that it has not yet
    drawn its time, \<open>tstamp T\<close> the one that drew \<open>T\<close>.
  \<^item> \<open>greads t\<close> lists the reads of the current transaction of \<open>t\<close> (address, version, value),
    \<open>hz t\<close> the time its snapshot is known to be valid for, and \<open>commits\<close> the updates made.
\<close>

record commit =
  c_time :: nat
  c_tid :: tid
  c_reads :: "(addr \<times> nat \<times> stm_word) list"
  c_writes :: "w_entry list"

record ghost =
  hist :: "nat \<Rightarrow> addr \<Rightarrow> stm_word"
  cver :: "lock_idx \<Rightarrow> nat"
  pend :: "lock_idx \<Rightarrow> nat option"
  dirty :: "addr \<Rightarrow> tid option"
  uown :: "lock_idx \<Rightarrow> tid option"
  upre :: "lock_idx \<Rightarrow> bool"
  tstamp :: "nat \<Rightarrow> tid option"
  greads :: "tid \<Rightarrow> (addr \<times> nat \<times> stm_word) list"
  hz :: "tid \<Rightarrow> nat"
  commits :: "commit list"

section \<open>Applying a write set\<close>

definition apply_entry :: "w_entry \<Rightarrow> (addr \<Rightarrow> stm_word) \<Rightarrow> addr \<Rightarrow> stm_word" where
  "apply_entry w M = M(w_addr w := masked (M (w_addr w)) (w_value w) (w_mask w))"

definition apply_writes :: "w_entry list \<Rightarrow> (addr \<Rightarrow> stm_word) \<Rightarrow> addr \<Rightarrow> stm_word" where
  "apply_writes ws M = fold apply_entry ws M"

lemma apply_writes_other: "a \<notin> w_addr ` set ws \<Longrightarrow> apply_writes ws M a = M a"
  unfolding apply_writes_def by (induction ws arbitrary: M) (auto simp: apply_entry_def)

lemma apply_writes_nth:
  "distinct (map w_addr ws) \<Longrightarrow> j < length ws \<Longrightarrow>
    apply_writes ws M (w_addr (ws ! j)) = masked (M (w_addr (ws ! j))) (w_value (ws ! j)) (w_mask (ws ! j))"
proof (induction ws arbitrary: M j)
  case (Cons w ws)
  show ?case
  proof (cases j)
    case 0
    with Cons.prems apply_writes_other [of "w_addr w" ws "apply_entry w M"] show ?thesis
      by (auto simp: apply_writes_def apply_entry_def)
  next
    case (Suc i)
    with Cons.prems have "w_addr (ws ! i) \<noteq> w_addr w"
      by (metis Suc_less_eq distinct.simps(2) image_eqI length_Cons list.set_map list.simps(9) nth_mem)
    with Suc Cons show ?thesis
      by (simp add: apply_writes_def apply_entry_def)
  qed
qed simp

text \<open>Two images that agree at an address still do after the same writes.\<close>

lemma apply_writes_cong: "M a = N a \<Longrightarrow> apply_writes ws M a = apply_writes ws N a"
proof (induction ws arbitrary: M N)
  case (Cons w ws)
  have "apply_entry w M a = apply_entry w N a"
    using Cons.prems by (auto simp: apply_entry_def)
  from Cons.IH [of "apply_entry w M" "apply_entry w N", OF this] show ?case
    by (simp add: apply_writes_def)
qed (simp add: apply_writes_def)

lemma apply_writes_commute:
  assumes "w_addr ` set ws \<inter> w_addr ` set vs = {}"
  shows "apply_writes ws (apply_writes vs M) = apply_writes vs (apply_writes ws M)"
proof
  fix a
  consider "a \<notin> w_addr ` set ws" | "a \<notin> w_addr ` set vs" using assms by blast
  then show "apply_writes ws (apply_writes vs M) a = apply_writes vs (apply_writes ws M) a"
  proof cases
    case 1
    then have "apply_writes ws M a = M a" by (rule apply_writes_other)
    with 1 show ?thesis
      by (metis apply_writes_cong apply_writes_other)
  next
    case 2
    then have "apply_writes vs M a = M a" by (rule apply_writes_other)
    with 2 show ?thesis
      by (metis apply_writes_cong apply_writes_other)
  qed
qed

section \<open>The observer\<close>

definition linearize :: "tid \<Rightarrow> nat \<Rightarrow> w_entry list \<Rightarrow> ghost \<Rightarrow> ghost" where
  "linearize t T ws g =
     g\<lparr>hist := (\<lambda>ts. if ts < T then hist g ts else apply_writes ws (hist g ts)),
       cver := (\<lambda>l. if l \<in> w_lock ` set ws then T else cver g l),
       pend := (\<lambda>l. if l \<in> w_lock ` set ws then None else pend g l),
       dirty := (\<lambda>a. if a \<in> w_addr ` set ws then Some t else dirty g a),
       tstamp := (tstamp g)(T := None),
       commits := commits g @ [\<lparr>c_time = T, c_tid = t, c_reads = greads g t, c_writes = ws\<rparr>]\<rparr>"

definition set_pend :: "nat option \<Rightarrow> w_entry list \<Rightarrow> ghost \<Rightarrow> ghost" where
  "set_pend x ws g = g\<lparr>pend := (\<lambda>l. if l \<in> w_lock ` set ws then x else pend g l)\<rparr>"

definition unit_entry :: "addr \<Rightarrow> stm_word \<Rightarrow> w_entry" where
  "unit_entry a value = \<lparr>w_addr = a, w_value = value, w_mask = NOT 0, w_version = 0,
     w_lock = GET_LOCK a, w_no_drop = False\<rparr>"

definition log_read :: "tid \<Rightarrow> addr \<Rightarrow> nat \<Rightarrow> stm_word \<Rightarrow> ghost \<Rightarrow> ghost" where
  "log_read t a v value g = g\<lparr>greads := (greads g)(t := greads g t @ [(a, v, value)])\<rparr>"

definition clean :: "addr \<Rightarrow> ghost \<Rightarrow> ghost" where
  "clean a g = g\<lparr>dirty := (dirty g)(a := None)\<rparr>"

definition observe :: "tid \<Rightarrow> shared \<Rightarrow> thread \<Rightarrow> ghost \<Rightarrow> ghost" where
  "observe t s th g = (case pc th of
     R_lock2 a v value \<Rightarrow>
       if locks s (GET_LOCK a) = Version v \<and> v \<le> tx_end (desc th) then log_read t a v value g else g
   | R_lock3 a v value \<Rightarrow>
       if locks s (GET_LOCK a) = Version v then log_read t a v value g else g
   | E_val ctx now i \<Rightarrow>
       if i < length (r_set (desc th)) then g else g\<lparr>hz := (hz g)(t := now)\<rparr>
   | P_clock ctx \<Rightarrow>
       if clock s \<ge> version_max then g
       else g\<lparr>greads := (greads g)(t := []), hz := (hz g)(t := clock s)\<rparr>
   | C_inc \<Rightarrow>
       if tx_start (desc th) = clock s then linearize t (clock s + 1) (w_set (desc th)) g
       else (set_pend (Some (clock s + 1)) (w_set (desc th)) g)
              \<lparr>tstamp := (tstamp g)(clock s + 1 := Some t)\<rparr>
   | C_val T i \<Rightarrow>
       if i < length (r_set (desc th)) then
         (if validate_entry t s (desc th) (r_set (desc th) ! i) then g
          else set_pend None (w_set (desc th)) g)
       else linearize t T (w_set (desc th)) g
   | C_wb T i \<Rightarrow>
       if i < length (w_set (desc th)) \<and>
          (w_mask (w_set (desc th) ! i) = NOT 0 \<or> w_mask (w_set (desc th) ! i) = 0)
       then clean (w_addr (w_set (desc th) ! i)) g else g
   | C_wst T i value \<Rightarrow> clean (w_addr (w_set (desc th) ! i)) g
   | UW_cas a value ts v \<Rightarrow>
       if locks s (GET_LOCK a) = Version v then
         g\<lparr>uown := (uown g)(GET_LOCK a := Some t), upre := (upre g)(GET_LOCK a := True)\<rparr> else g
   | UW_store a value ts \<Rightarrow> g\<lparr>dirty := (dirty g)(a := Some t)\<rparr>
   | UW_inc a value ts \<Rightarrow>
       clean a (linearize t (clock s + 1) [unit_entry a value]
         (g\<lparr>greads := (greads g)(t := []), upre := (upre g)(GET_LOCK a := False)\<rparr>))
   | UW_rel a T ts \<Rightarrow> g\<lparr>uown := (uown g)(GET_LOCK a := None)\<rparr>
   | _ \<Rightarrow> g)"

definition observe_rollover :: "shared \<Rightarrow> ghost \<Rightarrow> ghost" where
  "observe_rollover s g =
     g\<lparr>hist := (\<lambda>_. mem s), cver := (\<lambda>_. 0), pend := (\<lambda>_. None), tstamp := (\<lambda>_. None),
       greads := (\<lambda>_. []), hz := (\<lambda>_. 0), commits := []\<rparr>"

definition gexec :: "config \<Rightarrow> action \<Rightarrow> state \<times> ghost \<Rightarrow> state \<times> ghost" where
  "gexec c act = (\<lambda>(S, g). (exec c act S, case act of
     Run t \<Rightarrow> observe t (sh S) (thr S t) g
   | Rollover \<Rightarrow> observe_rollover (sh S) g
   | _ \<Rightarrow> g))"

lemma gexec_erase: "fst (gexec c act (S, g)) = exec c act S"
  by (simp add: gexec_def)

section \<open>Observed executions\<close>

definition init_ghost :: "shared \<Rightarrow> ghost" where
  "init_ghost s = \<lparr>hist = (\<lambda>_. mem s), cver = (\<lambda>_. 0), pend = (\<lambda>_. None), dirty = (\<lambda>_. None),
     uown = (\<lambda>_. None), upre = (\<lambda>_. False), tstamp = (\<lambda>_. None), greads = (\<lambda>_. []), hz = (\<lambda>_. 0), commits = []\<rparr>"

text \<open>A state after \<^verbatim>\<open>stm_init\<close> and \<^verbatim>\<open>stm_init_thread\<close> of every thread, with any contents of memory.\<close>

definition init_state :: "state \<Rightarrow> bool" where
  "init_state S \<longleftrightarrow> clock (sh S) = 0 \<and> locks (sh S) = (\<lambda>_. Version 0) \<and>
     (\<forall>t. let th = thr S t in pc th = App \<and> nesting (desc th) = 0 \<and> status (desc th) = TX_IDLE \<and>
       r_set (desc th) = [] \<and> w_set (desc th) = [] \<and> nb_acquired (desc th) = 0 \<and>
       r_size (desc th) > 0 \<and> w_size (desc th) > 0 \<and> \<not> tx_on (cbuf th))"

inductive reach :: "config \<Rightarrow> tid set \<Rightarrow> state \<times> ghost \<Rightarrow> bool" for c ts where
  reach_init: "init_state S \<Longrightarrow> reach c ts (S, init_ghost (sh S))"
| reach_step: "reach c ts (S, g) \<Longrightarrow> enabled c ts act S \<Longrightarrow> reach c ts (gexec c act (S, g))"

end
