(* ===== verification/Stm_Inv.thy ===== *)
theory Stm_Inv
  imports Stm_Ghost
begin

text \<open>
  The invariant of the protocol, in three parts: \<open>GI\<close> relates the shared memory to the history,
  \<open>LI\<close> says of each thread what holds at its program counter, \<open>CL\<close> says that the history is the
  serial execution of the logged updates. \<open>rely\<close> is what a thread may count on while others run;
  \<open>LI_stable\<close> shows that its part of the invariant survives any step that respects it.
\<close>

section \<open>Facts about reads\<close>

text \<open>Version \<open>v\<close> of the words under \<open>l\<close> is the current one at every time up to \<open>e\<close>, for good.\<close>

definition RV :: "ghost \<Rightarrow> lock_idx \<Rightarrow> nat \<Rightarrow> nat \<Rightarrow> bool" where
  "RV g l v e \<longleftrightarrow> v \<le> e \<and>
     (\<forall>a ts. GET_LOCK a = l \<and> v \<le> ts \<and> ts \<le> e \<longrightarrow> hist g ts a = hist g v a) \<and>
     (\<forall>T. pend g l = Some T \<longrightarrow> e < T)"

lemma RV_I:
  assumes "v \<le> e" "\<And>a ts. GET_LOCK a = l \<Longrightarrow> v \<le> ts \<Longrightarrow> ts \<le> e \<Longrightarrow> hist g ts a = hist g v a"
    "\<And>T. pend g l = Some T \<Longrightarrow> e < T"
  shows "RV g l v e"
  unfolding RV_def
proof (intro conjI allI impI; (elim conjE)?)
  show "v \<le> e" by (rule assms(1))
  show "hist g ts a = hist g v a" if "GET_LOCK a = l" "v \<le> ts" "ts \<le> e" for a ts
    using that by (rule assms(2))
  show "e < T" if "pend g l = Some T" for T
    using that by (rule assms(3))
qed

lemma RV_D:
  assumes "RV g l v e"
  shows RV_le: "v \<le> e"
    and RV_hist: "GET_LOCK a = l \<Longrightarrow> v \<le> ts \<Longrightarrow> ts \<le> e \<Longrightarrow> hist g ts a = hist g v a"
    and RV_pend: "pend g l = Some T \<Longrightarrow> e < T"
  using assms unfolding RV_def by blast+

text \<open>A thread that has seen version \<open>v\<close> of the lock.\<close>

definition RS :: "ghost \<Rightarrow> lock_idx \<Rightarrow> nat \<Rightarrow> bool" where
  "RS g l v \<longleftrightarrow> v \<le> cver g l \<and>
     (cver g l = v \<and> \<not> upre g l \<longrightarrow> (\<forall>a. GET_LOCK a = l \<longrightarrow> dirty g a = None))"

text \<open>\<dots> and then read a value.\<close>

definition RA :: "ghost \<Rightarrow> addr \<Rightarrow> nat \<Rightarrow> stm_word \<Rightarrow> bool" where
  "RA g a v x \<longleftrightarrow> v \<le> cver g (GET_LOCK a) \<and>
     (cver g (GET_LOCK a) = v \<and> \<not> upre g (GET_LOCK a) \<longrightarrow>
        x = hist g v a \<and> (\<forall>b. GET_LOCK b = GET_LOCK a \<longrightarrow> dirty g b = None))"

section \<open>The shared part\<close>

text \<open>The locks a thread holds.\<close>

definition mine :: "tid \<Rightarrow> shared \<Rightarrow> ghost \<Rightarrow> lock_idx \<Rightarrow> bool" where
  "mine u s g l \<longleftrightarrow> (\<exists>k. locks s l = Owned u k) \<or> uown g l = Some u"

definition GI :: "shared \<Rightarrow> ghost \<Rightarrow> bool" where
  "GI s g \<longleftrightarrow>
     (\<forall>l v. locks s l = Version v \<longrightarrow> v = cver g l \<and> (\<forall>a. GET_LOCK a = l \<longrightarrow> dirty g a = None)) \<and>
     (\<forall>l T. pend g l = Some T \<longrightarrow> cver g l < T \<and> T \<le> clock s \<and> (\<exists>t k. locks s l = Owned t k)) \<and>
     (\<forall>l. cver g l \<le> clock s) \<and>
     (\<forall>a ts. cver g (GET_LOCK a) \<le> ts \<longrightarrow> hist g ts a = hist g (cver g (GET_LOCK a)) a) \<and>
     (\<forall>a. dirty g a = None \<longrightarrow> mem s a = hist g (cver g (GET_LOCK a)) a) \<and>
     (\<forall>l. locks s l = LockUnit \<longleftrightarrow> uown g l \<noteq> None) \<and>
     (\<forall>a u. dirty g a = Some u \<longrightarrow> mine u s g (GET_LOCK a)) \<and>
     (\<forall>T. tstamp g T \<noteq> None \<longrightarrow> T \<le> clock s) \<and>
     (\<forall>l. upre g l \<longrightarrow> locks s l = LockUnit)"

lemma GI_D:
  assumes "GI s g"
  shows GI_version: "locks s l = Version v \<Longrightarrow> v = cver g l"
    and GI_version_dirty: "locks s (GET_LOCK a) = Version v \<Longrightarrow> dirty g a = None"
    and GI_pend: "pend g l = Some T \<Longrightarrow> cver g l < T \<and> T \<le> clock s"
    and GI_pend_owned: "pend g l = Some T \<Longrightarrow> \<exists>t k. locks s l = Owned t k"
    and GI_cver_le: "cver g l \<le> clock s"
    and GI_hist: "cver g (GET_LOCK a) \<le> ts \<Longrightarrow> hist g ts a = hist g (cver g (GET_LOCK a)) a"
    and GI_mem: "dirty g a = None \<Longrightarrow> mem s a = hist g (cver g (GET_LOCK a)) a"
    and GI_unit: "locks s l = LockUnit \<longleftrightarrow> uown g l \<noteq> None"
    and GI_dirty: "dirty g a = Some u \<Longrightarrow> mine u s g (GET_LOCK a)"
    and GI_tstamp: "tstamp g T = Some u \<Longrightarrow> T \<le> clock s"
    and GI_upre: "upre g l \<Longrightarrow> locks s l = LockUnit"
  using assms unfolding GI_def by blast+

lemma GI_unit_owner: "GI s g \<Longrightarrow> locks s l = LockUnit \<Longrightarrow> \<exists>t. uown g l = Some t"
  using GI_unit by (metis not_None_eq)

lemma GI_unit_lock: "GI s g \<Longrightarrow> uown g l = Some t \<Longrightarrow> locks s l = LockUnit"
  using GI_unit by (metis option.discI)

lemma GI_I:
  assumes "\<And>l v. locks s l = Version v \<Longrightarrow> v = cver g l"
    and "\<And>a v. locks s (GET_LOCK a) = Version v \<Longrightarrow> dirty g a = None"
    and "\<And>l T. pend g l = Some T \<Longrightarrow> cver g l < T \<and> T \<le> clock s"
    and "\<And>l T. pend g l = Some T \<Longrightarrow> \<exists>t k. locks s l = Owned t k"
    and "\<And>l. cver g l \<le> clock s"
    and "\<And>a ts. cver g (GET_LOCK a) \<le> ts \<Longrightarrow> hist g ts a = hist g (cver g (GET_LOCK a)) a"
    and "\<And>a. dirty g a = None \<Longrightarrow> mem s a = hist g (cver g (GET_LOCK a)) a"
    and "\<And>l. locks s l = LockUnit \<longleftrightarrow> uown g l \<noteq> None"
    and "\<And>a u. dirty g a = Some u \<Longrightarrow> mine u s g (GET_LOCK a)"
    and "\<And>T u. tstamp g T = Some u \<Longrightarrow> T \<le> clock s"
    and "\<And>l. upre g l \<Longrightarrow> locks s l = LockUnit"
  shows "GI s g"
  using assms unfolding GI_def by blast

section \<open>The part of a thread\<close>

definition in_tx :: "thread \<Rightarrow> bool" where
  "in_tx th = (case pc th of
     P_clock _ \<Rightarrow> False | P_barrier _ \<Rightarrow> False | B_rel _ _ _ \<Rightarrow> False | B_end _ _ \<Rightarrow> False
   | UL_lock _ \<Rightarrow> False | UL_val _ _ \<Rightarrow> False | UL_lock2 _ _ _ \<Rightarrow> False
   | UW_lock _ _ _ \<Rightarrow> False | UW_cas _ _ _ _ \<Rightarrow> False | UW_store _ _ _ \<Rightarrow> False
   | UW_inc _ _ _ \<Rightarrow> False | UW_rel _ _ _ \<Rightarrow> False
   | C_load _ \<Rightarrow> True | C_cas _ _ \<Rightarrow> True | C_inc \<Rightarrow> True | C_val _ _ \<Rightarrow> True
   | C_wb _ _ \<Rightarrow> True | C_wst _ _ _ \<Rightarrow> True | C_rel _ _ \<Rightarrow> True | C_end \<Rightarrow> True
   | _ \<Rightarrow> nesting (desc th) > 0)"

text \<open>The entries of the write set whose locks the thread holds.\<close>

definition hold_range :: "thread \<Rightarrow> nat set" where
  "hold_range th = (case pc th of
     C_load _ \<Rightarrow> UNIV | C_cas _ _ \<Rightarrow> UNIV | C_inc \<Rightarrow> UNIV | C_val _ _ \<Rightarrow> UNIV
   | C_wb _ i \<Rightarrow> {i..} | C_wst _ i _ \<Rightarrow> {i..} | C_rel _ i \<Rightarrow> {i..}
   | B_rel i _ _ \<Rightarrow> {..i}
   | _ \<Rightarrow> {})"

definition held :: "thread \<Rightarrow> nat set" where
  "held th = {k. k < length (w_set (desc th)) \<and> k \<in> hold_range th \<and>
                 \<not> w_no_drop (w_set (desc th) ! k)}"

definition own :: "tid \<Rightarrow> shared \<Rightarrow> thread \<Rightarrow> bool" where
  "own t s th \<longleftrightarrow>
     (\<forall>l k. locks s l = Owned t k \<longleftrightarrow> k \<in> held th \<and> w_lock (w_set (desc th) ! k) = l)"

definition unit_lock :: "thread \<Rightarrow> lock_idx option" where
  "unit_lock th = (case pc th of
     UW_store a _ _ \<Rightarrow> Some (GET_LOCK a) | UW_inc a _ _ \<Rightarrow> Some (GET_LOCK a)
   | UW_rel a _ _ \<Rightarrow> Some (GET_LOCK a) | _ \<Rightarrow> None)"

definition unit_own :: "tid \<Rightarrow> ghost \<Rightarrow> thread \<Rightarrow> bool" where
  "unit_own t g th \<longleftrightarrow> (\<forall>l. uown g l = Some t \<longleftrightarrow> unit_lock th = Some l)"

text \<open>The addresses with a write under way.\<close>

definition unwritten :: "thread \<Rightarrow> addr set" where
  "unwritten th = (case pc th of
     C_wb _ i \<Rightarrow> w_addr ` set (drop i (w_set (desc th)))
   | C_wst _ i _ \<Rightarrow> w_addr ` set (drop i (w_set (desc th)))
   | C_rel _ i \<Rightarrow> w_addr ` set (drop (i + 1) (w_set (desc th)))
   | UW_inc a _ _ \<Rightarrow> {a}
   | _ \<Rightarrow> {})"

definition dirty_own :: "tid \<Rightarrow> ghost \<Rightarrow> thread \<Rightarrow> bool" where
  "dirty_own t g th \<longleftrightarrow> (\<forall>a. dirty g a = Some t \<longleftrightarrow> a \<in> unwritten th)"

definition wf_sets :: "thread \<Rightarrow> bool" where
  "wf_sets th \<longleftrightarrow> distinct (map w_addr (w_set (desc th))) \<and>
     (\<forall>w\<in>set (w_set (desc th)). w_lock w = GET_LOCK (w_addr w))"

text \<open>Nothing acquired yet.\<close>

definition fresh :: "thread \<Rightarrow> bool" where
  "fresh th \<longleftrightarrow> nb_acquired (desc th) = 0 \<and> (\<forall>w\<in>set (w_set (desc th)). w_no_drop w)"

definition acq_ok :: "config \<Rightarrow> thread \<Rightarrow> bool" where
  "acq_ok c th = (case pc th of
     C_load _ \<Rightarrow> nb_acquired (desc th) = card (held th)
   | C_cas _ _ \<Rightarrow> nb_acquired (desc th) = card (held th)
   | C_inc \<Rightarrow> nb_acquired (desc th) = card (held th)
   | C_val _ _ \<Rightarrow> nb_acquired (desc th) = card (held th)
   | B_rel _ _ _ \<Rightarrow> nb_acquired (desc th) = card (held th) \<and> held th \<noteq> {}
   | C_wb _ _ \<Rightarrow> True | C_wst _ _ _ \<Rightarrow> True | C_rel _ _ \<Rightarrow> True | C_end \<Rightarrow> True
   | B_end _ _ \<Rightarrow> True | P_clock _ \<Rightarrow> True
   | P_barrier ctx \<Rightarrow> (case ctx of PrepUnit \<Rightarrow> ea_extratick c \<and> tx_on (cbuf th) \<longrightarrow> fresh th | _ \<Rightarrow> True)
   | App \<Rightarrow> nesting (desc th) > 0 \<or> (ea_extratick c \<and> tx_on (cbuf th)) \<longrightarrow> fresh th
   | UL_lock _ \<Rightarrow> ea_extratick c \<and> tx_on (cbuf th) \<longrightarrow> fresh th
   | UL_val _ _ \<Rightarrow> ea_extratick c \<and> tx_on (cbuf th) \<longrightarrow> fresh th
   | UL_lock2 _ _ _ \<Rightarrow> ea_extratick c \<and> tx_on (cbuf th) \<longrightarrow> fresh th
   | UW_lock _ _ _ \<Rightarrow> ea_extratick c \<and> tx_on (cbuf th) \<longrightarrow> fresh th
   | UW_cas _ _ _ _ \<Rightarrow> ea_extratick c \<and> tx_on (cbuf th) \<longrightarrow> fresh th
   | UW_store _ _ _ \<Rightarrow> ea_extratick c \<and> tx_on (cbuf th) \<longrightarrow> fresh th
   | UW_inc _ _ _ \<Rightarrow> ea_extratick c \<and> tx_on (cbuf th) \<longrightarrow> fresh th
   | UW_rel _ _ _ \<Rightarrow> ea_extratick c \<and> tx_on (cbuf th) \<longrightarrow> fresh th
   | _ \<Rightarrow> fresh th)"

text \<open>
  The early-abort builds that keep \<^verbatim>\<open>tx_on\<close> at 0 (\<^verbatim>\<open>EA_SIMULATE_ET_KERNEL\<close>) must not be combined
  with the options that take \<^verbatim>\<open>tx_on == 0\<close> for an interrupt.
\<close>

definition cfg_ok :: "config \<Rightarrow> bool" where
  "cfg_ok c \<longleftrightarrow> (ea_extratick c \<and> ea_simulate_et_kernel c \<longrightarrow>
     \<not> ea_simulate_abort c \<and> \<not> ea_simulate_et_user c)"

definition platform_mode :: "thread \<Rightarrow> bool" where
  "platform_mode th = (case pc th of
     R_lock _ \<Rightarrow> True | R_val _ _ \<Rightarrow> True | R_lock2 _ _ _ \<Rightarrow> True | R_lock3 _ _ _ \<Rightarrow> True
   | W_lock _ _ _ \<Rightarrow> True
   | E_clock ctx \<Rightarrow> (case ctx of ExtRead _ _ _ \<Rightarrow> True | _ \<Rightarrow> False)
   | E_val ctx _ _ \<Rightarrow> (case ctx of ExtRead _ _ _ \<Rightarrow> True | _ \<Rightarrow> False)
   | C_load _ \<Rightarrow> True | C_cas _ _ \<Rightarrow> True | C_inc \<Rightarrow> True | C_val _ _ \<Rightarrow> True
   | P_clock ctx \<Rightarrow> ctx = PrepStart | P_barrier ctx \<Rightarrow> ctx = PrepStart
   | App \<Rightarrow> nesting (desc th) > 0 | LoadEnd _ \<Rightarrow> nesting (desc th) > 0
   | WriteEnd \<Rightarrow> nesting (desc th) > 0
   | _ \<Rightarrow> False)"

definition txon_ok :: "config \<Rightarrow> thread \<Rightarrow> bool" where
  "txon_ok c th \<longleftrightarrow> (ea_extratick c \<and> \<not> ea_simulate_et_kernel c \<and> platform_mode th \<longrightarrow>
     tx_on (cbuf th))"

text \<open>The control flow of calls made inside a transaction.\<close>

definition nest_ok :: "config \<Rightarrow> thread \<Rightarrow> bool" where
  "nest_ok c th \<longleftrightarrow> 0 \<le> nesting (desc th) \<and> (case pc th of
     R_lock _ \<Rightarrow> nesting (desc th) > 0 | R_val _ _ \<Rightarrow> nesting (desc th) > 0
   | R_lock2 _ _ _ \<Rightarrow> nesting (desc th) > 0
   | R_lock3 _ _ _ \<Rightarrow> nesting (desc th) > 0 \<and> \<not> ro (desc th)
   | W_lock _ _ _ \<Rightarrow> nesting (desc th) > 0 \<and> \<not> ro (desc th)
   | E_clock ctx \<Rightarrow> (case ctx of ExtRead _ _ _ \<Rightarrow> nesting (desc th) > 0 \<and> \<not> ro (desc th)
                     | _ \<Rightarrow> ea_extratick c)
   | E_val ctx _ _ \<Rightarrow> (case ctx of ExtRead _ _ _ \<Rightarrow> nesting (desc th) > 0 \<and> \<not> ro (desc th)
                     | _ \<Rightarrow> ea_extratick c)
   | C_load _ \<Rightarrow> nesting (desc th) = 0 | C_cas _ _ \<Rightarrow> nesting (desc th) = 0
   | C_inc \<Rightarrow> nesting (desc th) = 0 | C_val _ _ \<Rightarrow> nesting (desc th) = 0
   | C_wb _ _ \<Rightarrow> nesting (desc th) = 0 | C_wst _ _ _ \<Rightarrow> nesting (desc th) = 0
   | C_rel _ _ \<Rightarrow> nesting (desc th) = 0 | C_end \<Rightarrow> nesting (desc th) = 0
   | P_clock ctx \<Rightarrow> ctx \<noteq> PrepUnit \<and> nesting (desc th) = 1
   | P_barrier ctx \<Rightarrow> nesting (desc th) = (if ctx = PrepUnit then 0 else 1)
   | UL_lock _ \<Rightarrow> nesting (desc th) = 0 | UL_val _ _ \<Rightarrow> nesting (desc th) = 0
   | UL_lock2 _ _ _ \<Rightarrow> nesting (desc th) = 0
   | UW_lock _ _ _ \<Rightarrow> nesting (desc th) = 0 | UW_cas _ _ _ _ \<Rightarrow> nesting (desc th) = 0
   | UW_store _ _ _ \<Rightarrow> nesting (desc th) = 0 | UW_inc _ _ _ \<Rightarrow> nesting (desc th) = 0
   | UW_rel _ _ _ \<Rightarrow> nesting (desc th) = 0
   | _ \<Rightarrow> True) \<and>
   (in_tx th \<longrightarrow> status (desc th) = TX_ACTIVE \<and> (ro (desc th) \<longrightarrow> w_set (desc th) = []))"

text \<open>
  The snapshot. With early aborts compiled in, a read-only transaction keeps no read set and
  extends its snapshot unchecked: nothing is claimed about it.
\<close>

definition snap_ok :: "config \<Rightarrow> thread \<Rightarrow> bool" where
  "snap_ok c th \<longleftrightarrow> ro (desc th) \<longrightarrow> \<not> ea_extratick c"

definition r_entry_of :: "addr \<times> nat \<times> stm_word \<Rightarrow> r_entry" where
  "r_entry_of = (\<lambda>(a, v, x). \<lparr>r_version = v, r_lock = GET_LOCK a\<rparr>)"

definition reads_ok :: "config \<Rightarrow> tid \<Rightarrow> shared \<Rightarrow> ghost \<Rightarrow> thread \<Rightarrow> bool" where
  "reads_ok c t s g th \<longleftrightarrow> (in_tx th \<longrightarrow>
     tx_start (desc th) \<le> hz g t \<and> tx_end (desc th) \<le> hz g t \<and> hz g t \<le> clock s \<and>
     (\<not> ro (desc th) \<longrightarrow> r_set (desc th) = map r_entry_of (greads g t)) \<and>
     (snap_ok c th \<longrightarrow> (\<forall>(a, v, x)\<in>set (greads g t). x = hist g v a \<and> RV g (GET_LOCK a) v (hz g t))))"

definition valid_upto :: "ghost \<Rightarrow> thread \<Rightarrow> nat \<Rightarrow> nat \<Rightarrow> bool" where
  "valid_upto g th i e \<longleftrightarrow> (\<forall>r\<in>set (take i (r_set (desc th))). RV g (r_lock r) (r_version r) e)"

text \<open>Every entry from \<open>i\<close> on has its lock held, through itself or a later entry.\<close>

definition cover :: "nat \<Rightarrow> thread \<Rightarrow> bool" where
  "cover i th \<longleftrightarrow> (\<forall>j. i \<le> j \<and> j < length (w_set (desc th)) \<longrightarrow>
     (\<exists>k\<in>held th. j \<le> k \<and> w_lock (w_set (desc th) ! k) = w_lock (w_set (desc th) ! j)))"

definition held_pre :: "nat option \<Rightarrow> ghost \<Rightarrow> thread \<Rightarrow> bool" where
  "held_pre x g th \<longleftrightarrow> (\<forall>k\<in>held th. let w = w_set (desc th) ! k in
     w_version w = cver g (w_lock w) \<and> pend g (w_lock w) = x)"

definition held_post :: "nat \<Rightarrow> shared \<Rightarrow> ghost \<Rightarrow> thread \<Rightarrow> bool" where
  "held_post T s g th \<longleftrightarrow> T \<le> clock s \<and>
     (\<forall>k\<in>held th. let w = w_set (desc th) ! k in cver g (w_lock w) = T \<and> pend g (w_lock w) = None) \<and>
     (\<forall>w\<in>set (w_set (desc th)). w_addr w \<in> unwritten th \<longrightarrow>
        hist g T (w_addr w) = masked (mem s (w_addr w)) (w_value w) (w_mask w))"

definition ext_inv :: "ghost \<Rightarrow> ext_ctx \<Rightarrow> bool" where
  "ext_inv g ctx = (case ctx of ExtRead a v x \<Rightarrow> RA g a v x | _ \<Rightarrow> True)"

definition pc_inv :: "tid \<Rightarrow> shared \<Rightarrow> ghost \<Rightarrow> thread \<Rightarrow> bool" where
  "pc_inv t s g th = (case pc th of
     R_val a v \<Rightarrow> RS g (GET_LOCK a) v
   | R_lock2 a v x \<Rightarrow> RA g a v x
   | R_lock3 a v x \<Rightarrow> RA g a v x \<and> v \<le> hz g t
   | E_clock ctx \<Rightarrow> ext_inv g ctx
   | E_val ctx now i \<Rightarrow> ext_inv g ctx \<and> now \<le> clock s \<and>
       (case ctx of ExtRead a v x \<Rightarrow> v \<le> now | _ \<Rightarrow> True) \<and>
       (in_tx th \<longrightarrow> hz g t \<le> now \<and> (\<not> ro (desc th) \<longrightarrow> valid_upto g th i now))
   | C_load i \<Rightarrow> i < length (w_set (desc th)) \<and> (\<forall>k\<in>held th. i < k) \<and> cover (i + 1) th \<and>
       held_pre None g th
   | C_cas i v \<Rightarrow> i < length (w_set (desc th)) \<and> (\<forall>k\<in>held th. i < k) \<and> cover (i + 1) th \<and>
       held_pre None g th
   | C_inc \<Rightarrow> w_set (desc th) \<noteq> [] \<and> cover 0 th \<and> held_pre None g th
   | C_val T i \<Rightarrow> w_set (desc th) \<noteq> [] \<and> cover 0 th \<and> held_pre (Some T) g th \<and>
       hz g t < T \<and> T \<le> clock s \<and> tstamp g T = Some t \<and> valid_upto g th i (T - 1)
   | C_wb T i \<Rightarrow> cover i th \<and> held_post T s g th
   | C_wst T i x \<Rightarrow> i < length (w_set (desc th)) \<and> cover i th \<and> held_post T s g th \<and>
       x = hist g T (w_addr (w_set (desc th) ! i))
   | C_rel T i \<Rightarrow> i < length (w_set (desc th)) \<and> \<not> w_no_drop (w_set (desc th) ! i) \<and>
       cover i th \<and> held_post T s g th
   | B_rel i _ _ \<Rightarrow> i < length (w_set (desc th)) \<and> held_pre None g th
   | UL_val a v \<Rightarrow> RS g (GET_LOCK a) v
   | UL_lock2 a v x \<Rightarrow> RA g a v x
   | UW_store a x _ \<Rightarrow> upre g (GET_LOCK a) \<and> (\<forall>b. GET_LOCK b = GET_LOCK a \<longrightarrow> dirty g b = None)
   | UW_inc a x _ \<Rightarrow> upre g (GET_LOCK a) \<and> mem s a = x \<and> (\<forall>b. GET_LOCK b = GET_LOCK a \<and> b \<noteq> a \<longrightarrow> dirty g b = None)
   | UW_rel a T _ \<Rightarrow> \<not> upre g (GET_LOCK a) \<and> cver g (GET_LOCK a) = T \<and> (\<forall>b. GET_LOCK b = GET_LOCK a \<longrightarrow> dirty g b = None)
   | _ \<Rightarrow> True)"

definition LI :: "config \<Rightarrow> tid \<Rightarrow> shared \<Rightarrow> ghost \<Rightarrow> thread \<Rightarrow> bool" where
  "LI c t s g th \<longleftrightarrow> nest_ok c th \<and> txon_ok c th \<and> acq_ok c th \<and> wf_sets th \<and>
     own t s th \<and> unit_own t g th \<and> dirty_own t g th \<and> reads_ok c t s g th \<and> pc_inv t s g th"

section \<open>What other threads leave alone\<close>

definition rely :: "tid \<Rightarrow> shared \<times> ghost \<Rightarrow> shared \<times> ghost \<Rightarrow> bool" where
  "rely u = (\<lambda>(s, g) (s', g').
     clock s \<le> clock s' \<and>
     (\<forall>l v e. RV g l v e \<and> e \<le> clock s \<longrightarrow>
        RV g' l v e \<and> (\<forall>a. GET_LOCK a = l \<longrightarrow> hist g' v a = hist g v a)) \<and>
     (\<forall>l v. RS g l v \<longrightarrow> RS g' l v) \<and>
     (\<forall>a v x. RA g a v x \<longrightarrow> RA g' a v x) \<and>
     (\<forall>l k. locks s' l = Owned u k \<longleftrightarrow> locks s l = Owned u k) \<and>
     (\<forall>l. uown g' l = Some u \<longleftrightarrow> uown g l = Some u) \<and>
     (\<forall>a. dirty g' a = Some u \<longleftrightarrow> dirty g a = Some u) \<and>
     (\<forall>T. tstamp g T = Some u \<longrightarrow> tstamp g' T = Some u) \<and>
     (\<forall>l. mine u s g l \<longrightarrow> cver g' l = cver g l \<and> pend g' l = pend g l \<and>
        upre g' l = upre g l \<and> (\<forall>a. GET_LOCK a = l \<longrightarrow> mem s' a = mem s a \<and> dirty g' a = dirty g a \<and>
                               (\<forall>ts. hist g' ts a = hist g ts a))) \<and>
     greads g' u = greads g u \<and> hz g' u = hz g u)"

section \<open>Stability\<close>

lemma relyD:
  assumes "rely u (s, g) (s', g')"
  shows rely_clock: "clock s \<le> clock s'"
    and rely_RV: "RV g l v e \<Longrightarrow> e \<le> clock s \<Longrightarrow> RV g' l v e"
    and rely_hist: "RV g (GET_LOCK a) v e \<Longrightarrow> e \<le> clock s \<Longrightarrow> hist g' v a = hist g v a"
    and rely_RS: "RS g l v \<Longrightarrow> RS g' l v"
    and rely_RA: "RA g a v x \<Longrightarrow> RA g' a v x"
    and rely_owned: "locks s' l = Owned u k \<longleftrightarrow> locks s l = Owned u k"
    and rely_uown: "uown g' l = Some u \<longleftrightarrow> uown g l = Some u"
    and rely_dirty: "dirty g' a = Some u \<longleftrightarrow> dirty g a = Some u"
    and rely_tstamp: "tstamp g T = Some u \<Longrightarrow> tstamp g' T = Some u"
    and rely_cver: "mine u s g l \<Longrightarrow> cver g' l = cver g l"
    and rely_pend: "mine u s g l \<Longrightarrow> pend g' l = pend g l"
    and rely_upre: "mine u s g l \<Longrightarrow> upre g' l = upre g l"
    and rely_mem: "mine u s g (GET_LOCK a) \<Longrightarrow> mem s' a = mem s a"
    and rely_mine_dirty: "mine u s g (GET_LOCK a) \<Longrightarrow> dirty g' a = dirty g a"
    and rely_mine_hist: "mine u s g (GET_LOCK a) \<Longrightarrow> hist g' ts a = hist g ts a"
    and rely_greads: "greads g' u = greads g u"
    and rely_hz: "hz g' u = hz g u"
  using assms unfolding rely_def by blast+

lemma rely_I:
  assumes "clock s \<le> clock s'"
    and "\<And>l v e. RV g l v e \<Longrightarrow> e \<le> clock s \<Longrightarrow> RV g' l v e"
    and "\<And>a v e. RV g (GET_LOCK a) v e \<Longrightarrow> e \<le> clock s \<Longrightarrow> hist g' v a = hist g v a"
    and "\<And>l v. RS g l v \<Longrightarrow> RS g' l v"
    and "\<And>a v x. RA g a v x \<Longrightarrow> RA g' a v x"
    and "\<And>l k. locks s' l = Owned u k \<longleftrightarrow> locks s l = Owned u k"
    and "\<And>l. uown g' l = Some u \<longleftrightarrow> uown g l = Some u"
    and "\<And>a. dirty g' a = Some u \<longleftrightarrow> dirty g a = Some u"
    and "\<And>T. tstamp g T = Some u \<Longrightarrow> tstamp g' T = Some u"
    and "\<And>l. mine u s g l \<Longrightarrow> cver g' l = cver g l \<and> pend g' l = pend g l \<and> upre g' l = upre g l"
    and "\<And>a. mine u s g (GET_LOCK a) \<Longrightarrow> mem s' a = mem s a \<and> dirty g' a = dirty g a"
    and "\<And>a ts. mine u s g (GET_LOCK a) \<Longrightarrow> hist g' ts a = hist g ts a"
    and "greads g' u = greads g u" "hz g' u = hz g u"
  shows "rely u (s, g) (s', g')"
  unfolding rely_def split using assms by blast

lemma GI_not_mine: "GI s g \<Longrightarrow> mine t s g l \<Longrightarrow> u \<noteq> t \<Longrightarrow> \<not> mine u s g l"
  using GI_unit unfolding mine_def by (metis lock.distinct(5) lock.inject(2) option.inject option.discI)

lemma GI_dirty_mine: "GI s g \<Longrightarrow> mine t s g (GET_LOCK a) \<Longrightarrow> dirty g a = None \<or> dirty g a = Some t"
  using GI_dirty GI_not_mine by (metis not_None_eq)

lemma own_mine:
  "own t s th \<Longrightarrow> k \<in> held th \<Longrightarrow> mine t s g (w_lock (w_set (desc th) ! k))"
  unfolding own_def mine_def by blast

lemma cover_mine:
  assumes "own t s th" "cover i th" "i \<le> j" "j < length (w_set (desc th))"
  shows "mine t s g (w_lock (w_set (desc th) ! j))"
  using assms own_mine unfolding cover_def by metis

lemma unit_own_mine: "unit_own t g th \<Longrightarrow> unit_lock th = Some l \<Longrightarrow> mine t s g l"
  unfolding unit_own_def mine_def by blast

lemma unwritten_index:
  assumes "a \<in> unwritten th" "hold_range th = {i..}"
  obtains j where "i \<le> j" "j < length (w_set (desc th))" "w_addr (w_set (desc th) ! j) = a"
proof -
  have "a \<in> w_addr ` set (drop i (w_set (desc th)))"
    using assms set_drop_subset_set_drop [of i "Suc i" "w_set (desc th)"]
    unfolding unwritten_def hold_range_def by (auto split: pc.splits)
  with that show thesis
    by (auto simp: set_drop_conv_nth)
qed

lemma unwritten_mine:
  assumes "own t s th" "cover i th" "wf_sets th" "hold_range th = {i..}" "a \<in> unwritten th"
  shows "mine t s g (GET_LOCK a)"
proof -
  obtain j where j: "i \<le> j" "j < length (w_set (desc th))" "w_addr (w_set (desc th) ! j) = a"
    using assms(5,4) by (rule unwritten_index)
  then have "w_lock (w_set (desc th) ! j) = GET_LOCK a"
    using assms(3) by (auto simp: wf_sets_def)
  then show ?thesis
    using cover_mine [OF assms(1,2) j(1,2)] by metis
qed

lemma held_pre_stable:
  assumes "rely t (s, g) (s', g')" "own t s th"
  shows "held_pre x g th \<Longrightarrow> held_pre x g' th"
  using rely_cver [OF assms(1)] rely_pend [OF assms(1)] own_mine [OF assms(2)]
  unfolding held_pre_def Let_def by metis

lemma held_post_stable:
  assumes r: "rely t (s, g) (s', g')" and o: "own t s th" and c: "cover i th" "wf_sets th"
    "hold_range th = {i..}" and h: "held_post T s g th"
  shows "held_post T s' g' th"
proof -
  have "T \<le> clock s'"
    using h rely_clock [OF r] by (simp add: held_post_def)
  moreover have "cver g' (w_lock (w_set (desc th) ! k)) = T"
      "pend g' (w_lock (w_set (desc th) ! k)) = None" if "k \<in> held th" for k
    using that h rely_cver [OF r] rely_pend [OF r] own_mine [OF o that]
    unfolding held_post_def Let_def by metis+
  moreover have "hist g' T a = hist g T a" "mem s' a = mem s a" if "a \<in> unwritten th" for a
    using rely_mine_hist [OF r] rely_mem [OF r] unwritten_mine [OF o c that] by blast+
  ultimately show ?thesis
    using h by (simp add: held_post_def)
qed

lemma valid_upto_stable:
  "rely t (s, g) (s', g') \<Longrightarrow> e \<le> clock s \<Longrightarrow> valid_upto g th i e \<Longrightarrow> valid_upto g' th i e"
  unfolding valid_upto_def using rely_RV by blast

lemma ext_inv_stable: "rely t (s, g) (s', g') \<Longrightarrow> ext_inv g ctx \<Longrightarrow> ext_inv g' ctx"
  by (auto simp: ext_inv_def rely_RA split: ext_ctx.splits)

lemma reads_ok_stable:
  assumes r: "rely t (s, g) (s', g')" and h: "reads_ok c t s g th"
  shows "reads_ok c t s' g' th"
proof -
  have "x = hist g' v a \<and> RV g' (GET_LOCK a) v (hz g t)"
    if "(a, v, x) \<in> set (greads g t)" "in_tx th" "snap_ok c th" for a v x
    using that h rely_RV [OF r] rely_hist [OF r] unfolding reads_ok_def by fastforce
  moreover have "clock s \<le> clock s'"
    by (rule rely_clock [OF r])
  ultimately show ?thesis
    using h unfolding reads_ok_def rely_greads [OF r] rely_hz [OF r] by fastforce
qed

lemma pc_inv_stable:
  assumes r: "rely t (s, g) (s', g')" and o: "own t s th" "unit_own t g th" "wf_sets th"
    and h: "pc_inv t s g th"
  shows "pc_inv t s' g' th"
proof (cases "pc th")
  case (C_wb T i)
  then have "hold_range th = {i..}" by (simp add: hold_range_def)
  with C_wb h show ?thesis
    using held_post_stable [OF r o(1)] o(3) by (auto simp: pc_inv_def)
next
  case (C_wst T i x)
  then have hr: "hold_range th = {i..}" by (simp add: hold_range_def)
  from C_wst h have i: "i < length (w_set (desc th))" "cover i th"
    by (simp_all add: pc_inv_def)
  then have "mine t s g (GET_LOCK (w_addr (w_set (desc th) ! i)))"
    using cover_mine [OF o(1) i(2) order_refl i(1)] o(3) by (simp add: wf_sets_def)
  with C_wst h hr show ?thesis
    using held_post_stable [OF r o(1)] o(3) rely_mine_hist [OF r] by (auto simp: pc_inv_def)
next
  case (C_rel T i)
  then have "hold_range th = {i..}" by (simp add: hold_range_def)
  with C_rel h show ?thesis
    using held_post_stable [OF r o(1)] o(3) by (auto simp: pc_inv_def)
next
  case (UW_store a x ts)
  then have "mine t s g (GET_LOCK a)"
    by (intro unit_own_mine [OF o(2)]) (simp add: unit_lock_def)
  with UW_store h show ?thesis
    using rely_mine_dirty [OF r] rely_upre [OF r] by (auto simp: pc_inv_def)
next
  case (UW_inc a x ts)
  then have "mine t s g (GET_LOCK a)"
    by (intro unit_own_mine [OF o(2)]) (simp add: unit_lock_def)
  with UW_inc h show ?thesis
    using rely_mine_dirty [OF r] rely_mem [OF r] rely_upre [OF r] by (auto simp: pc_inv_def)
next
  case (UW_rel a T ts)
  then have "mine t s g (GET_LOCK a)"
    by (intro unit_own_mine [OF o(2)]) (simp add: unit_lock_def)
  with UW_rel h show ?thesis
    using rely_mine_dirty [OF r] rely_cver [OF r] rely_upre [OF r] by (auto simp: pc_inv_def)
qed (use h rely_RS [OF r] rely_RA [OF r] rely_hz [OF r] rely_clock [OF r] rely_tstamp [OF r]
        ext_inv_stable [OF r] held_pre_stable [OF r o(1)] valid_upto_stable [OF r]
      in \<open>auto simp: pc_inv_def\<close>)

lemma LI_stable:
  assumes "rely t (s, g) (s', g')" "LI c t s g th"
  shows "LI c t s' g' th"
proof -
  have "own t s' th" "unit_own t g' th" "dirty_own t g' th"
    using assms rely_owned [OF assms(1)] rely_uown [OF assms(1)] rely_dirty [OF assms(1)]
    by (auto simp: LI_def own_def unit_own_def dirty_own_def)
  then show ?thesis
    using assms(2) reads_ok_stable [OF assms(1)] pc_inv_stable [OF assms(1)] unfolding LI_def by blast
qed

end
