(* ===== verification/Stm_Local.thy ===== *)
theory Stm_Local
  imports Stm_Inv
begin

text \<open>
  Steps that only change the thread: the invariant of a thread between two accesses to shared
  memory. \<open>body\<close> is what holds of a thread in application code or inside an operation that has
  not started to commit; each of the local functions of \<open>Stm_Steps\<close> is shown to lead from \<open>body\<close>
  to the invariant at the program counter it chooses.
\<close>

section \<open>Threads that hold nothing\<close>

definition nothing :: "tid \<Rightarrow> shared \<Rightarrow> ghost \<Rightarrow> bool" where
  "nothing t s g \<longleftrightarrow> (\<forall>l k. locks s l \<noteq> Owned t k) \<and> (\<forall>l. uown g l \<noteq> Some t) \<and>
     (\<forall>a. dirty g a \<noteq> Some t)"

definition plain :: "thread \<Rightarrow> bool" where
  "plain th \<longleftrightarrow> held th = {} \<and> unit_lock th = None \<and> unwritten th = {}"

lemma plain_nothing:
  "plain th \<Longrightarrow> own t s th \<and> unit_own t g th \<and> dirty_own t g th \<longleftrightarrow> nothing t s g"
  unfolding plain_def own_def unit_own_def dirty_own_def nothing_def by auto

definition snapshot :: "config \<Rightarrow> tid \<Rightarrow> shared \<Rightarrow> ghost \<Rightarrow> thread \<Rightarrow> bool" where
  "snapshot c t s g th \<longleftrightarrow>
     tx_start (desc th) \<le> hz g t \<and> tx_end (desc th) \<le> hz g t \<and> hz g t \<le> clock s \<and>
     (\<not> ro (desc th) \<longrightarrow> r_set (desc th) = map r_entry_of (greads g t)) \<and>
     (snap_ok c th \<longrightarrow> (\<forall>(a, v, x)\<in>set (greads g t). x = hist g v a \<and> RV g (GET_LOCK a) v (hz g t)))"

lemma reads_ok_snapshot: "reads_ok c t s g th \<longleftrightarrow> (in_tx th \<longrightarrow> snapshot c t s g th)"
  by (simp add: reads_ok_def snapshot_def)

definition body :: "config \<Rightarrow> tid \<Rightarrow> shared \<Rightarrow> ghost \<Rightarrow> thread \<Rightarrow> bool" where
  "body c t s g th \<longleftrightarrow> 0 \<le> nesting (desc th) \<and> wf_sets th \<and> fresh th \<and> nothing t s g \<and>
     (0 < nesting (desc th) \<longrightarrow> status (desc th) = TX_ACTIVE \<and>
        (ro (desc th) \<longrightarrow> w_set (desc th) = []) \<and> snapshot c t s g th)"

lemmas body_defs = body_def wf_sets_def fresh_def snapshot_def snap_ok_def

text \<open>Fields that the invariant of the descriptor does not look at.\<close>

lemma body_irrelevant [simp]:
  "body c t s g (th\<lparr>pc := p\<rparr>) = body c t s g th"
  "body c t s g (th\<lparr>res := r\<rparr>) = body c t s g th"
  "body c t s g (th\<lparr>cbuf := b\<rparr>) = body c t s g th"
  "body c t s g (th\<lparr>cbs := e\<rparr>) = body c t s g th"
  "body c t s g (th\<lparr>desc := d\<lparr>stats := st\<rparr>\<rparr>) = body c t s g (th\<lparr>desc := d\<rparr>)"
  "body c t s g (th\<lparr>desc := d\<lparr>attr := at\<rparr>\<rparr>) = body c t s g (th\<lparr>desc := d\<rparr>)"
  "body c t s g (th\<lparr>desc := d\<lparr>ea_aborted := e'\<rparr>\<rparr>) = body c t s g (th\<lparr>desc := d\<rparr>)"
  "body c t s g (th\<lparr>desc := desc th\<rparr>) = body c t s g th"
  "body c t s g (th\<lparr>cbuf := b, desc := d\<rparr>) = body c t s g (th\<lparr>desc := d\<rparr>)"
  by (simp_all add: body_defs)

definition normal :: "pc \<Rightarrow> bool" where
  "normal p = (case p of
     App \<Rightarrow> True | R_lock _ \<Rightarrow> True | R_val _ _ \<Rightarrow> True | R_lock2 _ _ _ \<Rightarrow> True | R_lock3 _ _ _ \<Rightarrow> True
   | LoadEnd _ \<Rightarrow> True | E_clock _ \<Rightarrow> True | E_val _ _ _ \<Rightarrow> True | W_lock _ _ _ \<Rightarrow> True | WriteEnd \<Rightarrow> True
   | _ \<Rightarrow> False)"

lemma normal_plain: "normal (pc th) \<Longrightarrow> plain th"
  by (auto simp: normal_def plain_def held_def hold_range_def unit_lock_def unwritten_def
      split: pc.splits)

lemma normal_in_tx: "normal (pc th) \<Longrightarrow> in_tx th \<longleftrightarrow> 0 < nesting (desc th)"
  by (auto simp: normal_def in_tx_def split: pc.splits)

lemma LI_body:
  assumes "LI c t s g th" "normal (pc th)"
    "pc th = App \<longrightarrow> 0 < nesting (desc th) \<or> ea_extratick c \<and> tx_on (cbuf th)"
  shows "body c t s g th"
proof -
  have "fresh th"
    using assms by (auto simp: LI_def acq_ok_def normal_def split: pc.splits)
  with assms show ?thesis
    using plain_nothing [OF normal_plain] normal_in_tx
    by (auto simp: LI_def body_def reads_ok_snapshot nest_ok_def)
qed

definition nest_pc :: "config \<Rightarrow> thread \<Rightarrow> bool" where
  "nest_pc c th = (case pc th of
     R_lock _ \<Rightarrow> nesting (desc th) > 0 | R_val _ _ \<Rightarrow> nesting (desc th) > 0
   | R_lock2 _ _ _ \<Rightarrow> nesting (desc th) > 0
   | R_lock3 _ _ _ \<Rightarrow> nesting (desc th) > 0 \<and> \<not> ro (desc th)
   | W_lock _ _ _ \<Rightarrow> nesting (desc th) > 0 \<and> \<not> ro (desc th)
   | E_clock ctx \<Rightarrow> (case ctx of ExtRead _ _ _ \<Rightarrow> nesting (desc th) > 0 \<and> \<not> ro (desc th)
                     | _ \<Rightarrow> ea_extratick c)
   | E_val ctx _ _ \<Rightarrow> (case ctx of ExtRead _ _ _ \<Rightarrow> nesting (desc th) > 0 \<and> \<not> ro (desc th)
                     | _ \<Rightarrow> ea_extratick c)
   | _ \<Rightarrow> True)"

lemma body_LI:
  assumes "body c t s g th" "normal (pc th)" "txon_ok c th" "nest_pc c th" "pc_inv t s g th"
  shows "LI c t s g th"
proof -
  have "acq_ok c th"
    using assms by (auto simp: body_def acq_ok_def normal_def split: pc.splits)
  moreover have "nest_ok c th"
    using assms normal_in_tx
    by (auto simp: nest_ok_def nest_pc_def body_def normal_def split: pc.splits)
  ultimately show ?thesis
    using assms plain_nothing [OF normal_plain] normal_in_tx
    by (auto simp: LI_def body_def reads_ok_snapshot)
qed

lemma LI_app:
  assumes "body c t s g th" "pc th = App"
    "ea_extratick c \<Longrightarrow> \<not> ea_simulate_et_kernel c \<Longrightarrow> 0 < nesting (desc th) \<Longrightarrow> tx_on (cbuf th)"
  shows "LI c t s g th"
  using assms by (intro body_LI) (auto simp: normal_def txon_ok_def platform_mode_def nest_pc_def pc_inv_def)

text \<open>Points outside of a transaction at which no lock is held.\<close>

definition resting :: "tid \<Rightarrow> shared \<Rightarrow> ghost \<Rightarrow> thread \<Rightarrow> bool" where
  "resting t s g th \<longleftrightarrow> 0 \<le> nesting (desc th) \<and> wf_sets th \<and> nothing t s g"

lemma body_resting: "body c t s g th \<Longrightarrow> resting t s g th"
  by (simp add: body_def resting_def)

lemma LI_resting:
  assumes "resting t s g th" "pc th = B_end ctx reason \<or> pc th = P_clock pctx \<or>
     pc th = P_barrier pctx" "pctx \<noteq> PrepUnit \<and> nesting (desc th) = 1 \<or> pc th = B_end ctx reason"
    "pctx = PrepStart \<Longrightarrow> ea_extratick c \<Longrightarrow> \<not> ea_simulate_et_kernel c \<Longrightarrow> tx_on (cbuf th)"
  shows "LI c t s g th"
proof -
  have "plain th"
    using assms(2) by (auto simp: plain_def held_def hold_range_def unit_lock_def unwritten_def)
  then have "own t s th \<and> unit_own t g th \<and> dirty_own t g th"
    using assms(1) by (simp add: plain_nothing resting_def)
  with assms show ?thesis
    by (auto simp: LI_def resting_def reads_ok_def nest_ok_def in_tx_def acq_ok_def pc_inv_def
        txon_ok_def platform_mode_def split: prep_ctx.splits)
qed

lemma LI_outside:
  assumes "LI c t s g th" "pc th = B_end ctx reason \<or> pc th = P_clock pctx \<or>
     pc th = P_barrier pctx"
  shows "resting t s g th"
proof -
  have "plain th"
    using assms(2) by (auto simp: plain_def held_def hold_range_def unit_lock_def unwritten_def)
  with assms(1) show ?thesis
    using plain_nothing by (auto simp: resting_def LI_def nest_ok_def)
qed

section \<open>Rollback\<close>

lemma leave_stand_simps [simp]:
  "desc (leave_stand c th) = desc th" "pc (leave_stand c th) = pc th"
  "\<not> ea_simulate_et_kernel c \<Longrightarrow> tx_on (cbuf (leave_stand c th))"
  by (simp_all add: leave_stand_def)

lemma body_leave_stand [simp]: "body c t s g (leave_stand c th) = body c t s g th"
  by (simp add: leave_stand_def)

text \<open>Returning from \<^verbatim>\<open>stm_rollback\<close>, with the transaction still going or given up.\<close>

lemma rb_return_LI:
  assumes "body c t s g th" "nesting (desc th) = 0 \<or> ctx = RbTick \<or> ctx = RbStandStore \<or>
     (\<exists>v. ctx = RbStandLoad v)"
  shows "LI c t s g (rb_return c ctx th)"
proof (cases ctx)
  case RbLoad
  with assms show ?thesis
    by (auto intro!: body_LI simp: rb_return_def normal_def txon_ok_def platform_mode_def
        nest_pc_def pc_inv_def)
qed (use assms in \<open>auto intro!: LI_app simp: rb_return_def\<close>)

lemma stm_rollback_body_LI:
  assumes b: "body c t s g th" and "\<not> tx_on (cbuf th) \<Longrightarrow> ea_extratick c \<Longrightarrow> ea_simulate_abort c \<Longrightarrow>
     ctx = RbTick \<or> ctx = RbStandStore \<or> (\<exists>v. ctx = RbStandLoad v)"
  shows "LI c t s g (stm_rollback c ctx reason th)"
proof -
  have "nb_acquired (desc th) = 0"
    using b by (simp add: body_def fresh_def)
  moreover have "LI c t s g (th\<lparr>pc := B_end ctx reason\<rparr>)"
    using b by (intro LI_resting [where pctx = PrepUnit]) (auto intro: body_resting)
  moreover have "LI c t s g (rb_return c ctx (th\<lparr>desc := (desc th)\<lparr>ea_aborted := True\<rparr>,
      cbuf := (cbuf th)\<lparr>standing := False\<rparr>\<rparr>))" if "\<not> tx_on (cbuf th)" "ea_extratick c" "ea_simulate_abort c"
    using b assms(2) that by (intro rb_return_LI) auto
  ultimately show ?thesis
    by (auto simp: stm_rollback_def)
qed

lemma stm_abort_body_LI:
  assumes "body c t s g th" "\<not> tx_on (cbuf th) \<Longrightarrow> ea_extratick c \<Longrightarrow> ea_simulate_abort c \<Longrightarrow>
     ctx = RbTick \<or> ctx = RbStandStore \<or> (\<exists>v. ctx = RbStandLoad v)"
  shows "LI c t s g (stm_abort c ctx reason th)"
  using stm_rollback_body_LI [OF assms] by (simp add: stm_abort_def)

lemma rollback_restart_LI:
  assumes "body c t s g th" "nesting (desc th) = 1"
  shows "LI c t s g (rollback_restart c ctx reason th)"
proof -
  have "body c t s g (th\<lparr>desc := (desc th)\<lparr>nesting := 0\<rparr>\<rparr>)"
    using assms by (simp add: body_defs)
  then have "body c t s g (th\<lparr>desc := (desc th)\<lparr>nesting := 0\<rparr>, cbuf := b\<rparr>)" for b
    by (metis body_irrelevant(3))
  then have "LI c t s g (rb_return c ctx (th\<lparr>desc := (desc th)\<lparr>nesting := 0\<rparr>, cbuf := b\<rparr>))" for b
    by (intro rb_return_LI) auto
  moreover have "LI c t s g (th\<lparr>cbuf := b, pc := App, res := r\<rparr>)"
    if "ea_extratick c \<Longrightarrow> \<not> ea_simulate_et_kernel c \<Longrightarrow> tx_on b" for b r
    using assms that by (intro LI_app) auto
  ultimately show ?thesis
    by (auto simp: rollback_restart_def split: option.splits)
qed

section \<open>Extension\<close>

lemma extend_ok_LI:
  assumes b: "body c t s g th" and "nest_pc c (th\<lparr>pc := E_clock ctx\<rparr>)"
    and "\<And>a v x. ctx = ExtRead a v x \<Longrightarrow> RA g a v x \<and> v \<le> hz g t \<and> txon_ok c (th\<lparr>pc := R_lock a\<rparr>)"
  shows "LI c t s g (extend_ok c ctx th)"
proof (cases ctx)
  case (ExtRead a v x)
  with assms show ?thesis
    by (auto intro!: body_LI simp: extend_ok_def normal_def txon_ok_def platform_mode_def nest_pc_def
        pc_inv_def Let_def)
qed (use b in \<open>auto intro!: LI_app simp: extend_ok_def Let_def\<close>)

lemma extend_failed_LI:
  assumes b: "body c t s g th" and "cfg_ok c"
    and "\<And>a v x. ctx = ExtRead a v x \<Longrightarrow> txon_ok c (th\<lparr>pc := R_lock a\<rparr>)"
  shows "LI c t s g (extend_failed c ctx th)"
proof (cases ctx)
  case (ExtRead a v x)
  with assms show ?thesis
    by (auto intro!: stm_rollback_body_LI simp: extend_failed_def read_abort_def txon_ok_def
        platform_mode_def cfg_ok_def)
qed (use b in \<open>auto intro!: stm_abort_body_LI simp: extend_failed_def\<close>)

lemma stm_extend_LI:
  assumes b: "body c t s g th" and "cfg_ok c" and "nest_pc c (th\<lparr>pc := E_clock ctx\<rparr>)"
    and "\<And>a v x. ctx = ExtRead a v x \<Longrightarrow> RA g a v x \<and> txon_ok c (th\<lparr>pc := R_lock a\<rparr>)"
  shows "LI c t s g (stm_extend c ctx th)"
proof -
  have e: "LI c t s g (th\<lparr>cbuf := b, pc := E_clock ctx\<rparr>)" if "tx_on b = tx_on (cbuf th)" for b
    using assms that by (intro body_LI) (auto simp: normal_def txon_ok_def platform_mode_def nest_pc_def
        pc_inv_def ext_inv_def split: ext_ctx.splits)
  have e': "LI c t s g (th\<lparr>pc := E_clock ctx\<rparr>)"
    using e [of "cbuf th"] by simp
  have "LI c t s g (extend_ok c ctx th)"
    if "ea_extratick c" "\<not> tx_on (cbuf th)" "ea_simulate_et_user c \<or> ea_simulate_abort c"
    using assms that by (intro extend_ok_LI) (auto simp: txon_ok_def platform_mode_def cfg_ok_def)
  with e e' show ?thesis
    by (auto simp: stm_extend_def Let_def)
qed

lemma stand_extend_LI:
  assumes "body c t s g th" "cfg_ok c" "ea_extratick c" "\<And>a v x. ctx \<noteq> ExtRead a v x"
  shows "LI c t s g (stand_extend c ctx th)"
  unfolding stand_extend_def using assms
  by (intro stm_extend_LI) (auto simp: nest_pc_def split: ext_ctx.splits)

section \<open>Entering an operation\<close>

text \<open>A thread in application code, outside of a transaction.\<close>

definition idle :: "config \<Rightarrow> tid \<Rightarrow> shared \<Rightarrow> ghost \<Rightarrow> thread \<Rightarrow> bool" where
  "idle c t s g th \<longleftrightarrow> nesting (desc th) = 0 \<and> resting t s g th \<and>
     (ea_extratick c \<and> tx_on (cbuf th) \<longrightarrow> fresh th)"

lemma idle_irrelevant [simp]:
  "idle c t s g (th\<lparr>pc := p\<rparr>) = idle c t s g th"
  "idle c t s g (th\<lparr>res := r\<rparr>) = idle c t s g th"
  by (simp_all add: idle_def resting_def wf_sets_def fresh_def)

lemma LI_idle:
  assumes "LI c t s g th" "nesting (desc th) = 0"
    "pc th = App \<or> (\<exists>a. pc th = UL_lock a) \<or> (\<exists>a v. pc th = UL_val a v) \<or>
     (\<exists>a v x. pc th = UL_lock2 a v x) \<or> (\<exists>a x n. pc th = UW_lock a x n) \<or>
     (\<exists>a x n v. pc th = UW_cas a x n v) \<or> pc th = P_barrier PrepUnit"
  shows "idle c t s g th"
proof -
  have "plain th"
    using assms(3) by (auto simp: plain_def held_def hold_range_def unit_lock_def unwritten_def)
  with assms show ?thesis
    using plain_nothing by (auto simp: idle_def resting_def LI_def nest_ok_def acq_ok_def)
qed

lemma idle_LI:
  assumes "idle c t s g th" "pc_inv t s g th"
    "pc th = App \<or> (\<exists>a. pc th = UL_lock a) \<or> (\<exists>a v. pc th = UL_val a v) \<or>
     (\<exists>a v x. pc th = UL_lock2 a v x) \<or> (\<exists>a x n. pc th = UW_lock a x n) \<or>
     (\<exists>a x n v. pc th = UW_cas a x n v) \<or> pc th = P_barrier PrepUnit"
  shows "LI c t s g th"
proof -
  have "plain th"
    using assms(3) by (auto simp: plain_def held_def hold_range_def unit_lock_def unwritten_def)
  then have "own t s th \<and> unit_own t g th \<and> dirty_own t g th"
    using assms(1) by (simp add: plain_nothing idle_def resting_def)
  with assms show ?thesis
    by (auto simp: idle_def resting_def LI_def nest_ok_def acq_ok_def reads_ok_def in_tx_def
        txon_ok_def platform_mode_def)
qed

lemma unit_call_LI:
  assumes "LI c t s g th" "pc th = App" "nesting (desc th) = 0"
    "p = UL_lock a \<or> p = UW_lock a x n"
  shows "LI c t s g (th\<lparr>pc := p\<rparr>)"
proof (rule idle_LI)
  show "idle c t s g (th\<lparr>pc := p\<rparr>)"
    using LI_idle [OF assms(1)] assms(2,3) by simp
qed (use assms(4) in \<open>auto simp: pc_inv_def\<close>)

lemma stm_start_LI:
  assumes "LI c t s g th" "pc th = App"
  shows "LI c t s g (stm_start c at th)"
proof (cases "0 < nesting (desc th)")
  case True
  then have "body c t s g th"
    using assms by (intro LI_body) (auto simp: normal_def)
  then have "body c t s g (th\<lparr>desc := (desc th)\<lparr>nesting := nesting (desc th) + 1\<rparr>\<rparr>)"
    using True by (simp add: body_defs)
  then have "body c t s g (th\<lparr>desc := (desc th)\<lparr>nesting := nesting (desc th) + 1\<rparr>, cbuf := b,
      res := r\<rparr>)" for b r
    by (metis body_irrelevant(2,3))
  moreover from this [where b = "cbuf th"]
  have "body c t s g (th\<lparr>desc := (desc th)\<lparr>nesting := nesting (desc th) + 1\<rparr>, res := r\<rparr>)" for r
    by simp
  ultimately show ?thesis
    using True assms(2) by (auto intro!: LI_app simp: stm_start_def Let_def)
next
  case False
  with assms have "idle c t s g th"
    by (intro LI_idle) (auto simp: LI_def nest_ok_def)
  with False assms(2) show ?thesis
    by (auto intro!: LI_resting [where pctx = PrepStart]
        simp: stm_start_def Let_def idle_def resting_def wf_sets_def)
qed

text \<open>\<^verbatim>\<open>tx_on\<close> is set whenever an abort may come from inside an operation.\<close>

lemma platform_tx_on:
  "LI c t s g th \<Longrightarrow> platform_mode th \<Longrightarrow> cfg_ok c \<Longrightarrow> ea_extratick c \<Longrightarrow>
     ea_simulate_abort c \<or> ea_simulate_et_user c \<Longrightarrow> tx_on (cbuf th)"
  by (auto simp: LI_def txon_ok_def cfg_ok_def)

lemma load_enter_LI:
  assumes "LI c t s g th" "pc th = App" "0 < nesting (desc th)"
  shows "LI c t s g (load_enter a th)"
proof -
  have b: "body c t s g th"
    using assms by (intro LI_body) (auto simp: normal_def)
  have "LI c t s g (th\<lparr>pc := p\<rparr>)" if "p = R_lock a \<or> (\<exists>x. p = LoadEnd x)" for p
    using assms b that by (intro body_LI)
      (auto simp: normal_def LI_def txon_ok_def platform_mode_def nest_pc_def pc_inv_def)
  then show ?thesis
    by (auto simp: load_enter_def split: option.splits)
qed

lemma write_enter_LI:
  assumes "LI c t s g th" "pc th = App" "0 < nesting (desc th)" "cfg_ok c"
  shows "LI c t s g (write_enter c a x m th)"
proof -
  have b: "body c t s g th"
    using assms by (intro LI_body) (auto simp: normal_def)
  have on: "tx_on (cbuf th)" if "ea_extratick c" "ea_simulate_abort c"
    using that assms by (intro platform_tx_on [OF assms(1)]) (auto simp: platform_mode_def)
  have "LI c t s g (th\<lparr>pc := W_lock a x m\<rparr>)" if "\<not> ro (desc th)"
    using assms b that by (intro body_LI)
      (auto simp: normal_def LI_def txon_ok_def platform_mode_def nest_pc_def pc_inv_def)
  moreover have "LI c t s g (stm_rollback c RbStore STM_ABORT_RO_WRITE
        (th\<lparr>desc := (desc th)\<lparr>attr := at, stats := st\<rparr>\<rparr>))" for at st
    using b on by (intro stm_rollback_body_LI) auto
  ultimately show ?thesis
    by (simp add: write_enter_def)
qed

lemma abort_call_LI:
  assumes "LI c t s g th" "pc th = App" "0 < nesting (desc th)" "cfg_ok c"
  shows "LI c t s g (stm_abort c RbAbort reason th)"
proof -
  have "body c t s g th"
    using assms by (intro LI_body) (auto simp: normal_def)
  then show ?thesis
    using assms platform_tx_on [OF assms(1)]
    by (intro stm_abort_body_LI) (auto simp: platform_mode_def)
qed

lemma set_extension_LI:
  assumes "LI c t s g th" "pc th = App" "0 < nesting (desc th)"
  shows "LI c t s g (stm_set_extension enable n th)"
proof -
  have "body c t s g th"
    using assms by (intro LI_body) (auto simp: normal_def)
  then have "body c t s g (stm_set_extension enable n th)"
    by (auto simp: stm_set_extension_def body_defs split: option.splits)
  then show ?thesis
    using assms by (intro LI_app)
      (auto simp: stm_set_extension_def LI_def txon_ok_def platform_mode_def)
qed

lemma held_fresh: "fresh th \<Longrightarrow> held th = {}"
  by (auto simp: fresh_def held_def)

lemma commit_enter_LI:
  assumes L: "LI c t s g th" "pc th = App" "0 < nesting (desc th)"
  shows "LI c t s g (commit_enter th)"
proof -
  have b: "body c t s g th"
    using L by (intro LI_body) (auto simp: normal_def)
  let ?th = "th\<lparr>desc := (desc th)\<lparr>nesting := nesting (desc th) - 1\<rparr>\<rparr>"
  have on: "ea_extratick c \<Longrightarrow> \<not> ea_simulate_et_kernel c \<Longrightarrow> tx_on (cbuf th)"
    using L by (auto simp: LI_def txon_ok_def platform_mode_def)
  have b': "body c t s g ?th"
    using b L(3) by (simp add: body_defs)
  show ?thesis
  proof (cases "0 < nesting (desc th) - 1")
    case True
    with b' L(2) on show ?thesis
      by (auto intro!: LI_app simp: commit_enter_def Let_def)
  next
    case False
    let ?p = "if w_set (desc th) = [] then C_end else C_load (length (w_set (desc th)) - 1)"
    let ?th' = "?th\<lparr>pc := ?p\<rparr>"
    have h: "held ?th' = {}"
      using b' by (intro held_fresh) (simp add: body_defs)
    then have "plain ?th'"
      by (simp add: plain_def unit_lock_def unwritten_def)
    then have "own t s ?th' \<and> unit_own t g ?th' \<and> dirty_own t g ?th'"
      using b by (simp add: plain_nothing body_def)
    moreover have "reads_ok c t s g ?th'"
      using b L(3) by (simp add: reads_ok_snapshot body_defs)
    moreover have "pc_inv t s g ?th'" "acq_ok c ?th'"
      using b' h by (auto simp: pc_inv_def acq_ok_def cover_def held_pre_def body_defs)
    moreover have "nest_ok c ?th'" "txon_ok c ?th'" "wf_sets ?th'"
      using b L on False by (auto simp: nest_ok_def txon_ok_def body_defs)
    ultimately have "LI c t s g ?th'"
      by (simp add: LI_def)
    with False show ?thesis
      by (simp add: commit_enter_def Let_def split: if_splits)
  qed
qed

lemma call_LI:
  assumes "LI c t s g th" "pc th = App" "op_ok oper th" "cfg_ok c"
  shows "LI c t s g (call c oper th)"
  using assms
  by (cases oper)
    (simp_all add: call_def op_ok_def stm_start_LI load_enter_LI write_enter_LI commit_enter_LI
      abort_call_LI set_extension_LI unit_call_LI)

section \<open>Timer interrupts\<close>

lemma LI_cbuf:
  "tx_on b = tx_on (cbuf th) \<Longrightarrow> LI c t s g (th\<lparr>cbuf := b\<rparr>) = LI c t s g th"
  by (cases "pc th")
    (simp_all add: LI_def nest_ok_def txon_ok_def acq_ok_def wf_sets_def own_def unit_own_def
      dirty_own_def reads_ok_def pc_inv_def in_tx_def platform_mode_def held_def hold_range_def
      unit_lock_def unwritten_def fresh_def snap_ok_def valid_upto_def cover_def held_pre_def
      held_post_def split: ext_ctx.splits prep_ctx.splits)

lemma tick_LI:
  assumes "LI c t s g th" "cfg_ok c" "ea_extratick c" "in_section (cbuf th) ip \<longrightarrow> pc th = App"
  shows "LI c t s g (stm_tick c callback now half ip s th)"
proof -
  obtain cb d where h: "tick_handler callback (clock s) (tx_end (desc th)) now half ip (cbuf th) = (cb, d)"
    by fastforce
  have L: "LI c t s g (th\<lparr>cbuf := cb\<rparr>)"
    using assms(1) LI_cbuf tick_handler_frame(1) [OF h] by metis
  show ?thesis
  proof (cases d)
    case True
    then have on: "tx_on (cbuf th)" "pc th = App"
      using tick_delivered_in_tx [of callback "clock s" "tx_end (desc th)" now half ip "cbuf th" cb]
        h assms(4) by simp_all
    then have "body c t s g (th\<lparr>cbuf := cb\<rparr>)"
      using L assms(3) tick_handler_frame(1) [OF h] by (intro LI_body) (auto simp: normal_def)
    then have "body c t s g (th\<lparr>cbuf := cb\<lparr>tx_on := False\<rparr>\<rparr>)"
      by simp
    then have "LI c t s g (stm_extend c ExtTick (th\<lparr>cbuf := cb\<lparr>tx_on := False\<rparr>\<rparr>))"
      using assms by (intro stm_extend_LI) (auto simp: nest_pc_def)
    with True h show ?thesis
      by (simp add: stm_tick_def stm_revalidate_def)
  next
    case False
    with h L show ?thesis
      by (simp add: stm_tick_def)
  qed
qed

end
