(* ===== verification/Stm_Reads.thy ===== *)
theory Stm_Reads
  imports Stm_Local
begin

text \<open>
  The steps that leave the shared memory alone: reading, validating, extending, adding to the write
  set, preparing and unit loads. Each keeps the invariant of the thread, and the observer changes
  nothing that another thread relies on.
\<close>

definition keeps :: "tid \<Rightarrow> shared \<times> ghost \<Rightarrow> shared \<times> ghost \<Rightarrow> bool" where
  "keeps t x x' \<longleftrightarrow> GI (fst x') (snd x') \<and> (\<forall>u. u \<noteq> t \<longrightarrow> rely u x x')"

lemma keeps_refl: "GI s g \<Longrightarrow> keeps t (s, g) (s, g)"
  by (simp add: keeps_def rely_def)

text \<open>The log of a thread's reads is its own.\<close>

definition same_but_log :: "tid \<Rightarrow> ghost \<Rightarrow> ghost \<Rightarrow> bool" where
  "same_but_log t g g' \<longleftrightarrow> hist g' = hist g \<and> cver g' = cver g \<and> pend g' = pend g \<and>
     dirty g' = dirty g \<and> uown g' = uown g \<and> upre g' = upre g \<and> tstamp g' = tstamp g \<and>
     (\<forall>u. u \<noteq> t \<longrightarrow> greads g' u = greads g u \<and> hz g' u = hz g u)"

lemma same_but_log_facts:
  assumes "same_but_log t g g'"
  shows "RV g' = RV g" "RS g' = RS g" "RA g' = RA g" "mine u s g' = mine u s g"
    "GI s g' = GI s g" "nothing u s g' = nothing u s g"
proof -
  note eqs = assms [unfolded same_but_log_def]
  show m: "mine u s g' = mine u s g" for u
    using eqs by (intro ext) (simp add: mine_def)
  show "RV g' = RV g" "RS g' = RS g" "RA g' = RA g"
    using eqs by (intro ext; simp add: RV_def RS_def RA_def)+
  show "GI s g' = GI s g" "nothing u s g' = nothing u s g"
    using eqs unfolding GI_def m nothing_def by simp_all
qed

lemma keeps_log:
  assumes "GI s g" "same_but_log t g g'"
  shows "keeps t (s, g) (s, g')"
  using assms same_but_log_facts [OF assms(2)]
  by (simp add: keeps_def rely_def) (simp add: same_but_log_def)

lemma same_but_log_read [simp]: "same_but_log t g (log_read t a v x g)"
  by (simp add: same_but_log_def log_read_def)

lemma same_but_log_hz [simp]: "same_but_log t g (g\<lparr>hz := (hz g)(t := h)\<rparr>)"
  by (simp add: same_but_log_def)

lemma same_but_log_reset [simp]:
  "same_but_log t g (g\<lparr>greads := (greads g)(t := r), hz := (hz g)(t := h)\<rparr>)"
  by (simp add: same_but_log_def)

text \<open>What a free lock says.\<close>

lemma GI_free_pend: "GI s g \<Longrightarrow> locks s l = Version v \<Longrightarrow> pend g l = None"
  using GI_pend_owned by fastforce

lemma GI_free_RV:
  assumes G: "GI s g" and l: "locks s l = Version v" and "v \<le> e"
  shows "RV g l v e"
proof (rule RV_I [OF \<open>v \<le> e\<close>])
  show "hist g ts a = hist g v a" if "GET_LOCK a = l" "v \<le> ts" for a ts
    using GI_hist [OF G] GI_version [OF G l] that by metis
qed (use GI_free_pend [OF G l] in simp)

lemma GI_free_RS: "GI s g \<Longrightarrow> locks s l = Version v \<Longrightarrow> RS g l v"
  unfolding RS_def by (auto dest: GI_version GI_version_dirty)

lemma RS_read: "GI s g \<Longrightarrow> RS g (GET_LOCK a) v \<Longrightarrow> RA g a v (mem s a)"
  unfolding RS_def RA_def using GI_mem by blast

lemma RA_RS: "RA g a v x \<Longrightarrow> RS g (GET_LOCK a) v"
  unfolding RS_def RA_def by blast

lemma RA_confirmed:
  assumes "GI s g" "RA g a v x" "locks s (GET_LOCK a) = Version v"
  shows "x = hist g v a"
  using assms GI_version [OF assms(1,3)] GI_upre [OF assms(1)] by (fastforce simp: RA_def)

section \<open>Completing a read\<close>

lemma snapshot_log_read:
  assumes "GI s g" "snapshot c t s g th" "RA g a v x" "locks s (GET_LOCK a) = Version v"
    "v \<le> hz g t"
    "\<not> ro (desc th) \<Longrightarrow> r_set d = r_set (desc th) @ [\<lparr>r_version = v, r_lock = GET_LOCK a\<rparr>]"
    "ro d = ro (desc th)" "tx_start d = tx_start (desc th)" "tx_end d = tx_end (desc th)"
  shows "snapshot c t s (log_read t a v x g) (th\<lparr>desc := d\<rparr>)"
proof -
  have "RV g (GET_LOCK a) v (hz g t)" "x = hist g v a"
    using GI_free_RV RA_confirmed assms by blast+
  moreover have "RV (log_read t a v x g) = RV g"
    by (rule same_but_log_facts [OF same_but_log_read])
  moreover have "hist (log_read t a v x g) = hist g" "hz (log_read t a v x g) = hz g"
    "greads (log_read t a v x g) t = greads g t @ [(a, v, x)]"
    by (simp_all add: log_read_def)
  ultimately show ?thesis
    using assms(2,6-9) by (auto simp: snapshot_def snap_ok_def r_entry_of_def)
qed

lemma add_to_read_set_simps [simp]:
  "r_set (add_to_read_set v l d) = r_set d @ [\<lparr>r_version = v, r_lock = l\<rparr>]"
  "w_set (add_to_read_set v l d) = w_set d" "nb_acquired (add_to_read_set v l d) = nb_acquired d"
  "ro (add_to_read_set v l d) = ro d" "nesting (add_to_read_set v l d) = nesting d"
  "status (add_to_read_set v l d) = status d"
  "tx_start (add_to_read_set v l d) = tx_start d" "tx_end (add_to_read_set v l d) = tx_end d"
  by (simp_all add: add_to_read_set_def stm_allocate_rs_entries_def Let_def)

lemma nothing_log_read [simp]: "nothing t s (log_read u a v x g) = nothing t s g"
  by (simp add: nothing_def log_read_def)

lemma read_done_LI:
  assumes "GI s g" "body c t s g th" "0 < nesting (desc th)" "RA g a v x"
    "locks s (GET_LOCK a) = Version v" "v \<le> hz g t" "txon_ok c (th\<lparr>pc := R_lock a\<rparr>)"
  shows "LI c t s (log_read t a v x g) (read_done a v x th)"
proof -
  let ?d = "if ro (desc th) then desc th else add_to_read_set v (GET_LOCK a) (desc th)"
  have "snapshot c t s (log_read t a v x g) (th\<lparr>desc := ?d\<rparr>)"
    using assms by (intro snapshot_log_read) (auto simp: body_def)
  then have "body c t s (log_read t a v x g) (th\<lparr>desc := ?d\<rparr>)"
    using assms(2,3) by (auto simp: body_def wf_sets_def fresh_def)
  then have "body c t s (log_read t a v x g) (read_done a v x th)"
    unfolding read_done_def by (simp only: body_irrelevant)
  then show ?thesis
    by (rule body_LI) (use assms(7) in \<open>auto simp: read_done_def normal_def txon_ok_def
        platform_mode_def nest_pc_def pc_inv_def split: if_splits\<close>)
qed

section \<open>The reading steps\<close>

lemma read_restart_LI:
  assumes "GI s g" "body c t s g th" "0 < nesting (desc th)" "txon_ok c (th\<lparr>pc := R_lock a\<rparr>)"
    "\<And>v. l = Version v \<Longrightarrow> RS g (GET_LOCK a) v"
  shows "LI c t s g (read_restart a l th)"
  using assms unfolding read_restart_def
  by (cases l) (auto intro!: body_LI simp: normal_def txon_ok_def platform_mode_def nest_pc_def pc_inv_def)

lemma step_R_lock:
  assumes "GI s g" "LI c t s g th" "pc th = R_lock a"
  shows "LI c t s g (read_restart a (locks s (GET_LOCK a)) th)"
proof -
  have "body c t s g th"
    using assms by (intro LI_body) (auto simp: normal_def)
  then show ?thesis
    using assms GI_free_RS [OF assms(1)]
    by (intro read_restart_LI) (auto simp: LI_def nest_ok_def txon_ok_def platform_mode_def)
qed

lemma step_R_val:
  assumes "GI s g" "LI c t s g th" "pc th = R_val a v"
  shows "LI c t s g (th\<lparr>pc := R_lock2 a v (mem s a)\<rparr>)"
proof -
  have "body c t s g th"
    using assms by (intro LI_body) (auto simp: normal_def)
  then show ?thesis
    using assms RS_read [OF assms(1)]
    by (intro body_LI)
      (auto simp: LI_def nest_ok_def normal_def txon_ok_def platform_mode_def nest_pc_def pc_inv_def)
qed

lemma step_R_lock2:
  assumes G: "GI s g" and L: "LI c t s g th" and p: "pc th = R_lock2 a v x" and "cfg_ok c"
  shows "LI c t s (observe t s th g) (snd (read_check c a v x (s, th)))"
proof -
  have b: "body c t s g th"
    using assms by (intro LI_body) (auto simp: normal_def)
  have n: "0 < nesting (desc th)" and r: "RA g a v x" and on: "txon_ok c (th\<lparr>pc := R_lock b\<rparr>)" for b
    using L p by (auto simp: LI_def nest_ok_def pc_inv_def txon_ok_def platform_mode_def)
  have plat: "tx_on (cbuf th)" if "ea_extratick c" "ea_simulate_abort c"
    using that assms by (intro platform_tx_on [OF L]) (auto simp: platform_mode_def)
  have hz: "tx_end (desc th) \<le> hz g t"
    using b n by (simp add: body_def snapshot_def)
  consider (moved) "locks s (GET_LOCK a) \<noteq> Version v"
    | (ok) "locks s (GET_LOCK a) = Version v" "v \<le> tx_end (desc th)"
    | (fail) "locks s (GET_LOCK a) = Version v" "tx_end (desc th) < v"
        "ro (desc th) \<or> \<not> can_extend (desc th)"
    | (extend) "locks s (GET_LOCK a) = Version v" "tx_end (desc th) < v"
        "\<not> ro (desc th)" "can_extend (desc th)"
    by force
  then show ?thesis
  proof cases
    case moved
    have "LI c t s g (read_restart a (locks s (GET_LOCK a)) th)"
      using GI_free_RS [OF G] by (intro read_restart_LI [OF G b n on]) auto
    with moved p show ?thesis
      by (simp add: observe_def read_check_def)
  next
    case ok
    have "LI c t s (log_read t a v x g) (read_done a v x th)"
      using ok hz by (intro read_done_LI [OF G b n r _ _ on]) auto
    with ok p show ?thesis
      by (simp add: observe_def read_check_def)
  next
    case fail
    have "LI c t s g (read_abort c th)"
      unfolding read_abort_def using b plat by (intro stm_rollback_body_LI) auto
    with fail p show ?thesis
      by (auto simp: observe_def read_check_def)
  next
    case extend
    have "LI c t s g (stm_extend c (ExtRead a v x) th)"
      using b n r on extend \<open>cfg_ok c\<close> by (intro stm_extend_LI) (auto simp: nest_pc_def)
    with extend p show ?thesis
      by (simp add: observe_def read_check_def)
  qed
qed

lemma step_R_lock3:
  assumes G: "GI s g" and L: "LI c t s g th" and p: "pc th = R_lock3 a v x"
  shows "LI c t s (observe t s th g) (snd (read_recheck a v x (s, th)))"
proof -
  have b: "body c t s g th"
    using assms by (intro LI_body) (auto simp: normal_def)
  have n: "0 < nesting (desc th)" "v \<le> hz g t" and r: "RA g a v x"
    and on: "txon_ok c (th\<lparr>pc := R_lock b\<rparr>)" for b
    using L p by (auto simp: LI_def nest_ok_def pc_inv_def txon_ok_def platform_mode_def)
  show ?thesis
  proof (cases "locks s (GET_LOCK a) = Version v")
    case True
    then show ?thesis
      using read_done_LI [OF G b n(1) r _ n(2) on] p by (simp add: observe_def read_recheck_def)
  next
    case False
    have "RS g (GET_LOCK a) v"
      using r by (rule RA_RS)
    then have "LI c t s g (read_restart a (Version v) th)"
      by (intro read_restart_LI [OF G b n(1) on]) auto
    with False p show ?thesis
      by (simp add: observe_def read_recheck_def)
  qed
qed

lemma step_LoadEnd:
  assumes "LI c t s g th" "pc th = LoadEnd x" "cfg_ok c"
  shows "LI c t s g (load_end c x th)"
proof -
  have b: "body c t s g th"
    using assms by (intro LI_body) (auto simp: normal_def)
  have "LI c t s g (th\<lparr>pc := App, res := RLoad x\<rparr>)"
    using b assms by (intro LI_app) (auto simp: LI_def txon_ok_def platform_mode_def)
  then show ?thesis
    using stand_extend_LI [OF b] assms by (simp add: load_end_def)
qed

lemma step_WriteEnd:
  assumes "LI c t s g th" "pc th = WriteEnd" "cfg_ok c"
  shows "LI c t s g (write_end c th)"
proof -
  have b: "body c t s g th"
    using assms by (intro LI_body) (auto simp: normal_def)
  have "LI c t s g (th\<lparr>pc := App, res := RStore\<rparr>)"
    using b assms by (intro LI_app) (auto simp: LI_def txon_ok_def platform_mode_def)
  then show ?thesis
    using stand_extend_LI [OF b] assms by (simp add: write_end_def)
qed

section \<open>Extending a snapshot\<close>

lemma LI_ext_txon:
  "LI c t s g th \<Longrightarrow> pc th = E_clock (ExtRead a v x) \<or> pc th = E_val (ExtRead a v x) now i \<Longrightarrow>
     txon_ok c (th\<lparr>pc := R_lock b\<rparr>)"
  by (auto simp: LI_def txon_ok_def platform_mode_def)

lemma step_E_clock:
  assumes G: "GI s g" and L: "LI c t s g th" and p: "pc th = E_clock ctx" and "cfg_ok c"
  shows "LI c t s g (snd (extend_clock c ctx (s, th)))"
proof -
  have b: "body c t s g th"
    using assms by (intro LI_body) (auto simp: normal_def)
  have "LI c t s g (extend_failed c ctx th)"
    using b L p \<open>cfg_ok c\<close> by (intro extend_failed_LI) (auto intro: LI_ext_txon)
  moreover have "LI c t s g (th\<lparr>pc := E_val ctx (clock s) 0\<rparr>)"
  proof (rule body_LI)
    show "pc_inv t s g (th\<lparr>pc := E_val ctx (clock s) 0\<rparr>)"
      using L p b GI_cver_le [OF G]
      by (auto simp: LI_def pc_inv_def ext_inv_def RA_def in_tx_def body_def snapshot_def valid_upto_def
          split: ext_ctx.splits intro: order_trans)
  qed (use b L p in \<open>auto simp: LI_def nest_ok_def normal_def txon_ok_def platform_mode_def
        nest_pc_def split: ext_ctx.splits\<close>)
  ultimately show ?thesis
    by (simp add: extend_clock_def)
qed

lemma validate_RV:
  assumes "GI s g" "nothing t s g" "validate_entry t s d r" "r_version r \<le> e"
  shows "RV g (r_lock r) (r_version r) e"
  using assms GI_free_RV [OF assms(1)]
  by (auto simp: validate_entry_def nothing_def split: lock.splits)

lemma snapshot_versions:
  assumes "snapshot c t s g th" "\<not> ro (desc th)" "r \<in> set (r_set (desc th))"
  shows "r_version r \<le> hz g t"
proof -
  obtain a v x where "(a, v, x) \<in> set (greads g t)" "r = r_entry_of (a, v, x)"
    using assms by (auto simp: snapshot_def)
  then have "RV g (GET_LOCK a) v (hz g t)" "r_version r = v"
    using assms(1,2) by (auto simp: snapshot_def snap_ok_def r_entry_of_def)
  then show ?thesis
    using RV_le by blast
qed

lemma valid_upto_Suc:
  "i < length (r_set (desc th)) \<Longrightarrow> valid_upto g th (Suc i) e \<longleftrightarrow>
     valid_upto g th i e \<and> RV g (r_lock (r_set (desc th) ! i)) (r_version (r_set (desc th) ! i)) e"
  by (auto simp: valid_upto_def take_Suc_conv_app_nth)

lemma snapshot_extend:
  assumes "snapshot c t s g th" "hz g t \<le> now" "now \<le> clock s"
    "\<not> ro (desc th) \<Longrightarrow> valid_upto g th i now" "\<not> i < length (r_set (desc th))"
    "ro (desc th) \<Longrightarrow> ea_extratick c"
  shows "snapshot c t s (g\<lparr>hz := (hz g)(t := now)\<rparr>) (th\<lparr>desc := (desc th)\<lparr>tx_end := now\<rparr>\<rparr>)"
proof -
  have "RV g (GET_LOCK a) v now" if "(a, v, x) \<in> set (greads g t)" "\<not> ro (desc th)" for a v x
  proof -
    have "r_entry_of (a, v, x) \<in> set (r_set (desc th))"
      using assms(1) that by (auto simp: snapshot_def)
    then show ?thesis
      using assms(4,5) that by (fastforce simp: valid_upto_def r_entry_of_def)
  qed
  then show ?thesis
    using assms same_but_log_facts(1) [OF same_but_log_hz [of t g now]]
    by (fastforce simp: snapshot_def snap_ok_def)
qed

lemma body_extend:
  assumes "body c t s g th" "0 < nesting (desc th) \<Longrightarrow> hz g t \<le> now" "now \<le> clock s"
    "0 < nesting (desc th) \<Longrightarrow> \<not> ro (desc th) \<Longrightarrow> valid_upto g th i now" "\<not> i < length (r_set (desc th))"
    "ro (desc th) \<Longrightarrow> ea_extratick c"
  shows "body c t s (g\<lparr>hz := (hz g)(t := now)\<rparr>) (th\<lparr>desc := (desc th)\<lparr>tx_end := now\<rparr>\<rparr>)"
  using assms snapshot_extend [of c t s g th now i] same_but_log_facts(6) [OF same_but_log_hz]
  by (auto simp: body_def wf_sets_def fresh_def)

lemma step_E_val:
  assumes G: "GI s g" and L: "LI c t s g th" and p: "pc th = E_val ctx now i" and "cfg_ok c"
  shows "LI c t s (observe t s th g) (snd (extend_validate c t ctx now i (s, th)))"
proof -
  have b: "body c t s g th"
    using assms by (intro LI_body) (auto simp: normal_def)
  have v: "0 < nesting (desc th) \<Longrightarrow> hz g t \<le> now" "now \<le> clock s"
    "0 < nesting (desc th) \<Longrightarrow> \<not> ro (desc th) \<Longrightarrow> valid_upto g th i now"
    and e: "ext_inv g ctx" "\<And>a v x. ctx = ExtRead a v x \<Longrightarrow> v \<le> now"
    using L p by (auto simp: LI_def pc_inv_def in_tx_def)
  have n: "nest_pc c (th\<lparr>pc := E_val ctx now j\<rparr>)" "ctx \<noteq> ExtTick \<or> ea_extratick c"
    "txon_ok c (th\<lparr>pc := E_val ctx now j\<rparr>)" "ro (desc th) \<Longrightarrow> ea_extratick c" for j
    using L p by (auto simp: LI_def nest_ok_def nest_pc_def txon_ok_def platform_mode_def split: ext_ctx.splits)
  consider (ok) "i < length (r_set (desc th))" "validate_entry t s (desc th) (r_set (desc th) ! i)"
    | (bad) "i < length (r_set (desc th))" "\<not> validate_entry t s (desc th) (r_set (desc th) ! i)"
    | (fin) "\<not> i < length (r_set (desc th))" by blast
  then show ?thesis
  proof cases
    case ok
    have "valid_upto g th (Suc i) now" if "0 < nesting (desc th)" "\<not> ro (desc th)"
    proof -
      have "r_version (r_set (desc th) ! i) \<le> now"
        using snapshot_versions [of c t s g th, OF _ that(2) nth_mem [OF ok(1)]] b that(1) v(1)
        by (simp add: body_def)
      then show ?thesis
        using ok v(3) that validate_RV [OF G _ ok(2)] b by (simp add: valid_upto_Suc body_def)
    qed
    then have "LI c t s g (th\<lparr>pc := E_val ctx now (i + 1)\<rparr>)"
      using b n v e by (intro body_LI)
        (auto simp: normal_def pc_inv_def in_tx_def valid_upto_def split: ext_ctx.splits)
    with ok p show ?thesis
      by (simp add: extend_validate_def observe_def)
  next
    case bad
    have "LI c t s g (extend_failed c ctx th)"
      using b L p \<open>cfg_ok c\<close> by (intro extend_failed_LI) (auto intro: LI_ext_txon)
    with bad p show ?thesis
      by (simp add: extend_validate_def observe_def)
  next
    case fin
    let ?g = "g\<lparr>hz := (hz g)(t := now)\<rparr>" and ?th = "th\<lparr>desc := (desc th)\<lparr>tx_end := now\<rparr>\<rparr>"
    have "body c t s ?g ?th"
      by (rule body_extend [OF b v(1,2,3) fin n(4)])
    moreover have "RA ?g = RA g"
      by (rule same_but_log_facts(3) [OF same_but_log_hz])
    ultimately have "LI c t s ?g (extend_ok c ctx ?th)"
      using L p e n LI_ext_txon [OF L] by (intro extend_ok_LI)
        (auto simp: nest_pc_def ext_inv_def txon_ok_def platform_mode_def split: ext_ctx.splits)
    with fin p show ?thesis
      by (simp add: extend_validate_def observe_def)
  qed
qed

section \<open>Adding to the write set\<close>

lemma update_written_addrs [simp]:
  "(\<And>w. w_addr (f w) = w_addr w) \<Longrightarrow> map w_addr (update_written a f ws) = map w_addr ws"
  by (induction ws) auto

lemma update_written_set:
  "w \<in> set (update_written a f ws) \<Longrightarrow> \<exists>w'\<in>set ws. w = w' \<or> w = f w'"
  by (induction ws) (auto split: if_splits)

lemma has_written_None: "stm_has_written d a = None \<longleftrightarrow> a \<notin> w_addr ` set (w_set d)"
  by (auto simp: stm_has_written_def find_None_iff)

lemma add_to_write_set_simps [simp]:
  "w_set (add_to_write_set c a x m d) = w_set d @
     [\<lparr>w_addr = a, w_value = (if m = 0 then uninit_value c else x), w_mask = m,
       w_version = uninit_version c, w_lock = GET_LOCK a, w_no_drop = True\<rparr>]"
  "r_set (add_to_write_set c a x m d) = r_set d" "nb_acquired (add_to_write_set c a x m d) = nb_acquired d"
  "ro (add_to_write_set c a x m d) = ro d" "nesting (add_to_write_set c a x m d) = nesting d"
  "status (add_to_write_set c a x m d) = status d"
  "tx_start (add_to_write_set c a x m d) = tx_start d" "tx_end (add_to_write_set c a x m d) = tx_end d"
  by (simp_all add: add_to_write_set_def stm_allocate_ws_entries_def Let_def)

lemma body_merge_entry:
  assumes "body c t s g th" "\<not> ro (desc th)"
  shows "body c t s g (th\<lparr>desc := (desc th)
           \<lparr>w_set := update_written a (merge_entry x m) (w_set (desc th))\<rparr>\<rparr>)"
proof -
  have "w_lock w = GET_LOCK (w_addr w) \<and> w_no_drop w"
    if "w \<in> set (update_written a (merge_entry x m) (w_set (desc th)))" for w
    using update_written_set [OF that] assms(1) by (auto simp: body_defs merge_entry_def)
  then show ?thesis
    using assms by (auto simp: body_defs merge_entry_def)
qed

lemma body_add_write:
  assumes "body c t s g th" "\<not> ro (desc th)" "stm_has_written (desc th) a = None"
  shows "body c t s g (th\<lparr>desc := add_to_write_set c a x m (desc th)\<rparr>)"
  using assms by (auto simp: body_defs has_written_None)

lemma step_W_lock:
  assumes L: "LI c t s g th" and p: "pc th = W_lock a x m" and "cfg_ok c"
  shows "LI c t s g (snd (write_lock c a x m (s, th)))"
proof -
  have b: "body c t s g th"
    using assms by (intro LI_body) (auto simp: normal_def)
  have n: "0 < nesting (desc th)" "\<not> ro (desc th)"
    and on: "ea_extratick c \<Longrightarrow> \<not> ea_simulate_et_kernel c \<Longrightarrow> tx_on (cbuf th)"
    using L p by (auto simp: LI_def nest_ok_def txon_ok_def platform_mode_def)
  have fin: "LI c t s g (th\<lparr>desc := d, pc := WriteEnd\<rparr>)" if "body c t s g (th\<lparr>desc := d\<rparr>)" for d
    using that on by (intro body_LI)
      (auto simp: normal_def txon_ok_def platform_mode_def nest_pc_def pc_inv_def)
  have "LI c t s g (write_abort c th)"
    unfolding write_abort_def using b on \<open>cfg_ok c\<close>
    by (intro stm_rollback_body_LI) (auto simp: cfg_ok_def)
  then show ?thesis
    using L fin [OF body_merge_entry [OF b n(2)]] fin [OF body_add_write [OF b n(2)]]
    by (auto simp: write_lock_def split: lock.splits)
qed

section \<open>Preparing\<close>

lemma body_prepare:
  assumes "resting t s g th" "nesting (desc th) = 1"
    "g' = g\<lparr>greads := (greads g)(t := []), hz := (hz g)(t := clock s)\<rparr>"
  shows "body c t s g' (prepare_reset c (th\<lparr>desc := (desc th)
     \<lparr>tx_start := clock s, tx_end := clock s, can_extend := True\<rparr>\<rparr>))"
  using assms by (simp add: body_defs prepare_reset_def resting_def nothing_def)

lemma step_P_clock:
  assumes L: "LI c t s g th" and p: "pc th = P_clock ctx"
  shows "LI c t s (observe t s th g) (snd (stm_prepare c ctx (s, th)))"
proof -
  let ?th = "th\<lparr>desc := (desc th)\<lparr>tx_start := clock s, tx_end := clock s, can_extend := True\<rparr>\<rparr>"
  have r: "resting t s g th" "nesting (desc th) = 1" "ctx \<noteq> PrepUnit"
    using L p LI_outside [OF L] by (auto simp: LI_def nest_ok_def)
  have on: "ctx = PrepStart \<Longrightarrow> ea_extratick c \<Longrightarrow> \<not> ea_simulate_et_kernel c \<Longrightarrow> tx_on (cbuf th)"
    using L p by (auto simp: LI_def txon_ok_def platform_mode_def)
  show ?thesis
  proof (cases "version_max \<le> clock s")
    case True
    have "LI c t s g (?th\<lparr>pc := P_barrier ctx\<rparr>)"
      using r on by (intro LI_resting [where pctx = ctx]) (auto simp: resting_def wf_sets_def)
    with True p show ?thesis
      by (simp add: stm_prepare_def observe_def Let_def)
  next
    case False
    define g' where "g' = g\<lparr>greads := (greads g)(t := []), hz := (hz g)(t := clock s)\<rparr>"
    have b: "body c t s g' (prepare_reset c ?th)"
      using r(1,2) g'_def by (rule body_prepare)
    have "LI c t s g' (prepare_return c ctx (prepare_reset c ?th))"
    proof (cases ctx)
      case PrepStart
      with b on show ?thesis
        by (auto intro!: LI_app simp: prepare_return_def prepare_reset_def)
    next
      case (PrepRollback rctx reason)
      have "nesting (desc (prepare_reset c ?th)) = 1"
        using r(2) by (simp add: prepare_reset_def)
      with b PrepRollback show ?thesis
        by (simp add: prepare_return_def rollback_restart_LI)
    qed (use r in simp)
    with False p show ?thesis
      by (simp add: stm_prepare_def observe_def Let_def g'_def)
  qed
qed

lemma step_B_end:
  assumes L: "LI c t s g th" and p: "pc th = B_end ctx reason"
  shows "LI c t s g (rollback_end c ctx reason th)"
  using LI_outside [OF L] p
  by (intro LI_resting [where pctx = "PrepRollback ctx reason"])
    (auto simp: rollback_end_def resting_def wf_sets_def)

section \<open>Unit loads\<close>

lemma unit_restart_LI:
  assumes "GI s g" "idle c t s g th"
  shows "LI c t s g (unit_load_restart a (locks s (GET_LOCK a)) th)"
  using assms GI_free_RS [OF assms(1)]
  by (cases "locks s (GET_LOCK a)") (auto intro!: idle_LI simp: unit_load_restart_def pc_inv_def)

lemma LI_unit_nesting:
  assumes "LI c t s g th"
    "(\<exists>a. pc th = UL_lock a) \<or> (\<exists>a v. pc th = UL_val a v) \<or>
     (\<exists>a v x. pc th = UL_lock2 a v x) \<or> (\<exists>a x n. pc th = UW_lock a x n) \<or>
     (\<exists>a x n v. pc th = UW_cas a x n v) \<or> pc th = P_barrier PrepUnit"
  shows "idle c t s g th"
  using assms by (intro LI_idle) (auto simp: LI_def nest_ok_def)

lemma step_UL_lock:
  assumes "GI s g" "LI c t s g th" "pc th = UL_lock a"
  shows "LI c t s g (unit_load_restart a (locks s (GET_LOCK a)) th)"
  using assms LI_unit_nesting [OF assms(2)] by (intro unit_restart_LI) auto

lemma step_UL_val:
  assumes "GI s g" "LI c t s g th" "pc th = UL_val a v"
  shows "LI c t s g (th\<lparr>pc := UL_lock2 a v (mem s a)\<rparr>)"
  using assms LI_unit_nesting [OF assms(2)] RS_read [OF assms(1)]
  by (intro idle_LI) (auto simp: pc_inv_def LI_def)

lemma step_UL_lock2:
  assumes "GI s g" "LI c t s g th" "pc th = UL_lock2 a v x"
  shows "LI c t s g (snd (unit_load_check a v x (s, th)))"
proof -
  have i: "idle c t s g th"
    using assms(2,3) by (intro LI_unit_nesting) auto
  then have "LI c t s g (th\<lparr>pc := App, res := r\<rparr>)" for r
    by (intro idle_LI) (auto simp: pc_inv_def)
  then show ?thesis
    using unit_restart_LI [OF assms(1) i] by (simp add: unit_load_check_def)
qed

lemma step_UW_lock:
  assumes "LI c t s g th" "pc th = UW_lock a x n"
  shows "LI c t s g (snd (unit_write_lock a x n (s, th)))"
proof -
  have i: "idle c t s g th"
    using assms by (intro LI_unit_nesting) auto
  then have "LI c t s g (th\<lparr>pc := App, res := r\<rparr>)" "LI c t s g (th\<lparr>pc := UW_cas a x n v\<rparr>)" for r v
    by (intro idle_LI; auto simp: pc_inv_def)+
  then show ?thesis
    using assms(1) by (auto simp: unit_write_lock_def split: lock.splits)
qed

end
