(* ===== verification/Stm_Shared.thy ===== *)
theory Stm_Shared
  imports Stm_Reads
begin

text \<open>
  The changes a step can make to the shared memory and to the history: acquiring and releasing a
  lock, storing a word, drawing a commit time, entering an update into the history. Each lemma
  shows that the shared invariant survives and that other threads may rely on what they have.
\<close>

lemma keeps_I:
  "GI s' g' \<Longrightarrow> (\<And>u. u \<noteq> t \<Longrightarrow> rely u (s, g) (s', g')) \<Longrightarrow> keeps t (s, g) (s', g')"
  by (simp add: keeps_def)

text \<open>Changes that leave the history alone.\<close>

lemma GI_frame:
  assumes G: "GI s g"
    and same: "hist g' = hist g" "cver g' = cver g" "pend g' = pend g" "tstamp g' = tstamp g"
      "clock s' = clock s"
    and "\<And>l v. locks s' l = Version v \<Longrightarrow> v = cver g l"
    and "\<And>a v. locks s' (GET_LOCK a) = Version v \<Longrightarrow> dirty g' a = None"
    and "\<And>l T. pend g l = Some T \<Longrightarrow> \<exists>t k. locks s' l = Owned t k"
    and "\<And>a. dirty g' a = None \<Longrightarrow> mem s' a = hist g (cver g (GET_LOCK a)) a"
    and "\<And>l. locks s' l = LockUnit \<longleftrightarrow> uown g' l \<noteq> None"
    and "\<And>a u. dirty g' a = Some u \<Longrightarrow> mine u s' g' (GET_LOCK a)"
    and "\<And>l. upre g' l \<Longrightarrow> locks s' l = LockUnit"
  shows "GI s' g'"
proof (rule GI_I)
  show "cver g' l < T \<and> T \<le> clock s'" if "pend g' l = Some T" for l T
    using GI_pend [OF G] that unfolding same by blast
  show "hist g' ts a = hist g' (cver g' (GET_LOCK a)) a" if "cver g' (GET_LOCK a) \<le> ts" for a ts
    using that unfolding same by (rule GI_hist [OF G])
  show "T \<le> clock s'" if "tstamp g' T = Some u" for T u
    using that unfolding same by (rule GI_tstamp [OF G])
  show "cver g' l \<le> clock s'" for l
    unfolding same by (rule GI_cver_le [OF G])
qed (use assms in \<open>auto simp: same\<close>)

lemmas GI_locks = GI_version GI_version_dirty GI_pend_owned GI_mem GI_unit_owner GI_unit_lock GI_upre

section \<open>Locks\<close>

lemma keeps_acquire:
  assumes G: "GI s g" and l: "locks s l = Version v"
  shows "keeps t (s, g) (s\<lparr>locks := (locks s)(l := Owned t k)\<rparr>, g)"
proof (rule keeps_I)
  let ?s = "s\<lparr>locks := (locks s)(l := Owned t k)\<rparr>"
  have o: "uown g l = None"
    using l GI_unit [OF G, of l] by auto
  then have free: "\<not> mine u s g l" for u
    using l by (auto simp: mine_def)
  have m: "mine u s g l' \<Longrightarrow> mine u ?s g l'" for u l'
    using free by (auto simp: mine_def)
  show "GI ?s g"
    using l o GI_dirty [OF G]
    by (intro GI_frame [OF G]) (auto dest: GI_locks [OF G] intro: m split: if_splits)
  have unit: "locks ?s l' = LockUnit \<longleftrightarrow> locks s l' = LockUnit" for l'
    using l by simp
  show "rely u (s, g) (?s, g)" if "u \<noteq> t" for u
    using that l by (intro rely_I) (auto simp: RS_def RA_def)
qed

lemma keeps_unit_acquire:
  assumes G: "GI s g" and l: "locks s l = Version v"
  shows "keeps t (s, g) (s\<lparr>locks := (locks s)(l := LockUnit)\<rparr>, g\<lparr>uown := (uown g)(l := Some t), upre := (upre g)(l := True)\<rparr>)"
proof (rule keeps_I)
  let ?s = "s\<lparr>locks := (locks s)(l := LockUnit)\<rparr>" and ?g = "g\<lparr>uown := (uown g)(l := Some t), upre := (upre g)(l := True)\<rparr>"
  have u: "uown g l = None"
    using l GI_unit [OF G, of l] by auto
  then have free: "\<not> mine u s g l" for u
    using l by (auto simp: mine_def)
  have m: "mine u s g l' \<Longrightarrow> mine u ?s ?g l'" for u l'
    using free by (auto simp: mine_def)
  have p: "pend g l = None"
    using GI_free_pend [OF G l] .
  show "GI ?s ?g"
    using l p GI_dirty [OF G]
    by (intro GI_frame [OF G]) (auto dest: GI_locks [OF G] intro: m split: if_splits)
  have RV': "RV ?g = RV g"
    by (intro ext) (simp add: RV_def)
  show "rely u (s, g) (?s, ?g)" if "u \<noteq> t" for u
    using that l u free by (intro rely_I) (auto simp: RS_def RA_def RV')
qed

lemma keeps_release:
  assumes G: "GI s g" and l: "locks s l = Owned t k" and v: "cver g l = v" and p: "pend g l = None"
    and d: "\<And>a. GET_LOCK a = l \<Longrightarrow> dirty g a = None"
  shows "keeps t (s, g) (s\<lparr>locks := (locks s)(l := Version v)\<rparr>, g)"
proof (rule keeps_I)
  let ?s = "s\<lparr>locks := (locks s)(l := Version v)\<rparr>"
  have u: "uown g l = None"
    using l GI_unit [OF G, of l] by auto
  have "mine u ?s g (GET_LOCK a)" if "dirty g a = Some u" for u a
    using GI_dirty [OF G that] d that by (cases "GET_LOCK a = l") (auto simp: mine_def)
  then show "GI ?s g"
    using l v d p u
    by (intro GI_frame [OF G]) (auto dest: GI_locks [OF G] split: if_splits)
  show "rely u (s, g) (?s, g)" if "u \<noteq> t" for u
    using that l by (intro rely_I) (auto simp: RS_def RA_def)
qed

lemma keeps_unit_release:
  assumes G: "GI s g" and o: "uown g l = Some t" "\<not> upre g l" and v: "cver g l = v"
    and d: "\<And>a. GET_LOCK a = l \<Longrightarrow> dirty g a = None"
  shows "keeps t (s, g) (s\<lparr>locks := (locks s)(l := Version v)\<rparr>, g\<lparr>uown := (uown g)(l := None)\<rparr>)"
proof (rule keeps_I)
  let ?s = "s\<lparr>locks := (locks s)(l := Version v)\<rparr>" and ?g = "g\<lparr>uown := (uown g)(l := None)\<rparr>"
  have l: "locks s l = LockUnit"
    using o GI_unit [OF G, of l] by auto
  have p: "pend g l = None"
    using GI_pend_owned [OF G, of l] l by (cases "pend g l") auto
  have "mine u ?s ?g (GET_LOCK a)" if "dirty g a = Some u" for u a
    using GI_dirty [OF G that] d that by (cases "GET_LOCK a = l") (auto simp: mine_def)
  then show "GI ?s ?g"
    using l v d p o
    by (intro GI_frame [OF G]) (auto dest: GI_locks [OF G] split: if_splits)
  have RV': "RV ?g = RV g"
    by (intro ext) (simp add: RV_def)
  show "rely u (s, g) (?s, ?g)" if "u \<noteq> t" for u
    using that l o d by (intro rely_I) (auto simp: RS_def RA_def RV')
qed

section \<open>Memory\<close>

text \<open>A pending write reaches memory.\<close>

lemma keeps_write:
  assumes G: "GI s g" and m: "mine t s g (GET_LOCK a)" and x: "x = hist g (cver g (GET_LOCK a)) a"
  shows "keeps t (s, g) (s\<lparr>mem := (mem s)(a := x)\<rparr>, clean a g)"
proof (rule keeps_I)
  let ?s = "s\<lparr>mem := (mem s)(a := x)\<rparr>"
  have same: "hist (clean a g) = hist g" "cver (clean a g) = cver g" "pend (clean a g) = pend g"
    "uown (clean a g) = uown g" "upre (clean a g) = upre g" "tstamp (clean a g) = tstamp g" "greads (clean a g) = greads g"
    "hz (clean a g) = hz g" "dirty (clean a g) = (dirty g)(a := None)"
    by (simp_all add: clean_def)
  have mine': "mine u (s\<lparr>mem := M\<rparr>) (clean a g) l = mine u s g l" for u M l
    by (simp add: mine_def same)
  show "GI ?s (clean a g)"
    using x
    by (intro GI_frame [OF G]) (auto simp: same mine' dest: GI_dirty [OF G] GI_locks [OF G] split: if_splits)
  have RV': "RV (clean a g) = RV g"
    by (intro ext) (simp add: RV_def same)
  show "rely u (s, g) (?s, clean a g)" if "u \<noteq> t" for u
  proof -
    have "\<not> mine u s g (GET_LOCK a)"
      using GI_not_mine [OF G m that] .
    moreover from this have "dirty g a \<noteq> Some u"
      using GI_dirty [OF G] by blast
    ultimately show ?thesis
      by (intro rely_I) (auto simp: RS_def RA_def RV' same)
  qed
qed

text \<open>A unit store writes to memory before it draws its time.\<close>

lemma keeps_unit_store:
  assumes G: "GI s g" and o: "uown g (GET_LOCK a) = Some t" "upre g (GET_LOCK a)"
  shows "keeps t (s, g) (s\<lparr>mem := (mem s)(a := x)\<rparr>, g\<lparr>dirty := (dirty g)(a := Some t)\<rparr>)"
proof (rule keeps_I)
  let ?s = "s\<lparr>mem := (mem s)(a := x)\<rparr>" and ?g = "g\<lparr>dirty := (dirty g)(a := Some t)\<rparr>"
  have l: "locks s (GET_LOCK a) = LockUnit"
    using o GI_unit [OF G] by auto
  have m: "mine t s g (GET_LOCK a)"
    using o by (simp add: mine_def)
  have mine': "mine u ?s ?g = mine u s g" for u
    by (intro ext) (simp add: mine_def)
  have "v \<noteq> cver g (GET_LOCK a) \<or> locks s (GET_LOCK a) = LockUnit" for v
    using l by simp
  show "GI ?s ?g"
    using l m GI_dirty [OF G]
    by (intro GI_frame [OF G]) (auto simp: mine' dest: GI_locks [OF G] split: if_splits)
  have RV': "RV ?g = RV g"
    by (intro ext) (simp add: RV_def)
  show "rely u (s, g) (?s, ?g)" if "u \<noteq> t" for u
  proof -
    have "\<not> mine u s g (GET_LOCK a)"
      using GI_not_mine [OF G m that] .
    moreover from this have "dirty g a \<noteq> Some u"
      using GI_dirty [OF G] by blast
    ultimately show ?thesis
      using that l o(2) by (intro rely_I) (auto simp: RS_def RA_def RV')
  qed
qed

section \<open>Drawing a commit time\<close>

lemma set_pend_simps [simp]:
  "hist (set_pend x ws g) = hist g" "cver (set_pend x ws g) = cver g" "dirty (set_pend x ws g) = dirty g"
  "uown (set_pend x ws g) = uown g" "upre (set_pend x ws g) = upre g" "tstamp (set_pend x ws g) = tstamp g"
  "greads (set_pend x ws g) = greads g" "hz (set_pend x ws g) = hz g" "commits (set_pend x ws g) = commits g"
  "pend (set_pend x ws g) l = (if l \<in> w_lock ` set ws then x else pend g l)"
  by (simp_all add: set_pend_def)

lemma keeps_draw:
  assumes G: "GI s g" and o: "\<And>w. w \<in> set ws \<Longrightarrow> \<exists>k. locks s (w_lock w) = Owned t k"
  shows "keeps t (s, g) (s\<lparr>clock := clock s + 1\<rparr>,
    (set_pend (Some (clock s + 1)) ws g)\<lparr>tstamp := (tstamp g)(clock s + 1 := Some t)\<rparr>)"
    (is "keeps t (s, g) (?s, ?g)")
proof (rule keeps_I)
  have mine': "mine u ?s ?g = mine u s g" for u
    by (intro ext) (simp add: mine_def)
  show "GI ?s ?g"
  proof (rule GI_I)
    show "cver ?g l < T \<and> T \<le> clock ?s" if "pend ?g l = Some T" for l T
      using that GI_pend [OF G, of l T] GI_cver_le [OF G, of l] by (auto split: if_splits)
    show "\<exists>t k. locks ?s l = Owned t k" if "pend ?g l = Some T" for l T
      using that o GI_pend_owned [OF G, of l T] by (auto split: if_splits) blast
    show "cver ?g l \<le> clock ?s" for l
      using GI_cver_le [OF G, of l] by simp
    show "hist ?g n a = hist ?g (cver ?g (GET_LOCK a)) a" if "cver ?g (GET_LOCK a) \<le> n" for n a
      using that GI_hist [OF G, of a n] by simp
    show "T \<le> clock ?s" if "tstamp ?g T = Some u" for T u
      using that GI_tstamp [OF G, of T] by (cases "T = clock s + 1") auto
    show "mine u ?s ?g (GET_LOCK a)" if "dirty ?g a = Some u" for u a
      unfolding mine' using that GI_dirty [OF G] by simp
  qed (use GI_locks [OF G] in \<open>auto dest: GI_locks [OF G]\<close>)
  show "rely u (s, g) (?s, ?g)" if "u \<noteq> t" for u
  proof (rule rely_I)
    show "RV ?g l v e" if "RV g l v e" "e \<le> clock s" for l v e
      using that by (auto intro!: RV_I dest: RV_D split: if_splits)
    show "tstamp ?g T = Some u" if "tstamp g T = Some u" for T
      using that GI_tstamp [OF G, of T] by auto
    show "cver ?g l = cver g l \<and> pend ?g l = pend g l \<and> upre ?g l = upre g l" if "mine u s g l" for l
    proof -
      have "l \<notin> w_lock ` set ws"
        using o \<open>u \<noteq> t\<close> that GI_unit_lock [OF G] by (fastforce simp: mine_def)
      then show ?thesis by simp
    qed
  qed (auto simp: RS_def RA_def)
qed

lemma keeps_give_up:
  assumes G: "GI s g" and o: "\<And>w. w \<in> set ws \<Longrightarrow> \<exists>k. locks s (w_lock w) = Owned t k"
  shows "keeps t (s, g) (s, set_pend None ws g)" (is "keeps t (s, g) (s, ?g)")
proof (rule keeps_I)
  have mine': "mine u s ?g = mine u s g" for u
    by (intro ext) (simp add: mine_def)
  show "GI s ?g"
  proof (rule GI_I)
    show "cver ?g l < T \<and> T \<le> clock s" "\<exists>t k. locks s l = Owned t k" if "pend ?g l = Some T" for l T
      using that GI_pend [OF G] GI_pend_owned [OF G] by (auto split: if_splits)
    show "hist ?g n a = hist ?g (cver ?g (GET_LOCK a)) a" if "cver ?g (GET_LOCK a) \<le> n" for n a
      using that GI_hist [OF G, of a n] by simp
    show "mine u s ?g (GET_LOCK a)" if "dirty ?g a = Some u" for u a
      unfolding mine' using that GI_dirty [OF G] by simp
  qed (use GI_locks [OF G] GI_cver_le [OF G] in \<open>auto dest: GI_locks [OF G] GI_tstamp [OF G]\<close>)
  show "rely u (s, g) (s, ?g)" if "u \<noteq> t" for u
  proof (rule rely_I)
    show "RV ?g l v e" if "RV g l v e" for l v e
      using that by (auto intro!: RV_I dest: RV_D split: if_splits)
    show "cver ?g l = cver g l \<and> pend ?g l = pend g l \<and> upre ?g l = upre g l" if "mine u s g l" for l
    proof -
      have "l \<notin> w_lock ` set ws"
        using o \<open>u \<noteq> t\<close> that GI_unit_lock [OF G] by (fastforce simp: mine_def)
      then show ?thesis by simp
    qed
  qed (auto simp: RS_def RA_def)
qed

section \<open>Entering an update into the history\<close>

lemma linearize_simps [simp]:
  "hist (linearize t T ws g) n = (if n < T then hist g n else apply_writes ws (hist g n))"
  "cver (linearize t T ws g) l = (if l \<in> w_lock ` set ws then T else cver g l)"
  "pend (linearize t T ws g) l = (if l \<in> w_lock ` set ws then None else pend g l)"
  "dirty (linearize t T ws g) a = (if a \<in> w_addr ` set ws then Some t else dirty g a)"
  "uown (linearize t T ws g) = uown g" "upre (linearize t T ws g) = upre g"
  "tstamp (linearize t T ws g) = (tstamp g)(T := None)"
  "greads (linearize t T ws g) = greads g" "hz (linearize t T ws g) = hz g"
  by (simp_all add: linearize_def)

text \<open>When an update with write set \<open>ws\<close> and time \<open>T\<close> may enter the history.\<close>

definition can_linearize :: "tid \<Rightarrow> nat \<Rightarrow> w_entry list \<Rightarrow> shared \<Rightarrow> ghost \<Rightarrow> bool" where
  "can_linearize t T ws s g \<longleftrightarrow>
     (\<forall>w\<in>set ws. w_lock w = GET_LOCK (w_addr w) \<and> mine t s g (w_lock w) \<and> cver g (w_lock w) < T \<and>
        (pend g (w_lock w) = Some T \<or> clock s < T)) \<and>
     (tstamp g T = Some t \<or> clock s < T)"

lemma lin_lock:
  "can_linearize t T ws s g \<Longrightarrow> a \<in> w_addr ` set ws \<Longrightarrow> GET_LOCK a \<in> w_lock ` set ws"
  unfolding can_linearize_def by force

lemma lin_L:
  assumes "can_linearize t T ws s g" "l \<in> w_lock ` set ws"
  shows "mine t s g l" "cver g l < T" "pend g l = Some T \<or> clock s < T"
  using assms unfolding can_linearize_def by auto

lemma lin_other:
  "can_linearize t T ws s g \<Longrightarrow> GI s g \<Longrightarrow> u \<noteq> t \<Longrightarrow> mine u s g l \<Longrightarrow> l \<notin> w_lock ` set ws"
  using lin_L(1) GI_not_mine by blast

lemma lin_hist_other:
  assumes "can_linearize t T ws s g" "GET_LOCK a \<notin> w_lock ` set ws"
  shows "hist (linearize t T ws g) n a = hist g n a"
proof -
  have "a \<notin> w_addr ` set ws"
    using lin_lock [OF assms(1)] assms(2) by blast
  then show ?thesis
    by (simp add: apply_writes_other)
qed

lemma lin_RV:
  assumes "RV g l v e" "e \<le> clock s" and can: "can_linearize t T ws s g"
  shows "RV (linearize t T ws g) l v e"
    and "GET_LOCK a = l \<Longrightarrow> hist (linearize t T ws g) v a = hist g v a"
proof -
  have early: "e < T" if "l \<in> w_lock ` set ws"
    using lin_L(3) [OF can that] RV_pend [OF assms(1)] assms(2) by auto
  have eq: "hist (linearize t T ws g) n a = hist g n a" if "GET_LOCK a = l" "n \<le> e" for n a
  proof (cases "l \<in> w_lock ` set ws")
    case True
    with early that show ?thesis by simp
  next
    case False
    with that show ?thesis by (intro lin_hist_other [OF can]) simp
  qed
  show "RV (linearize t T ws g) l v e"
  proof (rule RV_I [OF RV_le [OF assms(1)]])
    fix a n assume a: "GET_LOCK a = l" "v \<le> n" "n \<le> e"
    then have "hist (linearize t T ws g) n a = hist g n a"
      "hist (linearize t T ws g) v a = hist g v a"
      by (intro eq; simp)+
    then show "hist (linearize t T ws g) n a = hist (linearize t T ws g) v a"
      using RV_hist [OF assms(1) a] by simp
  qed (use RV_pend [OF assms(1)] in \<open>auto split: if_splits\<close>)
  show "hist (linearize t T ws g) v a = hist g v a" if "GET_LOCK a = l"
    using eq [OF that] RV_le [OF assms(1)] by blast
qed

lemma lin_RS:
  assumes "RS g l v" and can: "can_linearize t T ws s g"
  shows "RS (linearize t T ws g) l v"
proof (cases "l \<in> w_lock ` set ws")
  case True
  then show ?thesis
    using assms lin_L(2) [OF can True] by (simp add: RS_def)
next
  case False
  then have "a \<notin> w_addr ` set ws" if "GET_LOCK a = l" for a
    using lin_lock [OF can] that by blast
  with False assms show ?thesis
    by (simp add: RS_def)
qed

lemma lin_RA:
  assumes "RA g a v x" and can: "can_linearize t T ws s g"
  shows "RA (linearize t T ws g) a v x"
proof (cases "GET_LOCK a \<in> w_lock ` set ws")
  case True
  then show ?thesis
    using assms lin_L(2) [OF can True] by (simp add: RA_def)
next
  case False
  then have "b \<notin> w_addr ` set ws" if "GET_LOCK b = GET_LOCK a" for b
    using lin_lock [OF can] that by metis
  with False assms show ?thesis
    unfolding RA_def lin_hist_other [OF can False] by simp
qed

lemma lin_GI:
  assumes "clock s \<le> n" "T \<le> n" and can: "can_linearize t T ws s g" and G: "GI s g"
  shows "GI (s\<lparr>clock := n\<rparr>) (linearize t T ws g)"
proof (rule GI_I)
  let ?g = "linearize t T ws g" and ?s = "s\<lparr>clock := n\<rparr>"
  have locked: "locks s l \<noteq> Version v" if "l \<in> w_lock ` set ws" for l v
    using lin_L(1) [OF can that] GI_unit_lock [OF G] by (auto simp: mine_def)
  have mine': "mine u ?s ?g l = mine u s g l" for u l
    by (simp add: mine_def)
  show "v = cver ?g l" if "locks ?s l = Version v" for l v
    using that locked GI_version [OF G] by (cases "l \<in> w_lock ` set ws") auto
  show "dirty ?g a = None" if "locks ?s (GET_LOCK a) = Version v" for a v
    using that locked lin_lock [OF can] GI_version_dirty [OF G] by auto
  show "cver ?g l < T' \<and> T' \<le> clock ?s" "\<exists>t k. locks ?s l = Owned t k" if "pend ?g l = Some T'" for l T'
    using that GI_pend [OF G, of l T'] GI_pend_owned [OF G] assms by (auto split: if_splits)
  show "cver ?g l \<le> clock ?s" for l
    using GI_cver_le [OF G, of l] assms by auto
  show "hist ?g m a = hist ?g (cver ?g (GET_LOCK a)) a" if m: "cver ?g (GET_LOCK a) \<le> m" for m a
  proof (cases "GET_LOCK a \<in> w_lock ` set ws")
    case True
    then have "hist g m a = hist g T a"
      using m lin_L(2) [OF can True] GI_hist [OF G, of a m] GI_hist [OF G, of a T] by simp
    with True m show ?thesis
      by (auto intro: apply_writes_cong)
  next
    case False
    then show ?thesis
      unfolding lin_hist_other [OF can False] using m False GI_hist [OF G, of a m] by simp
  qed
  show "mem ?s a = hist ?g (cver ?g (GET_LOCK a)) a" if "dirty ?g a = None" for a
  proof -
    from that have a: "a \<notin> w_addr ` set ws" "mem s a = hist g (cver g (GET_LOCK a)) a"
      using GI_mem [OF G] by (auto split: if_splits)
    show ?thesis
    proof (cases "GET_LOCK a \<in> w_lock ` set ws")
      case True
      then show ?thesis
        using a True GI_hist [OF G, of a T] lin_L(2) [OF can True] by (simp add: apply_writes_other)
    next
      case False
      then show ?thesis
        unfolding lin_hist_other [OF can False] using a False by simp
    qed
  qed
  show "locks ?s l = LockUnit \<longleftrightarrow> uown ?g l \<noteq> None" for l
    using GI_unit [OF G] by simp
  show "mine u ?s ?g (GET_LOCK a)" if "dirty ?g a = Some u" for a u
    unfolding mine' using that lin_L(1) [OF can] lin_lock [OF can] GI_dirty [OF G] by (auto split: if_splits)
  show "T' \<le> clock ?s" if "tstamp ?g T' = Some u" for T' u
    using that GI_tstamp [OF G, of T'] assms by (auto split: if_splits)
  show "locks ?s l = LockUnit" if "upre ?g l" for l
    using that GI_upre [OF G] by simp
qed

lemma lin_keeps:
  assumes n: "clock s \<le> n" "T \<le> n" and can: "can_linearize t T ws s g" and G: "GI s g"
  shows "keeps t (s, g) (s\<lparr>clock := n\<rparr>, linearize t T ws g)"
proof (rule keeps_I [OF lin_GI [OF n can G]])
  let ?g = "linearize t T ws g" and ?s = "s\<lparr>clock := n\<rparr>"
  fix u assume u: "u \<noteq> t"
  have d: "dirty g a \<noteq> Some u" if "a \<in> w_addr ` set ws" for a
    using GI_dirty_mine [OF G lin_L(1) [OF can lin_lock [OF can that]]] u by auto
  show "rely u (s, g) (?s, ?g)"
  proof (rule rely_I)
    show "tstamp ?g T' = Some u" if "tstamp g T' = Some u" for T'
      using that u can GI_tstamp [OF G, of T'] by (auto simp: can_linearize_def)
    show "cver ?g l = cver g l \<and> pend ?g l = pend g l \<and> upre ?g l = upre g l" if "mine u s g l" for l
      using lin_other [OF can G u that] by simp
    show "mem ?s a = mem s a \<and> dirty ?g a = dirty g a" if "mine u s g (GET_LOCK a)" for a
      using lin_other [OF can G u that] lin_lock [OF can] by auto
    show "hist ?g m a = hist g m a" if "mine u s g (GET_LOCK a)" for a m
      using lin_other [OF can G u that] by (rule lin_hist_other [OF can])
    show "dirty ?g a = Some u \<longleftrightarrow> dirty g a = Some u" for a
      using d u by simp
  qed (use n u in \<open>simp_all add: lin_RV [OF _ _ can] lin_RS [OF _ can] lin_RA [OF _ can] del: linearize_simps(1)\<close>)
qed

section \<open>The commit time of a unit store\<close>

lemma masked_NOT_0: "apply_writes [unit_entry a x] M = M(a := x)"
  by (simp add: apply_writes_def apply_entry_def unit_entry_def)

lemma keeps_unit_inc:
  assumes G: "GI s g" and o: "uown g (GET_LOCK a) = Some t" "mem s a = x"
    and d: "\<And>b. GET_LOCK b = GET_LOCK a \<Longrightarrow> b \<noteq> a \<Longrightarrow> dirty g b = None"
  shows "keeps t (s, g) (s\<lparr>clock := clock s + 1\<rparr>, clean a (linearize t (clock s + 1) [unit_entry a x]
     (g\<lparr>greads := (greads g)(t := []), upre := (upre g)(GET_LOCK a := False)\<rparr>)))"
    (is "keeps t (s, g) (?s, ?g')")
proof -
  define T where "T = clock s + 1"
  let ?ws = "[unit_entry a x]"
  define g1 where "g1 = linearize t T ?ws g"
  define g' where "g' = ?g'"
  have m: "mine t s g (GET_LOCK a)"
    using o by (simp add: mine_def)
  have L: "w_lock ` set ?ws = {GET_LOCK a}" "w_addr ` set ?ws = {a}"
    "w_lock (unit_entry a y) = GET_LOCK a" "w_addr (unit_entry a y) = a" for y
    by (simp_all add: unit_entry_def)
  have can: "can_linearize t T ?ws s g"
    using m GI_cver_le [OF G, of "GET_LOCK a"] by (auto simp: can_linearize_def unit_entry_def T_def)
  have same: "hist g' = hist g1" "cver g' = cver g1" "pend g' = pend g1" "tstamp g' = tstamp g1"
      "uown g' = uown g1" "dirty g' = (dirty g1)(a := None)" "hz g' = hz g"
      "upre g' = (upre g)(GET_LOCK a := False)" "greads g' = (greads g)(t := [])"
    by (simp_all add: g'_def g1_def T_def clean_def linearize_def fun_eq_iff)
  note g1 = linearize_simps [of t T ?ws g, folded g1_def]
  have G1: "GI ?s g1"
    unfolding g1_def by (rule lin_GI [OF _ _ can G]) (simp_all add: T_def)
  have mine': "mine u ?s g' = mine u ?s g1" for u
    by (intro ext) (simp add: mine_def same)
  have GI': "GI ?s g'"
  proof (rule GI_frame [OF G1 same(1-4)])
    show "mem ?s b = hist g1 (cver g1 (GET_LOCK b)) b" if "dirty g' b = None" for b
      using that GI_mem [OF G1, of b] o(2)
      by (cases "b = a") (auto simp: same g1 L masked_NOT_0)
    show "mine u ?s g' (GET_LOCK b)" if "dirty g' b = Some u" for u b
      unfolding mine' using that GI_dirty [OF G1, of b u] by (auto simp: same split: if_splits)
  qed (use GI_locks [OF G1] in \<open>auto simp: same dest: GI_locks [OF G1] GI_upre [OF G] split: if_splits\<close>)
  have "rely u (s, g) (?s, g')" if u: "u \<noteq> t" for u
  proof -
  have nm: "\<not> mine u s g (GET_LOCK a)"
    by (rule GI_not_mine [OF G m u])
  have RV': "RV g' = RV g1"
    by (intro ext) (simp add: RV_def same)
  have lt: "cver g (GET_LOCK a) < T"
    using GI_cver_le [OF G, of "GET_LOCK a"] by (simp add: T_def)
  show ?thesis
  proof (rule rely_I)
    show "RS g' l v" if "RS g l v" for l v
      using lin_RS [OF that can, folded g1_def] that lt by (auto simp: RS_def same g1 unit_entry_def)
    show "RA g' b v y" if "RA g b v y" for b v y
      using lin_RA [OF that can, folded g1_def] that lt
      by (cases "GET_LOCK b = GET_LOCK a") (auto simp: RA_def same g1(2,6) unit_entry_def)
    show "cver g' l = cver g l \<and> pend g' l = pend g l \<and> upre g' l = upre g l" if "mine u s g l" for l
      using that nm by (auto simp: same g1 L)
    show "mem ?s b = mem s b \<and> dirty g' b = dirty g b" if "mine u s g (GET_LOCK b)" for b
      using that nm by (auto simp: same g1 L)
    show "hist g' n b = hist g n b" if "mine u s g (GET_LOCK b)" for b n
      unfolding same g1_def by (rule lin_hist_other [OF can]) (use that nm L in auto)
    show "dirty g' b = Some u \<longleftrightarrow> dirty g b = Some u" for b
      using GI_dirty [OF G, of b u] nm u by (auto simp: same g1 L)
    show "tstamp g' T = Some u" if "tstamp g T = Some u" for T
      using that GI_tstamp [OF G, of T] by (auto simp: same g1 T_def)
  qed (use u in \<open>simp_all add: same RV' g1(5) lin_RV [OF _ _ can, folded g1_def]\<close>)
  qed
  with GI' show ?thesis
    unfolding g'_def by (rule keeps_I)
qed

end
