(* ===== verification/Stm_Commit.thy ===== *)
theory Stm_Commit
  imports Stm_Shared
begin

text \<open>
  The steps of a commit, of the rollback of a failed commit, and of a unit store: the invariant of
  the thread after each of them.
\<close>

section \<open>Before the update is settled\<close>

definition acquiring :: "pc \<Rightarrow> bool" where
  "acquiring p = (case p of C_load _ \<Rightarrow> True | C_cas _ _ \<Rightarrow> True | C_inc \<Rightarrow> True | C_val _ _ \<Rightarrow> True
     | _ \<Rightarrow> False)"

definition commit_body :: "config \<Rightarrow> tid \<Rightarrow> shared \<Rightarrow> ghost \<Rightarrow> thread \<Rightarrow> bool" where
  "commit_body c t s g th \<longleftrightarrow> nesting (desc th) = 0 \<and> status (desc th) = TX_ACTIVE \<and>
     (ro (desc th) \<longrightarrow> w_set (desc th) = []) \<and>
     (ea_extratick c \<and> \<not> ea_simulate_et_kernel c \<longrightarrow> tx_on (cbuf th)) \<and>
     nb_acquired (desc th) = card (held th) \<and> wf_sets th \<and> own t s th \<and>
     (\<forall>l. uown g l \<noteq> Some t) \<and> (\<forall>a. dirty g a \<noteq> Some t) \<and> snapshot c t s g th"

lemma acquiring_LI:
  assumes "acquiring (pc th)"
  shows "LI c t s g th \<longleftrightarrow> commit_body c t s g th \<and> pc_inv t s g th"
  using assms
  by (auto simp: acquiring_def LI_def commit_body_def nest_ok_def txon_ok_def platform_mode_def
      acq_ok_def unit_own_def unit_lock_def dirty_own_def unwritten_def reads_ok_snapshot in_tx_def
      split: pc.splits)

lemma acquiring_held: "acquiring (pc th) \<Longrightarrow>
   held th = {k. k < length (w_set (desc th)) \<and> \<not> w_no_drop (w_set (desc th) ! k)}"
  by (auto simp: acquiring_def held_def hold_range_def split: pc.splits)

lemma finite_held [simp]: "finite (held th)"
  by (simp add: held_def)

text \<open>Only the program counter moves.\<close>

lemma held_pc: "acquiring (pc th) \<Longrightarrow> acquiring p \<Longrightarrow> held (th\<lparr>pc := p\<rparr>) = held th"
  by (simp add: acquiring_held)

lemma commit_body_pc:
  "acquiring (pc th) \<Longrightarrow> acquiring p \<Longrightarrow> commit_body c t s g (th\<lparr>pc := p\<rparr>) = commit_body c t s g th"
  by (simp add: commit_body_def held_pc own_def wf_sets_def snapshot_def snap_ok_def)

lemma held_pre_pc:
  "acquiring (pc th) \<Longrightarrow> acquiring p \<Longrightarrow> held_pre x g (th\<lparr>pc := p\<rparr>) = held_pre x g th"
  by (simp add: held_pre_def held_pc)

lemma cover_pc: "acquiring (pc th) \<Longrightarrow> acquiring p \<Longrightarrow> cover i (th\<lparr>pc := p\<rparr>) = cover i th"
  by (simp add: cover_def held_pc)

lemmas acquiring_pc = commit_body_pc held_pre_pc cover_pc held_pc

text \<open>One entry per lock.\<close>

lemma own_inject:
  "own t s th \<Longrightarrow> j \<in> held th \<Longrightarrow> k \<in> held th \<Longrightarrow>
     w_lock (w_set (desc th) ! j) = w_lock (w_set (desc th) ! k) \<Longrightarrow> j = k"
  unfolding own_def by (metis lock.inject(2))

section \<open>Rolling back a commit\<close>

lemma rollback_commit_LI:
  assumes b: "commit_body c t s g th" and a: "acquiring (pc th)" and h: "held_pre None g th"
    and "cfg_ok c"
  shows "LI c t s g (stm_rollback c RbCommit reason (th\<lparr>desc := (desc th)\<lparr>stats := st\<rparr>\<rparr>))"
proof -
  let ?ws = "w_set (desc th)" and ?d = "(desc th)\<lparr>stats := st\<rparr>"
  have on: "\<not> (ea_extratick c \<and> ea_simulate_abort c \<and> \<not> tx_on (cbuf th))"
    using b \<open>cfg_ok c\<close> by (auto simp: commit_body_def cfg_ok_def)
  have fin: "finite (held th)"
    by simp
  show ?thesis
  proof (cases "held th = {}")
    case True
    then have "nothing t s g"
      using b by (simp add: commit_body_def nothing_def own_def)
    then have "LI c t s g (th\<lparr>desc := ?d, pc := B_end RbCommit reason\<rparr>)"
      using b by (intro LI_resting [where pctx = PrepUnit])
        (auto simp: commit_body_def resting_def wf_sets_def)
    with True b on show ?thesis
      by (auto simp: stm_rollback_def commit_body_def)
  next
    case False
    then have n: "0 < nb_acquired (desc th)" "?ws \<noteq> []"
      using b fin by (auto simp: commit_body_def card_gt_0_iff held_def)
    let ?th = "th\<lparr>desc := ?d, pc := B_rel (length ?ws - 1) RbCommit reason\<rparr>"
    have held: "held ?th = held th"
      using n(2) by (auto simp: acquiring_held [OF a]) (auto simp: held_def hold_range_def)
    have "own t s ?th" "held_pre None g ?th" "acq_ok c ?th"
      using b h held False by (simp_all add: commit_body_def own_def held_pre_def acq_ok_def)
    moreover have "unit_own t g ?th" "dirty_own t g ?th"
      using b by (simp_all add: commit_body_def unit_own_def unit_lock_def dirty_own_def unwritten_def)
    moreover have "nest_ok c ?th" "txon_ok c ?th" "wf_sets ?th" "reads_ok c t s g ?th"
      using b by (simp_all add: commit_body_def nest_ok_def in_tx_def txon_ok_def platform_mode_def
          wf_sets_def reads_ok_def)
    ultimately have "LI c t s g ?th"
      using n(2) by (simp add: LI_def pc_inv_def)
    with n on show ?thesis
      by (auto simp: stm_rollback_def)
  qed
qed

lemma step_B_rel:
  assumes G: "GI s g" and L: "LI c t s g th" and p: "pc th = B_rel i ctx reason"
    and r: "rollback_drop i ctx reason (s, th) = (s', th')"
  shows "keeps t (s, g) (s', g)" and "LI c t s' g th'"
proof -
  let ?ws = "w_set (desc th)" and ?w = "w_set (desc th) ! i"
  have i: "i < length ?ws" and pre: "held_pre None g th" and own: "own t s th" and wf: "wf_sets th"
    and n: "nb_acquired (desc th) = card (held th)" "held th \<noteq> {}" "0 \<le> nesting (desc th)"
    and nd: "\<And>a. dirty g a \<noteq> Some t" "\<And>l. uown g l \<noteq> Some t"
    using L p by (auto simp: LI_def pc_inv_def acq_ok_def nest_ok_def dirty_own_def unwritten_def
        unit_own_def unit_lock_def)
  have fin: "finite (held th)"
    by simp
  have mk: "LI c t s'' g (th\<lparr>desc := (desc th)\<lparr>nb_acquired := m\<rparr>, pc := B_rel (i - 1) ctx reason\<rparr>)"
    if o: "\<And>l k. locks s'' l = Owned t k \<longleftrightarrow> k \<in> held th - {i} \<and> w_lock (?ws ! k) = l"
      and m: "m = card (held th - {i})" "held th - {i} \<noteq> {}" for s'' m
  proof -
    let ?th = "th\<lparr>desc := (desc th)\<lparr>nb_acquired := m\<rparr>, pc := B_rel (i - 1) ctx reason\<rparr>"
    have held: "held ?th = held th - {i}"
      using p m(2) by (auto simp: held_def hold_range_def)
    then have "own t s'' ?th" "held_pre None g ?th" "acq_ok c ?th"
      using o m pre by (simp_all add: own_def held_pre_def acq_ok_def)
    moreover have "unit_own t g ?th" "dirty_own t g ?th"
      using nd by (simp_all add: unit_own_def unit_lock_def dirty_own_def unwritten_def)
    ultimately show ?thesis
      using n wf i by (simp add: LI_def pc_inv_def nest_ok_def in_tx_def txon_ok_def platform_mode_def
          wf_sets_def reads_ok_def)
  qed
  show "keeps t (s, g) (s', g)" "LI c t s' g th'"
  proof -
    have "keeps t (s, g) (s', g) \<and> LI c t s' g th'"
    proof (cases "w_no_drop ?w")
      case True
      then have nh: "i \<notin> held th" and r': "s' = s" "th' = th\<lparr>pc := B_rel (i - 1) ctx reason\<rparr>"
        using r by (auto simp: rollback_drop_def Let_def held_def)
      have "LI c t s g (th\<lparr>desc := (desc th)\<lparr>nb_acquired := nb_acquired (desc th)\<rparr>,
          pc := B_rel (i - 1) ctx reason\<rparr>)"
        by (rule mk) (use nh n own in \<open>auto simp: own_def\<close>)
      then show ?thesis
        using r' keeps_refl [OF G] by simp
    next
      case False
      let ?l = "w_lock ?w" and ?m = "nb_acquired (desc th) - 1"
      have h: "i \<in> held th"
        using False i p by (simp add: held_def hold_range_def)
      then have lk: "locks s ?l = Owned t i" and v: "cver g ?l = w_version ?w" "pend g ?l = None"
        using own pre by (auto simp: own_def held_pre_def Let_def)
      have m: "?m = card (held th - {i})"
        using n h fin by simp
      have s': "s' = s\<lparr>locks := (locks s)(?l := Version (w_version ?w))\<rparr>"
        using r False by (auto simp: rollback_drop_def Let_def)
      have d: "dirty g a = None" if "GET_LOCK a = ?l" for a
        using GI_dirty_mine [OF G, of t a] nd lk that by (auto simp: mine_def)
      have k: "keeps t (s, g) (s', g)"
        unfolding s' by (rule keeps_release [OF G lk v d])
      have o: "locks s' l = Owned t k \<longleftrightarrow> k \<in> held th - {i} \<and> w_lock (?ws ! k) = l" for l k
        using own lk own_inject [OF own h, of k] by (auto simp: s' own_def)
      have "LI c t s' g th'"
      proof (cases "?m = 0")
        case True
        then have "held th - {i} = {}"
          using m fin by simp
        then have "nothing t s' g"
          using o nd by (auto simp: nothing_def)
        then show ?thesis
          using r False True n(3) wf
          by (intro LI_resting [where pctx = PrepUnit])
            (auto simp: rollback_drop_def Let_def resting_def wf_sets_def)
      next
        case m0: False
        then have "held th - {i} \<noteq> {}"
          using m by force
        then show ?thesis
          using mk [OF o m] r False m0 by (simp add: rollback_drop_def Let_def s')
      qed
      with k show ?thesis by simp
    qed
    then show "keeps t (s, g) (s', g)" "LI c t s' g th'" by simp_all
  qed
qed

section \<open>Acquiring the locks\<close>

lemma acquiring_simps [simp]:
  "acquiring (C_load i)" "acquiring (C_cas i v)" "acquiring C_inc" "acquiring (C_val T i)"
  "acquiring (commit_next i)"
  by (simp_all add: acquiring_def commit_next_def)

lemma coverD:
  "cover i th \<Longrightarrow> i \<le> j \<Longrightarrow> j < length (w_set (desc th)) \<Longrightarrow>
     \<exists>k\<in>held th. j \<le> k \<and> w_lock (w_set (desc th) ! k) = w_lock (w_set (desc th) ! j)"
  by (simp add: cover_def)

lemma cover_step:
  assumes "cover (i + 1) th" "k \<in> held th" "i \<le> k"
    "w_lock (w_set (desc th) ! k) = w_lock (w_set (desc th) ! i)"
  shows "cover i th"
  unfolding cover_def
proof (intro allI impI)
  fix j assume "i \<le> j \<and> j < length (w_set (desc th))"
  then show "\<exists>k\<in>held th. j \<le> k \<and> w_lock (w_set (desc th) ! k) = w_lock (w_set (desc th) ! j)"
    using assms by (cases "j = i") (auto simp: cover_def)
qed

text \<open>The lock of entry \<open>i\<close> is held, on to the next.\<close>

lemma commit_next_LI:
  assumes b: "commit_body c t s g th" and a: "acquiring (pc th)" and i: "i < length (w_set (desc th))"
    and above: "\<forall>k\<in>held th. i \<le> k" and c: "cover i th" and h: "held_pre None g th"
  shows "LI c t s g (th\<lparr>pc := commit_next i\<rparr>)"
proof -
  have "pc_inv t s g (th\<lparr>pc := commit_next i\<rparr>)"
    using a i above c h
    by (cases i) (auto simp: commit_next_def pc_inv_def acquiring_pc Suc_le_eq)
  then show ?thesis
    using b a by (simp add: acquiring_LI acquiring_pc)
qed

lemma step_C_load:
  assumes L: "LI c t s g th" and p: "pc th = C_load i" and "cfg_ok c"
  shows "LI c t s g (snd (commit_load c t i (s, th)))"
proof -
  let ?ws = "w_set (desc th)"
  have a: "acquiring (pc th)" using p by simp
  have b: "commit_body c t s g th" and i: "i < length ?ws" and above: "\<forall>k\<in>held th. i < k"
    and cov: "cover (i + 1) th" and h: "held_pre None g th"
    using L p acquiring_LI [OF a] by (auto simp: pc_inv_def)
  have bad: "LI c t s g (commit_conflict c th)"
    unfolding commit_conflict_def by (rule rollback_commit_LI [OF b a h \<open>cfg_ok c\<close>])
  show ?thesis
  proof (cases "locks s (w_lock (?ws ! i))")
    case (Version v)
    have "LI c t s g (th\<lparr>pc := C_cas i v\<rparr>)"
      using a b i above cov h by (simp add: acquiring_LI acquiring_pc pc_inv_def)
    with Version show ?thesis by (simp add: commit_load_def)
  next
    case (Owned u k)
    show ?thesis
    proof (cases "u = t")
      case True
      then have k: "k \<in> held th" "w_lock (?ws ! k) = w_lock (?ws ! i)"
        using Owned b by (auto simp: commit_body_def own_def)
      then have "i \<le> k" "k < length ?ws"
        using above by (auto simp: held_def)
      moreover have "cover i th"
        using cov k(1) \<open>i \<le> k\<close> k(2) by (rule cover_step)
      ultimately show ?thesis
        using Owned True commit_next_LI [OF b a i _ _ h] above
        by (simp add: commit_load_def less_imp_le)
    next
      case False
      with Owned bad show ?thesis by (simp add: commit_load_def)
    qed
  next
    case LockUnit
    with bad show ?thesis by (simp add: commit_load_def)
  qed
qed

text \<open>Taking the lock of entry \<open>i\<close>.\<close>

definition mark_entry :: "nat \<Rightarrow> nat \<Rightarrow> thread \<Rightarrow> thread" where
  "mark_entry i v th = th\<lparr>desc := (desc th)
     \<lparr>w_set := (w_set (desc th))[i := (w_set (desc th) ! i)\<lparr>w_no_drop := False, w_version := v\<rparr>],
      nb_acquired := nb_acquired (desc th) + 1\<rparr>\<rparr>"

lemma mark_entry_simps [simp]:
  "pc (mark_entry i v th) = pc th" "length (w_set (desc (mark_entry i v th))) = length (w_set (desc th))"
  "w_addr (w_set (desc (mark_entry i v th)) ! j) = w_addr (w_set (desc th) ! j)"
  "w_lock (w_set (desc (mark_entry i v th)) ! j) = w_lock (w_set (desc th) ! j)"
  "w_value (w_set (desc (mark_entry i v th)) ! j) = w_value (w_set (desc th) ! j)"
  "w_mask (w_set (desc (mark_entry i v th)) ! j) = w_mask (w_set (desc th) ! j)"
  by (auto simp: mark_entry_def nth_list_update_if)

lemma mark_entry_held:
  "acquiring (pc th) \<Longrightarrow> i < length (w_set (desc th)) \<Longrightarrow> held (mark_entry i v th) = insert i (held th)"
  by (auto simp: acquiring_held) (auto simp: mark_entry_def nth_list_update_if split: if_splits)

lemma mark_entry_wf:
  assumes "wf_sets th" shows "wf_sets (mark_entry i v th)"
proof -
  let ?ws = "w_set (desc th)" and ?ws' = "w_set (desc (mark_entry i v th))"
  have "w_lock w = GET_LOCK (w_addr w)" if "w \<in> set ?ws'" for w
  proof -
    obtain j where "j < length ?ws" "w = ?ws' ! j"
      using \<open>w \<in> set ?ws'\<close> by (auto simp: in_set_conv_nth)
    with assms show ?thesis
      by (simp add: wf_sets_def)
  qed
  moreover have "map w_addr ?ws' = map w_addr ?ws"
    by (rule nth_equalityI) auto
  ultimately show ?thesis
    using assms by (simp add: wf_sets_def)
qed

lemma step_C_cas:
  assumes G: "GI s g" and L: "LI c t s g th" and p: "pc th = C_cas i v"
    and r: "commit_cas t i v (s, th) = (s', th')"
  shows "keeps t (s, g) (s', g) \<and> LI c t s' g th'"
proof -
  let ?ws = "w_set (desc th)" and ?l = "w_lock (w_set (desc th) ! i)"
  have a: "acquiring (pc th)" using p by simp
  have b: "commit_body c t s g th" and i: "i < length ?ws" and above: "\<forall>k\<in>held th. i < k"
    and cov: "cover (i + 1) th" and h: "held_pre None g th"
    using L p acquiring_LI [OF a] by (auto simp: pc_inv_def)
  show ?thesis
  proof (cases "locks s ?l = Version v")
    case False
    have "LI c t s g (th\<lparr>pc := C_load i\<rparr>)"
      using a b i above cov h by (simp add: acquiring_LI acquiring_pc pc_inv_def)
    with False r keeps_refl [OF G] show ?thesis
      by (auto simp: commit_cas_def Let_def)
  next
    case True
    let ?th = "mark_entry i v th" and ?s = "s\<lparr>locks := (locks s)(?l := Owned t i)\<rparr>"
    have ni: "i \<notin> held th"
      using above by blast
    have held: "held ?th = insert i (held th)"
      by (rule mark_entry_held [OF a i])
    have o: "locks s l = Owned t k \<longleftrightarrow> k \<in> held th \<and> w_lock (?ws ! k) = l" for l k
      using b by (simp add: commit_body_def own_def)
    have "w_lock (?ws ! k) \<noteq> ?l" if "k \<in> held th" for k
      using o [of ?l k] that True by auto
    then have "locks ?s l = Owned t k \<longleftrightarrow> k \<in> insert i (held th) \<and> w_lock (?ws ! k) = l" for l k
      using o by auto
    then have "own t ?s ?th"
      using held by (simp add: own_def)
    moreover have "wf_sets ?th"
      using b by (intro mark_entry_wf) (simp add: commit_body_def)
    moreover have "nb_acquired (desc ?th) = card (held ?th)"
    proof -
      have "nb_acquired (desc ?th) = card (held th) + 1"
        using b by (simp add: commit_body_def mark_entry_def)
      with ni show ?thesis
        using held finite_held [of th] by simp
    qed
    moreover have "?ws = [] \<longrightarrow> w_set (desc ?th) = []"
      by (simp add: mark_entry_def)
    ultimately have "commit_body c t ?s g ?th"
      using b by (simp add: commit_body_def mark_entry_def snapshot_def snap_ok_def)
    moreover have "held_pre None g ?th"
      using h held True GI_version [OF G True] GI_free_pend [OF G True] i
      by (auto simp: held_pre_def Let_def) (auto simp: mark_entry_def nth_list_update_if)
    moreover have "cover (i + 1) ?th"
      using cov held by (auto simp: cover_def)
    then have "cover i ?th"
      by (rule cover_step [where k = i]) (simp_all add: held)
    moreover have "\<forall>k\<in>held ?th. i \<le> k"
      using above held by (simp add: less_imp_le)
    ultimately have "LI c t ?s g (?th\<lparr>pc := commit_next i\<rparr>)"
      using a i by (intro commit_next_LI) simp_all
    moreover have "keeps t (s, g) (?s, g)"
      by (rule keeps_acquire [OF G True])
    ultimately show ?thesis
      using r True by (auto simp: commit_cas_def Let_def mark_entry_def)
  qed
qed

section \<open>Drawing the commit time and validating\<close>

lemma cover_owned:
  assumes "cover 0 th" "own t s th" "w \<in> set (w_set (desc th))"
  shows "\<exists>k\<in>held th. w_lock (w_set (desc th) ! k) = w_lock w \<and> locks s (w_lock w) = Owned t k"
proof -
  obtain j where "j < length (w_set (desc th))" "w_set (desc th) ! j = w"
    using assms(3) by (auto simp: in_set_conv_nth)
  with assms(1,2) show ?thesis
    unfolding cover_def own_def by (metis le0)
qed

text \<open>The update is settled: the write-back starts.\<close>

lemma settle_LI:
  assumes G: "GI s g" and b: "commit_body c t s g th" and a: "acquiring (pc th)" and cov: "cover 0 th"
    and n: "clock s \<le> n" "T \<le> n" and can: "can_linearize t T (w_set (desc th)) s g"
  shows "LI c t (s\<lparr>clock := n\<rparr>) (linearize t T (w_set (desc th)) g) (th\<lparr>pc := C_wb T 0\<rparr>)"
proof -
  let ?ws = "w_set (desc th)"
  let ?g = "linearize t T ?ws g" and ?s = "s\<lparr>clock := n\<rparr>" and ?th = "th\<lparr>pc := C_wb T 0\<rparr>"
  have held: "held ?th = held th"
    using a by (simp add: acquiring_held) (simp add: held_def hold_range_def)
  have own: "own t s th" and wf: "wf_sets th" and nd: "\<And>a. dirty g a \<noteq> Some t"
    using b by (simp_all add: commit_body_def)
  have "own t ?s ?th" "unit_own t ?g ?th" "dirty_own t ?g ?th"
    using b held by (simp_all add: commit_body_def own_def unit_own_def unit_lock_def dirty_own_def
        unwritten_def)
  moreover have "snapshot c t ?s ?g ?th"
    using b n lin_RV [OF _ _ can]
    by (fastforce simp: commit_body_def snapshot_def snap_ok_def simp del: linearize_simps(1))
  moreover have "cover 0 ?th"
    using cov held by (simp add: cover_def)
  moreover have "held_post T ?s ?g ?th"
  proof -
    have "w_lock (?ws ! k) \<in> w_lock ` set ?ws" if "k \<in> held th" for k
      using that by (auto simp: held_def)
    moreover have "hist ?g T (w_addr w) = masked (mem s (w_addr w)) (w_value w) (w_mask w)"
      if "w \<in> set ?ws" for w
    proof -
      have w: "mine t s g (GET_LOCK (w_addr w))" "cver g (GET_LOCK (w_addr w)) < T"
        using that can by (auto simp: can_linearize_def)
      have "dirty g (w_addr w) = None"
        using GI_dirty_mine [OF G w(1)] nd by blast
      then have "mem s (w_addr w) = hist g T (w_addr w)"
        using GI_mem [OF G] GI_hist [OF G, of "w_addr w" T] w(2) by simp
      moreover obtain j where "j < length ?ws" "?ws ! j = w"
        using \<open>w \<in> set ?ws\<close> by (auto simp: in_set_conv_nth)
      ultimately show ?thesis
        using apply_writes_nth [of ?ws j] wf by (auto simp: wf_sets_def)
    qed
    ultimately show ?thesis
      using n by (simp add: held_post_def held del: linearize_simps(1))
  qed
  ultimately show ?thesis
    using b by (simp add: LI_def commit_body_def nest_ok_def in_tx_def txon_ok_def platform_mode_def
        acq_ok_def wf_sets_def reads_ok_snapshot pc_inv_def)
qed

lemma commit_body_later:
  assumes "commit_body c t s g th" "clock s \<le> n" "\<And>l. uown g' l \<noteq> Some t" "\<And>a. dirty g' a \<noteq> Some t"
    "hist g' = hist g" "greads g' = greads g" "hz g' = hz g" "pend g' = f"
    "\<And>l v. RV g l v (hz g t) \<Longrightarrow> RV g' l v (hz g t)"
  shows "commit_body c t (s\<lparr>clock := n\<rparr>) g' th"
  using assms by (fastforce simp: commit_body_def own_def snapshot_def)

lemma step_C_inc:
  assumes G: "GI s g" and L: "LI c t s g th" and p: "pc th = C_inc"
    and r: "commit_inc (s, th) = (s', th')"
  shows "keeps t (s, g) (s', observe t s th g) \<and> LI c t s' (observe t s th g) th'"
proof -
  let ?ws = "w_set (desc th)" and ?T = "clock s + 1"
  have a: "acquiring (pc th)" using p by simp
  have b: "commit_body c t s g th" and ne: "?ws \<noteq> []" and cov: "cover 0 th" and h: "held_pre None g th"
    using L p acquiring_LI [OF a] by (auto simp: pc_inv_def)
  have own: "own t s th"
    using b by (simp add: commit_body_def)
  have hz: "hz g t \<le> clock s"
    using b by (simp add: commit_body_def snapshot_def)
  have lk: "\<exists>k. locks s (w_lock w) = Owned t k" if "w \<in> set ?ws" for w
    using cover_owned [OF cov own that] by blast
  show ?thesis
  proof (cases "tx_start (desc th) = clock s")
    case True
    have can: "can_linearize t ?T ?ws s g"
      using lk GI_cver_le [OF G] b
      by (auto simp: can_linearize_def commit_body_def wf_sets_def mine_def less_Suc_eq_le)
    have "keeps t (s, g) (s\<lparr>clock := ?T\<rparr>, linearize t ?T ?ws g)"
      by (rule lin_keeps [OF _ _ can G]) simp_all
    moreover have "LI c t (s\<lparr>clock := ?T\<rparr>) (linearize t ?T ?ws g) (th\<lparr>pc := C_wb ?T 0\<rparr>)"
      by (rule settle_LI [OF G b a cov _ _ can]) simp_all
    ultimately show ?thesis
      using True r p by (auto simp: commit_inc_def observe_def Let_def)
  next
    case False
    define g' where "g' = (set_pend (Some ?T) ?ws g)\<lparr>tstamp := (tstamp g)(?T := Some t)\<rparr>"
    have k: "keeps t (s, g) (s\<lparr>clock := ?T\<rparr>, g')"
      unfolding g'_def by (rule keeps_draw [OF G lk])
    have "RV g l v (hz g t) \<Longrightarrow> RV g' l v (hz g t)" for l v
      using hz by (auto simp: g'_def intro!: RV_I dest: RV_D split: if_splits)
    then have "commit_body c t (s\<lparr>clock := ?T\<rparr>) g' th"
      using b by (intro commit_body_later [of c t s g th]) (auto simp: g'_def commit_body_def)
    moreover have "held_pre (Some ?T) g' th"
      using h by (auto simp: held_pre_def g'_def Let_def held_def)
    ultimately have "LI c t (s\<lparr>clock := ?T\<rparr>) g' (th\<lparr>pc := C_val ?T 0\<rparr>)"
      using a cov ne hz by (simp add: acquiring_LI acquiring_pc pc_inv_def valid_upto_def)
        (simp add: g'_def)
    with k False r p show ?thesis
      by (auto simp: commit_inc_def observe_def Let_def g'_def)
  qed
qed

lemma commit_validate_RV:
  assumes G: "GI s g" and v: "validate_entry t s (desc th) r" and h: "held_pre (Some T) g th"
    and o: "own t s th" and le: "r_version r < T"
  shows "RV g (r_lock r) (r_version r) (T - 1)"
proof (cases "locks s (r_lock r)")
  case (Version n)
  then show ?thesis
    using v le GI_free_RV [OF G Version] by (simp add: validate_entry_def)
next
  case (Owned u k)
  with v have u: "u = t" "w_version (w_set (desc th) ! k) = r_version r"
    by (simp_all add: validate_entry_def)
  with Owned o have k: "k \<in> held th" "w_lock (w_set (desc th) ! k) = r_lock r"
    by (auto simp: own_def)
  with h u have cv: "cver g (r_lock r) = r_version r" "pend g (r_lock r) = Some T"
    by (auto simp: held_pre_def Let_def)
  show ?thesis
  proof (rule RV_I)
    show "hist g m a = hist g (r_version r) a" if "GET_LOCK a = r_lock r" "r_version r \<le> m" for a m
      using GI_hist [OF G] cv(1) that by metis
  qed (use le cv in auto)
qed (use v in \<open>simp add: validate_entry_def\<close>)

lemma step_C_val:
  assumes G: "GI s g" and L: "LI c t s g th" and p: "pc th = C_val T i" and "cfg_ok c"
    and r: "commit_validate c t T i (s, th) = (s', th')"
  shows "keeps t (s, g) (s', observe t s th g) \<and> LI c t s' (observe t s th g) th'"
proof -
  let ?ws = "w_set (desc th)" and ?rs = "r_set (desc th)"
  have a: "acquiring (pc th)" using p by simp
  have b: "commit_body c t s g th" and ne: "?ws \<noteq> []" and cov: "cover 0 th"
    and h: "held_pre (Some T) g th" and T: "hz g t < T" "T \<le> clock s" "tstamp g T = Some t"
    and val: "valid_upto g th i (T - 1)"
    using L p acquiring_LI [OF a] by (auto simp: pc_inv_def)
  have own: "own t s th" and nro: "\<not> ro (desc th)"
    using b ne by (auto simp: commit_body_def)
  have lk: "\<exists>k. locks s (w_lock w) = Owned t k" "pend g (w_lock w) = Some T" if "w \<in> set ?ws" for w
    using cover_owned [OF cov own that] h by (auto simp: held_pre_def Let_def)
  consider (ok) "i < length ?rs" "validate_entry t s (desc th) (?rs ! i)"
    | (bad) "i < length ?rs" "\<not> validate_entry t s (desc th) (?rs ! i)"
    | (fin) "\<not> i < length ?rs" by blast
  then show ?thesis
  proof cases
    case ok
    have "r_version (?rs ! i) < T"
      using snapshot_versions [of c t s g th, OF _ nro nth_mem [OF ok(1)]] b T(1)
      by (simp add: commit_body_def)
    then have "valid_upto g th (Suc i) (T - 1)"
      using val commit_validate_RV [OF G ok(2) h own] by (simp add: valid_upto_Suc [OF ok(1)])
    then have "LI c t s g (th\<lparr>pc := C_val T (i + 1)\<rparr>)"
      using a b cov ne h T by (simp add: acquiring_LI acquiring_pc pc_inv_def valid_upto_def)
    with ok r p keeps_refl [OF G] show ?thesis
      by (auto simp: commit_validate_def observe_def)
  next
    case bad
    define g' where "g' = set_pend None ?ws g"
    have k: "keeps t (s, g) (s, g')"
      unfolding g'_def by (rule keeps_give_up [OF G lk(1)])
    have "RV g l v (hz g t) \<Longrightarrow> RV g' l v (hz g t)" for l v
      by (auto simp: g'_def intro!: RV_I dest: RV_D split: if_splits)
    then have "commit_body c t (s\<lparr>clock := clock s\<rparr>) g' th"
      using b by (intro commit_body_later [of c t s g th]) (auto simp: g'_def commit_body_def)
    then have b': "commit_body c t s g' th"
      by simp
    have h': "held_pre None g' th"
      using h by (auto simp: held_pre_def g'_def Let_def held_def)
    have "LI c t s g' (commit_invalid c th)"
      unfolding commit_invalid_def by (rule rollback_commit_LI [OF b' a h' \<open>cfg_ok c\<close>])
    with k bad r p show ?thesis
      by (auto simp: commit_validate_def observe_def g'_def)
  next
    case fin
    have can: "can_linearize t T ?ws s g"
      using lk T b GI_pend [OF G]
      by (auto simp: can_linearize_def commit_body_def wf_sets_def mine_def)
    have "keeps t (s, g) (s\<lparr>clock := clock s\<rparr>, linearize t T ?ws g)"
      by (rule lin_keeps [OF _ _ can G]) (use T in simp_all)
    moreover have "LI c t (s\<lparr>clock := clock s\<rparr>) (linearize t T ?ws g) (th\<lparr>pc := C_wb T 0\<rparr>)"
      by (rule settle_LI [OF G b a cov _ _ can]) (use T in simp_all)
    ultimately show ?thesis
      using fin r p by (auto simp: commit_validate_def observe_def)
  qed
qed

section \<open>Writing back\<close>

definition writing :: "nat \<Rightarrow> nat \<Rightarrow> pc \<Rightarrow> bool" where
  "writing T i p = (case p of C_wb T' j \<Rightarrow> T' = T \<and> j = i | C_wst T' j _ \<Rightarrow> T' = T \<and> j = i
     | C_rel T' j \<Rightarrow> T' = T \<and> j = i | _ \<Rightarrow> False)"

definition settled_body :: "config \<Rightarrow> tid \<Rightarrow> shared \<Rightarrow> ghost \<Rightarrow> thread \<Rightarrow> bool" where
  "settled_body c t s g th \<longleftrightarrow> nesting (desc th) = 0 \<and> status (desc th) = TX_ACTIVE \<and>
     (ro (desc th) \<longrightarrow> w_set (desc th) = []) \<and> wf_sets th \<and> own t s th \<and>
     (\<forall>l. uown g l \<noteq> Some t) \<and> dirty_own t g th \<and> snapshot c t s g th"

lemma writing_LI:
  assumes "writing T i (pc th)"
  shows "LI c t s g th \<longleftrightarrow> settled_body c t s g th \<and> pc_inv t s g th"
  using assms
  by (auto simp: writing_def LI_def settled_body_def nest_ok_def txon_ok_def platform_mode_def
      acq_ok_def unit_own_def unit_lock_def reads_ok_snapshot in_tx_def split: pc.splits)

lemma writing_held:
  "writing T i (pc th) \<Longrightarrow>
     held th = {k. k < length (w_set (desc th)) \<and> i \<le> k \<and> \<not> w_no_drop (w_set (desc th) ! k)}"
  by (auto simp: writing_def held_def hold_range_def split: pc.splits)

lemma writing_pc_inv:
  assumes "writing T i (pc th)" "pc_inv t s g th"
  shows "cover i th" "held_post T s g th"
  using assms by (auto simp: writing_def pc_inv_def split: pc.splits)

lemma unwritten_wb:
  assumes "pc th = C_wb T i \<or> pc th = C_wst T i x" "i < length (w_set (desc th))" "wf_sets th"
    "pc th' = C_wb T (i + 1) \<or> pc th' = C_rel T i" "w_set (desc th') = w_set (desc th)"
  shows "unwritten th' = unwritten th - {w_addr (w_set (desc th) ! i)}"
    and "w_addr (w_set (desc th) ! i) \<in> unwritten th"
proof -
  let ?ws = "w_set (desc th)"
  have d: "drop i ?ws = ?ws ! i # drop (i + 1) ?ws"
    using assms(2) by (simp add: Cons_nth_drop_Suc)
  have "distinct (map w_addr (drop i ?ws))"
    using assms(3) distinct_drop [of "map w_addr ?ws" i] by (simp add: wf_sets_def drop_map)
  then have n: "w_addr (?ws ! i) \<notin> w_addr ` set (drop (i + 1) ?ws)"
    unfolding d by simp
  have u: "unwritten th = w_addr ` set (drop i ?ws)"
    using assms(1) by (auto simp: unwritten_def)
  have u': "unwritten th' = w_addr ` set (drop (i + 1) ?ws)"
    using assms(4,5) by (auto simp: unwritten_def)
  show "unwritten th' = unwritten th - {w_addr (?ws ! i)}" "w_addr (?ws ! i) \<in> unwritten th"
    using n unfolding u u' d by auto
qed

lemma written_step:
  assumes G: "GI s g" and L: "LI c t s g th" and p: "pc th = C_wb T i \<or> pc th = C_wst T i y"
    and i: "i < length (w_set (desc th))" and x: "x = hist g T (w_addr (w_set (desc th) ! i))"
  shows "keeps t (s, g) (s\<lparr>mem := (mem s)(w_addr (w_set (desc th) ! i) := x)\<rparr>,
             clean (w_addr (w_set (desc th) ! i)) g) \<and>
         LI c t (s\<lparr>mem := (mem s)(w_addr (w_set (desc th) ! i) := x)\<rparr>)
             (clean (w_addr (w_set (desc th) ! i)) g) (write_back_next T i th)"
proof -
  let ?ws = "w_set (desc th)" and ?a = "w_addr (w_set (desc th) ! i)"
  let ?s = "s\<lparr>mem := (mem s)(?a := x)\<rparr>" and ?g = "clean ?a g" and ?th = "write_back_next T i th"
  have w: "writing T i (pc th)" using p by (auto simp: writing_def)
  have b: "settled_body c t s g th" and cov: "cover i th" and post: "held_post T s g th"
    using L writing_LI [OF w] writing_pc_inv [OF w] by auto
  have p': "pc ?th = C_wb T (i + 1) \<and> w_no_drop (?ws ! i) \<or>
      pc ?th = C_rel T i \<and> \<not> w_no_drop (?ws ! i)" and ws: "w_set (desc ?th) = ?ws"
    by (auto simp: write_back_next_def)
  have held: "held ?th = held th"
    unfolding writing_held [OF w] using p' ws
    by (auto simp: held_def hold_range_def) (metis not_less_eq_eq le_antisym)
  have un: "unwritten ?th = unwritten th - {?a}" "?a \<in> unwritten th"
    using unwritten_wb [OF p i, of ?th] b p' ws by (auto simp: settled_body_def)
  have m: "mine t s g (GET_LOCK ?a)"
    using cover_mine [OF _ cov order_refl i] b i by (simp add: settled_body_def wf_sets_def)
  obtain k where k: "k \<in> held th" "w_lock (?ws ! k) = w_lock (?ws ! i)"
    using cov i by (auto simp: cover_def)
  then have cv: "cver g (GET_LOCK ?a) = T"
    using post b i by (auto simp: held_post_def Let_def settled_body_def wf_sets_def)
  have same: "hist ?g = hist g" "cver ?g = cver g" "pend ?g = pend g" "uown ?g = uown g"
    "greads ?g = greads g" "hz ?g = hz g" "dirty ?g = (dirty g)(?a := None)"
    by (simp_all add: clean_def)
  have RV': "RV ?g = RV g"
    by (intro ext) (simp add: RV_def same)
  have "keeps t (s, g) (?s, ?g)"
    using cv x by (intro keeps_write [OF G m]) simp
  moreover have "settled_body c t ?s ?g ?th"
    using b un held ws
    by (auto simp: settled_body_def own_def dirty_own_def same wf_sets_def snapshot_def snap_ok_def RV'
        write_back_next_def)
  moreover have "pc_inv t ?s ?g ?th"
  proof -
    have "held_post T ?s ?g ?th"
      using post un held ws by (auto simp: held_post_def same)
    moreover have "cover j ?th" if "i \<le> j" for j
      using cov that held ws by (auto simp: cover_def)
    ultimately show ?thesis
      using p' i ws by (auto simp: pc_inv_def)
  qed
  moreover have "writing T i (pc ?th) \<or> writing T (i + 1) (pc ?th)"
    using p' by (auto simp: writing_def)
  ultimately show ?thesis
    using writing_LI by blast
qed

lemma step_C_wb:
  assumes G: "GI s g" and L: "LI c t s g th" and p: "pc th = C_wb T i"
    and r: "write_back T i (s, th) = (s', th')"
  shows "keeps t (s, g) (s', observe t s th g) \<and> LI c t s' (observe t s th g) th'"
proof -
  let ?ws = "w_set (desc th)" and ?w = "w_set (desc th) ! i"
  have w: "writing T i (pc th)" using p by (simp add: writing_def)
  have b: "settled_body c t s g th" and cov: "cover i th" and post: "held_post T s g th"
    using L writing_LI [OF w] writing_pc_inv [OF w] by auto
  show ?thesis
  proof (cases "i < length ?ws")
    case False
    then have "held th = {}" "unwritten th = {}"
      using p by (auto simp: held_def hold_range_def unwritten_def)
    then have "nothing t s g"
      using b by (simp add: settled_body_def own_def dirty_own_def nothing_def)
    then have "LI c t s g (th\<lparr>pc := C_end\<rparr>)"
      using b by (auto simp: settled_body_def LI_def nest_ok_def in_tx_def txon_ok_def
          platform_mode_def acq_ok_def wf_sets_def own_def held_def hold_range_def unit_own_def
          unit_lock_def dirty_own_def unwritten_def reads_ok_snapshot snapshot_def snap_ok_def pc_inv_def
          nothing_def)
    with False r p keeps_refl [OF G] show ?thesis
      by (auto simp: write_back_def observe_def)
  next
    case True
    have hist: "hist g T (w_addr ?w) = masked (mem s (w_addr ?w)) (w_value ?w) (w_mask ?w)"
    proof -
      have "?w \<in> set (drop i ?ws)"
        using True unfolding set_drop_conv_nth by blast
      then have "w_addr ?w \<in> unwritten th"
        using p by (simp add: unwritten_def)
      with post True show ?thesis
        by (simp add: held_post_def)
    qed
    note step = written_step [OF G L disjI1 [OF p] True refl]
    consider (full) "w_mask ?w = NOT 0" | (zero) "w_mask ?w = 0"
      | (part) "w_mask ?w \<noteq> NOT 0" "w_mask ?w \<noteq> 0" by blast
    then show ?thesis
    proof cases
      case full
      then have "hist g T (w_addr ?w) = w_value ?w"
        using hist by simp
      with full step True r p show ?thesis
        by (auto simp: write_back_def observe_def Let_def)
    next
      case zero
      then have "(mem s)(w_addr ?w := hist g T (w_addr ?w)) = mem s"
        using hist by simp
      with zero step True r p show ?thesis
        by (auto simp: write_back_def observe_def Let_def)
    next
      case part
      let ?th = "th\<lparr>pc := C_wst T i (hist g T (w_addr ?w))\<rparr>"
      have w': "writing T i (pc ?th)" by (simp add: writing_def)
      have same: "held ?th = held th" "unwritten ?th = unwritten th"
        using p by (simp_all add: held_def hold_range_def unwritten_def)
      have "settled_body c t s g ?th"
        using b same by (simp add: settled_body_def own_def dirty_own_def wf_sets_def snapshot_def
            snap_ok_def)
      moreover have "pc_inv t s g ?th"
        using cov post True same by (simp add: pc_inv_def cover_def held_post_def)
      ultimately have "LI c t s g ?th"
        using writing_LI [OF w'] by blast
      with part hist True r p keeps_refl [OF G] show ?thesis
        by (auto simp: write_back_def observe_def Let_def)
    qed
  qed
qed

lemma step_C_wst:
  assumes G: "GI s g" and L: "LI c t s g th" and p: "pc th = C_wst T i x"
    and r: "write_back_store T i x (s, th) = (s', th')"
  shows "keeps t (s, g) (s', observe t s th g) \<and> LI c t s' (observe t s th g) th'"
proof -
  have "i < length (w_set (desc th))" "x = hist g T (w_addr (w_set (desc th) ! i))"
    using L p by (auto simp: LI_def pc_inv_def)
  from written_step [OF G L disjI2 [OF p] this] r p show ?thesis
    by (auto simp: write_back_store_def observe_def)
qed

lemma step_C_rel:
  assumes G: "GI s g" and L: "LI c t s g th" and p: "pc th = C_rel T i"
    and r: "commit_release T i (s, th) = (s', th')"
  shows "keeps t (s, g) (s', g) \<and> LI c t s' g th'"
proof -
  let ?ws = "w_set (desc th)" and ?l = "w_lock (w_set (desc th) ! i)"
  let ?th = "th\<lparr>pc := C_wb T (i + 1)\<rparr>" and ?s = "s\<lparr>locks := (locks s)(?l := Version T)\<rparr>"
  have w: "writing T i (pc th)" and w': "writing T (i + 1) (pc ?th)"
    using p by (simp_all add: writing_def)
  have b: "settled_body c t s g th" and cov: "cover i th" and post: "held_post T s g th"
    using L writing_LI [OF w] writing_pc_inv [OF w] by auto
  have i: "i < length ?ws" "\<not> w_no_drop (?ws ! i)"
    using L p by (simp_all add: LI_def pc_inv_def)
  have own: "own t s th" and wf: "wf_sets th"
    using b by (simp_all add: settled_body_def)
  have h: "i \<in> held th"
    using i by (simp add: writing_held [OF w])
  have held: "held ?th = held th - {i}"
    unfolding writing_held [OF w] by (auto simp: held_def hold_range_def)
  have lk: "locks s ?l = Owned t i" and cv: "cver g ?l = T" "pend g ?l = None"
    using own post h by (auto simp: own_def held_post_def Let_def)
  have "dirty g a = None" if a: "GET_LOCK a = ?l" for a
  proof (rule ccontr)
    assume "dirty g a \<noteq> None"
    then have "dirty g a = Some t"
      using GI_dirty_mine [OF G, of t a] a lk by (auto simp: mine_def)
    then have "a \<in> w_addr ` set (drop (i + 1) ?ws)"
      using b p by (simp add: settled_body_def dirty_own_def unwritten_def)
    then obtain j where j: "i + 1 \<le> j" "j < length ?ws" "w_addr (?ws ! j) = a"
      by (auto simp: set_drop_conv_nth)
    then obtain k where k: "k \<in> held th" "j \<le> k" "w_lock (?ws ! k) = w_lock (?ws ! j)"
      using coverD [OF cov, of j] by auto
    moreover have "w_lock (?ws ! j) = ?l"
      using wf j a by (auto simp: wf_sets_def)
    ultimately show False
      using own_inject [OF own h k(1)] j(1) by simp
  qed
  then have k: "keeps t (s, g) (?s, g)"
    by (rule keeps_release [OF G lk cv])
  have "locks ?s l = Owned t k \<longleftrightarrow> k \<in> held th - {i} \<and> w_lock (?ws ! k) = l" for l k
    using own lk own_inject [OF own h, of k] by (auto simp: own_def)
  then have "own t ?s ?th"
    unfolding own_def held by simp
  moreover have "unwritten ?th = unwritten th"
    using p by (simp add: unwritten_def)
  ultimately have "settled_body c t ?s g ?th"
    using b by (simp add: settled_body_def dirty_own_def wf_sets_def snapshot_def snap_ok_def)
  moreover have "held_post T ?s g ?th"
    using post held \<open>unwritten ?th = unwritten th\<close> by (auto simp: held_post_def)
  moreover have "cover (i + 1) ?th"
    unfolding cover_def
  proof (intro allI impI)
    fix j assume j: "i + 1 \<le> j \<and> j < length (w_set (desc ?th))"
    then obtain k where "k \<in> held th" "j \<le> k" "w_lock (?ws ! k) = w_lock (?ws ! j)"
      using coverD [OF cov, of j] by auto
    then show "\<exists>k\<in>held ?th. j \<le> k \<and> w_lock (w_set (desc ?th) ! k) = w_lock (w_set (desc ?th) ! j)"
      using j held by auto
  qed
  ultimately have "LI c t ?s g ?th"
    using writing_LI [OF w'] by (simp add: pc_inv_def)
  with k r show ?thesis
    by (auto simp: commit_release_def)
qed

lemma step_C_end:
  assumes L: "LI c t s g th" and p: "pc th = C_end"
  shows "LI c t s g (commit_end c th)"
proof -
  have pl: "plain th"
    using p by (simp add: plain_def held_def hold_range_def unit_lock_def unwritten_def)
  have "idle c t s g (commit_end c th)"
    using L p plain_nothing [OF pl]
    by (auto simp: idle_def resting_def LI_def nest_ok_def commit_end_def wf_sets_def)
  then show ?thesis
    by (rule idle_LI) (auto simp: commit_end_def pc_inv_def)
qed

section \<open>Unit stores\<close>

definition unit_body :: "config \<Rightarrow> tid \<Rightarrow> shared \<Rightarrow> ghost \<Rightarrow> thread \<Rightarrow> bool" where
  "unit_body c t s g th \<longleftrightarrow> nesting (desc th) = 0 \<and> wf_sets th \<and>
     (ea_extratick c \<and> tx_on (cbuf th) \<longrightarrow> fresh th) \<and> (\<forall>l k. locks s l \<noteq> Owned t k)"

lemma unit_LI:
  assumes "pc th = UW_store a x n \<or> pc th = UW_inc a x n \<or> pc th = UW_rel a T n"
  shows "LI c t s g th \<longleftrightarrow> unit_body c t s g th \<and> unit_own t g th \<and> dirty_own t g th \<and> pc_inv t s g th"
proof -
  have "nest_ok c th \<longleftrightarrow> nesting (desc th) = 0" "txon_ok c th"
    "acq_ok c th \<longleftrightarrow> (ea_extratick c \<and> tx_on (cbuf th) \<longrightarrow> fresh th)" "reads_ok c t s g th"
    "own t s th \<longleftrightarrow> (\<forall>l k. locks s l \<noteq> Owned t k)"
    using assms by (auto simp: nest_ok_def txon_ok_def platform_mode_def acq_ok_def own_def
        held_def hold_range_def reads_ok_def in_tx_def)
  then show ?thesis
    unfolding LI_def unit_body_def by blast
qed

lemma unit_body_pc [simp]:
  "unit_body c t s g (th\<lparr>pc := p\<rparr>) = unit_body c t s g th"
  "unit_body c t s g (th\<lparr>res := r\<rparr>) = unit_body c t s g th"
  by (simp_all add: unit_body_def wf_sets_def fresh_def)

lemma step_UW_cas:
  assumes G: "GI s g" and L: "LI c t s g th" and p: "pc th = UW_cas a x n v"
    and r: "unit_write_cas a x n v (s, th) = (s', th')"
  shows "keeps t (s, g) (s', observe t s th g) \<and> LI c t s' (observe t s th g) th'"
proof -
  have idle: "idle c t s g th"
    using L p by (intro LI_unit_nesting) auto
  show ?thesis
  proof (cases "locks s (GET_LOCK a) = Version v")
    case True
    let ?s = "s\<lparr>locks := (locks s)(GET_LOCK a := LockUnit)\<rparr>"
    let ?g = "g\<lparr>uown := (uown g)(GET_LOCK a := Some t), upre := (upre g)(GET_LOCK a := True)\<rparr>"
    have d: "dirty g b = None" if "GET_LOCK b = GET_LOCK a" for b
      using GI_version_dirty [OF G, of b v] True that by simp
    have "unit_body c t ?s ?g th"
      using idle by (auto simp: idle_def resting_def nothing_def unit_body_def)
    then have "LI c t ?s ?g (th\<lparr>pc := UW_store a x n\<rparr>)"
      using idle d by (subst unit_LI [of _ a x n])
        (auto simp: idle_def resting_def nothing_def unit_own_def unit_lock_def dirty_own_def
          unwritten_def pc_inv_def)
    moreover have "keeps t (s, g) (?s, ?g)"
      by (rule keeps_unit_acquire [OF G True])
    ultimately show ?thesis
      using True r p by (auto simp: unit_write_cas_def observe_def)
  next
    case False
    have "LI c t s g (th\<lparr>pc := UW_lock a x n\<rparr>)"
      using idle by (intro idle_LI) (auto simp: pc_inv_def)
    with False r p keeps_refl [OF G] show ?thesis
      by (auto simp: unit_write_cas_def observe_def)
  qed
qed

lemma step_UW_store:
  assumes G: "GI s g" and L: "LI c t s g th" and p: "pc th = UW_store a x n"
    and r: "unit_write_store a x n (s, th) = (s', th')"
  shows "keeps t (s, g) (s', observe t s th g) \<and> LI c t s' (observe t s th g) th'"
proof -
  let ?s = "s\<lparr>mem := (mem s)(a := x)\<rparr>" and ?g = "g\<lparr>dirty := (dirty g)(a := Some t)\<rparr>"
  have u: "uown g (GET_LOCK a) = Some t" "upre g (GET_LOCK a)"
    using L p by (auto simp: LI_def unit_own_def unit_lock_def pc_inv_def)
  have "LI c t ?s ?g (th\<lparr>pc := UW_inc a x n\<rparr>)"
    using L p unit_LI [of th a x n] unit_LI [of "th\<lparr>pc := UW_inc a x n\<rparr>" a x n]
    by (auto simp: unit_body_def wf_sets_def fresh_def unit_own_def unit_lock_def dirty_own_def
        unwritten_def pc_inv_def)
  with keeps_unit_store [OF G u, of x] r p show ?thesis
    by (auto simp: unit_write_store_def observe_def)
qed

lemma step_UW_inc:
  assumes G: "GI s g" and L: "LI c t s g th" and p: "pc th = UW_inc a x n"
    and r: "unit_write_inc a n (s, th) = (s', th')"
  shows "keeps t (s, g) (s', observe t s th g) \<and> LI c t s' (observe t s th g) th'"
proof -
  let ?T = "clock s + 1"
  let ?g0 = "g\<lparr>greads := (greads g)(t := []), upre := (upre g)(GET_LOCK a := False)\<rparr>"
  let ?g = "clean a (linearize t ?T [unit_entry a x] ?g0)" and ?s = "s\<lparr>clock := ?T\<rparr>"
  have u: "uown g (GET_LOCK a) = Some t" "mem s a = x"
    and d: "\<And>b. GET_LOCK b = GET_LOCK a \<Longrightarrow> b \<noteq> a \<Longrightarrow> dirty g b = None"
    and own: "\<And>b. dirty g b = Some t \<longleftrightarrow> b = a" "\<And>l. uown g l = Some t \<longleftrightarrow> GET_LOCK a = l"
    and b: "unit_body c t s g th"
    using L p unit_LI [of th a x n]
    by (auto simp: unit_own_def unit_lock_def dirty_own_def unwritten_def pc_inv_def)
  have "keeps t (s, g) (?s, ?g)"
    by (rule keeps_unit_inc [OF G u d])
  moreover have "LI c t ?s ?g (th\<lparr>pc := UW_rel a ?T n\<rparr>)"
    using b own d by (subst unit_LI [of _ a x n ?T])
      (auto simp: unit_body_def wf_sets_def fresh_def unit_own_def unit_lock_def dirty_own_def
        unwritten_def pc_inv_def clean_def unit_entry_def)
  ultimately show ?thesis
    using r p by (auto simp: unit_write_inc_def observe_def)
qed

lemma step_UW_rel:
  assumes G: "GI s g" and L: "LI c t s g th" and p: "pc th = UW_rel a T n"
    and r: "unit_write_release a T n (s, th) = (s', th')"
  shows "keeps t (s, g) (s', observe t s th g) \<and> LI c t s' (observe t s th g) th'"
proof -
  let ?s = "s\<lparr>locks := (locks s)(GET_LOCK a := Version T)\<rparr>"
  let ?g = "g\<lparr>uown := (uown g)(GET_LOCK a := None)\<rparr>"
  have u: "uown g (GET_LOCK a) = Some t" "\<not> upre g (GET_LOCK a)" "cver g (GET_LOCK a) = T"
    and d: "\<And>b. GET_LOCK b = GET_LOCK a \<Longrightarrow> dirty g b = None"
    and own: "\<And>b. dirty g b \<noteq> Some t" "\<And>l. uown g l = Some t \<longleftrightarrow> GET_LOCK a = l"
    and b: "unit_body c t s g th"
    using L p unit_LI [of th a undefined n T]
    by (auto simp: unit_own_def unit_lock_def dirty_own_def unwritten_def pc_inv_def)
  have "keeps t (s, g) (?s, ?g)"
    by (rule keeps_unit_release [OF G u d])
  moreover have "LI c t ?s ?g th'"
    using r b own by (intro idle_LI)
      (auto simp: unit_write_release_def idle_def resting_def nothing_def unit_body_def wf_sets_def
        fresh_def pc_inv_def split: if_splits)
  ultimately show ?thesis
    using r p by (auto simp: unit_write_release_def observe_def)
qed

section \<open>Any step\<close>

theorem run_inv:
  assumes G: "GI s g" and L: "LI c t s g th" and "cfg_ok c" and r: "run c t (s, th) = (s', th')"
  shows "keeps t (s, g) (s', observe t s th g) \<and> LI c t s' (observe t s th g) th'"
proof (cases "pc th")
  case App
  with assms keeps_refl [OF G] show ?thesis by (auto simp: run_def observe_def)
next
  case (R_lock a)
  with assms keeps_refl [OF G] step_R_lock [OF G L R_lock] show ?thesis
    by (auto simp: run_def observe_def read_lock_def)
next
  case (R_val a v)
  with assms keeps_refl [OF G] step_R_val [OF G L R_val] show ?thesis
    by (auto simp: run_def observe_def read_value_def)
next
  case (R_lock2 a v x)
  then have "keeps t (s, g) (s, observe t s th g)"
    using keeps_refl [OF G] keeps_log [OF G] by (simp add: observe_def)
  moreover have "s' = s" "th' = snd (read_check c a v x (s, th))"
    using r R_lock2 by (auto simp: run_def read_check_def split: if_splits)
  ultimately show ?thesis
    using step_R_lock2 [OF G L R_lock2 \<open>cfg_ok c\<close>] by simp
next
  case (R_lock3 a v x)
  then have "keeps t (s, g) (s, observe t s th g)"
    using keeps_refl [OF G] keeps_log [OF G] by (simp add: observe_def)
  moreover have "s' = s" "th' = snd (read_recheck a v x (s, th))"
    using r R_lock3 by (auto simp: run_def read_recheck_def split: if_splits)
  ultimately show ?thesis
    using step_R_lock3 [OF G L R_lock3] by simp
next
  case (LoadEnd x)
  with assms keeps_refl [OF G] step_LoadEnd [OF L LoadEnd] show ?thesis
    by (auto simp: run_def observe_def)
next
  case (E_clock ctx)
  moreover have "s' = s" "th' = snd (extend_clock c ctx (s, th))"
    using r E_clock by (auto simp: run_def extend_clock_def split: if_splits)
  ultimately show ?thesis
    using step_E_clock [OF G L E_clock \<open>cfg_ok c\<close>] keeps_refl [OF G] by (simp add: observe_def)
next
  case (E_val ctx now i)
  then have "keeps t (s, g) (s, observe t s th g)"
    using keeps_refl [OF G] keeps_log [OF G] by (simp add: observe_def)
  moreover have "s' = s" "th' = snd (extend_validate c t ctx now i (s, th))"
    using r E_val by (auto simp: run_def extend_validate_def split: if_splits)
  ultimately show ?thesis
    using step_E_val [OF G L E_val \<open>cfg_ok c\<close>] by simp
next
  case (W_lock a x m)
  moreover have "s' = s" "th' = snd (write_lock c a x m (s, th))"
    using r W_lock by (auto simp: run_def write_lock_def split: if_splits lock.splits)
  ultimately show ?thesis
    using step_W_lock [OF L W_lock \<open>cfg_ok c\<close>] keeps_refl [OF G] by (simp add: observe_def)
next
  case WriteEnd
  with assms keeps_refl [OF G] step_WriteEnd [OF L WriteEnd] show ?thesis
    by (auto simp: run_def observe_def)
next
  case (C_load i)
  moreover have "s' = s" "th' = snd (commit_load c t i (s, th))"
    using r C_load by (auto simp: run_def commit_load_def split: if_splits lock.splits)
  ultimately show ?thesis
    using step_C_load [OF L C_load \<open>cfg_ok c\<close>] keeps_refl [OF G] by (simp add: observe_def)
next
  case (C_cas i v)
  with r step_C_cas [OF G L C_cas] show ?thesis by (simp add: run_def observe_def)
next
  case C_inc
  with r step_C_inc [OF G L C_inc] show ?thesis by (simp add: run_def)
next
  case (C_val T i)
  with r step_C_val [OF G L C_val \<open>cfg_ok c\<close>] show ?thesis by (simp add: run_def)
next
  case (C_wb T i)
  with r step_C_wb [OF G L C_wb] show ?thesis by (simp add: run_def)
next
  case (C_wst T i x)
  with r step_C_wst [OF G L C_wst] show ?thesis by (simp add: run_def)
next
  case (C_rel T i)
  with r step_C_rel [OF G L C_rel] show ?thesis by (simp add: run_def observe_def)
next
  case C_end
  with assms keeps_refl [OF G] step_C_end [OF L C_end] show ?thesis
    by (auto simp: run_def observe_def)
next
  case (B_rel i ctx reason)
  with r step_B_rel [OF G L B_rel] show ?thesis by (simp add: run_def observe_def)
next
  case (B_end ctx reason)
  with assms keeps_refl [OF G] step_B_end [OF L B_end] show ?thesis
    by (auto simp: run_def observe_def)
next
  case (P_clock ctx)
  then have "keeps t (s, g) (s, observe t s th g)"
    using keeps_refl [OF G] keeps_log [OF G] by (simp add: observe_def)
  moreover have "s' = s" "th' = snd (stm_prepare c ctx (s, th))"
    using r P_clock by (auto simp: run_def stm_prepare_def Let_def split: if_splits)
  ultimately show ?thesis
    using step_P_clock [OF L P_clock] by simp
next
  case (P_barrier ctx)
  with assms keeps_refl [OF G] show ?thesis by (auto simp: run_def observe_def)
next
  case (UL_lock a)
  with assms keeps_refl [OF G] step_UL_lock [OF G L UL_lock] show ?thesis
    by (auto simp: run_def observe_def unit_load_lock_def)
next
  case (UL_val a v)
  with assms keeps_refl [OF G] step_UL_val [OF G L UL_val] show ?thesis
    by (auto simp: run_def observe_def unit_load_value_def)
next
  case (UL_lock2 a v x)
  moreover have "s' = s" "th' = snd (unit_load_check a v x (s, th))"
    using r UL_lock2 by (auto simp: run_def unit_load_check_def split: if_splits)
  ultimately show ?thesis
    using step_UL_lock2 [OF G L UL_lock2] keeps_refl [OF G] by (simp add: observe_def)
next
  case (UW_lock a x n)
  moreover have "s' = s" "th' = snd (unit_write_lock a x n (s, th))"
    using r UW_lock by (auto simp: run_def unit_write_lock_def split: if_splits lock.splits)
  ultimately show ?thesis
    using step_UW_lock [OF L UW_lock] keeps_refl [OF G] by (simp add: observe_def)
next
  case (UW_cas a x n v)
  with r step_UW_cas [OF G L UW_cas] show ?thesis by (simp add: run_def)
next
  case (UW_store a x n)
  with r step_UW_store [OF G L UW_store] show ?thesis by (simp add: run_def)
next
  case (UW_inc a x n)
  with r step_UW_inc [OF G L UW_inc] show ?thesis by (simp add: run_def)
next
  case (UW_rel a T n)
  with r step_UW_rel [OF G L UW_rel] show ?thesis by (simp add: run_def)
qed

end
