(* ===== verification/Stm_Safety.thy ===== *)
theory Stm_Safety
  imports Stm_Commit
begin

text \<open>
  The invariants put together: every reachable state satisfies \<open>SI\<close> (the shared part and the part
  of every thread) and \<open>CL\<close> (the history is the serial execution of the logged updates).
\<close>

section \<open>The log of updates\<close>

definition writes_at :: "ghost \<Rightarrow> nat \<Rightarrow> w_entry list" where
  "writes_at g T = concat (map c_writes (filter (\<lambda>cm. c_time cm = T) (commits g)))"

definition commit_ok :: "shared \<Rightarrow> ghost \<Rightarrow> commit \<Rightarrow> bool" where
  "commit_ok s g cm \<longleftrightarrow> 0 < c_time cm \<and> c_time cm \<le> clock s \<and> tstamp g (c_time cm) = None \<and>
     (\<forall>w\<in>set (c_writes cm). w_lock w = GET_LOCK (w_addr w) \<and> c_time cm \<le> cver g (w_lock w)) \<and>
     (\<forall>(a, v, x)\<in>set (c_reads cm). x = hist g v a \<and> RV g (GET_LOCK a) v (c_time cm - 1))"

definition CL :: "shared \<Rightarrow> ghost \<Rightarrow> bool" where
  "CL s g \<longleftrightarrow> distinct (map c_time (commits g)) \<and> (\<forall>cm\<in>set (commits g). commit_ok s g cm) \<and>
     (\<forall>n. hist g (Suc n) = apply_writes (writes_at g (Suc n)) (hist g n))"

lemma CL_cong:
  assumes "hist g' = hist g" "cver g' = cver g" "pend g' = pend g" "tstamp g' = tstamp g"
    "commits g' = commits g"
  shows "CL s g' = CL s g"
proof -
  have "RV g' = RV g"
    using assms by (intro ext) (simp add: RV_def)
  then show ?thesis
    using assms by (simp add: CL_def commit_ok_def writes_at_def)
qed

lemma apply_writes_Nil [simp]: "apply_writes [] M = M"
  by (simp add: apply_writes_def)

lemma apply_writes_append: "apply_writes (xs @ ys) M = apply_writes ys (apply_writes xs M)"
  by (simp add: apply_writes_def)

lemma commit_ok_linearize:
  assumes can: "can_linearize t T ws s g" and n: "clock s \<le> n" and ok: "commit_ok s g cm"
  shows "commit_ok (s\<lparr>clock := n\<rparr>) (linearize t T ws g) cm"
proof -
  have "c_time cm \<le> cver (linearize t T ws g) (w_lock w)" if "w \<in> set (c_writes cm)" for w
    using that ok lin_L(2) [OF can, of "w_lock w"] by (fastforce simp: commit_ok_def)
  moreover have "x = hist (linearize t T ws g) v a \<and> RV (linearize t T ws g) (GET_LOCK a) v (c_time cm - 1)"
    if "(a, v, x) \<in> set (c_reads cm)" for a v x
    using that ok lin_RV [OF _ _ can, of "GET_LOCK a" v "c_time cm - 1"]
    by (fastforce simp: commit_ok_def simp del: linearize_simps(1))
  ultimately show ?thesis
    using ok n by (auto simp: commit_ok_def simp del: linearize_simps(1,2))
qed

lemma CL_linearize:
  assumes can: "can_linearize t T ws s g" and G: "GI s g" and C: "CL s g"
    and n: "clock s \<le> n" "T \<le> n" "0 < T" "T \<le> clock s + 1"
    and fr: "T \<notin> c_time ` set (commits g)"
    and rd: "\<And>a v x. (a, v, x) \<in> set (greads g t) \<Longrightarrow> x = hist g v a \<and> RV g (GET_LOCK a) v (T - 1)"
  shows "CL (s\<lparr>clock := n\<rparr>) (linearize t T ws g)"
proof -
  let ?g = "linearize t T ws g" and ?s = "s\<lparr>clock := n\<rparr>"
  let ?cm = "\<lparr>c_time = T, c_tid = t, c_reads = greads g t, c_writes = ws\<rparr>"
  have cs: "commits ?g = commits g @ [?cm]"
    by (simp add: linearize_def)
  have "distinct (map c_time (commits ?g))"
    using C fr by (simp add: cs CL_def)
  moreover have "commit_ok ?s ?g cm" if "cm \<in> set (commits ?g)" for cm
  proof (cases "cm \<in> set (commits g)")
    case True
    then show ?thesis
      using commit_ok_linearize [OF can n(1)] C by (simp add: CL_def)
  next
    case False
    then have cm: "cm = ?cm"
      using that by (simp add: cs)
    have "x = hist ?g v a \<and> RV ?g (GET_LOCK a) v (T - 1)" if "(a, v, x) \<in> set (greads g t)" for a v x
      using rd [OF that] lin_RV [OF _ _ can, of "GET_LOCK a" v "T - 1"] n(4) by auto
    then show ?thesis
      using n can by (auto simp: cm commit_ok_def can_linearize_def simp del: linearize_simps(1))
  qed
  moreover have "hist ?g (Suc m) = apply_writes (writes_at ?g (Suc m)) (hist ?g m)" for m
  proof -
    have rec: "hist g (Suc m) = apply_writes (writes_at g (Suc m)) (hist g m)"
      using C by (simp add: CL_def)
    consider "Suc m < T" | "Suc m = T" | "T \<le> m" by linarith
    then show ?thesis
    proof cases
      case 1
      then show ?thesis
        using rec by (simp add: writes_at_def cs)
    next
      case 2
      then have "writes_at g (Suc m) = []"
        using fr by (force simp: writes_at_def filter_empty_conv)
      then show ?thesis
        using rec 2 by (simp add: writes_at_def cs apply_writes_append)
    next
      case 3
      have "w_addr ` set ws \<inter> w_addr ` set (writes_at g (Suc m)) = {}"
      proof -
        have "w_lock w \<notin> w_lock ` set ws" if w: "w \<in> set (writes_at g (Suc m))" for w
        proof -
          obtain cm where cm: "cm \<in> set (commits g)" "c_time cm = Suc m" "w \<in> set (c_writes cm)"
            using w by (auto simp: writes_at_def)
          then have "Suc m \<le> cver g (w_lock w)"
            using C by (metis CL_def commit_ok_def)
          then show ?thesis
            using lin_L(2) [OF can] 3 by fastforce
        qed
        moreover have "w_lock w = GET_LOCK (w_addr w)" if "w \<in> set (writes_at g (Suc m))" for w
          using that C by (auto simp: writes_at_def CL_def commit_ok_def)
        ultimately show ?thesis
          using lin_lock [OF can] by fastforce
      qed
      then have "apply_writes ws (hist g (Suc m)) = apply_writes (writes_at g (Suc m)) (apply_writes ws (hist g m))"
        unfolding rec by (rule apply_writes_commute)
      with 3 show ?thesis
        by (simp add: writes_at_def cs)
    qed
  qed
  ultimately show ?thesis
    by (simp add: CL_def del: linearize_simps(1))
qed

text \<open>Steps that leave the history alone.\<close>

lemma CL_keep:
  assumes C: "CL s g" and k: "keeps t (s, g) (s', g')"
    and same: "hist g' = hist g" "cver g' = cver g" "commits g' = commits g"
    and ts: "\<And>T. T \<le> clock s \<Longrightarrow> tstamp g' T = tstamp g T"
  shows "CL s' g'"
proof -
  have r: "rely (Suc t) (s, g) (s', g')"
    using k by (simp add: keeps_def)
  have "commit_ok s' g' cm" if "commit_ok s g cm" for cm
  proof -
    have le: "c_time cm - 1 \<le> clock s"
      using that by (auto simp: commit_ok_def)
    have "RV g' (GET_LOCK a) v (c_time cm - 1)" if "(a, v, x) \<in> set (c_reads cm)" for a v x
      using that \<open>commit_ok s g cm\<close> rely_RV [OF r _ le] by (fastforce simp: commit_ok_def)
    then show ?thesis
      using that rely_clock [OF r] ts by (fastforce simp: commit_ok_def same)
  qed
  then show ?thesis
    using C by (simp add: CL_def same writes_at_def)
qed

lemma observe_quiet:
  assumes "\<And>T i. pc th = C_val T i \<Longrightarrow> i < length (r_set (desc th))"
    "pc th = C_inc \<Longrightarrow> tx_start (desc th) \<noteq> clock s" "\<And>a x n. pc th \<noteq> UW_inc a x n"
  shows "hist (observe t s th g) = hist g" "cver (observe t s th g) = cver g"
    "commits (observe t s th g) = commits g" "T \<le> clock s \<Longrightarrow> tstamp (observe t s th g) T = tstamp g T"
  using assms by (auto simp: observe_def log_read_def clean_def split: pc.splits)

lemma C_inc_settles:
  assumes G: "GI s g" and L: "LI c t s g th" and p: "pc th = C_inc" and st: "tx_start (desc th) = clock s"
  shows "can_linearize t (clock s + 1) (w_set (desc th)) s g"
    and "(a, v, x) \<in> set (greads g t) \<Longrightarrow> x = hist g v a \<and> RV g (GET_LOCK a) v (clock s)"
proof -
  have a: "acquiring (pc th)" using p by simp
  have b: "commit_body c t s g th" and ne: "w_set (desc th) \<noteq> []" and cov: "cover 0 th"
    using L p acquiring_LI [OF a] by (auto simp: pc_inv_def)
  have own: "own t s th"
    using b by (simp add: commit_body_def)
  have "\<exists>k. locks s (w_lock w) = Owned t k" if "w \<in> set (w_set (desc th))" for w
    using cover_owned [OF cov own that] by blast
  then show "can_linearize t (clock s + 1) (w_set (desc th)) s g"
    using GI_cver_le [OF G] b
    by (auto simp: can_linearize_def commit_body_def wf_sets_def mine_def less_Suc_eq_le)
  have "hz g t = clock s"
    using b st by (auto simp: commit_body_def snapshot_def)
  then show "x = hist g v a \<and> RV g (GET_LOCK a) v (clock s)" if "(a, v, x) \<in> set (greads g t)"
    using that b ne by (auto simp: commit_body_def snapshot_def snap_ok_def)
qed

lemma C_val_settles:
  assumes G: "GI s g" and L: "LI c t s g th" and p: "pc th = C_val T i"
    and fin: "\<not> i < length (r_set (desc th))"
  shows "can_linearize t T (w_set (desc th)) s g" "0 < T" "T \<le> clock s" "tstamp g T = Some t"
    and "(a, v, x) \<in> set (greads g t) \<Longrightarrow> x = hist g v a \<and> RV g (GET_LOCK a) v (T - 1)"
proof -
  have a: "acquiring (pc th)" using p by simp
  have b: "commit_body c t s g th" and ne: "w_set (desc th) \<noteq> []" and cov: "cover 0 th"
    and h: "held_pre (Some T) g th" and T: "hz g t < T" "T \<le> clock s" "tstamp g T = Some t"
    and val: "valid_upto g th i (T - 1)"
    using L p acquiring_LI [OF a] by (auto simp: pc_inv_def)
  have own: "own t s th"
    using b by (simp add: commit_body_def)
  have "\<exists>k. locks s (w_lock w) = Owned t k" "pend g (w_lock w) = Some T"
    if "w \<in> set (w_set (desc th))" for w
    using cover_owned [OF cov own that] h by (auto simp: held_pre_def Let_def)
  then show "can_linearize t T (w_set (desc th)) s g"
    using T b GI_pend [OF G] by (auto simp: can_linearize_def commit_body_def wf_sets_def mine_def)
  show "0 < T" "T \<le> clock s" "tstamp g T = Some t"
    using T by auto
  show "x = hist g v a \<and> RV g (GET_LOCK a) v (T - 1)" if rd: "(a, v, x) \<in> set (greads g t)"
  proof -
    have nro: "\<not> ro (desc th)"
      using b ne by (auto simp: commit_body_def)
    then have "r_entry_of (a, v, x) \<in> set (r_set (desc th))"
      using b rd by (auto simp: commit_body_def snapshot_def)
    then have "RV g (GET_LOCK a) v (T - 1)"
      using val fin by (fastforce simp: valid_upto_def r_entry_of_def)
    then show ?thesis
      using b rd nro by (auto simp: commit_body_def snapshot_def snap_ok_def)
  qed
qed

lemma run_CL:
  assumes G: "GI s g" and L: "LI c t s g th" and C: "CL s g" and "cfg_ok c"
    and r: "run c t (s, th) = (s', th')"
  shows "CL s' (observe t s th g)"
proof -
  have k: "keeps t (s, g) (s', observe t s th g)"
    using run_inv [OF G L \<open>cfg_ok c\<close> r] by blast
  have times: "cm \<in> set (commits g) \<Longrightarrow> c_time cm \<le> clock s \<and> tstamp g (c_time cm) = None" for cm
    using C by (auto simp: CL_def commit_ok_def)
  consider (inc) "pc th = C_inc" "tx_start (desc th) = clock s"
    | (val) T i where "pc th = C_val T i" "\<not> i < length (r_set (desc th))"
    | (unit) a x n where "pc th = UW_inc a x n"
    | (quiet) "\<And>T i. pc th = C_val T i \<Longrightarrow> i < length (r_set (desc th))"
        "pc th = C_inc \<Longrightarrow> tx_start (desc th) \<noteq> clock s" "\<And>a x n. pc th \<noteq> UW_inc a x n"
    by blast
  then show ?thesis
  proof cases
    case inc
    have "CL (s\<lparr>clock := clock s + 1\<rparr>) (linearize t (clock s + 1) (w_set (desc th)) g)"
      using C_inc_settles [OF G L inc] times
      by (intro CL_linearize [OF _ G C]) (auto dest: times)
    with inc r show ?thesis
      by (auto simp: run_def commit_inc_def observe_def Let_def)
  next
    case val
    note settles = C_val_settles [OF G L val]
    have "CL (s\<lparr>clock := clock s\<rparr>) (linearize t T (w_set (desc th)) g)"
    proof (rule CL_linearize [OF settles(1) G C])
      show "T \<notin> c_time ` set (commits g)"
        using times settles(4) by force
    qed (use settles(2,3,5) in auto)
    with val r show ?thesis
      by (auto simp: run_def commit_validate_def observe_def)
  next
    case unit
    let ?T = "clock s + 1" and ?g0 = "g\<lparr>greads := (greads g)(t := [])\<rparr>"
    have u: "uown g (GET_LOCK a) = Some t"
      using L unit by (auto simp: LI_def unit_own_def unit_lock_def)
    have same: "same_but_log t g ?g0"
      by (simp add: same_but_log_def)
    have G0: "GI s ?g0"
      using same_but_log_facts(5) [OF same] G by simp
    have C0: "CL s ?g0"
      by (rule CL_keep [OF C keeps_log [OF G same]]) simp_all
    have "can_linearize t ?T [unit_entry a x] s ?g0"
      using u GI_cver_le [OF G, of "GET_LOCK a"]
      by (auto simp: can_linearize_def unit_entry_def mine_def)
    then have CL': "CL (s\<lparr>clock := ?T\<rparr>) (linearize t ?T [unit_entry a x] ?g0)"
      by (rule CL_linearize [OF _ G0 C0]) (auto dest: times)
    have "CL s1 (clean a (linearize t ?T [unit_entry a x] (?g0\<lparr>upre := z\<rparr>))) =
        CL s1 (linearize t ?T [unit_entry a x] ?g0)" for s1 z
      by (rule CL_cong) (simp_all add: clean_def linearize_def fun_eq_iff)
    with CL' unit r show ?thesis
      by (auto simp: run_def unit_write_inc_def observe_def)
  next
    case quiet
    note q = observe_quiet [of th, OF quiet]
    show ?thesis
      by (rule CL_keep [OF C k]) (simp_all add: q)
  qed
qed

section \<open>Every reachable state\<close>

definition SI :: "config \<Rightarrow> tid set \<Rightarrow> state \<times> ghost \<Rightarrow> bool" where
  "SI c ts = (\<lambda>(S, g). GI (sh S) g \<and> CL (sh S) g \<and> (\<forall>t. LI c t (sh S) g (thr S t)) \<and>
     (\<forall>t. t \<notin> ts \<longrightarrow> pc (thr S t) = App \<and> nesting (desc (thr S t)) = 0))"

lemma SI_init:
  assumes "init_state S"
  shows "SI c ts (S, init_ghost (sh S))"
proof -
  let ?s = "sh S" and ?g = "init_ghost (sh S)"
  have "GI ?s ?g"
    using assms by (simp add: GI_def init_state_def init_ghost_def)
  moreover have "CL ?s ?g"
    by (simp add: CL_def init_ghost_def writes_at_def)
  moreover have "LI c t ?s ?g (thr S t)" for t
    using assms by (intro idle_LI)
      (auto simp: init_state_def Let_def idle_def resting_def wf_sets_def nothing_def init_ghost_def
        pc_inv_def)
  ultimately show ?thesis
    using assms by (simp add: SI_def init_state_def Let_def)
qed

lemma SI_put:
  assumes I: "SI c ts (S, g)" and k: "keeps t (sh S, g) (s', g')" and L: "LI c t s' g' th'"
    and C: "CL s' g'" and t: "t \<in> ts"
  shows "SI c ts (put_thread t (s', th') S, g')"
proof -
  have "LI c u s' g' (thr S u)" if "u \<noteq> t" for u
    using LI_stable [of u "sh S" g s' g' c] that k I by (auto simp: keeps_def SI_def)
  then show ?thesis
    using I k L C t by (auto simp: SI_def put_thread_def keeps_def)
qed

lemma SI_rollover:
  assumes I: "SI c ts (S, g)" and b: "\<forall>t\<in>ts. at_barrier (thr S t)"
  shows "SI c ts (gexec c Rollover (S, g))"
proof -
  let ?s = "rollover_clock (sh S)" and ?g = "observe_rollover (sh S) g"
  have L: "LI c t (sh S) g (thr S t)" for t
    using I by (simp add: SI_def)
  have rest: "pc (thr S t) = App \<and> nesting (desc (thr S t)) = 0 \<or> (\<exists>ctx. pc (thr S t) = P_barrier ctx)" for t
  proof (cases "t \<in> ts")
    case True
    with b show ?thesis
      by (cases "pc (thr S t)") (auto simp: at_barrier_def dest: bspec [of ts _ t])
  next
    case False
    with I show ?thesis by (simp add: SI_def)
  qed
  have none: "nothing t (sh S) g" for t
    using rest [of t] LI_idle [OF L, of t] LI_outside [OF L, of t] by (auto simp: idle_def resting_def)
  have clear: "dirty g a = None" "uown g l = None" for a l
    using none by (auto simp: nothing_def) (metis not_None_eq)+
  moreover have "\<not> upre g l" for l
    using I clear(2) GI_upre [of "sh S" g l] GI_unit [of "sh S" g l] by (auto simp: SI_def)
  ultimately have "GI ?s ?g"
    by (simp add: GI_def rollover_clock_def observe_rollover_def)
  moreover have "CL ?s ?g"
    by (simp add: CL_def observe_rollover_def writes_at_def)
  moreover have nothing': "nothing t ?s ?g" for t
    using clear by (simp add: nothing_def rollover_clock_def observe_rollover_def)
  have "LI c t ?s ?g (leave_barrier (thr S t))" for t
    using rest [of t]
  proof (elim disjE exE)
    assume "pc (thr S t) = App \<and> nesting (desc (thr S t)) = 0"
    then show ?thesis
      using LI_idle [OF L, of t] nothing' by (intro idle_LI)
        (auto simp: leave_barrier_def idle_def resting_def pc_inv_def)
  next
    fix ctx assume p: "pc (thr S t) = P_barrier ctx"
    show ?thesis
    proof (cases "ctx = PrepUnit")
      case True
      then have "idle c t (sh S) g (thr S t)"
        using LI_unit_nesting [OF L, of t] p by simp
      then show ?thesis
        using p True nothing' by (intro idle_LI)
          (auto simp: leave_barrier_def idle_def resting_def pc_inv_def wf_sets_def fresh_def)
    next
      case False
      have "resting t (sh S) g (thr S t)" "nesting (desc (thr S t)) = 1"
        "ctx = PrepStart \<Longrightarrow> ea_extratick c \<Longrightarrow> \<not> ea_simulate_et_kernel c \<Longrightarrow> tx_on (cbuf (thr S t))"
        using L [of t] p False LI_outside [OF L, of t]
        by (auto simp: LI_def nest_ok_def txon_ok_def platform_mode_def)
      then show ?thesis
        using p False nothing' by (intro LI_resting [where pctx = ctx])
          (auto simp: leave_barrier_def resting_def wf_sets_def split: prep_ctx.splits)
    qed
  qed
  ultimately show ?thesis
    using I by (auto simp: SI_def gexec_def exec_def leave_barrier_def split: pc.splits)
qed

lemma SI_step:
  assumes I: "SI c ts (S, g)" and e: "enabled c ts act S" and "cfg_ok c"
  shows "SI c ts (gexec c act (S, g))"
proof -
  have G: "GI (sh S) g" and C: "CL (sh S) g" and L: "LI c t (sh S) g (thr S t)" for t
    using I by (simp_all add: SI_def)
  note still = keeps_refl [OF G]
  show ?thesis
  proof (cases act)
    case (Call t oper)
    then show ?thesis
      using SI_put [OF I still call_LI [OF L] C] e \<open>cfg_ok c\<close>
      by (simp add: enabled_def gexec_def exec_def)
  next
    case (Run t)
    obtain s' th' where r: "run c t (sh S, thr S t) = (s', th')"
      by fastforce
    show ?thesis
      using SI_put [OF I _ _ run_CL [OF G L C \<open>cfg_ok c\<close> r]] run_inv [OF G L \<open>cfg_ok c\<close> r] e r Run
      by (simp add: enabled_def gexec_def exec_def)
  next
    case (Interrupt t callback now half ip)
    then show ?thesis
      using SI_put [OF I still tick_LI [OF L] C] e \<open>cfg_ok c\<close>
      by (simp add: enabled_def gexec_def exec_def)
  next
    case Rollover
    then show ?thesis
      using SI_rollover [OF I] e by (simp add: enabled_def)
  qed
qed

lemma reach_SI:
  assumes "reach c ts x" "cfg_ok c"
  shows "SI c ts x"
  using assms(1)
proof (induction rule: reach.induct)
  case (reach_init S)
  then show ?case by (rule SI_init)
next
  case (reach_step S g act)
  then show ?case using SI_step assms(2) by blast
qed

end
