(* ===== verification/Stm_Demo.thy ===== *)
theory Stm_Demo
  imports Stm_Safety
begin

text \<open>
  Concrete executions of the protocol, computed by the simplifier: a start state with two threads,
  and the schedules on which the theorems about the protocol are exercised. The addresses 8 and 64
  are covered by different locks.
\<close>

section \<open>A start state\<close>

definition cfg0 :: config where
  "cfg0 = \<lparr>ea_extratick = False, ea_simulate_abort = False, ea_simulate_et_user = False,
     ea_simulate_et_kernel = False, uninit_version = 0, uninit_value = 0\<rparr>"

definition cfg_ea :: config where
  "cfg_ea = cfg0\<lparr>ea_extratick := True\<rparr>"

definition stats0 :: stm_stats where
  "stats0 = \<lparr>retries = 0, aborts = 0, aborts_1 = 0, aborts_2 = 0, aborts_ro = 0,
     aborts_locked_write = 0, aborts_validate_read = 0, aborts_validate_write = 0,
     aborts_validate_commit = 0, aborts_early = 0, max_retries = 0\<rparr>"

definition thread0 :: thread where
  "thread0 = \<lparr>desc = \<lparr>attr = None, status = TX_IDLE, tx_start = 0, tx_end = 0, r_set = [],
       r_size = 4096, w_set = [], w_size = 4096, nb_acquired = 0, ro = False, can_extend = False,
       nesting = 0, ea_aborted = False, stats = stats0\<rparr>,
     cbuf = \<lparr>tx_on = False, standing = False, recently_validated = False, opt_clock = 0, ticks = 0,
       ticks_standing = 0, ticks_delivered = 0, sec_addr_defined = True, sec_start_addr = 4096,
       sec_end_addr = 8192, no_val_cost = 0, val_clock = 0, et_clocks = 0, mode = MODE_STUBBORN\<rparr>,
     pc = App, res = RNone, cbs = []\<rparr>"

definition state0 :: state where
  "state0 = \<lparr>sh = \<lparr>mem = (\<lambda>_. 0), locks = (\<lambda>_. Version 0), clock = 0\<rparr>, thr = (\<lambda>_. thread0)\<rparr>"

lemma init_state0: "init_state state0"
  by (simp add: init_state_def state0_def thread0_def)

section \<open>Running a schedule\<close>

fun gexecs :: "config \<Rightarrow> action list \<Rightarrow> state \<times> ghost \<Rightarrow> state \<times> ghost" where
  "gexecs c [] x = x"
| "gexecs c (act # acts) x = gexecs c acts (gexec c act x)"

fun enableds :: "config \<Rightarrow> tid set \<Rightarrow> action list \<Rightarrow> state \<times> ghost \<Rightarrow> bool" where
  "enableds c ts [] x = True"
| "enableds c ts (act # acts) x = (enabled c ts act (fst x) \<and> enableds c ts acts (gexec c act x))"

lemma reach_gexecs:
  "reach c ts x \<Longrightarrow> enableds c ts acts x \<Longrightarrow> reach c ts (gexecs c acts x)"
proof (induction acts arbitrary: x)
  case (Cons act acts)
  obtain S g where x: "x = (S, g)" by fastforce
  have "reach c ts (gexec c act (S, g))"
    using Cons.prems by (intro reach_step) (simp_all add: x)
  then show ?case
    using Cons.IH Cons.prems(2) by (simp add: x)
qed simp

definition ex :: "config \<Rightarrow> action list \<Rightarrow> state \<times> ghost" where
  "ex c acts = gexecs c acts (state0, init_ghost (sh state0))"

lemma reach_ex: "enableds c ts acts (state0, init_ghost (sh state0)) \<Longrightarrow> reach c ts (fst (ex c acts), snd (ex c acts))"
  unfolding ex_def using reach_gexecs [OF reach_init [OF init_state0]] by simp

lemma cfg_ok_demo: "cfg_ok cfg0" "cfg_ok cfg_ea"
  by (simp_all add: cfg_ok_def cfg0_def cfg_ea_def)

lemma version_max_value: "version_max = 9223372036854767615"
  using wb.unat_version_max by (simp add: version_max_def MAX_THREADS_def)

lemma GET_LOCK_values: "GET_LOCK 8 = 0" "GET_LOCK 64 = 2"
  by (simp_all add: GET_LOCK_def LOCK_IDX_def LOCK_SHIFT_def LOCK_ARRAY_LOG_SIZE_def)

lemmas machine_defs = gexec_def exec_def enabled_def op_ok_def put_thread_def call_def run_def
  stm_start_def stm_prepare_def prepare_reset_def prepare_return_def
lemmas load_defs = load_enter_def stm_has_written_def read_lock_def read_restart_def read_value_def
  read_check_def read_recheck_def read_done_def add_to_read_set_def merge_written_def load_end_def
lemmas store_defs = write_enter_def write_lock_def add_to_write_set_def write_end_def
  stm_has_read_def merge_entry_def
lemmas commit_defs = commit_enter_def commit_load_def commit_cas_def commit_next_def commit_inc_def
  commit_validate_def validate_entry_def write_back_def write_back_next_def commit_release_def
  commit_end_def
lemmas abort_defs = commit_conflict_def commit_invalid_def stm_rollback_def rollback_drop_def rollback_end_def
  rollback_stats_def rollback_restart_def stm_abort_def
lemmas extend_defs = stm_extend_def extend_clock_def extend_validate_def extend_ok_def
  stm_revalidate_def stm_tick_def tick_defs in_section_def
lemmas unit_defs = unit_load_lock_def unit_load_restart_def unit_load_value_def unit_load_check_def
  unit_write_lock_def unit_write_cas_def unit_write_store_def unit_write_inc_def unit_write_release_def
lemmas observer_defs = observe_def log_read_def linearize_def clean_def set_pend_def init_ghost_def
lemmas demo_state_defs = ex_def state0_def thread0_def stats0_def cfg0_def cfg_ea_def version_max_value GET_LOCK_values
lemmas eval_defs = machine_defs load_defs store_defs commit_defs abort_defs extend_defs unit_defs
  observer_defs demo_state_defs

section \<open>Schedules\<close>

text \<open>Thread 0 stores 5 at 8 and commits; up to the point where it is about to write back.\<close>

definition store_ex :: "action list" where
  "store_ex = [Call 0 (OpStart None), Run 0, Call 0 (OpLoad 8), Run 0, Run 0, Run 0, Run 0,
     Call 0 (OpStore 8 5), Run 0, Run 0, Call 0 OpCommit, Run 0, Run 0, Run 0]"

definition commit_ex :: "action list" where
  "commit_ex = store_ex @ [Run 0, Run 0, Run 0, Run 0]"

text \<open>Thread 1 commits a store of 7 at 64.\<close>

definition other_commit :: "action list" where
  "other_commit = [Call 1 (OpStart None), Run 1, Call 1 (OpStore 64 7), Run 1, Run 1,
     Call 1 OpCommit, Run 1, Run 1, Run 1, Run 1, Run 1, Run 1, Run 1]"

text \<open>
  Thread 0 reads 8, thread 1 commits to 64, thread 0 reads 64 after extending its snapshot. In
  \<open>extend_ex\<close> it is about to check the lock for the last time.
\<close>

definition extend_ex :: "action list" where
  "extend_ex = [Call 0 (OpStart None), Run 0, Call 0 (OpLoad 8), Run 0, Run 0, Run 0, Run 0] @
     other_commit @ [Call 0 (OpLoad 64), Run 0, Run 0, Run 0, Run 0, Run 0, Run 0]"

definition snapshot_ex :: "action list" where
  "snapshot_ex = extend_ex @ [Run 0, Run 0]"

text \<open>
  Thread 0 reads 64 and writes 8, thread 1 commits to 64: the commit of thread 0 fails to
  validate and is about to give back its lock.
\<close>

definition abort_ex :: "action list" where
  "abort_ex = [Call 0 (OpStart None), Run 0, Call 0 (OpLoad 64), Run 0, Run 0, Run 0, Run 0,
     Call 0 (OpStore 8 5), Run 0, Run 0] @ other_commit @ [Call 0 OpCommit, Run 0, Run 0, Run 0, Run 0]"

text \<open>Thread 0 makes a unit store of 9 at 8; it holds the lock.\<close>

definition unit_ex :: "action list" where
  "unit_ex = [Call 0 (OpUnitStore 8 9 None), Run 0, Run 0]"

lemma enabled_ex:
  "enableds cfg0 {0, 1} store_ex (state0, init_ghost (sh state0))"
  "enableds cfg0 {0, 1} commit_ex (state0, init_ghost (sh state0))"
  "enableds cfg0 {0, 1} extend_ex (state0, init_ghost (sh state0))"
  "enableds cfg0 {0, 1} snapshot_ex (state0, init_ghost (sh state0))"
  "enableds cfg0 {0, 1} abort_ex (state0, init_ghost (sh state0))"
  "enableds cfg0 {0, 1} unit_ex (state0, init_ghost (sh state0))"
  by (simp_all add: store_ex_def commit_ex_def extend_ex_def other_commit_def snapshot_ex_def
      abort_ex_def unit_ex_def eval_defs)

lemmas reach_demo = enabled_ex [THEN reach_ex]

lemmas ex_defs = store_ex_def commit_ex_def extend_ex_def other_commit_def snapshot_ex_def
  abort_ex_def unit_ex_def eval_defs

end
