(* ===== verification/Stm_Theorems.thy ===== *)
theory Stm_Theorems
  imports Stm_Demo
begin

text \<open>
  What the protocol guarantees, read off the invariant of \<open>Stm_Safety\<close>: opacity of the reads of
  live transactions, serializability of the updates, the state of memory when no call is under way,
  and the locking discipline. Each theorem is followed by its use on an execution of \<open>Stm_Demo\<close>.
\<close>

section \<open>Reading off the invariant\<close>

lemma reach_GI: "reach c ts (S, g) \<Longrightarrow> cfg_ok c \<Longrightarrow> GI (sh S) g"
  and reach_CL: "reach c ts (S, g) \<Longrightarrow> cfg_ok c \<Longrightarrow> CL (sh S) g"
  and reach_LI: "reach c ts (S, g) \<Longrightarrow> cfg_ok c \<Longrightarrow> LI c t (sh S) g (thr S t)"
  using reach_SI [of c ts "(S, g)"] by (simp_all add: SI_def)

lemma reach_reads:
  assumes "reach c ts (S, g)" "cfg_ok c" "in_tx (thr S t)"
  shows "tx_start (desc (thr S t)) \<le> hz g t" "tx_end (desc (thr S t)) \<le> hz g t" "hz g t \<le> clock (sh S)"
    and "(a, v, x) \<in> set (greads g t) \<Longrightarrow> ro (desc (thr S t)) \<longrightarrow> \<not> ea_extratick c \<Longrightarrow>
      x = hist g (hz g t) a"
proof -
  have r: "reads_ok c t (sh S) g (thr S t)"
    using reach_LI [OF assms(1,2)] by (simp add: LI_def)
  then show "tx_start (desc (thr S t)) \<le> hz g t" "tx_end (desc (thr S t)) \<le> hz g t" "hz g t \<le> clock (sh S)"
    using assms(3) by (simp_all add: reads_ok_def)
  assume rd: "(a, v, x) \<in> set (greads g t)" and "ro (desc (thr S t)) \<longrightarrow> \<not> ea_extratick c"
  then have "x = hist g v a" "RV g (GET_LOCK a) v (hz g t)"
    using r assms(3) by (auto simp: reads_ok_def snap_ok_def)
  then show "x = hist g (hz g t) a"
    using RV_hist [OF _ refl _ order_refl] RV_le by metis
qed

lemma gexecs_append: "gexecs c (xs @ ys) x = gexecs c ys (gexecs c xs x)"
  by (induction xs arbitrary: x) simp_all

lemma ex_snoc: "gexec c act (fst (ex c acts), snd (ex c acts)) =
    (fst (ex c (acts @ [act])), snd (ex c (acts @ [act])))"
  by (simp add: ex_def gexecs_append)

section \<open>Opacity\<close>

text \<open>
  C1. Opacity of the reads: whatever a live transaction has read so far, doomed or not, is the
  contents of memory at a single time of the serial history, a time between its (re)start and now.
  Excluded are read-only transactions of early-abort builds, for which it fails
  (\<open>ea_read_only_snapshot_broken\<close>).
\<close>

theorem opacity:
  assumes "reach c ts (S, g)" "cfg_ok c" "in_tx (thr S t)"
    and "ro (desc (thr S t)) \<longrightarrow> \<not> ea_extratick c"
  shows "\<exists>T. tx_start (desc (thr S t)) \<le> T \<and> T \<le> clock (sh S) \<and>
    (\<forall>(a, v, x)\<in>set (greads g t). x = hist g T a)"
  using reach_reads [OF assms(1-3)] assms(4) by blast

theorem opacity_witness:
  "greads (snd (ex cfg0 snapshot_ex)) 0 = [(8, 0, 0), (64, 1, 7)] \<and>
   (\<exists>T. 0 \<le> T \<and> T \<le> 1 \<and> hist (snd (ex cfg0 snapshot_ex)) T 8 = 0 \<and>
      hist (snd (ex cfg0 snapshot_ex)) T 64 = 7)"
proof -
  have r: "greads (snd (ex cfg0 snapshot_ex)) 0 = [(8, 0, 0), (64, 1, 7)]"
    and "in_tx (thr (fst (ex cfg0 snapshot_ex)) 0)" "clock (sh (fst (ex cfg0 snapshot_ex))) = 1"
    by (simp_all add: ex_defs in_tx_def)
  then show ?thesis
    using opacity [OF reach_demo(4) cfg_ok_demo(1), of 0] by (fastforce simp: cfg0_def)
qed

section \<open>Serializability\<close>

text \<open>
  C2. Serializability: the updates have distinct commit times up to the clock; the memory image of
  each time is that of the time before with the writes of its update applied; and every value an
  update has read is the contents of memory just before its own commit time. Executing the
  updates one after the other in the order of their commit times gives each of them the same reads
  and leaves the same memory.
\<close>

theorem serializability:
  assumes "reach c ts (S, g)" "cfg_ok c"
  shows "distinct (map c_time (commits g)) \<and>
    (\<forall>n. hist g (Suc n) = apply_writes (writes_at g (Suc n)) (hist g n)) \<and>
    (\<forall>cm\<in>set (commits g). 0 < c_time cm \<and> c_time cm \<le> clock (sh S) \<and>
       (\<forall>(a, v, x)\<in>set (c_reads cm). x = hist g (c_time cm - 1) a))"
proof -
  have C: "CL (sh S) g"
    by (rule reach_CL [OF assms])
  have "x = hist g (c_time cm - 1) a"
    if "cm \<in> set (commits g)" "(a, v, x) \<in> set (c_reads cm)" for cm a v x
  proof -
    have "x = hist g v a" "RV g (GET_LOCK a) v (c_time cm - 1)"
      using C that by (auto simp: CL_def commit_ok_def)
    then show ?thesis
      using RV_hist [OF _ refl _ order_refl] RV_le by metis
  qed
  then show ?thesis
    using C by (auto simp: CL_def commit_ok_def)
qed

theorem serializability_witness:
  "hist (snd (ex cfg0 commit_ex)) (Suc 0) =
     apply_writes (writes_at (snd (ex cfg0 commit_ex)) (Suc 0)) (hist (snd (ex cfg0 commit_ex)) 0) \<and>
   map c_time (commits (snd (ex cfg0 commit_ex))) = [1] \<and> hist (snd (ex cfg0 commit_ex)) 1 8 = 5"
proof -
  have "map c_time (commits (snd (ex cfg0 commit_ex))) = [1]" "hist (snd (ex cfg0 commit_ex)) 1 8 = 5"
    by (simp_all add: ex_defs apply_writes_def apply_entry_def masked_def)
  then show ?thesis
    using serializability [OF reach_demo(2) cfg_ok_demo(1)] by blast
qed

text \<open>
  The history starts from the memory found when the clock was last zero and its first image
  never changes until the clock is reset, so that the serial execution of C4 starts from the real
  memory.
\<close>

theorem history_origin:
  assumes "reach c ts (S, g)" "cfg_ok c" "enabled c ts act S" "gexec c act (S, g) = (S', g')"
  shows "hist g' 0 = (if act = Rollover then mem (sh S) else hist g 0)"
proof -
  have "T \<noteq> 0" if "pc (thr S t) = C_val T i" for t T i
    using reach_LI [OF assms(1,2), of t] that by (auto simp: LI_def pc_inv_def)
  then have "hist (observe t (sh S) (thr S t) g) 0 = hist g 0" for t
    by (auto simp: observe_def linearize_def clean_def set_pend_def log_read_def split: pc.splits)
  then show ?thesis
    using assms(4) by (auto simp: gexec_def observe_rollover_def split: action.splits)
qed

theorem history_origin_witness:
  "hist (snd (ex cfg0 (store_ex @ [Run 0]))) 0 = hist (snd (ex cfg0 store_ex)) 0"
  using history_origin [OF reach_demo(1) cfg_ok_demo(1) _ ex_snoc, of "Run 0"]
  by (simp add: ex_defs)

lemma idle_holds_nothing:
  assumes "reach c ts (S, g)" "cfg_ok c" "pc (thr S t) = App \<or> at_barrier (thr S t)"
  shows "locks (sh S) l \<noteq> Owned t k" "uown g l \<noteq> Some t" "dirty g a \<noteq> Some t"
proof -
  have "own t (sh S) (thr S t)" "unit_own t g (thr S t)" "dirty_own t g (thr S t)"
    using reach_LI [OF assms(1,2), of t] by (simp_all add: LI_def)
  moreover have "held (thr S t) = {}" "unit_lock (thr S t) = None" "unwritten (thr S t) = {}"
    using assms(3)
    by (auto simp: unwritten_def unit_lock_def held_def hold_range_def at_barrier_def split: pc.splits)
  ultimately show "locks (sh S) l \<noteq> Owned t k" "uown g l \<noteq> Some t" "dirty g a \<noteq> Some t"
    by (auto simp: own_def unit_own_def dirty_own_def)
qed

lemma settled_memory:
  assumes "reach c ts (S, g)" "cfg_ok c" "\<forall>t. pc (thr S t) = App \<or> at_barrier (thr S t)"
  shows "mem (sh S) = hist g (clock (sh S))" "\<exists>v \<le> clock (sh S). locks (sh S) l = Version v"
proof -
  note G = reach_GI [OF assms(1,2)]
  have none: "dirty g a = None" "uown g l = None" for a l
    using idle_holds_nothing [OF assms(1,2)] assms(3) by (metis not_None_eq)+
  have "mem (sh S) a = hist g (clock (sh S)) a" for a
    using GI_mem [OF G none(1)] GI_hist [OF G GI_cver_le [OF G]] by metis
  then show "mem (sh S) = hist g (clock (sh S))" by blast
  show "\<exists>v \<le> clock (sh S). locks (sh S) l = Version v"
    using none idle_holds_nothing(1) [OF assms(1,2)] assms(3)
      GI_unit [OF G, of l] GI_version [OF G, of l] GI_cver_le [OF G, of l]
    by (cases "locks (sh S) l") auto
qed

text \<open>
  C4. Quiescent memory: whenever no thread is inside a call of the library, every lock is free with
  a version the clock has reached, and the memory is exactly the last image of the serial history.
\<close>

theorem quiescent_memory:
  assumes "reach c ts (S, g)" "cfg_ok c" "\<forall>t. pc (thr S t) = App"
  shows "mem (sh S) = hist g (clock (sh S)) \<and> (\<forall>l. \<exists>v \<le> clock (sh S). locks (sh S) l = Version v)"
  using settled_memory [OF assms(1,2)] assms(3) by blast

theorem quiescent_memory_witness:
  "mem (sh (fst (ex cfg0 commit_ex))) = hist (snd (ex cfg0 commit_ex)) 1 \<and>
   mem (sh (fst (ex cfg0 commit_ex))) 8 = 5"
proof -
  have "\<forall>t. pc (thr (fst (ex cfg0 commit_ex)) t) = App" "clock (sh (fst (ex cfg0 commit_ex))) = 1"
    "mem (sh (fst (ex cfg0 commit_ex))) 8 = 5"
    by (simp_all add: ex_defs)
  then show ?thesis
    using quiescent_memory [OF reach_demo(2) cfg_ok_demo(1)] by simp
qed

section \<open>Locking\<close>

text \<open>
  C5. Memory is written only under the lock: a step that changes a word is taken by the thread that
  holds its lock, for a committing transaction through an entry of its own write set, or for a
  unit store.
\<close>

theorem store_under_lock:
  assumes "reach c ts (S, g)" "cfg_ok c" "mem (sh (exec c (Run t) S)) a \<noteq> mem (sh S) a"
  shows "(\<exists>k < length (w_set (desc (thr S t))). locks (sh S) (GET_LOCK a) = Owned t k) \<or>
    (locks (sh S) (GET_LOCK a) = LockUnit \<and> unit_lock (thr S t) = Some (GET_LOCK a))"
proof -
  let ?th = "thr S t" and ?s = "sh S"
  have L: "LI c t ?s g ?th" by (rule reach_LI [OF assms(1,2)])
  have wf: "wf_sets ?th" and own: "own t ?s ?th" and u: "unit_own t g ?th" and p: "pc_inv t ?s g ?th"
    using L by (simp_all add: LI_def)
  have covered: ?thesis if i: "i < length (w_set (desc ?th))" "cover i ?th" "a = w_addr (w_set (desc ?th) ! i)" for i
  proof -
    obtain k where "k \<in> held ?th" "w_lock (w_set (desc ?th) ! k) = w_lock (w_set (desc ?th) ! i)"
      using i(1,2) unfolding cover_def by blast
    moreover have "w_lock (w_set (desc ?th) ! i) = GET_LOCK a"
      using wf i by (simp add: wf_sets_def)
    ultimately show ?thesis
      using own by (fastforce simp: own_def held_def)
  qed
  have ch: "mem (fst (run c t (?s, ?th))) a \<noteq> mem ?s a"
    using assms(3) by (simp add: exec_def put_thread_def)
  consider T i where "pc ?th = C_wb T i" "i < length (w_set (desc ?th))" "a = w_addr (w_set (desc ?th) ! i)"
    | T i x where "pc ?th = C_wst T i x" "a = w_addr (w_set (desc ?th) ! i)"
    | x n where "pc ?th = UW_store a x n"
    using ch
    by (cases "pc ?th") (auto simp: run_def read_lock_def read_value_def read_check_def read_recheck_def
        extend_clock_def extend_validate_def write_lock_def commit_load_def commit_cas_def commit_inc_def
        commit_validate_def write_back_def write_back_store_def commit_release_def rollback_drop_def
        stm_prepare_def unit_load_lock_def unit_load_value_def unit_load_check_def unit_write_lock_def
        unit_write_cas_def unit_write_store_def unit_write_inc_def unit_write_release_def Let_def
        split: if_splits lock.splits)
  then show ?thesis
  proof cases
    case 1
    then show ?thesis using covered p by (auto simp: pc_inv_def)
  next
    case 2
    then show ?thesis using covered p by (auto simp: pc_inv_def)
  next
    case 3
    then have "unit_lock ?th = Some (GET_LOCK a)" by (simp add: unit_lock_def)
    then show ?thesis
      using u GI_unit_lock [OF reach_GI [OF assms(1,2)]] by (auto simp: unit_own_def)
  qed
qed

theorem store_under_lock_witness:
  "mem (sh (exec cfg0 (Run 0) (fst (ex cfg0 store_ex)))) 8 \<noteq> mem (sh (fst (ex cfg0 store_ex))) 8 \<and>
   (\<exists>k. locks (sh (fst (ex cfg0 store_ex))) (GET_LOCK 8) = Owned 0 k)"
proof -
  have "mem (sh (exec cfg0 (Run 0) (fst (ex cfg0 store_ex)))) 8 \<noteq> mem (sh (fst (ex cfg0 store_ex))) 8"
    "unit_lock (thr (fst (ex cfg0 store_ex)) 0) = None"
    by (simp_all add: ex_defs unit_lock_def)
  then show ?thesis
    using store_under_lock [OF reach_demo(1) cfg_ok_demo(1)] by fastforce
qed

text \<open>
  C6. Locks are not leaked: a thread that runs application code holds no lock and has no write
  under way, whether its last call committed, aborted or jumped back.
\<close>

theorem no_lock_leak:
  assumes "reach c ts (S, g)" "cfg_ok c" "pc (thr S t) = App"
  shows "locks (sh S) l \<noteq> Owned t k \<and> uown g l \<noteq> Some t \<and> dirty g a \<noteq> Some t"
  using idle_holds_nothing [OF assms(1,2)] assms(3) by blast

theorem no_lock_leak_witness: "locks (sh (fst (ex cfg0 commit_ex))) 0 \<noteq> Owned 0 0"
  using no_lock_leak [OF reach_demo(2) cfg_ok_demo(1), of 0] by (simp add: ex_defs)



section \<open>Unit loads and clock resets\<close>

text \<open>
  A unit load returns the value its address has in the last image of the serial history, with
  the version of the last update that covers it.
\<close>

theorem unit_load_current:
  assumes "reach c ts (S, g)" "cfg_ok c" "pc (thr S t) = UL_lock2 a v x"
    and "exec c (Run t) S = S'" "pc (thr S' t) = App"
  shows "res (thr S' t) = RUnitLoad (hist g (clock (sh S)) a) (cver g (GET_LOCK a))"
proof -
  note G = reach_GI [OF assms(1,2)]
  have r: "RA g a v x"
    using reach_LI [OF assms(1,2), of t] assms(3) by (simp add: LI_def pc_inv_def)
  have l: "locks (sh S) (GET_LOCK a) = Version v" and res: "res (thr S' t) = RUnitLoad x v"
    using assms(3-5)
    by (auto simp: exec_def put_thread_def run_def unit_load_check_def unit_load_restart_def
        split: if_splits lock.splits)
  have v: "v = cver g (GET_LOCK a)"
    by (rule GI_version [OF G l])
  moreover have "\<not> upre g (GET_LOCK a)"
    using GI_upre [OF G] l by force
  ultimately have "x = hist g v a"
    using r by (simp add: RA_def)
  then have "x = hist g (clock (sh S)) a"
    using v GI_hist [OF G GI_cver_le [OF G]] by metis
  then show ?thesis
    using res v by simp
qed

theorem unit_load_current_witness:
  "res (thr (exec cfg0 (Run 1) (fst (ex cfg0 (commit_ex @ [Call 1 (OpUnitLoad 8), Run 1, Run 1])))) 1) =
     RUnitLoad 5 1"
proof -
  let ?acts = "commit_ex @ [Call 1 (OpUnitLoad 8), Run 1, Run 1]"
  have "reach cfg0 {0, 1} (fst (ex cfg0 ?acts), snd (ex cfg0 ?acts))"
    by (rule reach_ex) (simp add: ex_defs)
  moreover have "pc (thr (fst (ex cfg0 ?acts)) 1) = UL_lock2 8 1 5"
    "pc (thr (exec cfg0 (Run 1) (fst (ex cfg0 ?acts))) 1) = App"
    "hist (snd (ex cfg0 ?acts)) (clock (sh (fst (ex cfg0 ?acts)))) 8 = 5"
    "cver (snd (ex cfg0 ?acts)) (GET_LOCK 8) = 1"
    by (simp_all add: ex_defs apply_writes_def apply_entry_def masked_def)
  ultimately show ?thesis
    using unit_load_current [OF _ cfg_ok_demo(1) _ refl] by metis
qed

text \<open>Unit stores one after the other drive the clock as far as one likes.\<close>

lemma unit_stores:
  assumes "n < version_max"
  shows "\<exists>S g v. reach cfg0 {0} (S, g) \<and> clock (sh S) = n \<and> pc (thr S 0) = App \<and>
    nesting (desc (thr S 0)) = 0 \<and> locks (sh S) (GET_LOCK 8) = Version v"
  using assms
proof (induction n)
  case 0
  then show ?case
    using reach_init [OF init_state0, of cfg0 "{0}"]
    by (intro exI [of _ state0]) (auto simp: state0_def thread0_def)
next
  case (Suc n)
  then obtain S g v where R: "reach cfg0 {0} (S, g)"
    and S: "clock (sh S) = n" "pc (thr S 0) = App" "nesting (desc (thr S 0)) = 0"
      "locks (sh S) (GET_LOCK 8) = Version v"
    by auto
  let ?acts = "[Call 0 (OpUnitStore 8 9 None), Run 0, Run 0, Run 0, Run 0, Run 0]"
  have "enableds cfg0 {0} ?acts (S, g)"
    using S by (simp add: machine_defs unit_defs)
  then have R': "reach cfg0 {0} (gexecs cfg0 ?acts (S, g))"
    by (rule reach_gexecs [OF R])
  have "clock (sh (fst (gexecs cfg0 ?acts (S, g)))) = Suc n \<and>
      pc (thr (fst (gexecs cfg0 ?acts (S, g))) 0) = App \<and>
      nesting (desc (thr (fst (gexecs cfg0 ?acts (S, g))) 0)) = 0 \<and>
      locks (sh (fst (gexecs cfg0 ?acts (S, g)))) (GET_LOCK 8) = Version (Suc n)"
    using S Suc.prems by (simp add: machine_defs unit_defs)
  with R' show ?case
    by (metis prod.collapse)
qed

lemma rollover_reachable: "\<exists>S g. reach cfg0 {0} (S, g) \<and> enabled cfg0 {0} Rollover S"
proof -
  obtain S g v where R: "reach cfg0 {0} (S, g)"
    and S: "clock (sh S) = version_max - 1" "pc (thr S 0) = App" "nesting (desc (thr S 0)) = 0"
      "locks (sh S) (GET_LOCK 8) = Version v"
    using unit_stores [of "version_max - 1"] by (auto simp: version_max_value)
  let ?acts = "[Call 0 (OpUnitStore 8 9 None), Run 0, Run 0, Run 0, Run 0, Run 0]"
  have "enableds cfg0 {0} ?acts (S, g)"
    using S by (simp add: machine_defs unit_defs)
  then have "reach cfg0 {0} (gexecs cfg0 ?acts (S, g))"
    by (rule reach_gexecs [OF R])
  moreover have "enabled cfg0 {0} Rollover (fst (gexecs cfg0 ?acts (S, g)))"
    using S by (simp add: machine_defs unit_defs at_barrier_def)
  ultimately show ?thesis
    by (metis prod.collapse)
qed

text \<open>
  C10. When the clock may be reset, that is when all registered threads wait at the barrier, no
  lock is held and memory is settled: clearing the lock array loses no lock and no pending write.
\<close>

theorem rollover_is_safe:
  assumes "reach c ts (S, g)" "cfg_ok c" "enabled c ts Rollover S"
  shows "mem (sh S) = hist g (clock (sh S)) \<and> (\<forall>l. \<exists>v. locks (sh S) l = Version v) \<and>
    (\<forall>t. \<not> in_tx (thr S t))"
proof -
  have r: "pc (thr S t) = App \<and> nesting (desc (thr S t)) = 0 \<or> at_barrier (thr S t)" for t
    using reach_SI [OF assms(1,2)] assms(3) by (auto simp: SI_def enabled_def)
  have "\<not> in_tx (thr S t)" for t
    using r [of t] by (auto simp: in_tx_def at_barrier_def split: pc.splits)
  then show ?thesis
    using settled_memory [OF assms(1,2)] r by meson
qed

theorem rollover_is_safe_witness:
  "\<exists>S (g::ghost). enabled cfg0 {0} Rollover S \<and> mem (sh S) = hist g (clock (sh S)) \<and>
     (\<forall>l. \<exists>v. locks (sh S) l = Version v)"
proof -
  obtain S g where R: "reach cfg0 {0} (S, g)" and e: "enabled cfg0 {0} Rollover S"
    using rollover_reachable by blast
  from rollover_is_safe [OF R cfg_ok_demo(1) e] e show ?thesis
    by blast
qed

end
