(* ===== verification/Stm_Calls.thy ===== *)
theory Stm_Calls
  imports Stm_Theorems
begin

text \<open>
  Whole calls of \<^verbatim>\<open>stm_load\<close> and \<^verbatim>\<open>stm_store2\<close>, from the call to the return to application code, in any
  interleaving with the other threads: what a load returns, and that it sees what the transaction has
  itself stored.

  Between the call and the return the thread may read, extend its snapshot, be interrupted by a tick
  and abort. \<open>awaiting\<close> is the predicate on the thread that holds all the way; steps of other threads
  do not concern it, as it speaks of the thread and of its own log of reads only.
\<close>

section \<open>A call under way\<close>

definition accessing :: "pc \<Rightarrow> bool" where
  "accessing p = (case p of
     R_lock _ \<Rightarrow> True | R_val _ _ \<Rightarrow> True | R_lock2 _ _ _ \<Rightarrow> True | R_lock3 _ _ _ \<Rightarrow> True | W_lock _ _ _ \<Rightarrow> True
   | _ \<Rightarrow> False)"

text \<open>
  \<open>P\<close> says where the thread may be while it accesses memory, \<open>Q\<close> what holds of the write set and the
  result when the call returns into the transaction it was made in. Nothing is said of a thread that
  is rolling back: it jumps back to the start (\<open>RJmp\<close>) or leaves the transaction.
\<close>

definition returned :: "(w_entry list \<Rightarrow> result \<Rightarrow> bool) \<Rightarrow> thread \<Rightarrow> result \<Rightarrow> bool" where
  "returned Q th r \<longleftrightarrow> 0 < nesting (desc th) \<longrightarrow> Q (w_set (desc th)) r"

definition awaiting_ext :: "(w_entry list \<Rightarrow> pc \<Rightarrow> bool) \<Rightarrow> (w_entry list \<Rightarrow> result \<Rightarrow> bool) \<Rightarrow> thread \<Rightarrow> ext_ctx \<Rightarrow> bool" where
  "awaiting_ext P Q th ctx = (case ctx of
     ExtRead a v x \<Rightarrow> P (w_set (desc th)) (R_lock3 a v x)
   | ExtStandLoad y \<Rightarrow> returned Q th (RLoad y)
   | ExtStandStore \<Rightarrow> returned Q th RStore
   | ExtTick \<Rightarrow> returned Q th (res th))"

definition awaiting :: "(w_entry list \<Rightarrow> pc \<Rightarrow> bool) \<Rightarrow> (w_entry list \<Rightarrow> result \<Rightarrow> bool) \<Rightarrow> thread \<Rightarrow> bool" where
  "awaiting P Q th = (case pc th of
     App \<Rightarrow> returned Q th (res th)
   | LoadEnd y \<Rightarrow> returned Q th (RLoad y)
   | WriteEnd \<Rightarrow> returned Q th RStore
   | E_clock ctx \<Rightarrow> awaiting_ext P Q th ctx
   | E_val ctx now i \<Rightarrow> awaiting_ext P Q th ctx
   | B_rel _ _ _ \<Rightarrow> True
   | B_end _ _ \<Rightarrow> True
   | P_clock ctx \<Rightarrow> (case ctx of PrepRollback _ _ \<Rightarrow> True | _ \<Rightarrow> False)
   | P_barrier ctx \<Rightarrow> (case ctx of PrepRollback _ _ \<Rightarrow> True | _ \<Rightarrow> False)
   | p \<Rightarrow> accessing p \<and> P (w_set (desc th)) p)"

lemmas awaiting_defs = awaiting_def awaiting_ext_def returned_def accessing_def

lemma awaiting_ext_pc [simp]: "awaiting_ext P Q (th\<lparr>pc := p\<rparr>) ctx = awaiting_ext P Q th ctx"
  by (simp add: awaiting_ext_def returned_def split: ext_ctx.splits)

lemma awaiting_mono:
  assumes "awaiting P Q th" "\<And>ws r. Q ws r \<Longrightarrow> Q' ws r"
  shows "awaiting P Q' th"
  using assms by (cases "pc th") (auto simp: awaiting_defs split: ext_ctx.splits)

lemma leave_stand_awaiting [simp]: "awaiting P Q (leave_stand c th) = awaiting P Q th"
  by (cases "pc th") (simp_all add: leave_stand_def awaiting_defs split: ext_ctx.splits)

text \<open>The result with which a rollback that is simulated only returns.\<close>

definition rb_awaits :: "(w_entry list \<Rightarrow> result \<Rightarrow> bool) \<Rightarrow> thread \<Rightarrow> rb_ctx \<Rightarrow> bool" where
  "rb_awaits Q th ctx = (case ctx of
     RbStandLoad y \<Rightarrow> returned Q th (RLoad y) | RbStandStore \<Rightarrow> returned Q th RStore | RbTick \<Rightarrow> returned Q th (res th)
   | _ \<Rightarrow> False)"

lemma rollback_awaiting:
  assumes "rb_awaits Q th ctx \<or> (ea_extratick c \<longrightarrow> ea_simulate_abort c \<longrightarrow> tx_on (cbuf th))"
  shows "awaiting P Q (stm_rollback c ctx reason th)"
  using assms
  by (auto simp: stm_rollback_def rb_return_def leave_stand_def rb_awaits_def awaiting_defs split: rb_ctx.splits)

lemma extend_ok_awaiting: "awaiting_ext P Q th ctx \<Longrightarrow> awaiting P Q (extend_ok c ctx th)"
  by (auto simp: extend_ok_def leave_stand_def awaiting_defs Let_def split: ext_ctx.splits)

lemma extend_awaiting: "awaiting_ext P Q th ctx \<Longrightarrow> awaiting P Q (stm_extend c ctx th)"
  using extend_ok_awaiting [of P Q "th\<lparr>cbuf := (cbuf th)\<lparr>recently_validated := True\<rparr>\<rparr>" ctx c] extend_ok_awaiting [of P Q th ctx c]
  by (auto simp: stm_extend_def awaiting_defs Let_def split: ext_ctx.splits)

lemma stand_awaiting: "awaiting_ext P Q th ctx \<Longrightarrow> awaiting P Q (stand_extend c ctx th)"
  unfolding stand_extend_def by (rule extend_awaiting) (simp add: awaiting_defs split: ext_ctx.splits)

lemma extend_failed_awaiting:
  assumes "awaiting_ext P Q th ctx" "\<forall>a v x. ctx = ExtRead a v x \<longrightarrow> ea_extratick c \<longrightarrow> ea_simulate_abort c \<longrightarrow> tx_on (cbuf th)"
  shows "awaiting P Q (extend_failed c ctx th)"
  using assms
  by (auto simp: extend_failed_def read_abort_def stm_abort_def awaiting_ext_def rb_awaits_def returned_def
      intro!: rollback_awaiting split: ext_ctx.splits)

text \<open>Steps that make no access to the data.\<close>

lemma run_awaiting:
  assumes L: "LI c t s g th" "cfg_ok c" and A: "awaiting P Q th" "\<not> accessing (pc th)" "\<And>ws r. Q ws (RJmp r)"
  shows "awaiting P Q (snd (run c t (s, th)))"
proof -
  have on: "tx_on (cbuf th)" if "pc th = E_clock (ExtRead a v x) \<or> pc th = E_val (ExtRead a v x) now i"
      "ea_extratick c" "ea_simulate_abort c" for a v x now i
    using that by (intro platform_tx_on [OF L(1) _ L(2)]) (auto simp: platform_mode_def)
  show ?thesis
  proof (cases "pc th")
    case (LoadEnd y)
    then have "awaiting_ext P Q th (ExtStandLoad y)" "awaiting P Q (th\<lparr>pc := App, res := RLoad y\<rparr>)"
      using A(1) by (simp_all add: awaiting_defs)
    then show ?thesis
      using LoadEnd stand_awaiting by (simp add: run_def load_end_def)
  next
    case WriteEnd
    then have "awaiting_ext P Q th ExtStandStore" "awaiting P Q (th\<lparr>pc := App, res := RStore\<rparr>)"
      using A(1) by (simp_all add: awaiting_defs)
    then show ?thesis
      using WriteEnd stand_awaiting by (simp add: run_def write_end_def)
  next
    case (E_clock ctx)
    then have e: "awaiting_ext P Q th ctx"
      using A(1) by (simp add: awaiting_def)
    have "awaiting P Q (extend_failed c ctx th)"
      using E_clock on by (intro extend_failed_awaiting [OF e]) blast
    moreover have "awaiting P Q (th\<lparr>pc := E_val ctx (clock s) 0\<rparr>)"
      using e by (simp add: awaiting_def)
    ultimately show ?thesis
      using E_clock by (simp add: run_def extend_clock_def)
  next
    case (E_val ctx now i)
    then have e: "awaiting_ext P Q th ctx"
      using A(1) by (simp add: awaiting_def)
    have "awaiting P Q (extend_failed c ctx th)"
      using E_val on by (intro extend_failed_awaiting [OF e]) blast
    moreover have "awaiting P Q (th\<lparr>pc := E_val ctx now (i + 1)\<rparr>)"
      using e by (simp add: awaiting_def)
    moreover have "awaiting P Q (extend_ok c ctx (th\<lparr>desc := (desc th)\<lparr>tx_end := now\<rparr>\<rparr>))"
      using e by (intro extend_ok_awaiting) (simp add: awaiting_ext_def returned_def split: ext_ctx.splits)
    ultimately show ?thesis
      using E_val by (simp add: run_def extend_validate_def)
  next
    case (P_clock ctx)
    then show ?thesis
      using A(1,3) by (auto simp: run_def stm_prepare_def prepare_return_def prepare_reset_def rollback_restart_def
          rb_return_def leave_stand_def awaiting_defs Let_def split: prep_ctx.splits rb_ctx.splits option.splits)
  qed (use A in \<open>auto simp: run_def rollback_drop_def rollback_end_def awaiting_def accessing_def Let_def split: prep_ctx.splits\<close>)
qed

lemma tick_awaiting:
  assumes "awaiting P Q th" "in_section (cbuf th) ip \<longrightarrow> pc th = App"
  shows "awaiting P Q (stm_tick c callback now half ip s th)"
proof -
  obtain cb d where h: "tick_handler callback (clock s) (tx_end (desc th)) now half ip (cbuf th) = (cb, d)"
    by fastforce
  show ?thesis
  proof (cases d)
    case True
    then have "pc th = App"
      using tick_delivered_in_tx [of callback] h assms(2) by auto
    then have "awaiting_ext P Q (th\<lparr>cbuf := cb\<lparr>tx_on := False\<rparr>\<rparr>) ExtTick"
      using assms(1) by (simp add: awaiting_defs)
    then show ?thesis
      using True h extend_awaiting by (simp add: stm_tick_def stm_revalidate_def)
  next
    case False
    then show ?thesis
      using h assms(1) by (cases "pc th") (auto simp: stm_tick_def awaiting_defs split: ext_ctx.splits)
  qed
qed

section \<open>Executions during a call\<close>

definition makes_no_call :: "tid \<Rightarrow> action list \<Rightarrow> bool" where
  "makes_no_call t acts \<longleftrightarrow> (\<forall>oper. Call t oper \<notin> set acts)"

text \<open>Other threads do not touch the log of reads.\<close>

lemma observe_greads_other: "u \<noteq> t \<Longrightarrow> greads (observe u s th g) t = greads g t"
  by (auto simp: observe_def log_read_def clean_def linearize_def set_pend_def split: pc.splits)

text \<open>
  A predicate on the thread and its log of reads that holds after the call, is kept by the steps of the
  thread and by ticks, and allows the thread to be at the barrier, holds until the next call.
\<close>

lemma during_call:
  assumes "reach c ts (S, g)" "cfg_ok c" "t \<in> ts" "enableds c ts acts (S, g)" "makes_no_call t acts" "I (set (greads g t)) (thr S t)"
    and run: "\<And>s g th. LI c t s g th \<Longrightarrow> pc th \<noteq> App \<Longrightarrow> I (set (greads g t)) th \<Longrightarrow>
      I (set (greads (observe t s th g) t)) (snd (run c t (s, th)))"
    and tick: "\<And>R th callback now half ip s. I R th \<Longrightarrow> in_section (cbuf th) ip \<longrightarrow> pc th = App \<Longrightarrow>
      I R (stm_tick c callback now half ip s th)"
    and barrier: "\<And>R th. I R th \<Longrightarrow> at_barrier th \<Longrightarrow> I {} (leave_barrier th)"
  shows "I (set (greads (snd (gexecs c acts (S, g))) t)) (thr (fst (gexecs c acts (S, g))) t)"
  using assms(1,4,5,6)
proof (induction acts arbitrary: S g)
  case (Cons act acts)
  obtain S' g' where e: "gexec c act (S, g) = (S', g')" by fastforce
  have en: "enabled c ts act S"
    using Cons.prems(2) by simp
  have L: "LI c t (sh S) g (thr S t)"
    by (rule reach_LI [OF Cons.prems(1) assms(2)])
  have "I (set (greads g' t)) (thr S' t)"
  proof (cases act)
    case (Call u oper)
    then have "u \<noteq> t"
      using Cons.prems(3) by (auto simp: makes_no_call_def)
    then show ?thesis
      using Call e Cons.prems(4) by (auto simp: gexec_def exec_def put_thread_def)
  next
    case (Run u)
    then show ?thesis
      using e Cons.prems(4) run [OF L] en observe_greads_other [of u t]
      by (cases "u = t") (auto simp: gexec_def exec_def put_thread_def enabled_def)
  next
    case (Interrupt u callback now half ip)
    then show ?thesis
      using e Cons.prems(4) tick en by (cases "u = t") (auto simp: gexec_def exec_def put_thread_def enabled_def)
  next
    case Rollover
    then show ?thesis
      using e Cons.prems(4) barrier en assms(3) by (auto simp: gexec_def exec_def observe_rollover_def enabled_def)
  qed
  moreover have "reach c ts (S', g')"
    using reach_step [OF Cons.prems(1) en] e by simp
  ultimately show ?case
    using Cons.IH [of S' g'] Cons.prems(2,3) e by (simp add: makes_no_call_def)
qed simp

section \<open>Loads\<close>

text \<open>With one entry per address, the overlay of a load is the effect of the whole write set.\<close>

lemma merge_written_apply:
  assumes "distinct (map w_addr (w_set d))"
  shows "merge_written d a (M a) = apply_writes (w_set d) M a"
proof (cases "stm_has_written d a")
  case None
  then show ?thesis
    using apply_writes_other [of a "w_set d" M] has_written_None [of d a] by (simp add: merge_written_def)
next
  case (Some w)
  then have "w \<in> set (w_set d)" "w_addr w = a"
    using find_SomeD [of "\<lambda>w. w_addr w = a"] by (auto simp: stm_has_written_def)
  then obtain j where "j < length (w_set d)" "w_set d ! j = w"
    by (auto simp: in_set_conv_nth)
  then show ?thesis
    using apply_writes_nth [OF assms, of j M] Some \<open>w_addr w = a\<close> by (simp add: merge_written_def)
qed

definition at_load :: "w_entry list \<Rightarrow> addr \<Rightarrow> w_entry list \<Rightarrow> pc \<Rightarrow> bool" where
  "at_load ws0 a ws p \<longleftrightarrow> ws = ws0 \<and> (case p of
     R_lock b \<Rightarrow> b = a | R_val b _ \<Rightarrow> b = a | R_lock2 b _ _ \<Rightarrow> b = a | R_lock3 b _ _ \<Rightarrow> b = a | _ \<Rightarrow> False)"

text \<open>The value loaded is a value read, or does not depend on memory, with the write set on top.\<close>

definition answer :: "w_entry list \<Rightarrow> addr \<Rightarrow> (addr \<times> nat \<times> stm_word) set \<Rightarrow> w_entry list \<Rightarrow> result \<Rightarrow> bool" where
  "answer ws0 a R ws r = (case r of
     RLoad y \<Rightarrow> (\<forall>x. y = apply_writes ws0 (\<lambda>_. x) a) \<or> (\<exists>v x. (a, v, x) \<in> R \<and> y = apply_writes ws0 (\<lambda>_. x) a)
   | _ \<Rightarrow> True)"

lemma answer_mono: "answer ws0 a R ws r \<Longrightarrow> R \<subseteq> R' \<Longrightarrow> answer ws0 a R' ws r"
  by (cases r) (auto simp: answer_def)

lemma read_restart_awaiting:
  "at_load ws0 a (w_set (desc th)) (R_lock a) \<Longrightarrow> awaiting (at_load ws0 a) Q (read_restart a l th)"
  by (cases l) (simp_all add: read_restart_def awaiting_def accessing_def at_load_def)

lemma read_done_awaiting:
  assumes "at_load ws0 a (w_set (desc th)) (R_lock a)" "(a, v, x) \<in> R" "distinct (map w_addr (w_set (desc th)))"
  shows "awaiting (at_load ws0 a) (answer ws0 a R) (read_done a v x th)"
proof -
  have "merge_written (desc th) a x = apply_writes ws0 (\<lambda>_. x) a"
    using merge_written_apply [OF assms(3), of a "\<lambda>_. x"] assms(1) by (simp add: at_load_def)
  then show ?thesis
    using assms(2) by (auto simp: read_done_def awaiting_def returned_def answer_def)
qed

lemma read_abort_awaiting:
  assumes "LI c t s g th" "cfg_ok c" "platform_mode th"
  shows "awaiting P Q (read_abort c th)"
  unfolding read_abort_def
  using platform_tx_on [OF assms(1,3,2)] by (intro rollback_awaiting) auto

lemma load_run:
  assumes L: "LI c t s g th" "cfg_ok c" and A: "awaiting (at_load ws0 a) (answer ws0 a (set (greads g t))) th"
  shows "awaiting (at_load ws0 a) (answer ws0 a (set (greads (observe t s th g) t))) (snd (run c t (s, th)))"
proof (cases "accessing (pc th)")
  case True
  then have p: "at_load ws0 a (w_set (desc th)) (pc th)" and ws: "at_load ws0 a (w_set (desc th)) (R_lock a)"
    using A by (cases "pc th"; simp add: awaiting_def accessing_def at_load_def)+
  have d: "distinct (map w_addr (w_set (desc th)))"
    using L(1) by (simp add: LI_def wf_sets_def)
  note rs = read_restart_awaiting [OF ws]
  note ra = read_abort_awaiting [OF L]
  show ?thesis
  proof (cases "pc th")
    case (R_lock b)
    then show ?thesis
      using p rs by (simp add: at_load_def run_def read_lock_def)
  next
    case (R_val b v)
    then show ?thesis
      using p by (simp add: at_load_def run_def read_value_def awaiting_def accessing_def)
  next
    case (R_lock2 b v x)
    then have b: "b = a" and m: "platform_mode th" and e: "awaiting_ext (at_load ws0 a) Q th (ExtRead a v x)" for Q
      using p by (auto simp: at_load_def platform_mode_def awaiting_ext_def)
    have rd: "awaiting (at_load ws0 a) (answer ws0 a (set (greads (log_read t a v x g) t))) (read_done a v x th)"
      by (rule read_done_awaiting [OF ws _ d]) (simp add: log_read_def)
    show ?thesis
      using rs rd ra [OF m] extend_awaiting [OF e] R_lock2 b
      by (simp add: run_def read_check_def observe_def)
  next
    case (R_lock3 b v x)
    then have b: "b = a"
      using p by (simp add: at_load_def)
    have rd: "awaiting (at_load ws0 a) (answer ws0 a (set (greads (log_read t a v x g) t))) (read_done a v x th)"
      by (rule read_done_awaiting [OF ws _ d]) (simp add: log_read_def)
    show ?thesis
      using rs rd R_lock3 b by (simp add: run_def read_recheck_def observe_def)
  qed (use True p in \<open>simp_all add: accessing_def at_load_def\<close>)
next
  case False
  have jmp: "answer ws0 a R ws (RJmp r)" for R ws r
    by (simp add: answer_def)
  have "awaiting (at_load ws0 a) (answer ws0 a R) th" if "\<exists>ctx. pc th = P_clock ctx" for R
    using A that by (auto simp: awaiting_def)
  moreover have "greads (observe t s th g) t = greads g t" if "\<not> (\<exists>ctx. pc th = P_clock ctx)"
    using False that A by (cases "pc th") (auto simp: observe_def awaiting_def accessing_def)
  ultimately show ?thesis
    using run_awaiting [OF L _ False, of "at_load ws0 a" "answer ws0 a _"] A jmp by metis
qed

lemma barrier_awaiting: "awaiting P Q th \<Longrightarrow> at_barrier th \<Longrightarrow> awaiting P Q' (leave_barrier th)"
  by (cases "pc th") (auto simp: at_barrier_def leave_barrier_def awaiting_def split: prep_ctx.splits)

lemma load_call:
  assumes "LI c t s g th" "pc th = App"
  shows "awaiting (at_load (w_set (desc th)) a) (answer (w_set (desc th)) a R) (call c (OpLoad a) th)"
proof (cases "stm_has_written (desc th) a")
  case (Some w)
  have "distinct (map w_addr (w_set (desc th)))"
    using assms(1) by (simp add: LI_def wf_sets_def)
  then have "apply_writes (w_set (desc th)) (\<lambda>_. x) a = w_value w" if "w_mask w = NOT 0" for x
    using merge_written_apply [of "desc th" a "\<lambda>_. x"] Some that by (simp add: merge_written_def)
  then show ?thesis
    using Some by (simp add: call_def load_enter_def awaiting_def accessing_def at_load_def returned_def answer_def)
qed (simp add: call_def load_enter_def awaiting_def accessing_def at_load_def)

lemma load_answers:
  assumes "reach c ts (S, g)" "cfg_ok c" "enableds c ts (Call t (OpLoad a) # acts) (S, g)" "makes_no_call t acts"
    and "gexecs c (Call t (OpLoad a) # acts) (S, g) = (S', g')"
    and "pc (thr S' t) = App" "res (thr S' t) = RLoad y" "0 < nesting (desc (thr S' t))"
  shows "answer (w_set (desc (thr S t))) a (set (greads g' t)) [] (RLoad y)"
proof -
  let ?I = "\<lambda>R. awaiting (at_load (w_set (desc (thr S t))) a) (answer (w_set (desc (thr S t))) a R)"
  obtain S1 g1 where 1: "gexec c (Call t (OpLoad a)) (S, g) = (S1, g1)" by fastforce
  have en: "enabled c ts (Call t (OpLoad a)) S" "enableds c ts acts (S1, g1)"
    using assms(3) 1 by simp_all
  have R1: "reach c ts (S1, g1)"
    using reach_step [OF assms(1) en(1)] 1 by simp
  have start: "?I (set (greads g1 t)) (thr S1 t)"
    using 1 en(1) load_call [OF reach_LI [OF assms(1,2)]] by (auto simp: gexec_def exec_def put_thread_def enabled_def)
  have "t \<in> ts"
    using en(1) by (simp add: enabled_def)
  then have "?I (set (greads (snd (gexecs c acts (S1, g1))) t)) (thr (fst (gexecs c acts (S1, g1))) t)"
    by (rule during_call [where I = ?I, OF R1 assms(2) _ en(2) assms(4) start])
      (use load_run [OF _ assms(2)] tick_awaiting barrier_awaiting in blast)+
  then show ?thesis
    using assms(5-8) 1 by (simp add: awaiting_def returned_def answer_def)
qed

lemma load_snapshot:
  assumes "reach c ts (S, g)" "cfg_ok c" "enableds c ts (Call t (OpLoad a) # acts) (S, g)" "makes_no_call t acts"
    and "gexecs c (Call t (OpLoad a) # acts) (S, g) = (S', g')"
    and "pc (thr S' t) = App" "res (thr S' t) = RLoad y" "0 < nesting (desc (thr S' t))"
    and "ro (desc (thr S' t)) \<longrightarrow> \<not> ea_extratick c"
  shows "y = apply_writes (w_set (desc (thr S t))) (hist g' (hz g' t)) a \<and>
    tx_start (desc (thr S' t)) \<le> hz g' t \<and> hz g' t \<le> clock (sh S')"
proof -
  let ?ws = "w_set (desc (thr S t))"
  have R': "reach c ts (S', g')"
    using reach_gexecs [OF assms(1,3)] assms(5) by simp
  have tx: "in_tx (thr S' t)"
    using assms(6,8) by (simp add: in_tx_def)
  have "y = apply_writes ?ws (\<lambda>_. hist g' (hz g' t) a) a"
    using load_answers [OF assms(1-8)] reach_reads(4) [OF R' assms(2) tx _ assms(9)] by (auto simp: answer_def)
  then have "y = apply_writes ?ws (hist g' (hz g' t)) a"
    using apply_writes_cong [of "\<lambda>_. hist g' (hz g' t) a" a "hist g' (hz g' t)" ?ws] by simp
  then show ?thesis
    using reach_reads(1,3) [OF R' assms(2) tx] by simp
qed

text \<open>
  C3. What a load returns: when a call of \<^verbatim>\<open>stm_load\<close> returns \<open>y\<close> and the transaction goes on, \<open>y\<close> is the
  value of the address in the snapshot of the transaction, an image of the serial history between its
  (re)start and now, overlaid with what the transaction has written there before, byte by byte. This
  holds on every path of the call: answered from the write set, read, read again after an extension,
  with ticks in between and in any interleaving. Excluded are read-only transactions of early-abort
  builds, for which the snapshot fails (\<open>ea_read_only_snapshot_broken\<close>).
\<close>

theorem load_returns_snapshot:
  assumes "reach c ts (S, g)" "cfg_ok c" "enableds c ts (Call t (OpLoad a) # acts) (S, g)" "makes_no_call t acts"
    and "gexecs c (Call t (OpLoad a) # acts) (S, g) = (S', g')"
    and "pc (thr S' t) = App" "res (thr S' t) = RLoad y" "0 < nesting (desc (thr S' t))"
    and "ro (desc (thr S' t)) \<longrightarrow> \<not> ea_extratick c"
  shows "y = apply_writes (w_set (desc (thr S t))) (hist g' (hz g' t)) a \<and>
    tx_start (desc (thr S' t)) \<le> hz g' t \<and> hz g' t \<le> clock (sh S')"
  using load_snapshot [OF assms] .

text \<open>Thread 0 has read 8; it loads 64, and meanwhile thread 1 commits to 64, so that the load extends the snapshot.\<close>

definition load_pre :: "action list" where
  "load_pre = [Call 0 (OpStart None), Run 0, Call 0 (OpLoad 8), Run 0, Run 0, Run 0, Run 0]"

definition load_acts :: "action list" where
  "load_acts = other_commit @ replicate 8 (Run 0)"

lemma replicate_runs: "replicate 4 (Run t) = [Run t, Run t, Run t, Run t]"
  "replicate 8 (Run t) = [Run t, Run t, Run t, Run t, Run t, Run t, Run t, Run t]"
  by (simp_all add: eval_nat_numeral)

theorem load_returns_snapshot_witness:
  "\<exists>S' g'. gexecs cfg0 (Call 0 (OpLoad 64) # load_acts) (ex cfg0 load_pre) = (S', g') \<and>
     7 = apply_writes (w_set (desc (thr (fst (ex cfg0 load_pre)) 0))) (hist g' (hz g' 0)) 64 \<and> hz g' 0 \<le> clock (sh S')"
proof -
  obtain S g where S: "ex cfg0 load_pre = (S, g)" by fastforce
  obtain S' g' where S': "gexecs cfg0 (Call 0 (OpLoad 64) # load_acts) (S, g) = (S', g')" by fastforce
  have "enableds cfg0 {0, 1} load_pre (state0, init_ghost (sh state0))"
    by (simp add: load_pre_def eval_defs)
  then have "reach cfg0 {0, 1} (S, g)"
    using reach_ex S by (metis fst_conv snd_conv)
  moreover have "enableds cfg0 {0, 1} (Call 0 (OpLoad 64) # load_acts) (S, g)"
    unfolding S [symmetric] by (simp add: load_pre_def load_acts_def other_commit_def replicate_runs eval_defs)
  moreover have "makes_no_call 0 load_acts"
    by (simp add: makes_no_call_def load_acts_def other_commit_def)
  moreover have "pc (thr S' 0) = App" "res (thr S' 0) = RLoad 7" "0 < nesting (desc (thr S' 0))"
    using S' unfolding S [symmetric]
    by (auto simp: load_pre_def load_acts_def other_commit_def replicate_runs eval_defs)
  ultimately show ?thesis
    using load_returns_snapshot [OF _ cfg_ok_demo(1), of "{0, 1}" S g 0 64 load_acts S' g' 7] S S' by (simp add: cfg0_def)
qed

section \<open>Reading one's own writes\<close>

lemma find_update_written:
  assumes "\<And>w. w_addr (f w) = w_addr w"
  shows "List.find (\<lambda>w. w_addr w = b) (update_written a f ws) =
    (if b = a then map_option f (List.find (\<lambda>w. w_addr w = a) ws)
     else List.find (\<lambda>w. w_addr w = b) ws)"
  by (induction ws) (auto simp: assms)

lemma find_snoc:
  "List.find P (xs @ [x]) = (case List.find P xs of None \<Rightarrow> if P x then Some x else None | y \<Rightarrow> y)"
  by (induction xs) auto

lemma merge_written_update:
  assumes "stm_has_written tx a \<noteq> None"
  shows "merge_written (tx\<lparr>w_set := update_written a (merge_entry value msk) (w_set tx)\<rparr>) b y =
    (if b = a then masked (merge_written tx a y) value msk else merge_written tx b y)"
  using assms
  by (auto simp: merge_written_def stm_has_written_def find_update_written merge_entry_def masked_masked
      split: option.splits)

lemma merge_written_add:
  assumes "stm_has_written tx a = None"
  shows "merge_written (add_to_write_set c a value msk tx) b y =
    (if b = a then masked (merge_written tx a y) value msk else merge_written tx b y)"
  using assms
  by (auto simp: merge_written_def stm_has_written_def find_snoc add_to_write_set_def
      stm_allocate_ws_entries_def Let_def split: option.splits)

text \<open>The effect of a store on the write set, seen through every image of memory.\<close>

definition overlays :: "addr \<Rightarrow> stm_word \<Rightarrow> stm_word \<Rightarrow> w_entry list \<Rightarrow> w_entry list \<Rightarrow> bool" where
  "overlays a value msk ws0 ws \<longleftrightarrow> (\<forall>M b. apply_writes ws M b =
     (if b = a then masked (apply_writes ws0 M a) value msk else apply_writes ws0 M b))"

definition at_store :: "addr \<Rightarrow> stm_word \<Rightarrow> stm_word \<Rightarrow> w_entry list \<Rightarrow> w_entry list \<Rightarrow> pc \<Rightarrow> bool" where
  "at_store a value msk ws0 ws p \<longleftrightarrow> ws = ws0 \<and> p = W_lock a value msk"

definition stored :: "addr \<Rightarrow> stm_word \<Rightarrow> stm_word \<Rightarrow> w_entry list \<Rightarrow> w_entry list \<Rightarrow> result \<Rightarrow> bool" where
  "stored a value msk ws0 ws r \<longleftrightarrow> (r = RStore \<longrightarrow> overlays a value msk ws0 ws)"

lemma overlays_merge:
  assumes "distinct (map w_addr (w_set tx))" "distinct (map w_addr (w_set tx'))"
    and "\<And>b y. merge_written tx' b y = (if b = a then masked (merge_written tx a y) value msk else merge_written tx b y)"
  shows "overlays a value msk (w_set tx) (w_set tx')"
  unfolding overlays_def
proof (intro allI)
  fix M b
  have "apply_writes (w_set tx') M b = merge_written tx' b (M b)" "apply_writes (w_set tx) M b = merge_written tx b (M b)"
    using merge_written_apply assms(1,2) by metis+
  then show "apply_writes (w_set tx') M b = (if b = a then masked (apply_writes (w_set tx) M a) value msk else apply_writes (w_set tx) M b)"
    using assms(3) [of b "M b"] by auto
qed

lemma overlays_update:
  assumes "distinct (map w_addr (w_set tx))" "stm_has_written tx a \<noteq> None"
  shows "overlays a value msk (w_set tx) (update_written a (merge_entry value msk) (w_set tx))"
proof -
  let ?tx = "tx\<lparr>w_set := update_written a (merge_entry value msk) (w_set tx)\<rparr>"
  have "distinct (map w_addr (w_set ?tx))"
    using assms(1) by (simp add: merge_entry_def)
  then show ?thesis
    using overlays_merge [OF assms(1) _ merge_written_update [OF assms(2), of "value" msk]] by simp
qed

lemma overlays_add:
  assumes "distinct (map w_addr (w_set tx))" "stm_has_written tx a = None"
  shows "overlays a value msk (w_set tx) (w_set (add_to_write_set c a value msk tx))"
proof -
  let ?tx = "add_to_write_set c a value msk tx"
  have "distinct (map w_addr (w_set ?tx))"
    using assms has_written_None [of tx a] by (auto simp: add_to_write_set_def stm_allocate_ws_entries_def Let_def)
  then show ?thesis
    by (rule overlays_merge [OF assms(1) _ merge_written_add [OF assms(2)]])
qed

lemma store_run:
  assumes L: "LI c t s g th" "cfg_ok c" and A: "awaiting (at_store a value msk ws0) (stored a value msk ws0) th"
  shows "awaiting (at_store a value msk ws0) (stored a value msk ws0) (snd (run c t (s, th)))"
proof (cases "accessing (pc th)")
  case True
  then have p: "pc th = W_lock a value msk" "w_set (desc th) = ws0"
    using A by (cases "pc th"; simp add: awaiting_def accessing_def at_store_def)+
  have d: "distinct (map w_addr (w_set (desc th)))"
    using L(1) by (simp add: LI_def wf_sets_def)
  have "platform_mode th"
    using p by (simp add: platform_mode_def)
  then have "awaiting (at_store a value msk ws0) (stored a value msk ws0) (write_abort c th)"
    unfolding write_abort_def using platform_tx_on [OF L(1) _ L(2)] by (intro rollback_awaiting) auto
  moreover have "awaiting (at_store a value msk ws0) (stored a value msk ws0)
      (th\<lparr>desc := (desc th)\<lparr>w_set := update_written a (merge_entry value msk) (w_set (desc th))\<rparr>, pc := WriteEnd\<rparr>)"
    if "stm_has_written (desc th) a \<noteq> None"
    using overlays_update [OF d that, of "value" msk] p(2) by (simp add: awaiting_def returned_def stored_def)
  moreover have "awaiting (at_store a value msk ws0) (stored a value msk ws0)
      (th\<lparr>desc := add_to_write_set c a value msk (desc th), pc := WriteEnd\<rparr>)" if "stm_has_written (desc th) a = None"
    using overlays_add [OF d that, of "value" msk c] p(2) by (simp add: awaiting_def returned_def stored_def)
  ultimately show ?thesis
    using A p(1) by (cases "locks s (GET_LOCK a)") (simp_all add: run_def write_lock_def)
next
  case False
  then show ?thesis
    by (rule run_awaiting [OF L A]) (simp add: stored_def)
qed

lemma store_call:
  assumes "LI c t s g th" "cfg_ok c" "pc th = App" "0 < nesting (desc th)"
  shows "awaiting (at_store a value msk (w_set (desc th))) (stored a value msk (w_set (desc th))) (write_enter c a value msk th)"
proof -
  have "ea_extratick c \<longrightarrow> ea_simulate_abort c \<longrightarrow> tx_on (cbuf th)"
    using platform_tx_on [OF assms(1) _ assms(2)] assms(3,4) by (auto simp: platform_mode_def)
  then have "awaiting P Q (stm_rollback c RbStore STM_ABORT_RO_WRITE (th\<lparr>desc := d\<rparr>))" for P Q d
    by (intro rollback_awaiting) simp
  then show ?thesis
    by (cases "ro (desc th)") (simp_all add: write_enter_def, simp add: awaiting_def accessing_def at_store_def)
qed

text \<open>A store that returns into the transaction has changed the write set as it should.\<close>

definition store_op :: "addr \<Rightarrow> stm_word \<Rightarrow> stm_word \<Rightarrow> op \<Rightarrow> bool" where
  "store_op a value msk oper \<longleftrightarrow> oper = OpStore2 a value msk \<or> oper = OpStore a value \<and> msk = NOT 0"

lemma store_overlays:
  assumes "reach c ts (S, g)" "cfg_ok c" "enableds c ts (Call t oper # acts) (S, g)" "makes_no_call t acts" "store_op a value msk oper"
    and "gexecs c (Call t oper # acts) (S, g) = (S', g')"
    and "pc (thr S' t) = App" "res (thr S' t) = RStore" "0 < nesting (desc (thr S' t))"
  shows "overlays a value msk (w_set (desc (thr S t))) (w_set (desc (thr S' t)))"
proof -
  let ?ws = "w_set (desc (thr S t))"
  let ?I = "\<lambda>R. awaiting (at_store a value msk ?ws) (stored a value msk ?ws)"
  obtain S1 g1 where 1: "gexec c (Call t oper) (S, g) = (S1, g1)" by fastforce
  have en: "enabled c ts (Call t oper) S" "enableds c ts acts (S1, g1)"
    using assms(3) 1 by simp_all
  have R1: "reach c ts (S1, g1)"
    using reach_step [OF assms(1) en(1)] 1 by simp
  have "thr S1 t = write_enter c a value msk (thr S t)" "pc (thr S t) = App" "0 < nesting (desc (thr S t))"
    using 1 en(1) assms(5) by (auto simp: store_op_def gexec_def exec_def put_thread_def enabled_def op_ok_def call_def)
  then have start: "?I (set (greads g1 t)) (thr S1 t)"
    using store_call [OF reach_LI [OF assms(1,2)] assms(2)] by simp
  have "t \<in> ts"
    using en(1) by (simp add: enabled_def)
  then have "?I (set (greads (snd (gexecs c acts (S1, g1))) t)) (thr (fst (gexecs c acts (S1, g1))) t)"
    by (rule during_call [where I = ?I, OF R1 assms(2) _ en(2) assms(4) start])
      (rule store_run [OF _ assms(2)], assumption+, rule tick_awaiting, assumption+, rule barrier_awaiting, assumption+)
  then show ?thesis
    using assms(6-9) 1 by (simp add: awaiting_def returned_def stored_def)
qed

lemma enableds_append: "enableds c ts (xs @ ys) x \<longleftrightarrow> enableds c ts xs x \<and> enableds c ts ys (gexecs c xs x)"
  by (induction xs arbitrary: x) simp_all

text \<open>
  C9. Reading one's own writes: a transaction stores to \<open>a\<close>, under a mask or the whole word, and then
  loads \<open>b\<close>. When both calls return into the transaction, the load returns what it would have returned
  without the store, overlaid with the bytes stored if \<open>b\<close> is \<open>a\<close>: the snapshot with all the writes made
  before the store, the stored bytes on top of them. It does not matter what other threads do in
  between. Read-only transactions of early-abort builds are excluded, as for loads.
\<close>

theorem read_your_writes:
  assumes "reach c ts (S, g)" "cfg_ok c" "store_op a value msk oper" "makes_no_call t acts" "makes_no_call t acts'"
    and "enableds c ts ((Call t oper # acts) @ Call t (OpLoad b) # acts') (S, g)"
    and "gexecs c (Call t oper # acts) (S, g) = (S1, g1)" "res (thr S1 t) = RStore"
    and "gexecs c (Call t (OpLoad b) # acts') (S1, g1) = (S', g')"
    and "pc (thr S' t) = App" "res (thr S' t) = RLoad y" "0 < nesting (desc (thr S' t))"
    and "ro (desc (thr S' t)) \<longrightarrow> \<not> ea_extratick c"
  shows "y = (let M = apply_writes (w_set (desc (thr S t))) (hist g' (hz g' t)) in
    if b = a then masked (M a) value msk else M b)"
proof -
  have en: "enableds c ts (Call t oper # acts) (S, g)" "enableds c ts (Call t (OpLoad b) # acts') (S1, g1)"
    using assms(6,7) enableds_append [of c ts "Call t oper # acts" "Call t (OpLoad b) # acts'" "(S, g)"] by simp_all
  have R1: "reach c ts (S1, g1)"
    using reach_gexecs [OF assms(1) en(1)] assms(7) by simp
  have "pc (thr S1 t) = App" "0 < nesting (desc (thr S1 t))"
    using en(2) by (simp_all add: enabled_def op_ok_def)
  then have "overlays a value msk (w_set (desc (thr S t))) (w_set (desc (thr S1 t)))"
    using store_overlays [OF assms(1,2) en(1) assms(4,3,7)] assms(8) by simp
  moreover have "y = apply_writes (w_set (desc (thr S1 t))) (hist g' (hz g' t)) b"
    using load_snapshot [OF R1 assms(2) en(2) assms(5,9-13)] by simp
  ultimately show ?thesis
    by (simp add: overlays_def)
qed

text \<open>A byte is stored, then the word is loaded: the other bytes come from memory.\<close>

definition store_pre :: "action list" where
  "store_pre = [Call 0 (OpStart None), Run 0, Call 0 (OpStore2 8 0xAB00 0xFF00), Run 0, Run 0]"

theorem read_your_writes_witness:
  "\<exists>S g S1 g1 S' g'. ex cfg0 store_pre = (S, g) \<and> gexecs cfg0 [Call 0 (OpStore2 8 0x1234 0xFF), Run 0, Run 0] (S, g) = (S1, g1) \<and>
     gexecs cfg0 (Call 0 (OpLoad 8) # replicate 4 (Run 0)) (S1, g1) = (S', g') \<and>
     0xAB34 = masked (apply_writes (w_set (desc (thr S 0))) (hist g' (hz g' 0)) 8) 0x1234 0xFF"
proof -
  obtain S g where S: "ex cfg0 store_pre = (S, g)" by fastforce
  let ?st = "[Call 0 (OpStore2 8 0x1234 0xFF), Run 0, Run 0]" and ?ld = "Call 0 (OpLoad 8) # replicate 4 (Run 0)"
  obtain S1 g1 where S1: "gexecs cfg0 ?st (S, g) = (S1, g1)" by fastforce
  obtain S' g' where S': "gexecs cfg0 ?ld (S1, g1) = (S', g')" by fastforce
  have "enableds cfg0 {0, 1} store_pre (state0, init_ghost (sh state0))"
    by (simp add: store_pre_def eval_defs)
  then have "reach cfg0 {0, 1} (S, g)"
    using reach_ex S by (metis fst_conv snd_conv)
  moreover have "enableds cfg0 {0, 1} (?st @ ?ld) (S, g)"
    unfolding S [symmetric] by (simp add: store_pre_def replicate_runs eval_defs)
  moreover have "makes_no_call 0 [Run 0, Run 0]" "makes_no_call 0 (replicate 4 (Run 0))" "store_op 8 0x1234 0xFF (OpStore2 8 0x1234 0xFF)"
    by (simp_all add: makes_no_call_def store_op_def)
  moreover have "res (thr S1 0) = RStore"
    using S1 unfolding S [symmetric] by (auto simp: store_pre_def eval_defs)
  moreover have "pc (thr S' 0) = App" "res (thr S' 0) = RLoad 0xAB34" "0 < nesting (desc (thr S' 0))"
    using S' unfolding S1 [symmetric] S [symmetric] by (auto simp: store_pre_def replicate_runs eval_defs masked_def)
  ultimately have "0xAB34 = (let M = apply_writes (w_set (desc (thr S 0))) (hist g' (hz g' 0)) in if 8 = (8 :: addr) then masked (M 8) 0x1234 0xFF else M 8)"
    using S1 S' by (intro read_your_writes [OF _ cfg_ok_demo(1), of "{0, 1}" S g 8 "0x1234" "0xFF" "OpStore2 8 0x1234 0xFF" 0
        "[Run 0, Run 0]" "replicate 4 (Run 0)" 8 S1 g1 S' g' "0xAB34"]) (simp_all add: cfg0_def)
  then show ?thesis
    using S S1 S' by (auto simp: Let_def)
qed

end
