(* ===== verification/Stm_Progress.thy ===== *)
theory Stm_Progress
  imports Stm_Theorems
begin

text \<open>
  Further properties of the protocol: that the read and write sets fit the arrays allocated for them,
  how far the clock can run past \<^verbatim>\<open>VERSION_MAX\<close>, and that a commit that is not disturbed succeeds. The
  last section has two executions in which the code does not do what its documentation says.
\<close>

section \<open>The sets fit their arrays\<close>

definition sets_fit :: "thread \<Rightarrow> bool" where
  "sets_fit th \<longleftrightarrow> 0 < r_size (desc th) \<and> 0 < w_size (desc th) \<and>
     length (r_set (desc th)) \<le> r_size (desc th) \<and> length (w_set (desc th)) \<le> w_size (desc th)"

lemma length_update_written [simp]: "length (update_written a f ws) = length ws"
  by (induction ws) auto

lemma sets_fit_frame:
  assumes "sets_fit th" "r_size (desc th') = r_size (desc th)" "w_size (desc th') = w_size (desc th)"
    "length (r_set (desc th')) \<le> length (r_set (desc th))" "length (w_set (desc th')) \<le> length (w_set (desc th))"
  shows "sets_fit th'"
  using assms by (simp add: sets_fit_def)

lemma sets_fit_rollback: "sets_fit th \<Longrightarrow> sets_fit (stm_rollback c ctx r th)"
  by (auto simp: stm_rollback_def rb_return_def leave_stand_def sets_fit_def split: rb_ctx.splits)

lemma sets_fit_extend: "sets_fit th \<Longrightarrow> sets_fit (stm_extend c ctx th)"
  by (auto simp: stm_extend_def extend_ok_def leave_stand_def sets_fit_def Let_def split: ext_ctx.splits)

lemma sets_fit_extend_ok: "sets_fit th \<Longrightarrow> sets_fit (extend_ok c ctx th)"
  by (auto simp: extend_ok_def leave_stand_def sets_fit_def Let_def split: ext_ctx.splits)

lemma sets_fit_desc: "sets_fit (th\<lparr>pc := p\<rparr>) = sets_fit th" "sets_fit (th\<lparr>cbuf := b\<rparr>) = sets_fit th"
  "sets_fit (th\<lparr>res := r\<rparr>) = sets_fit th" "sets_fit (th\<lparr>cbs := e\<rparr>) = sets_fit th"
  "sets_fit (th\<lparr>desc := (desc th)\<lparr>stats := x\<rparr>\<rparr>) = sets_fit th"
  by (simp_all add: sets_fit_def)

lemmas sets_fit_calls = sets_fit_rollback sets_fit_extend sets_fit_extend_ok

lemma sets_fit_restart: "sets_fit th \<Longrightarrow> sets_fit (rollback_restart c ctx r th)"
  by (auto simp: rollback_restart_def rb_return_def leave_stand_def sets_fit_def split: rb_ctx.splits option.splits)

lemma sets_fit_failed: "sets_fit th \<Longrightarrow> sets_fit (extend_failed c ctx th)"
  by (simp add: extend_failed_def read_abort_def stm_abort_def sets_fit_calls sets_fit_desc split: ext_ctx.splits)

lemma sets_fit_run:
  assumes "sets_fit th"
  shows "sets_fit (snd (run c t (s, th)))"
proof (cases "pc th")
  case (R_lock2 a v x)
  have "sets_fit (read_done a v x th)"
    using assms by (auto simp: read_done_def add_to_read_set_def stm_allocate_rs_entries_def sets_fit_def Let_def)
  with R_lock2 show ?thesis
    using assms by (auto simp: run_def read_check_def read_restart_def read_abort_def sets_fit_calls sets_fit_desc
        split: lock.splits)
next
  case (R_lock3 a v x)
  have "sets_fit (read_done a v x th)"
    using assms by (auto simp: read_done_def add_to_read_set_def stm_allocate_rs_entries_def sets_fit_def Let_def)
  with R_lock3 show ?thesis
    using assms by (auto simp: run_def read_recheck_def read_restart_def sets_fit_desc split: lock.splits)
next
  case (W_lock a x k)
  have "sets_fit (th\<lparr>desc := add_to_write_set c a x k (desc th), pc := WriteEnd\<rparr>)"
    using assms by (auto simp: add_to_write_set_def stm_allocate_ws_entries_def sets_fit_def Let_def)
  moreover have "sets_fit (th\<lparr>desc := (desc th)\<lparr>w_set := update_written a f (w_set (desc th))\<rparr>, pc := WriteEnd\<rparr>)" for f
    using assms by (simp add: sets_fit_def)
  ultimately show ?thesis
    using W_lock assms by (simp add: run_def write_lock_def write_abort_def sets_fit_calls sets_fit_desc
        split: lock.splits)
next
  case (P_clock ctx)
  have "sets_fit (prepare_reset c (th\<lparr>desc := (desc th)\<lparr>tx_start := n, tx_end := n, can_extend := True\<rparr>\<rparr>))" for n
    using assms by (simp add: prepare_reset_def sets_fit_def)
  moreover have "sets_fit (prepare_return c ctx th')" if "sets_fit th'" for th'
    using that by (simp add: prepare_return_def sets_fit_restart sets_fit_desc split: prep_ctx.splits)
  ultimately show ?thesis
    using P_clock assms by (auto simp: run_def stm_prepare_def sets_fit_def Let_def)
qed (use assms in \<open>auto simp: run_def read_lock_def read_restart_def read_value_def load_end_def extend_clock_def
    extend_validate_def stand_extend_def write_end_def commit_load_def commit_conflict_def commit_cas_def commit_inc_def
    commit_validate_def commit_invalid_def write_back_def write_back_next_def write_back_store_def commit_release_def
    commit_end_def rollback_drop_def rollback_end_def unit_load_lock_def unit_load_restart_def unit_load_value_def
    unit_load_check_def unit_write_lock_def unit_write_cas_def unit_write_store_def unit_write_inc_def
    unit_write_release_def Let_def sets_fit_calls sets_fit_failed sets_fit_desc
    intro!: sets_fit_calls sets_fit_failed elim: sets_fit_frame split: lock.splits\<close>)

lemma sets_fit_call: "sets_fit th \<Longrightarrow> sets_fit (call c oper th)"
  by (cases oper) (auto simp: call_def stm_start_def load_enter_def write_enter_def commit_enter_def stm_abort_def
      stm_set_extension_def Let_def sets_fit_def sets_fit_desc split: option.splits
      intro!: sets_fit_rollback [unfolded sets_fit_def] sets_fit_rollback)

lemma sets_fit_tick: "sets_fit th \<Longrightarrow> sets_fit (stm_tick c callback now half ip s th)"
  by (simp add: stm_tick_def stm_revalidate_def sets_fit_extend sets_fit_desc Let_def split: prod.splits)

lemma sets_fit_barrier: "sets_fit th \<Longrightarrow> sets_fit (leave_barrier th)"
  by (simp add: leave_barrier_def sets_fit_desc split: pc.splits prep_ctx.splits)

text \<open>
  C14. Bounds of the sets: in every reachable state the entries of the read set and of the write
  set fit the arrays allocated for them, so the accesses of \<^verbatim>\<open>stm_read_invisible\<close> and \<^verbatim>\<open>stm_write\<close>
  through \<^verbatim>\<open>nb_entries++\<close> stay inside.
\<close>

theorem sets_within_arrays:
  assumes "reach c ts (S, g)"
  shows "length (r_set (desc (thr S t))) \<le> r_size (desc (thr S t)) \<and>
    length (w_set (desc (thr S t))) \<le> w_size (desc (thr S t))"
proof -
  have "sets_fit (thr (fst x) t)" if "reach c ts x" for x
    using that
  proof (induction rule: reach.induct)
    case (reach_init S)
    then show ?case by (auto simp: init_state_def sets_fit_def Let_def)
  next
    case (reach_step S g act)
    then show ?case
      by (cases act) (auto simp: gexec_def exec_def put_thread_def sets_fit_call sets_fit_run
          sets_fit_tick sets_fit_barrier)
  qed
  from this [OF assms] show ?thesis by (simp add: sets_fit_def)
qed

theorem sets_within_arrays_witness:
  "length (r_set (desc (thr (fst (ex cfg0 snapshot_ex)) 0))) \<le> r_size (desc (thr (fst (ex cfg0 snapshot_ex)) 0))"
  using sets_within_arrays [OF reach_demo(4)] by blast

section \<open>How far the clock can run\<close>

text \<open>
  The number of increments of the clock a thread may still make before it waits at the barrier,
  once the clock has reached \<^verbatim>\<open>VERSION_MAX\<close>: one for the commit of the transaction it is in, and one
  for a unit store after that.
\<close>

definition quota :: "int \<Rightarrow> nat" where
  "quota n = (if n > 0 then 2 else 1)"

definition credit :: "thread \<Rightarrow> nat" where
  "credit th = (case pc th of
     P_barrier _ \<Rightarrow> 0 | P_clock _ \<Rightarrow> 0 | UW_rel _ T _ \<Rightarrow> if T \<ge> version_max then 0 else 1
   | B_rel _ _ _ \<Rightarrow> 0 | B_end _ _ \<Rightarrow> 0
   | C_val _ _ \<Rightarrow> 1 | C_wb _ _ \<Rightarrow> 1 | C_wst _ _ _ \<Rightarrow> 1 | C_rel _ _ \<Rightarrow> 1
   | UW_lock _ _ _ \<Rightarrow> 1 | UW_cas _ _ _ _ \<Rightarrow> 1 | UW_store _ _ _ \<Rightarrow> 1 | UW_inc _ _ _ \<Rightarrow> 1
   | UL_lock _ \<Rightarrow> 1 | UL_val _ _ \<Rightarrow> 1 | UL_lock2 _ _ _ \<Rightarrow> 1
   | C_end \<Rightarrow> 1
   | C_load _ \<Rightarrow> 2 | C_cas _ _ \<Rightarrow> 2 | C_inc \<Rightarrow> 2
   | _ \<Rightarrow> quota (nesting (desc th)))"

lemma credit_le_2: "credit th \<le> 2"
  by (simp add: credit_def quota_def split: pc.splits)

lemma quota_mono: "m \<le> n \<Longrightarrow> quota m \<le> quota n" "1 \<le> quota n" "0 < n \<Longrightarrow> quota n = 2" "quota 0 = 1"
  by (simp_all add: quota_def)

lemma credit_rollback: "nesting (desc th) = n \<Longrightarrow> credit (stm_rollback c ctx r th) \<le> quota n"
  by (auto simp: stm_rollback_def rb_return_def leave_stand_def credit_def quota_def split: rb_ctx.splits)

lemma credit_extend_ok: "credit (extend_ok c ctx th) = quota (nesting (desc th))"
  by (auto simp: extend_ok_def leave_stand_def credit_def Let_def split: ext_ctx.splits)

lemma credit_extend: "credit (stm_extend c ctx th) = quota (nesting (desc th))"
  by (auto simp: stm_extend_def credit_extend_ok Let_def) (simp_all add: credit_def)

lemma credit_extend_failed: "credit (extend_failed c ctx th) \<le> quota (nesting (desc th))"
  by (cases ctx) (auto simp: extend_failed_def read_abort_def stm_abort_def intro!: credit_rollback)

lemmas credit_calls = credit_rollback credit_extend credit_extend_ok credit_extend_failed

lemma credit_run:
  assumes L: "LI c t s g th" and r: "run c t (s, th) = (s', th')"
  shows "clock s' = clock s \<or> clock s' = Suc (clock s) \<and> credit th' \<le> 1"
    and "version_max \<le> clock s \<Longrightarrow> clock s' + credit th' \<le> clock s + credit th"
proof -
  have n: "nest_ok c th" using L by (simp add: LI_def)
  show "clock s' = clock s \<or> clock s' = Suc (clock s) \<and> credit th' \<le> 1"
    using r
    by (cases "pc th") (auto simp: run_def read_lock_def read_value_def read_check_def read_recheck_def
        extend_clock_def extend_validate_def write_lock_def commit_load_def commit_cas_def commit_inc_def
        commit_validate_def write_back_def write_back_store_def commit_release_def rollback_drop_def
        stm_prepare_def unit_load_lock_def unit_load_value_def unit_load_check_def unit_write_lock_def
        unit_write_cas_def unit_write_store_def unit_write_inc_def unit_write_release_def Let_def credit_def
        split: if_splits lock.splits)
  assume v: "version_max \<le> clock s"
  note defs = run_def nest_ok_def credit_def [of th] quota_mono
  show "clock s' + credit th' \<le> clock s + credit th"
  proof (cases "pc th")
    case (R_lock2 a w x)
    have "credit (read_restart a l th) = quota (nesting (desc th))" "credit (read_done a w x th) = quota (nesting (desc th))" for l
      by (auto simp: read_restart_def read_done_def credit_def add_to_read_set_def stm_allocate_rs_entries_def Let_def
          split: lock.splits)
    with R_lock2 r show ?thesis
      by (auto simp: run_def read_check_def read_abort_def credit_def [of th] credit_calls split: if_splits)
  next
    case (R_lock3 a w x)
    have "credit (read_restart a l th) = quota (nesting (desc th))" "credit (read_done a w x th) = quota (nesting (desc th))" for l
      by (auto simp: read_restart_def read_done_def credit_def add_to_read_set_def stm_allocate_rs_entries_def Let_def
          split: lock.splits)
    with R_lock3 r show ?thesis
      by (auto simp: run_def read_recheck_def credit_def [of th] split: if_splits)
  next
    case (E_val ctx now i)
    with r show ?thesis
      by (auto simp: run_def extend_validate_def credit_def [of th] credit_calls split: if_splits)
        (simp_all add: credit_def)
  next
    case (W_lock a x k)
    then have "nesting (desc th) > 0" using n by (simp add: nest_ok_def)
    with W_lock have "credit th = 2" by (simp add: credit_def quota_def)
    with W_lock r credit_le_2 show ?thesis
      by (auto simp: run_def write_lock_def split: if_splits lock.splits)
  next
    case (LoadEnd x)
    with r show ?thesis
      by (auto simp: run_def load_end_def stand_extend_def credit_def [of th] credit_calls split: if_splits)
        (simp_all add: credit_def)
  next
    case WriteEnd
    with r show ?thesis
      by (auto simp: run_def write_end_def stand_extend_def credit_def [of th] credit_calls split: if_splits)
        (simp_all add: credit_def)
  next
    case (E_clock ctx)
    with r show ?thesis
      by (auto simp: run_def extend_clock_def credit_def [of th] credit_calls split: if_splits)
        (simp_all add: credit_def)
  next
    case (P_clock ctx)
    with r v show ?thesis
      by (auto simp: run_def stm_prepare_def Let_def) (simp add: credit_def)
  next
    case (C_load i)
    with r credit_le_2 show ?thesis
      by (auto simp: run_def commit_load_def credit_def [of th] split: lock.splits if_splits)
  next
    case (C_val T i)
    then have "nesting (desc th) = 0" using n by (simp add: nest_ok_def)
    with C_val r show ?thesis
      using credit_rollback [of _ 0] by (auto simp: run_def commit_validate_def commit_invalid_def quota_mono
          credit_def [of th] split: if_splits) (simp_all add: credit_def)
  qed (use r n v in \<open>auto simp: run_def nest_ok_def read_lock_def read_value_def read_restart_def
        commit_cas_def commit_inc_def commit_next_def
        write_back_def write_back_next_def write_back_store_def commit_release_def rollback_drop_def commit_end_def
        rollback_end_def unit_load_lock_def unit_load_value_def unit_load_check_def unit_load_restart_def unit_write_lock_def
        unit_write_cas_def unit_write_store_def unit_write_inc_def unit_write_release_def Let_def credit_def quota_mono
        split: if_splits lock.splits\<close>)
qed

lemma credit_call:
  assumes "pc th = App" "op_ok oper th"
  shows "credit (call c oper th) \<le> credit th"
proof -
  have cr: "credit th = quota (nesting (desc th))"
    using assms(1) by (simp add: credit_def)
  show ?thesis
  proof (cases oper)
    case (OpLoad a)
    then show ?thesis
      by (auto simp: call_def load_enter_def cr split: option.splits) (simp_all add: credit_def)
  next
    case (OpStore a x)
    then show ?thesis
      by (auto simp: call_def write_enter_def cr intro!: credit_rollback) (simp add: credit_def)
  next
    case (OpStore2 a x k)
    then show ?thesis
      by (auto simp: call_def write_enter_def cr intro!: credit_rollback) (simp add: credit_def)
  next
    case (OpAbort r)
    then show ?thesis
      by (auto simp: call_def stm_abort_def cr intro!: credit_rollback)
  qed (use assms in \<open>auto simp: cr call_def stm_start_def commit_enter_def stm_set_extension_def op_ok_def Let_def
      credit_def quota_def\<close>)
qed

lemma credit_tick:
  assumes "in_section (cbuf th) ip \<longrightarrow> pc th = App"
  shows "credit (stm_tick c callback now half ip s th) \<le> credit th"
proof -
  obtain cb d where h: "tick_handler callback (clock s) (tx_end (desc th)) now half ip (cbuf th) = (cb, d)"
    by fastforce
  show ?thesis
  proof (cases d)
    case True
    with h have "tick_handler callback (clock s) (tx_end (desc th)) now half ip (cbuf th) = (cb, True)"
      by simp
    from tick_delivered_in_tx [OF this] assms have "pc th = App"
      by simp
    then show ?thesis
      using True h by (simp add: stm_tick_def stm_revalidate_def credit_extend Let_def) (simp add: credit_def)
  next
    case False
    then show ?thesis
      using h by (simp add: stm_tick_def Let_def credit_def cong: pc.case_cong)
  qed
qed

text \<open>The increments left, summed over the registered threads.\<close>

definition clock_room :: "tid set \<Rightarrow> state \<Rightarrow> bool" where
  "clock_room ts S \<longleftrightarrow> (version_max \<le> clock (sh S) \<longrightarrow>
     clock (sh S) + (\<Sum>t\<in>ts. credit (thr S t)) < version_max + 2 * card ts)"

lemma sum_credit_put:
  assumes "finite ts" "t \<in> ts"
  shows "(\<Sum>u\<in>ts. credit (if u = t then th else thr S u)) = credit th + (\<Sum>u\<in>ts - {t}. credit (thr S u))"
proof -
  have "(\<Sum>u\<in>ts. credit (if u = t then th else thr S u)) =
      credit th + (\<Sum>u\<in>ts - {t}. credit (if u = t then th else thr S u))"
    using assms by (subst sum.remove [of ts t]) simp_all
  moreover have "(\<Sum>u\<in>ts - {t}. credit (if u = t then th else thr S u)) = (\<Sum>u\<in>ts - {t}. credit (thr S u))"
    by (intro sum.cong) auto
  ultimately show ?thesis by simp
qed

lemma clock_room_put:
  assumes "clock_room ts S" "finite ts" "t \<in> ts"
    and "clock s' = clock (sh S) \<or> clock s' = Suc (clock (sh S)) \<and> credit th' \<le> 1"
    and "version_max \<le> clock (sh S) \<Longrightarrow> clock s' + credit th' \<le> clock (sh S) + credit (thr S t)"
  shows "clock_room ts (put_thread t (s', th') S)"
proof -
  let ?rest = "\<Sum>u\<in>ts - {t}. credit (thr S u)"
  have new: "(\<Sum>u\<in>ts. credit (thr (put_thread t (s', th') S) u)) = credit th' + ?rest"
    using sum_credit_put [OF assms(2,3), of th' S] by (simp add: put_thread_def fun_upd_def)
  have old: "(\<Sum>u\<in>ts. credit (thr S u)) = credit (thr S t) + ?rest"
    using assms(2,3) by (rule sum.remove)
  have card: "card ts = Suc (card (ts - {t}))"
    using assms(2,3) by (rule card.remove)
  have rest: "?rest \<le> 2 * card (ts - {t})"
    using sum_bounded_above [of "ts - {t}" "\<lambda>u. credit (thr S u)" 2] credit_le_2 by (simp add: mult.commute)
  show ?thesis
  proof (cases "version_max \<le> clock (sh S)")
    case True
    then show ?thesis
      using assms(1,5) new old by (simp add: clock_room_def put_thread_def)
  next
    case False
    then show ?thesis
      using assms(4) rest card new by (auto simp: clock_room_def put_thread_def)
  qed
qed

lemma reach_clock_room:
  assumes "reach c ts x" "cfg_ok c" "finite ts"
  shows "clock_room ts (fst x)"
  using assms(1)
proof (induction rule: reach.induct)
  case (reach_init S)
  then show ?case by (simp add: clock_room_def init_state_def version_max_value)
next
  case (reach_step S g act)
  then have R: "clock_room ts S" by simp
  show ?case
  proof (cases act)
    case (Call t oper)
    then show ?thesis
      using reach_step credit_call [of "thr S t" oper c]
      by (auto simp: enabled_def gexec_def exec_def intro!: clock_room_put [OF R assms(3)])
  next
    case (Run t)
    obtain s' th' where r: "run c t (sh S, thr S t) = (s', th')" by fastforce
    show ?thesis
      using Run reach_step.hyps credit_run [OF reach_LI [OF reach_step.hyps(1) assms(2)] r]
      by (auto simp: enabled_def gexec_def exec_def r intro!: clock_room_put [OF R assms(3)])
  next
    case (Interrupt t callback now half ip)
    then show ?thesis
      using reach_step credit_tick [of "thr S t" ip c callback now half "sh S"]
      by (auto simp: enabled_def gexec_def exec_def intro!: clock_room_put [OF R assms(3)])
  next
    case Rollover
    then show ?thesis
      by (simp add: clock_room_def gexec_def exec_def rollover_clock_def version_max_value)
  qed
qed

text \<open>
  C13. The clock never runs away: with \<open>n\<close> registered threads it stays below \<^verbatim>\<open>VERSION_MAX\<close> plus
  \<open>2 * n\<close>. With at most half of \<^verbatim>\<open>MAX_THREADS\<close> threads every version therefore fits a lock word.
\<close>

theorem clock_bounded:
  assumes "reach c ts (S, g)" "cfg_ok c" "finite ts" "ts \<noteq> {}"
  shows "clock (sh S) < version_max + 2 * card ts \<and>
    (card ts \<le> MAX_THREADS div 2 \<longrightarrow> clock (sh S) < 2 ^ 63)"
proof -
  have "0 < card ts"
    using assms(3,4) by (simp add: card_gt_0_iff)
  then have "clock (sh S) < version_max + 2 * card ts"
    using reach_clock_room [OF assms(1-3)]
    by (cases "version_max \<le> clock (sh S)") (simp_all add: clock_room_def)
  then show ?thesis
    by (simp add: version_max_value MAX_THREADS_def)
qed

theorem clock_bounded_witness: "clock (sh (fst (ex cfg0 commit_ex))) < version_max + 4"
  using clock_bounded [OF reach_demo(2) cfg_ok_demo(1)] by simp

section \<open>A commit that is not disturbed\<close>

lemma apply_writes_key:
  assumes "map (\<lambda>w. (w_addr w, w_value w, w_mask w)) ws = map (\<lambda>w. (w_addr w, w_value w, w_mask w)) vs"
  shows "apply_writes ws M = apply_writes vs M"
  using assms
proof (induction ws arbitrary: vs M)
  case (Cons w ws)
  then obtain v vs' where "vs = v # vs'" by (cases vs) auto
  with Cons show ?case
    by (simp add: apply_writes_def apply_entry_def)
qed (simp add: apply_writes_def)

lemma apply_writes_update:
  "i < length ws \<Longrightarrow> w_addr w = w_addr (ws ! i) \<Longrightarrow> w_value w = w_value (ws ! i) \<Longrightarrow> w_mask w = w_mask (ws ! i) \<Longrightarrow>
    apply_writes (ws[i := w]) M = apply_writes ws M"
  by (rule apply_writes_key) (simp add: list_eq_iff_nth_eq nth_list_update)

lemma apply_writes_drop:
  "i < length ws \<Longrightarrow> apply_writes (drop i ws) M = apply_writes (drop (Suc i) ws) (apply_entry (ws ! i) M)"
  by (simp add: apply_writes_def Cons_nth_drop_Suc [symmetric])

text \<open>Every lock of the write set is free or already the thread's own.\<close>

definition unopposed :: "tid \<Rightarrow> shared \<Rightarrow> thread \<Rightarrow> bool" where
  "unopposed t s th \<longleftrightarrow> (\<forall>w\<in>set (w_set (desc th)). case locks s (w_lock w) of
     Version _ \<Rightarrow> True | Owned u k \<Rightarrow> u = t \<and> k < length (w_set (desc th)) | LockUnit \<Rightarrow> False)"

text \<open>
  Every read is valid: its lock has the version read, or is the thread's own through an entry from \<open>i\<close> on
  that keeps this version.
\<close>

definition valid_reads :: "nat \<Rightarrow> tid \<Rightarrow> shared \<Rightarrow> thread \<Rightarrow> bool" where
  "valid_reads i t s th \<longleftrightarrow> (\<forall>r\<in>set (r_set (desc th)). case locks s (r_lock r) of
     Version v \<Rightarrow> v = r_version r
   | Owned u k \<Rightarrow> u = t \<and> i \<le> k \<and> k < length (w_set (desc th)) \<and> w_version (w_set (desc th) ! k) = r_version r
   | LockUnit \<Rightarrow> False)"

definition solo :: "(addr \<Rightarrow> stm_word) \<Rightarrow> tid \<Rightarrow> shared \<times> thread \<Rightarrow> bool" where
  "solo M t = (\<lambda>(s, th). let ws = w_set (desc th) in case pc th of
     C_load i \<Rightarrow> i < length ws \<and> unopposed t s th \<and> valid_reads (i + 1) t s th \<and> apply_writes ws (mem s) = M
   | C_cas i v \<Rightarrow> i < length ws \<and> locks s (w_lock (ws ! i)) = Version v \<and> unopposed t s th \<and>
       valid_reads (i + 1) t s th \<and> apply_writes ws (mem s) = M
   | C_inc \<Rightarrow> valid_reads 0 t s th \<and> apply_writes ws (mem s) = M
   | C_val T i \<Rightarrow> valid_reads 0 t s th \<and> apply_writes ws (mem s) = M
   | C_wb T i \<Rightarrow> i \<le> length ws \<and> apply_writes (drop i ws) (mem s) = M
   | C_wst T i x \<Rightarrow> i < length ws \<and> apply_writes (drop i ws) (mem s) = M \<and>
       x = masked (mem s (w_addr (ws ! i))) (w_value (ws ! i)) (w_mask (ws ! i))
   | C_rel T i \<Rightarrow> i < length ws \<and> apply_writes (drop (i + 1) ws) (mem s) = M
   | C_end \<Rightarrow> mem s = M
   | App \<Rightarrow> mem s = M \<and> res th = RCommit True
   | _ \<Rightarrow> False)"

definition commit_measure :: "shared \<times> thread \<Rightarrow> nat" where
  "commit_measure = (\<lambda>(s, th). let n = length (w_set (desc th)); r = length (r_set (desc th)) in case pc th of
     C_load i \<Rightarrow> 3 * n + r + 7 + 2 * i | C_cas i _ \<Rightarrow> 3 * n + r + 6 + 2 * i | C_inc \<Rightarrow> 3 * n + r + 5
   | C_val _ i \<Rightarrow> 3 * n + (r - i) + 4
   | C_wb _ i \<Rightarrow> 3 * (n - i) + 3 | C_wst _ i _ \<Rightarrow> 3 * (n - i) + 2 | C_rel _ i \<Rightarrow> 3 * (n - i) + 1
   | C_end \<Rightarrow> 1 | _ \<Rightarrow> 0)"

lemma valid_reads_pc [simp]: "valid_reads i t s (th\<lparr>pc := p\<rparr>) = valid_reads i t s th"
  by (simp add: valid_reads_def cong: lock.case_cong)

lemma valid_reads_clock [simp]: "valid_reads i t (s\<lparr>clock := n\<rparr>) th = valid_reads i t s th"
  by (simp add: valid_reads_def cong: lock.case_cong)

lemma valid_reads_mono: "valid_reads j t s th \<Longrightarrow> i \<le> j \<Longrightarrow> valid_reads i t s th"
  unfolding valid_reads_def by (fastforce split: lock.splits)

lemma valid_reads_entry: "valid_reads 0 t s th \<Longrightarrow> r \<in> set (r_set (desc th)) \<Longrightarrow> validate_entry t s (desc th) r"
  unfolding valid_reads_def validate_entry_def by (fastforce split: lock.splits)

lemma valid_reads_acquire:
  assumes "valid_reads (i + 1) t s th" "i < length (w_set (desc th))" "locks s (w_lock (w_set (desc th) ! i)) = Version v"
    "w_version w = v"
  shows "valid_reads i t (s\<lparr>locks := (locks s)(w_lock (w_set (desc th) ! i) := Owned t i)\<rparr>)
    (th\<lparr>desc := (desc th)\<lparr>w_set := (w_set (desc th))[i := w], nb_acquired := n\<rparr>, pc := p\<rparr>)"
proof -
  have "case ((locks s)(w_lock (w_set (desc th) ! i) := Owned t i)) (r_lock r) of Version v \<Rightarrow> v = r_version r
     | Owned u k \<Rightarrow> u = t \<and> i \<le> k \<and> k < length (w_set (desc th)) \<and> w_version ((w_set (desc th))[i := w] ! k) = r_version r
     | LockUnit \<Rightarrow> False" if r: "r \<in> set (r_set (desc th))" for r
  proof -
    have "case locks s (r_lock r) of Version v \<Rightarrow> v = r_version r
     | Owned u k \<Rightarrow> u = t \<and> i + 1 \<le> k \<and> k < length (w_set (desc th)) \<and> w_version (w_set (desc th) ! k) = r_version r
     | LockUnit \<Rightarrow> False"
      using bspec [OF assms(1) [unfolded valid_reads_def] r] .
    then show ?thesis
      using assms(2-4) by (cases "r_lock r = w_lock (w_set (desc th) ! i)") (auto split: lock.splits)
  qed
  then show ?thesis
    by (simp add: valid_reads_def cong: lock.case_cong)
qed

lemma unopposed_pc [simp]: "unopposed t s (th\<lparr>pc := p\<rparr>) = unopposed t s th"
  by (simp add: unopposed_def cong: lock.case_cong)

lemma unopposed_acquire:
  assumes "unopposed t s th" "i < length (w_set (desc th))" "w_lock w = w_lock (w_set (desc th) ! i)"
  shows "unopposed t (s\<lparr>locks := (locks s)(w_lock (w_set (desc th) ! i) := Owned t i)\<rparr>)
    (th\<lparr>desc := (desc th)\<lparr>w_set := (w_set (desc th))[i := w], nb_acquired := n\<rparr>\<rparr>)"
proof -
  have "\<exists>v\<in>set (w_set (desc th)). w_lock u = w_lock v" if "u \<in> set ((w_set (desc th))[i := w])" for u
    using that assms(2,3) set_update_subset_insert [of "w_set (desc th)" i w] nth_mem by fastforce
  then show ?thesis
    using assms(1,2) by (fastforce simp: unopposed_def split: lock.splits)
qed

lemma solo_step:
  assumes "solo M t (s, th)" "pc th \<noteq> App"
  shows "solo M t (run c t (s, th))" "commit_measure (run c t (s, th)) < commit_measure (s, th)"
proof -
  let ?ws = "w_set (desc th)"
  have "solo M t (run c t (s, th)) \<and> commit_measure (run c t (s, th)) < commit_measure (s, th)"
  proof (cases "pc th")
    case (C_load i)
    then have i: "i < length ?ws" "unopposed t s th"
      using assms by (auto simp: solo_def Let_def)
    then have "(\<exists>v. locks s (w_lock (?ws ! i)) = Version v) \<or> (\<exists>k < length ?ws. locks s (w_lock (?ws ! i)) = Owned t k)"
      by (cases "locks s (w_lock (?ws ! i))") (auto simp: unopposed_def dest!: bspec [of _ _ "?ws ! i"])
    then show ?thesis
      using C_load assms i valid_reads_mono [of "Suc i" t s th i]
      by (auto simp: run_def commit_load_def commit_next_def solo_def commit_measure_def Let_def less_imp_diff_less)
  next
    case (C_cas i v)
    then have i: "i < length ?ws" "unopposed t s th" "locks s (w_lock (?ws ! i)) = Version v"
      using assms by (auto simp: solo_def Let_def)
    moreover have "valid_reads (i + 1) t s th"
      using C_cas assms by (simp add: solo_def Let_def)
    ultimately show ?thesis
      using C_cas assms valid_reads_acquire [of i t s th v]
      by (auto simp: run_def commit_cas_def commit_next_def solo_def commit_measure_def Let_def
          apply_writes_update less_imp_diff_less intro!: unopposed_acquire)
  next
    case (C_val T i)
    then have "validate_entry t s (desc th) (r_set (desc th) ! i)" if "i < length (r_set (desc th))"
      using assms that valid_reads_entry [of t s th "r_set (desc th) ! i"] by (simp add: solo_def)
    then show ?thesis
      using C_val assms by (auto simp: run_def commit_validate_def solo_def commit_measure_def Let_def)
  next
    case (C_wb T i)
    let ?w = "?ws ! i"
    have "mem s = apply_entry ?w (mem s)" if "w_mask ?w = 0"
      using that by (auto simp: apply_entry_def)
    moreover have "(mem s)(w_addr ?w := w_value ?w) = apply_entry ?w (mem s)" if "w_mask ?w = NOT 0"
      using that by (simp add: apply_entry_def)
    ultimately show ?thesis
      using C_wb assms
      by (auto simp: run_def write_back_def write_back_next_def solo_def commit_measure_def Let_def apply_writes_drop)
  next
    case (C_wst T i x)
    then show ?thesis
      using assms
      by (auto simp: run_def write_back_store_def write_back_next_def solo_def commit_measure_def Let_def
          apply_writes_drop apply_entry_def)
  qed (use assms in \<open>auto simp: run_def solo_def commit_measure_def commit_inc_def commit_release_def commit_end_def Let_def\<close>)
  then show "solo M t (run c t (s, th))" "commit_measure (run c t (s, th)) < commit_measure (s, th)"
    by auto
qed

lemma solo_runs:
  "solo M t x \<Longrightarrow> \<exists>n \<le> commit_measure x. pc (snd ((run c t ^^ n) x)) = App \<and> solo M t ((run c t ^^ n) x)"
proof (induction "commit_measure x" arbitrary: x rule: less_induct)
  case less
  show ?case
  proof (cases "pc (snd x) = App")
    case True
    with less.prems show ?thesis by (intro exI [of _ 0]) simp
  next
    case False
    then have "solo M t (run c t x)" "commit_measure (run c t x) < commit_measure x"
      using solo_step [of M t "fst x" "snd x"] less.prems by auto
    then obtain n where "n \<le> commit_measure (run c t x)"
        "pc (snd ((run c t ^^ n) (run c t x))) = App \<and> solo M t ((run c t ^^ n) (run c t x))"
      using less.hyps by blast
    then show ?thesis
      using \<open>commit_measure (run c t x) < commit_measure x\<close>
      by (intro exI [of _ "Suc n"]) (simp only: funpow_Suc_right o_def, simp)
  qed
qed

text \<open>
  C8. A commit that is not disturbed succeeds: if the locks of the read set still have the versions
  read, the locks of the write set are free and no other thread interferes, \<^verbatim>\<open>stm_commit\<close> returns true
  within five steps for each entry of the write set, one for each of the read set and five more, with
  the write set applied to memory entry by entry. Others may have committed since the transaction
  started, so that the read set is validated.
\<close>

theorem solo_commit_succeeds:
  assumes "nesting (desc th) = 1" "\<forall>w\<in>set (w_set (desc th)). \<exists>v. locks s (w_lock w) = Version v"
    and "\<forall>r\<in>set (r_set (desc th)). locks s (r_lock r) = Version (r_version r)"
  shows "\<exists>n s' th'. n \<le> 5 * length (w_set (desc th)) + length (r_set (desc th)) + 5 \<and>
    (run c t ^^ n) (s, call c OpCommit th) = (s', th') \<and> pc th' = App \<and>
    res th' = RCommit True \<and> mem s' = apply_writes (w_set (desc th)) (mem s)"
proof -
  let ?M = "apply_writes (w_set (desc th)) (mem s)" and ?x = "(s, call c OpCommit th)"
  have "solo ?M t ?x"
    using assms by (auto simp: call_def commit_enter_def solo_def unopposed_def valid_reads_def Let_def)
  then obtain n where n: "n \<le> commit_measure ?x" "pc (snd ((run c t ^^ n) ?x)) = App" "solo ?M t ((run c t ^^ n) ?x)"
    using solo_runs by blast
  obtain s' th' where x: "(run c t ^^ n) ?x = (s', th')" by fastforce
  have "commit_measure ?x \<le> 5 * length (w_set (desc th)) + length (r_set (desc th)) + 5"
    using assms(1) by (cases "w_set (desc th)") (simp_all add: call_def commit_enter_def commit_measure_def Let_def)
  with n x show ?thesis
    by (intro exI [of _ n] exI [of _ s'] exI [of _ th']) (simp add: solo_def)
qed

text \<open>The clock has moved on since the start of the transaction, and the read set has an entry.\<close>

theorem solo_commit_succeeds_witness:
  "\<exists>n s' th'. n \<le> 11 \<and> (run cfg0 0 ^^ n) ((sh state0)\<lparr>clock := 3\<rparr>, call cfg0 OpCommit
       (thread0\<lparr>desc := (desc thread0)\<lparr>nesting := 1, w_set := [unit_entry 8 5],
          r_set := [\<lparr>r_version = 0, r_lock = 2\<rparr>]\<rparr>\<rparr>)) = (s', th') \<and>
     res th' = RCommit True \<and> mem s' 8 = 5"
proof -
  let ?th = "thread0\<lparr>desc := (desc thread0)\<lparr>nesting := 1, w_set := [unit_entry 8 5], r_set := [\<lparr>r_version = 0, r_lock = 2\<rparr>]\<rparr>\<rparr>"
    and ?s = "(sh state0)\<lparr>clock := 3\<rparr>"
  have "apply_writes (w_set (desc ?th)) (mem ?s) 8 = 5"
    by (simp add: apply_writes_def apply_entry_def unit_entry_def)
  moreover have "\<exists>n s' th'. n \<le> 5 * length (w_set (desc ?th)) + length (r_set (desc ?th)) + 5 \<and>
      (run cfg0 0 ^^ n) (?s, call cfg0 OpCommit ?th) = (s', th') \<and> pc th' = App \<and>
      res th' = RCommit True \<and> mem s' = apply_writes (w_set (desc ?th)) (mem ?s)"
    by (rule solo_commit_succeeds) (simp_all add: thread0_def state0_def)
  ultimately show ?thesis
    by fastforce
qed

section \<open>Where the code departs from its documentation\<close>

text \<open>
  In an early-abort build: the read-only thread 0 reads 8, thread 1 commits stores to 8 and 64, a
  tick is delivered to thread 0, whose empty read set validates, and thread 0 reads 64.
\<close>

definition ro_attr :: tx_attr where
  "ro_attr = \<lparr>attr_id = 0, read_only = True, no_retry = False\<rparr>"

definition ea_ro_ex :: "action list" where
  "ea_ro_ex = [Call 0 (OpStart (Some ro_attr)), Run 0, Call 0 (OpLoad 8), Run 0, Run 0, Run 0, Run 0,
     Call 1 (OpStart None), Run 1, Call 1 (OpStore 8 1), Run 1, Run 1, Call 1 (OpStore 64 1), Run 1, Run 1,
     Call 1 OpCommit, Run 1, Run 1, Run 1, Run 1, Run 1, Run 1, Run 1, Run 1, Run 1, Run 1, Run 1,
     Interrupt 0 0 0 0 5000, Run 0, Run 0, Call 0 (OpLoad 64), Run 0, Run 0, Run 0, Run 0]"

lemmas ea_ro_defs = ea_ro_ex_def ro_attr_def eval_defs apply_writes_def apply_entry_def

text \<open>
  C16. Early aborts break the snapshot of read-only transactions: there is an execution in which a
  live read-only transaction has read 0 at address 8 and 1 at address 64, although no image of the
  serial history contains the two values together. \<^verbatim>\<open>stm_revalidate\<close> calls \<^verbatim>\<open>stm_extend\<close> without
  testing \<^verbatim>\<open>tx->ro\<close>, while \<^verbatim>\<open>stm_read_invisible\<close> does so because a read-only transaction has no
  read set to validate.
\<close>

theorem ea_read_only_snapshot_broken:
  "\<exists>S g. reach cfg_ea {0, 1} (S, g) \<and> in_tx (thr S 0) \<and> res (thr S 0) = RLoad 1 \<and>
     greads g 0 = [(8, 0, 0), (64, 1, 1)] \<and> (\<forall>T. \<not> (hist g T 8 = 0 \<and> hist g T 64 = 1))"
proof -
  have "reach cfg_ea {0, 1} (fst (ex cfg_ea ea_ro_ex), snd (ex cfg_ea ea_ro_ex))"
    by (rule reach_ex) (simp add: ea_ro_defs)
  moreover have "in_tx (thr (fst (ex cfg_ea ea_ro_ex)) 0)" "res (thr (fst (ex cfg_ea ea_ro_ex)) 0) = RLoad 1"
    by (simp_all add: ea_ro_defs in_tx_def)
  moreover have "greads (snd (ex cfg_ea ea_ro_ex)) 0 = [(8, 0, 0), (64, 1, 1)]"
    by (simp add: ea_ro_defs)
  moreover have "\<not> (hist (snd (ex cfg_ea ea_ro_ex)) T 8 = 0 \<and> hist (snd (ex cfg_ea ea_ro_ex)) T 64 = 1)" for T
    by (simp add: ea_ro_defs)
  ultimately show ?thesis
    by blast
qed

text \<open>A read-only transaction that may be retried, between two calls.\<close>

definition ro_running :: "thread \<Rightarrow> bool" where
  "ro_running th \<longleftrightarrow> pc th = App \<and> ro (desc th) \<and> nb_acquired (desc th) = 0 \<and>
     (case attr (desc th) of Some at \<Rightarrow> \<not> no_retry at | None \<Rightarrow> False)"

text \<open>
  A write in a transaction declared read-only never gets through: the transaction aborts and
  is restarted, and although the attribute is cleared the restarted execution is still read-only
  (\<^verbatim>\<open>tx->ro\<close> is only set by \<^verbatim>\<open>stm_start\<close>, which a restart does not call), so the same write aborts it
  again. \<^verbatim>\<open>stm.h\<close> says of the attribute that the transaction is restarted in read-write mode.
\<close>

theorem ro_write_restarts_read_only:
  assumes "ro_running th" "\<not> ea_extratick c" "clock s < version_max"
  shows "\<exists>th'. (run c t ^^ 2) (s, call c (OpStore a x) th) = (s, th') \<and>
    res th' = RJmp STM_ABORT_RO_WRITE \<and> map_option read_only (attr (desc th')) = Some False \<and> ro_running th'"
  using assms
  by (auto simp: ro_running_def call_def write_enter_def stm_rollback_def run_def rollback_end_def stm_prepare_def
      prepare_reset_def prepare_return_def rollback_restart_def numeral_2_eq_2 Let_def
      split: option.splits)

theorem ro_write_restarts_read_only_witness:
  "\<exists>th'. (run cfg0 0 ^^ 2) (sh state0, call cfg0 (OpStore 8 5)
       (thread0\<lparr>desc := (desc thread0)\<lparr>ro := True, attr := Some ro_attr\<rparr>\<rparr>)) = (sh state0, th') \<and> ro_running th'"
proof -
  let ?th = "thread0\<lparr>desc := (desc thread0)\<lparr>ro := True, attr := Some ro_attr\<rparr>\<rparr>"
  have "ro_running ?th" "\<not> ea_extratick cfg0" "clock (sh state0) < version_max"
    by (simp_all add: ro_running_def ro_attr_def thread0_def cfg0_def state0_def version_max_value)
  from ro_write_restarts_read_only [OF this, of 0 8 5] show ?thesis
    by blast
qed

text \<open>
  A unit store of part of a word overwrites the whole word: \<^verbatim>\<open>stm_unit_store2\<close> passes its mask
  to \<^verbatim>\<open>stm_unit_write\<close>, which does not use it. Undisturbed, the word ends up with the full value
  stored, not with the masked combination.
\<close>

theorem unit_store2_ignores_mask:
  assumes "locks s (GET_LOCK a) = Version v" "Suc (clock s) < version_max"
  shows "\<exists>s' th'. (run c t ^^ 5) (s, call c (OpUnitStore2 a x k None) th) = (s', th') \<and> pc th' = App \<and>
    res th' = RUnitStore True None \<and> mem s' = (mem s)(a := x) \<and> locks s' (GET_LOCK a) = Version (Suc (clock s))"
  using assms
  by (simp add: call_def run_def unit_defs eval_nat_numeral)

theorem unit_store2_ignores_mask_witness:
  "\<exists>s' th'. (run cfg0 0 ^^ 5) (sh state0, call cfg0 (OpUnitStore2 8 0x1234 0xFF None) thread0) = (s', th') \<and>
     mem s' 8 = 0x1234"
proof -
  have "locks (sh state0) (GET_LOCK 8) = Version 0" "Suc (clock (sh state0)) < version_max"
    by (simp_all add: state0_def version_max_value)
  from unit_store2_ignores_mask [OF this, of cfg0 0 "0x1234" "0xFF" thread0] show ?thesis
    by auto
qed

end
