(* ===== verification/Wrappers.thy ===== *)
theory Wrappers
  imports Stm_Progress Stm_Calls
begin

text \<open>
  The typed accesses of \<^verbatim>\<open>tinySTM/src/wrappers.c\<close> on top of the word-sized loads and masked stores
  of a transaction, for 64-bit words in little-endian order. The word-sized accesses are
  parameters (\<open>ld\<close>, \<open>st2\<close>); the locale \<open>word_memory\<close> states what the wrappers rely on, and it is
  interpreted on the read and write sets of the protocol at the end.

  The unions of the C code give access to the parts of a word by index (\<open>get_elem\<close>, \<open>set_elem\<close>);
  \<open>junk\<close> is the contents of a union that the code only initialises in part. Floating-point values
  are their bit patterns.
\<close>

section \<open>Parts of a word\<close>

definition get_elem :: "nat \<Rightarrow> stm_word \<Rightarrow> 'a::len word" where
  "get_elem j w = ucast (drop_bit (LENGTH('a) * j) w)"

definition set_elem :: "nat \<Rightarrow> 'a::len word \<Rightarrow> stm_word \<Rightarrow> stm_word" where
  "set_elem j x w = masked w (push_bit (LENGTH('a) * j) (ucast x)) (push_bit (LENGTH('a) * j) (mask LENGTH('a)))"

lemma bit_get_elem: "bit (get_elem j w :: 'a::len word) n = (n < LENGTH('a) \<and> bit w (LENGTH('a) * j + n))"
  by (simp add: get_elem_def bit_simps)

lemma bit_set_elem:
  "bit (set_elem j (x :: 'a::len word) w) n =
     (if LENGTH('a) * j \<le> n \<and> n < LENGTH('a) * j + LENGTH('a) \<and> n < 64 then bit x (n - LENGTH('a) * j) else bit w n)"
  by (auto simp: set_elem_def bit_masked bit_simps)

text \<open>A list of bytes read as a number, and back.\<close>

definition of_bytes :: "8 word list \<Rightarrow> 'a::len word" where
  "of_bytes bs = foldr (\<lambda>b acc. push_bit 8 acc OR ucast b) bs 0"

definition to_bytes :: "'a::len word \<Rightarrow> 8 word list" where
  "to_bytes v = map (\<lambda>i. ucast (drop_bit (8 * i) v)) [0..<LENGTH('a) div 8]"

lemma bit_of_bytes:
  "bit (of_bytes bs :: 'a::len word) n = (n < LENGTH('a) \<and> n div 8 < length bs \<and> bit (bs ! (n div 8)) (n mod 8))"
proof (induction bs arbitrary: n)
  case (Cons b bs)
  show ?case
  proof (cases "n < 8")
    case True
    then show ?thesis by (auto simp: of_bytes_def bit_simps)
  next
    case False
    then have "n div 8 = Suc ((n - 8) div 8)" "n mod 8 = (n - 8) mod 8"
      by (simp_all add: le_div_geq le_mod_geq)
    moreover have "\<not> bit b n" using False by (auto dest: bit_imp_le_length)
    ultimately show ?thesis
      using False Cons.IH [of "n - 8"] by (auto simp: of_bytes_def bit_simps)
  qed
qed (simp add: of_bytes_def)

lemma to_bytes_nth: "i < LENGTH('a) div 8 \<Longrightarrow> to_bytes (v :: 'a::len word) ! i = ucast (drop_bit (8 * i) v)"
  by (simp add: to_bytes_def)

lemma length_to_bytes [simp]: "length (to_bytes (v :: 'a::len word)) = LENGTH('a) div 8"
  by (simp add: to_bytes_def)

lemma of_to_bytes:
  assumes "8 dvd LENGTH('a)"
  shows "of_bytes (to_bytes v) = (v :: 'a::len word)"
proof (rule bit_word_eqI)
  fix n assume n: "n < LENGTH('a)"
  with assms have "n div 8 < LENGTH('a) div 8"
    by (auto elim!: dvdE simp: div_less_iff_less_mult mult.commute)
  with n show "bit (of_bytes (to_bytes v) :: 'a word) n = bit v n"
    by (simp add: bit_of_bytes to_bytes_nth bit_simps)
qed

section \<open>Addresses\<close>

definition word_base :: "addr \<Rightarrow> addr" where
  "word_base a = a AND NOT 7"

definition byte_off :: "addr \<Rightarrow> nat" where
  "byte_off a = unat (a AND 7)"

lemma byte_off_mod: "byte_off a = unat a mod 8"
proof -
  have "unat (a AND 7) = unat a AND 7"
    by (simp add: unsigned_and_eq)
  also have "\<dots> = take_bit 3 (unat a)"
    by (simp add: take_bit_eq_mask mask_eq_exp_minus_1)
  finally show ?thesis
    by (simp add: byte_off_def take_bit_eq_mod)
qed

lemma byte_off_less [simp]: "byte_off a < 8"
  by (simp add: byte_off_mod)

lemma base_off: "word_base a + of_nat (byte_off a) = a"
proof -
  have "word_base a + (a AND 7) = (a AND NOT 7) OR (a AND 7)"
    unfolding word_base_def by (rule disjunctive_add) (simp add: bit_simps)
  also have "\<dots> = a"
    by (rule bit_word_eqI) (auto simp: bit_simps)
  finally show ?thesis
    by (simp add: byte_off_def)
qed

lemma unat_add_off:
  assumes "byte_off a = 0" "k < 8"
  shows "unat (a + of_nat k) = unat a + k"
proof -
  obtain q where q: "unat a = 8 * q"
    using assms(1) by (auto simp: byte_off_mod mod_eq_0_iff_dvd elim: dvdE)
  have "unat a < 8 * 2 ^ 61"
    using unsigned_less [of a] by simp
  with q assms(2) have "unat a + k < 2 ^ 64"
    by simp
  with assms(2) show ?thesis
    by (simp add: unat_word_ariths unsigned_of_nat take_bit_nat_eq_self)
qed

lemma aligned_off:
  assumes "byte_off a = 0" "k < 8"
  shows "byte_off (a + of_nat k) = k" "word_base (a + of_nat k) = a"
proof -
  show o: "byte_off (a + of_nat k) = k"
    using assms by (simp add: byte_off_mod unat_add_off) (simp add: mod_add_left_eq [symmetric])
  show "word_base (a + of_nat k) = a"
    using base_off [of "a + of_nat k"] by (simp add: o)
qed

lemma byte_off_base [simp]: "byte_off (word_base a) = 0" "word_base (word_base a) = word_base a"
proof -
  have "word_base a AND 7 = 0"
    by (rule bit_word_eqI) (simp add: word_base_def bit_simps)
  then show o: "byte_off (word_base a) = 0"
    by (simp add: byte_off_def)
  show "word_base (word_base a) = word_base a"
    using base_off [of "word_base a"] by (simp add: o)
qed

lemma byte_off_add8 [simp]: "byte_off (a + 8) = byte_off a"
proof -
  have "unat (a + 8) mod 8 = unat a mod 8"
    by (simp add: unat_word_ariths mod_mod_cancel)
  then show ?thesis
    by (simp add: byte_off_mod)
qed

text \<open>An aligned word covers the eight addresses from its own on.\<close>

lemma word_base_eq_iff:
  assumes "byte_off a = 0"
  shows "word_base x = a \<longleftrightarrow> unat (x - a) < 8" "word_base x = a \<Longrightarrow> byte_off x = unat (x - a)"
proof -
  have off: "unat (x - a) = byte_off x" if "word_base x = a"
  proof -
    have "x - a = of_nat (byte_off x)"
      using base_off [of x] that by (metis add_diff_cancel_left')
    then show ?thesis
      by (simp add: byte_off_def)
  qed
  show "word_base x = a \<longleftrightarrow> unat (x - a) < 8"
  proof
    assume "unat (x - a) < 8"
    moreover have "a + of_nat (unat (x - a)) = x" by simp
    ultimately show "word_base x = a"
      using aligned_off(2) [OF assms] by metis
  qed (simp add: off)
  show "word_base x = a \<Longrightarrow> byte_off x = unat (x - a)"
    by (simp add: off)
qed

section \<open>Loads\<close>

type_synonym 's load_fn = "addr \<Rightarrow> 's \<Rightarrow> stm_word"
type_synonym 's store_fn = "addr \<Rightarrow> stm_word \<Rightarrow> stm_word \<Rightarrow> 's \<Rightarrow> 's"

text \<open>The loop over the bytes of one word, from index \<open>i\<close> on, at most \<open>n\<close> of them.\<close>

fun copy_bytes :: "stm_word \<Rightarrow> nat \<Rightarrow> nat \<Rightarrow> 8 word list" where
  "copy_bytes w i 0 = []"
| "copy_bytes w i (Suc n) = (if i < 8 then get_elem i w # copy_bytes w (i + 1) n else [])"

text \<open>The full words, then the last bytes.\<close>

fun load_words :: "'s load_fn \<Rightarrow> addr \<Rightarrow> nat \<Rightarrow> 's \<Rightarrow> 8 word list" where
  "load_words ld a n s =
    (if n \<ge> 8 then to_bytes (ld a s) @ load_words ld (a + 8) (n - 8) s
     else if n > 0 then copy_bytes (ld a s) 0 n else [])"

declare load_words.simps [simp del]

definition stm_load_bytes :: "'s load_fn \<Rightarrow> addr \<Rightarrow> nat \<Rightarrow> 's \<Rightarrow> 8 word list" where
  "stm_load_bytes ld a n s =
    (if n = 0 then []
     else let i = unat (a AND 7) in
       if i \<noteq> 0 then
         let a = a AND NOT 7; bs = copy_bytes (ld a s) i n
         in bs @ load_words ld (a + 8) (n - length bs) s
       else load_words ld a n s)"

definition stm_load_u8 :: "'s load_fn \<Rightarrow> addr \<Rightarrow> 's \<Rightarrow> 8 word" where
  "stm_load_u8 ld a s = get_elem (unat (a AND 7)) (ld (a AND NOT 7) s)"

definition stm_load_u16 :: "'s load_fn \<Rightarrow> addr \<Rightarrow> 's \<Rightarrow> 16 word" where
  "stm_load_u16 ld a s =
    (if a AND 1 \<noteq> 0 then of_bytes (stm_load_bytes ld a 2 s)
     else get_elem (unat (drop_bit 1 (a AND 7))) (ld (a AND NOT 7) s))"

definition stm_load_u32 :: "'s load_fn \<Rightarrow> addr \<Rightarrow> 's \<Rightarrow> 32 word" where
  "stm_load_u32 ld a s =
    (if a AND 3 \<noteq> 0 then of_bytes (stm_load_bytes ld a 4 s)
     else get_elem (unat (drop_bit 2 (a AND 7))) (ld (a AND NOT 7) s))"

definition stm_load_u64 :: "'s load_fn \<Rightarrow> addr \<Rightarrow> 's \<Rightarrow> 64 word" where
  "stm_load_u64 ld a s = (if a AND 7 \<noteq> 0 then of_bytes (stm_load_bytes ld a 8 s) else ld a s)"

text \<open>The signed and unsigned C types, by value.\<close>

definition stm_load_char :: "'s load_fn \<Rightarrow> addr \<Rightarrow> 's \<Rightarrow> int" where
  "stm_load_char ld a s = sint (stm_load_u8 ld a s)"
definition stm_load_uchar :: "'s load_fn \<Rightarrow> addr \<Rightarrow> 's \<Rightarrow> int" where
  "stm_load_uchar ld a s = uint (stm_load_u8 ld a s)"
definition stm_load_short :: "'s load_fn \<Rightarrow> addr \<Rightarrow> 's \<Rightarrow> int" where
  "stm_load_short ld a s = sint (stm_load_u16 ld a s)"
definition stm_load_ushort :: "'s load_fn \<Rightarrow> addr \<Rightarrow> 's \<Rightarrow> int" where
  "stm_load_ushort ld a s = uint (stm_load_u16 ld a s)"
definition stm_load_int :: "'s load_fn \<Rightarrow> addr \<Rightarrow> 's \<Rightarrow> int" where
  "stm_load_int ld a s = sint (stm_load_u32 ld a s)"
definition stm_load_uint :: "'s load_fn \<Rightarrow> addr \<Rightarrow> 's \<Rightarrow> int" where
  "stm_load_uint ld a s = uint (stm_load_u32 ld a s)"
definition stm_load_long :: "'s load_fn \<Rightarrow> addr \<Rightarrow> 's \<Rightarrow> int" where
  "stm_load_long ld a s = sint (stm_load_u64 ld a s)"
definition stm_load_ulong :: "'s load_fn \<Rightarrow> addr \<Rightarrow> 's \<Rightarrow> int" where
  "stm_load_ulong ld a s = uint (stm_load_u64 ld a s)"
definition stm_load_float :: "'s load_fn \<Rightarrow> addr \<Rightarrow> 's \<Rightarrow> 32 word" where
  "stm_load_float ld a s = stm_load_u32 ld a s"
definition stm_load_double :: "'s load_fn \<Rightarrow> addr \<Rightarrow> 's \<Rightarrow> 64 word" where
  "stm_load_double ld a s = stm_load_u64 ld a s"
definition stm_load_ptr :: "'s load_fn \<Rightarrow> addr \<Rightarrow> 's \<Rightarrow> addr" where
  "stm_load_ptr ld a s = ld a s"

section \<open>Stores\<close>

definition stm_store_word :: "'s store_fn \<Rightarrow> addr \<Rightarrow> stm_word \<Rightarrow> 's \<Rightarrow> 's" where
  "stm_store_word st2 a v s = st2 a v (NOT 0) s"

text \<open>The loop that collects value and mask for one word; it returns what is left of the buffer.\<close>

fun fill_bytes :: "nat \<Rightarrow> 8 word list \<Rightarrow> stm_word \<Rightarrow> stm_word \<Rightarrow> stm_word \<times> stm_word \<times> 8 word list" where
  "fill_bytes i [] val msk = (val, msk, [])"
| "fill_bytes i (b # bs) val msk =
    (if i < 8 then fill_bytes (i + 1) bs (set_elem i b val) (set_elem i (0xFF :: 8 word) msk)
     else (val, msk, b # bs))"

function (sequential) store_words :: "'s store_fn \<Rightarrow> addr \<Rightarrow> 8 word list \<Rightarrow> 's \<Rightarrow> 's" where
  "store_words st2 a buf s =
    (if length buf \<ge> 8 then store_words st2 (a + 8) (drop 8 buf) (stm_store_word st2 a (of_bytes (take 8 buf)) s)
     else if buf \<noteq> [] then (let (val, msk, _) = fill_bytes 0 buf 0 0 in st2 a val msk s) else s)"
  by pat_completeness auto
termination
  by (relation "measure (\<lambda>(_, _, buf, _). length buf)") auto

declare store_words.simps [simp del]

definition stm_store_bytes :: "'s store_fn \<Rightarrow> addr \<Rightarrow> 8 word list \<Rightarrow> 's \<Rightarrow> 's" where
  "stm_store_bytes st2 a buf s =
    (if buf = [] then s
     else let i = unat (a AND 7) in
       if i \<noteq> 0 then
         let a = a AND NOT 7; (val, msk, rest) = fill_bytes i buf 0 0
         in store_words st2 (a + 8) rest (st2 a val msk s)
       else store_words st2 a buf s)"

definition stm_store_u8 :: "'s store_fn \<Rightarrow> stm_word \<Rightarrow> addr \<Rightarrow> 8 word \<Rightarrow> 's \<Rightarrow> 's" where
  "stm_store_u8 st2 junk a v s =
    (let i = unat (a AND 7) in st2 (a AND NOT 7) (set_elem i v junk) (set_elem i (NOT 0 :: 8 word) 0) s)"

definition stm_store_u16 :: "'s store_fn \<Rightarrow> stm_word \<Rightarrow> addr \<Rightarrow> 16 word \<Rightarrow> 's \<Rightarrow> 's" where
  "stm_store_u16 st2 junk a v s =
    (if a AND 1 \<noteq> 0 then stm_store_bytes st2 a (to_bytes v) s
     else let i = unat (drop_bit 1 (a AND 7)) in
       st2 (a AND NOT 7) (set_elem i v junk) (set_elem i (NOT 0 :: 16 word) 0) s)"

definition stm_store_u32 :: "'s store_fn \<Rightarrow> stm_word \<Rightarrow> addr \<Rightarrow> 32 word \<Rightarrow> 's \<Rightarrow> 's" where
  "stm_store_u32 st2 junk a v s =
    (if a AND 3 \<noteq> 0 then stm_store_bytes st2 a (to_bytes v) s
     else let i = unat (drop_bit 2 (a AND 7)) in
       st2 (a AND NOT 7) (set_elem i v junk) (set_elem i (NOT 0 :: 32 word) 0) s)"

definition stm_store_u64 :: "'s store_fn \<Rightarrow> addr \<Rightarrow> 64 word \<Rightarrow> 's \<Rightarrow> 's" where
  "stm_store_u64 st2 a v s =
    (if a AND 7 \<noteq> 0 then stm_store_bytes st2 a (to_bytes v) s else stm_store_word st2 a v s)"

definition stm_store_char :: "'s store_fn \<Rightarrow> stm_word \<Rightarrow> addr \<Rightarrow> int \<Rightarrow> 's \<Rightarrow> 's" where
  "stm_store_char st2 junk a v s = stm_store_u8 st2 junk a (word_of_int v) s"
definition stm_store_uchar :: "'s store_fn \<Rightarrow> stm_word \<Rightarrow> addr \<Rightarrow> int \<Rightarrow> 's \<Rightarrow> 's" where
  "stm_store_uchar st2 junk a v s = stm_store_u8 st2 junk a (word_of_int v) s"
definition stm_store_short :: "'s store_fn \<Rightarrow> stm_word \<Rightarrow> addr \<Rightarrow> int \<Rightarrow> 's \<Rightarrow> 's" where
  "stm_store_short st2 junk a v s = stm_store_u16 st2 junk a (word_of_int v) s"
definition stm_store_ushort :: "'s store_fn \<Rightarrow> stm_word \<Rightarrow> addr \<Rightarrow> int \<Rightarrow> 's \<Rightarrow> 's" where
  "stm_store_ushort st2 junk a v s = stm_store_u16 st2 junk a (word_of_int v) s"
definition stm_store_int :: "'s store_fn \<Rightarrow> stm_word \<Rightarrow> addr \<Rightarrow> int \<Rightarrow> 's \<Rightarrow> 's" where
  "stm_store_int st2 junk a v s = stm_store_u32 st2 junk a (word_of_int v) s"
definition stm_store_uint :: "'s store_fn \<Rightarrow> stm_word \<Rightarrow> addr \<Rightarrow> int \<Rightarrow> 's \<Rightarrow> 's" where
  "stm_store_uint st2 junk a v s = stm_store_u32 st2 junk a (word_of_int v) s"
definition stm_store_long :: "'s store_fn \<Rightarrow> addr \<Rightarrow> int \<Rightarrow> 's \<Rightarrow> 's" where
  "stm_store_long st2 a v s = stm_store_u64 st2 a (word_of_int v) s"
definition stm_store_ulong :: "'s store_fn \<Rightarrow> addr \<Rightarrow> int \<Rightarrow> 's \<Rightarrow> 's" where
  "stm_store_ulong st2 a v s = stm_store_u64 st2 a (word_of_int v) s"
definition stm_store_float :: "'s store_fn \<Rightarrow> stm_word \<Rightarrow> addr \<Rightarrow> 32 word \<Rightarrow> 's \<Rightarrow> 's" where
  "stm_store_float st2 junk a v s = stm_store_u32 st2 junk a v s"
definition stm_store_double :: "'s store_fn \<Rightarrow> addr \<Rightarrow> 64 word \<Rightarrow> 's \<Rightarrow> 's" where
  "stm_store_double st2 a v s = stm_store_u64 st2 a v s"
definition stm_store_ptr :: "'s store_fn \<Rightarrow> addr \<Rightarrow> addr \<Rightarrow> 's \<Rightarrow> 's" where
  "stm_store_ptr st2 a v s = stm_store_word st2 a v s"

text \<open>\<^verbatim>\<open>stm_set_bytes\<close>: the mask of the bytes from \<open>i\<close> on, at most \<open>count\<close>, and what is left to do.\<close>

fun mask_bytes :: "nat \<Rightarrow> nat \<Rightarrow> stm_word \<Rightarrow> stm_word \<times> nat" where
  "mask_bytes i 0 msk = (msk, 0)"
| "mask_bytes i (Suc n) msk =
    (if i < 8 then mask_bytes (i + 1) n (set_elem i (0xFF :: 8 word) msk) else (msk, Suc n))"

function (sequential) set_words :: "'s store_fn \<Rightarrow> stm_word \<Rightarrow> addr \<Rightarrow> nat \<Rightarrow> 's \<Rightarrow> 's" where
  "set_words st2 val a count s =
    (if count \<ge> 8 then set_words st2 val (a + 8) (count - 8) (stm_store_word st2 a val s)
     else if count > 0 then st2 a val (fst (mask_bytes 0 count 0)) s else s)"
  by pat_completeness auto
termination
  by (relation "measure (\<lambda>(_, _, _, n, _). n)") auto

declare set_words.simps [simp del]

definition stm_set_bytes :: "'s store_fn \<Rightarrow> addr \<Rightarrow> 8 word \<Rightarrow> nat \<Rightarrow> 's \<Rightarrow> 's" where
  "stm_set_bytes st2 a b count s =
    (if count = 0 then s
     else let val = of_bytes (replicate 8 b); i = unat (a AND 7) in
       if i \<noteq> 0 then
         let a = a AND NOT 7; (msk, rest) = mask_bytes i count 0
         in set_words st2 val (a + 8) rest (st2 a val msk s)
       else set_words st2 val a count s)"

section \<open>Memory as bytes\<close>

definition byte_at :: "'s load_fn \<Rightarrow> 's \<Rightarrow> addr \<Rightarrow> 8 word" where
  "byte_at ld s x = get_elem (byte_off x) (ld (word_base x) s)"

definition bytes_at :: "'s load_fn \<Rightarrow> 's \<Rightarrow> addr \<Rightarrow> nat \<Rightarrow> 8 word list" where
  "bytes_at ld s a n = map (\<lambda>k. byte_at ld s (a + of_nat k)) [0..<n]"

lemma length_bytes_at [simp]: "length (bytes_at ld s a n) = n"
  by (simp add: bytes_at_def)

lemma bytes_at_nth [simp]: "k < n \<Longrightarrow> bytes_at ld s a n ! k = byte_at ld s (a + of_nat k)"
  by (simp add: bytes_at_def)

lemma byte_at_within:
  assumes "byte_off a + k < 8"
  shows "byte_at ld s (a + of_nat k) = get_elem (byte_off a + k) (ld (word_base a) s)"
proof -
  have e: "a + of_nat k = word_base a + of_nat (byte_off a + k)"
    using base_off [of a] by (simp add: add.assoc [symmetric])
  show ?thesis
    unfolding byte_at_def e using aligned_off [OF byte_off_base(1) [of a] assms] by (simp only:)
qed

text \<open>The parts of a word and its bytes.\<close>

lemma get_elem_bytes:
  assumes "LENGTH('a) = 8 * c" "j = c * i"
  shows "(get_elem i w :: 'a::len word) = of_bytes (map (\<lambda>k. get_elem (j + k) w) [0..<c])"
proof (rule bit_word_eqI)
  fix n assume n: "n < LENGTH('a)"
  then have d: "n div 8 < c"
    using assms(1) by auto
  have "LENGTH('a) * i + n = 8 * (j + n div 8) + n mod 8"
    using assms by simp
  moreover have "bit (get_elem i w :: 'a word) n = bit w (LENGTH('a) * i + n)"
    using n by (simp add: bit_get_elem)
  moreover have "bit (of_bytes (map (\<lambda>k. get_elem (j + k) w) [0..<c]) :: 'a word) n = bit w (8 * (j + n div 8) + n mod 8)"
    using n d by (simp add: bit_of_bytes bit_get_elem)
  ultimately show "bit (get_elem i w :: 'a word) n = bit (of_bytes (map (\<lambda>k. get_elem (j + k) w) [0..<c]) :: 'a word) n"
    by (simp only:)
qed

lemma div_eq_range: "0 < d \<Longrightarrow> d * i \<le> m \<and> m < d * i + d \<longleftrightarrow> m div d = (i :: nat)"
proof -
  assume d: "0 < d"
  have "d * (m div d) + m mod d = m" by simp
  then have "d * (m div d) \<le> m \<and> m < d * (m div d) + d"
    using mod_less_divisor [OF d, of m] by linarith
  then show ?thesis
    using div_nat_eqI [of d i m] by (auto simp: algebra_simps)
qed

lemma get_elem_set:
  assumes "LENGTH('a) = 8 * c" "0 < c" "k < 8"
  shows "(get_elem k (set_elem i (x :: 'a::len word) w) :: 8 word) =
    (if k div c = i then to_bytes x ! (k mod c) else get_elem k w)"
proof (rule bit_word_eqI)
  fix n assume n: "n < LENGTH(8)"
  have in_range: "LENGTH('a) * i \<le> 8 * k + n \<and> 8 * k + n < LENGTH('a) * i + LENGTH('a) \<longleftrightarrow> k div c = i"
  proof -
    have "(8 * k + n) div (8 * c) = k div c"
      using n by (simp add: div_mult2_eq)
    moreover have "0 < LENGTH('a)" by simp
    ultimately show ?thesis
      using div_eq_range [of "LENGTH('a)" i "8 * k + n"] assms(1) by simp
  qed
  have "8 * k + n - LENGTH('a) * i = 8 * (k mod c) + n" if "k div c = i"
  proof -
    have "c * i + k mod c = k"
      using that by auto
    moreover have "LENGTH('a) * i = 8 * (c * i)"
      using assms(1) by simp
    ultimately show ?thesis
      by linarith
  qed
  then show "bit (get_elem k (set_elem i x w) :: 8 word) n =
      bit (if k div c = i then to_bytes x ! (k mod c) else get_elem k w) n"
    using n assms in_range by (auto simp: bit_get_elem bit_set_elem to_bytes_nth bit_simps)
qed

lemma get_elem_masked:
  "(get_elem k (masked x v m) :: 8 word) = (get_elem k x AND NOT (get_elem k m)) OR (get_elem k v AND get_elem k m)"
  by (rule bit_word_eqI) (auto simp: bit_get_elem bit_masked bit_simps)

section \<open>What the loads return\<close>

lemma copy_bytes_eq: "copy_bytes w i n = map (\<lambda>k. get_elem k w) [i..<min 8 (i + n)]"
  by (induction w i n rule: copy_bytes.induct) (auto simp: upt_conv_Cons min_def)

lemma to_bytes_word: "to_bytes (w :: stm_word) = map (\<lambda>k. get_elem k w) [0..<8]"
  by (simp add: to_bytes_def get_elem_def)

lemma map_upt_add: "map f [0..<m] @ map (\<lambda>k. f (k + m)) [0..<n] = map f [0..<m + n]"
  by (auto simp: list_eq_iff_nth_eq nth_append)

lemma load_words_eq:
  "byte_off a = 0 \<Longrightarrow> load_words ld a n s = bytes_at ld s a n"
proof (induction ld a n s rule: load_words.induct)
  case (1 ld a n s)
  have within: "byte_at ld s (a + of_nat k) = get_elem k (ld a s)" if "k < 8" for k
    using that aligned_off [OF "1.prems" that] by (simp add: byte_at_def)
  show ?case
  proof (cases "8 \<le> n")
    case True
    have "load_words ld (a + 8) (n - 8) s = bytes_at ld s (a + 8) (n - 8)"
      using "1.IH" True "1.prems" by simp
    also have "\<dots> = map (\<lambda>k. byte_at ld s (a + of_nat (k + 8))) [0..<n - 8]"
      by (simp add: bytes_at_def add.commute add.left_commute)
    finally have "load_words ld a n s =
        map (\<lambda>k. byte_at ld s (a + of_nat k)) [0..<8] @ map (\<lambda>k. byte_at ld s (a + of_nat (k + 8))) [0..<n - 8]"
      using True within by (subst load_words.simps) (simp add: to_bytes_word)
    also have "\<dots> = bytes_at ld s a n"
      unfolding bytes_at_def using map_upt_add [of "\<lambda>k. byte_at ld s (a + of_nat k)" 8 "n - 8"] True by simp
    finally show ?thesis .
  next
    case False
    then show ?thesis
      using within by (subst load_words.simps) (simp add: copy_bytes_eq bytes_at_def)
  qed
qed

lemma stm_load_bytes_eq: "stm_load_bytes ld a n s = bytes_at ld s a n"
proof (cases "byte_off a = 0")
  case True
  then show ?thesis
    by (simp add: stm_load_bytes_def byte_off_def [symmetric] load_words_eq)
       (simp add: bytes_at_def)
next
  case False
  let ?i = "byte_off a" and ?b = "word_base a"
  let ?m = "min (8 - ?i) n"
  have copy: "copy_bytes (ld ?b s) ?i n = map (\<lambda>k. get_elem k (ld ?b s)) [?i..<?i + ?m]"
  proof -
    have "min 8 (?i + n) = ?i + ?m"
      using byte_off_less [of a] by linarith
    then show ?thesis by (simp add: copy_bytes_eq)
  qed
  then have len: "length (copy_bytes (ld ?b s) ?i n) = ?m"
    by simp
  have e: "stm_load_bytes ld a n s = copy_bytes (ld ?b s) ?i n @ bytes_at ld s (?b + 8) (n - ?m)" if "n \<noteq> 0"
    unfolding stm_load_bytes_def byte_off_def [symmetric] word_base_def [symmetric] Let_def len
    using that False load_words_eq [of "?b + 8" ld _ s] by simp
  have "copy_bytes (ld ?b s) ?i n = bytes_at ld s a ?m"
    by (auto simp: list_eq_iff_nth_eq copy less_diff_conv add.commute [of _ "byte_off a"] byte_at_within)
  moreover have "bytes_at ld s (?b + 8) (n - ?m) = map (\<lambda>k. byte_at ld s (a + of_nat (k + ?m))) [0..<n - ?m]"
  proof (cases "n \<le> 8 - ?i")
    case True
    then show ?thesis by (simp add: bytes_at_def)
  next
    case False
    then have m: "?m = 8 - ?i" by simp
    have "a + of_nat (8 - ?i) = ?b + of_nat (?i + (8 - ?i))"
      using base_off [of a] by (simp add: add.assoc [symmetric])
    also have "?i + (8 - ?i) = 8"
      using byte_off_less [of a] by linarith
    finally have "a + of_nat (k + (8 - ?i)) = ?b + 8 + of_nat k" for k
      by (simp add: add.commute add.left_commute)
    then show ?thesis
      by (simp add: bytes_at_def m del: of_nat_add)
  qed
  ultimately have split: "stm_load_bytes ld a n s = map (\<lambda>k. byte_at ld s (a + of_nat k)) [0..<?m] @
      map (\<lambda>k. byte_at ld s (a + of_nat (k + ?m))) [0..<n - ?m]" if "n \<noteq> 0"
    using e [OF that] by (simp only: bytes_at_def)
  show ?thesis
  proof (cases "n = 0")
    case True
    then show ?thesis by (simp add: stm_load_bytes_def bytes_at_def)
  next
    case False
    have "?m + (n - ?m) = n" by simp
    then show ?thesis
      using split [OF False] map_upt_add [of "\<lambda>k. byte_at ld s (a + of_nat k)" ?m "n - ?m"]
      by (simp only: bytes_at_def)
  qed
qed

text \<open>The aligned accesses take a part of one word: it is made of the bytes at the address.\<close>

lemma get_elem_at:
  assumes "LENGTH('a) = 8 * c" "byte_off a = c * i" "c * i + c \<le> 8"
  shows "(get_elem i (ld (word_base a) s) :: 'a::len word) = of_bytes (bytes_at ld s a c)"
proof -
  have "map (\<lambda>k. get_elem (byte_off a + k) (ld (word_base a) s)) [0..<c] = bytes_at ld s a c"
    using assms(2,3) byte_at_within [of a _ ld s] by (simp add: bytes_at_def)
  then show ?thesis
    using get_elem_bytes [OF assms(1,2), of "ld (word_base a) s"] by simp
qed

lemma and_low_bits:
  "a AND 1 = 0 \<longleftrightarrow> byte_off a mod 2 = 0" "a AND 3 = 0 \<longleftrightarrow> byte_off a mod 4 = 0" "a AND 7 = 0 \<longleftrightarrow> byte_off a = 0"
proof -
  have "unat (a AND 1) = take_bit 1 (unat a)" "unat (a AND 3) = take_bit 2 (unat a)"
    by (simp_all add: unsigned_and_eq take_bit_eq_mask mask_eq_exp_minus_1) (simp only: numeral_3_eq_3)
  then have "unat (a AND 1) = unat a mod 2" "unat (a AND 3) = unat a mod 4"
    by (simp_all add: take_bit_eq_mod)
  then show "a AND 1 = 0 \<longleftrightarrow> byte_off a mod 2 = 0" "a AND 3 = 0 \<longleftrightarrow> byte_off a mod 4 = 0"
    by (simp_all add: unat_eq_0 [symmetric] byte_off_mod mod_mod_cancel del: unat_eq_0)
  show "a AND 7 = 0 \<longleftrightarrow> byte_off a = 0"
    by (simp add: byte_off_def unat_eq_0)
qed

lemma elem_index: "unat (drop_bit n (a AND 7)) = byte_off a div 2 ^ n"
  unfolding byte_off_def unat_drop_bit_eq by (rule drop_bit_eq_div)

section \<open>What the stores do\<close>

lemma get_byte_set:
  "k < 8 \<Longrightarrow> (get_elem k (set_elem i (b :: 8 word) w) :: 8 word) = (if k = i then b else get_elem k w)"
  using get_elem_set [where 'a = 8 and c = 1] by (simp add: to_bytes_def)

text \<open>The value and mask collected for the bytes \<open>bs\<close> from index \<open>i\<close> on.\<close>

lemma fill_bytes_eq:
  assumes "fill_bytes i bs val msk = (val', msk', rest)" "k < 8"
  shows "rest = drop (8 - i) bs"
    and "(get_elem k val' :: 8 word) = (if i \<le> k \<and> k < i + length bs then bs ! (k - i) else get_elem k val)"
    and "(get_elem k msk' :: 8 word) = (if i \<le> k \<and> k < i + length bs then 0xFF else get_elem k msk)"
  using assms
proof (induction i bs val msk arbitrary: val' msk' rest rule: fill_bytes.induct)
  case (2 i b bs val msk)
  {
    case 1 then show ?case using 2 by (cases "i < 8") (auto simp: Suc_diff_le drop_Cons' numeral_eq_Suc)
  next
    case 2 then show ?case using "2.IH"(2) by (cases "i < 8") (auto simp: get_byte_set nth_Cons' Suc_le_eq)
  next
    case 3 then show ?case using "2.IH"(3) by (cases "i < 8") (auto simp: get_byte_set Suc_le_eq)
  }
qed auto

lemma mask_bytes_eq:
  assumes "mask_bytes i n msk = (msk', rest)" "k < 8"
  shows "rest = n - (8 - i)"
    and "(get_elem k msk' :: 8 word) = (if i \<le> k \<and> k < i + n then 0xFF else get_elem k msk)"
  using assms
proof (induction i n msk arbitrary: msk' rest rule: mask_bytes.induct)
  case (2 i n msk)
  {
    case 1 then show ?case using 2 by (cases "i < 8") (auto simp: Suc_diff_le)
  next
    case 2 then show ?case using "2.IH"(2) by (cases "i < 8") (auto simp: get_byte_set Suc_le_eq)
  }
qed auto

lemma get_elem_0 [simp]: "(get_elem k 0 :: 'a::len word) = 0"
  by (simp add: get_elem_def)

lemma byte_mask [simp]: "(0xFF :: 8 word) = - 1" "x AND NOT (- 1 :: 8 word) = 0"
  by simp_all

lemma unat_sub_nat:
  assumes "k < 2 ^ 64"
  shows "unat (d - of_nat k :: addr) = (if k \<le> unat d then unat d - k else unat d + 2 ^ 64 - k)"
proof -
  have "unat (of_nat k :: addr) = k"
    using assms by (simp add: unsigned_of_nat take_bit_nat_eq_self)
  then show ?thesis
    using unsigned_less [of d] by (simp add: unat_sub_if' word_le_nat_alt) 
qed

text \<open>\<open>s'\<close> is \<open>s\<close> with the bytes \<open>buf\<close> written from address \<open>a\<close> on.\<close>

definition bytes_written :: "'s load_fn \<Rightarrow> addr \<Rightarrow> 8 word list \<Rightarrow> 's \<Rightarrow> 's \<Rightarrow> bool" where
  "bytes_written ld a buf s s' \<longleftrightarrow> (\<forall>x. byte_at ld s' x =
     (if unat (x - a) < length buf then buf ! unat (x - a) else byte_at ld s x))"

lemma bytes_written_append:
  assumes "bytes_written ld a b1 s s1" "bytes_written ld (a + of_nat (length b1)) b2 s1 s2"
    and "length b1 < 2 ^ 64" "length b1 + length b2 \<le> 2 ^ 64"
  shows "bytes_written ld a (b1 @ b2) s s2"
  unfolding bytes_written_def
proof
  fix x
  have "x - (a + of_nat (length b1)) = (x - a) - of_nat (length b1)"
    by simp
  then have d: "unat (x - (a + of_nat (length b1))) =
      (if length b1 \<le> unat (x - a) then unat (x - a) - length b1 else unat (x - a) + 2 ^ 64 - length b1)"
    by (simp only: unat_sub_nat [OF assms(3)])
  have 1: "byte_at ld s1 x = (if unat (x - a) < length b1 then b1 ! unat (x - a) else byte_at ld s x)"
    using assms(1) by (simp add: bytes_written_def)
  have 2: "byte_at ld s2 x = (if unat (x - (a + of_nat (length b1))) < length b2
      then b2 ! unat (x - (a + of_nat (length b1))) else byte_at ld s1 x)"
    using assms(2) by (simp add: bytes_written_def)
  show "byte_at ld s2 x = (if unat (x - a) < length (b1 @ b2) then (b1 @ b2) ! unat (x - a) else byte_at ld s x)"
    unfolding 2 d 1 using assms(4) by (auto simp: nth_append)
qed

lemma bytes_written_Nil: "bytes_written ld a [] s s"
  by (simp add: bytes_written_def)

lemma bytes_written_read:
  assumes "bytes_written ld a buf s s'" "length buf \<le> 2 ^ 64"
  shows "bytes_at ld s' a (length buf) = buf"
proof (rule nth_equalityI)
  fix k assume k: "k < length (bytes_at ld s' a (length buf))"
  then have "unat (of_nat k :: addr) = k"
    using assms(2) by (simp add: unsigned_of_nat take_bit_nat_eq_self)
  then show "bytes_at ld s' a (length buf) ! k = buf ! k"
    using k assms(1) by (simp add: bytes_written_def)
qed simp

text \<open>
  What the wrappers need of the word-sized accesses: a masked store changes the bits of the mask
  at its address, and nothing else.
\<close>

locale word_memory =
  fixes ld :: "addr \<Rightarrow> 's \<Rightarrow> stm_word"
    and st2 :: "addr \<Rightarrow> stm_word \<Rightarrow> stm_word \<Rightarrow> 's \<Rightarrow> 's"
  assumes ld_st2: "ld b (st2 a v m s) = (if b = a then masked (ld a s) v m else ld b s)"
begin

lemma byte_at_st2:
  "byte_at ld (st2 a v m s) x = (if word_base x = a then
     (byte_at ld s x AND NOT (get_elem (byte_off x) m)) OR (get_elem (byte_off x) v AND get_elem (byte_off x) m)
   else byte_at ld s x)"
  by (simp add: byte_at_def ld_st2 get_elem_masked)

lemma one_word:
  assumes a: "byte_off a = 0" and i: "i + length buf \<le> 8"
    and v: "\<And>k. k < 8 \<Longrightarrow> i \<le> k \<Longrightarrow> k < i + length buf \<Longrightarrow> get_elem k v = buf ! (k - i)"
    and m: "\<And>k. k < 8 \<Longrightarrow> (get_elem k m :: 8 word) = (if i \<le> k \<and> k < i + length buf then - 1 else 0)"
  shows "bytes_written ld (a + of_nat i) buf s (st2 a v m s)"
  unfolding bytes_written_def
proof
  fix x
  have i': "i < 2 ^ 64" using i by simp
  have "x - (a + of_nat i) = (x - a) - of_nat i"
    by simp
  then have d: "unat (x - (a + of_nat i)) =
      (if i \<le> unat (x - a) then unat (x - a) - i else unat (x - a) + 2 ^ 64 - i)"
    by (simp only: unat_sub_nat [OF i'])
  show "byte_at ld (st2 a v m s) x =
      (if unat (x - (a + of_nat i)) < length buf then buf ! unat (x - (a + of_nat i)) else byte_at ld s x)"
  proof (cases "word_base x = a")
    case True
    then have x: "byte_off x = unat (x - a)" "unat (x - a) < 8"
      using word_base_eq_iff [OF a] by auto
    show ?thesis
      unfolding byte_at_st2 d using True x m [OF x(2)] v [OF x(2)] i by auto
  next
    case False
    then have "8 \<le> unat (x - a)"
      using word_base_eq_iff(1) [OF a, of x] by simp
    then show ?thesis
      unfolding byte_at_st2 d using False i by auto
  qed
qed

lemma full_word:
  assumes "byte_off a = 0" "length buf = 8"
  shows "bytes_written ld a buf s (stm_store_word st2 a (of_bytes buf) s)"
proof -
  have "(get_elem k (of_bytes buf) :: 8 word) = buf ! k" if "k < 8" for k
    using that assms(2) by (intro bit_word_eqI) (simp add: bit_get_elem bit_of_bytes)
  moreover have "(get_elem k (- 1) :: 8 word) = - 1" if "k < 8" for k
    using that by (intro bit_word_eqI) (simp add: bit_get_elem)
  ultimately show ?thesis
    using one_word [OF assms(1), of 0 buf "of_bytes buf" "- 1" s] assms(2) by (simp add: stm_store_word_def)
qed

lemma part_word:
  assumes "byte_off a = 0" "fill_bytes i buf 0 0 = (val, msk, rest)" "i < 8"
  shows "bytes_written ld (a + of_nat i) (take (8 - i) buf) s (st2 a val msk s)" "rest = drop (8 - i) buf"
proof -
  note f = fill_bytes_eq [OF assms(2)]
  show "rest = drop (8 - i) buf"
    by (rule f(1) [of 0]) simp
  show "bytes_written ld (a + of_nat i) (take (8 - i) buf) s (st2 a val msk s)"
    using assms(1,3) f(2,3) by (intro one_word) auto
qed

lemma store_words_written:
  "byte_off a = 0 \<Longrightarrow> length buf \<le> 2 ^ 64 \<Longrightarrow> bytes_written ld a buf s (store_words st2 a buf s)"
proof (induction "length buf" arbitrary: a buf s rule: less_induct)
  case less
  show ?case
  proof (cases "8 \<le> length buf")
    case True
    let ?s = "stm_store_word st2 a (of_bytes (take 8 buf)) s"
    have "bytes_written ld a (take 8 buf) s ?s"
      using full_word less.prems(1) True by simp
    moreover have "bytes_written ld (a + 8) (drop 8 buf) ?s (store_words st2 (a + 8) (drop 8 buf) ?s)"
      using less.prems True by (intro less.hyps) auto
    ultimately have "bytes_written ld a (take 8 buf @ drop 8 buf) s (store_words st2 (a + 8) (drop 8 buf) ?s)"
      using less.prems(2) True by (intro bytes_written_append) auto
    with True show ?thesis
      by (subst store_words.simps) simp
  next
    case False
    obtain val msk rest where f: "fill_bytes 0 buf 0 0 = (val, msk, rest)"
      by (metis prod_cases3)
    have "bytes_written ld a buf s (st2 a val msk s)"
      using part_word(1) [OF less.prems(1) f, of s] False by simp
    with False f show ?thesis
      by (subst store_words.simps) (auto simp: bytes_written_Nil)
  qed
qed

lemma store_bytes_written:
  assumes "length buf \<le> 2 ^ 64"
  shows "bytes_written ld a buf s (stm_store_bytes st2 a buf s)"
proof (cases "byte_off a = 0 \<or> buf = []")
  case True
  then show ?thesis
    using store_words_written [of a buf s] assms
    by (auto simp: stm_store_bytes_def byte_off_def [symmetric] bytes_written_Nil)
next
  case False
  let ?b = "word_base a" and ?i = "byte_off a"
  obtain val msk rest where f: "fill_bytes ?i buf 0 0 = (val, msk, rest)"
    by (metis prod_cases3)
  note p = part_word [OF byte_off_base(1) f byte_off_less]
  have 1: "bytes_written ld a (take (8 - ?i) buf) s (st2 ?b val msk s)"
    using p(1) [of ?b s] base_off [of a] by simp
  have "bytes_written ld a (take (8 - ?i) buf @ rest) s (store_words st2 (?b + 8) rest (st2 ?b val msk s))"
  proof (cases "length buf \<le> 8 - ?i")
    case True
    then show ?thesis
      using 1 p(2) by (subst store_words.simps) simp
  next
    case False
    have "a + of_nat (8 - ?i) = ?b + of_nat (?i + (8 - ?i))"
      using base_off [of a] by (simp add: add.assoc [symmetric])
    also have "?i + (8 - ?i) = 8"
      using byte_off_less [of a] by linarith
    finally have "bytes_written ld (a + of_nat (8 - ?i)) rest (st2 ?b val msk s) (store_words st2 (?b + 8) rest (st2 ?b val msk s))"
      using store_words_written [of "?b + 8" rest] assms p(2) by simp
    then show ?thesis
      using False assms p(2) by (intro bytes_written_append [OF 1]) auto
  qed
  moreover have "stm_store_bytes st2 a buf s = store_words st2 (?b + 8) rest (st2 ?b val msk s)"
    unfolding stm_store_bytes_def byte_off_def [symmetric] word_base_def [symmetric] Let_def using False f by simp
  ultimately show ?thesis
    using p(2) by simp
qed

text \<open>An aligned part of a word.\<close>

lemma elem_written:
  fixes v :: "'a::len word"
  assumes c: "LENGTH('a) = 8 * c" "0 < c" and off: "byte_off a = c * i" and le: "c * i + c \<le> 8"
  shows "bytes_written ld a (to_bytes v) s
    (st2 (word_base a) (set_elem i v junk) (set_elem i (NOT 0 :: 'a word) 0) s)"
proof -
  have idx: "k div c = i \<longleftrightarrow> c * i \<le> k \<and> k < c * i + c" for k
    using div_eq_range [OF c(2)] by blast
  have md: "k mod c = k - c * i" if "c * i \<le> k" "k < c * i + c" for k
    using that idx [of k] minus_mult_div_eq_mod [of k c] by simp
  have "to_bytes (- 1 :: 'a word) ! k = - 1" if "k < c" for k
    using that c(1) by (intro bit_word_eqI) (simp add: to_bytes_nth bit_simps)
  then have "bytes_written ld (word_base a + of_nat (byte_off a)) (to_bytes v) s
      (st2 (word_base a) (set_elem i v junk) (set_elem i (NOT 0 :: 'a word) 0) s)"
    using le c off by (intro one_word) (auto simp: get_elem_set idx md)
  then show ?thesis
    by (simp only: base_off)
qed

lemma store_u8_written: "bytes_written ld a (to_bytes v) s (stm_store_u8 st2 junk a v s)"
  using elem_written [of 1 a "byte_off a" v s junk] byte_off_less [of a]
  by (simp add: stm_store_u8_def byte_off_def [symmetric] word_base_def Let_def Suc_le_eq del: byte_off_less)

lemma store_u16_written: "bytes_written ld a (to_bytes v) s (stm_store_u16 st2 junk a v s)"
proof (cases "byte_off a mod 2 = 0")
  case True
  then have "byte_off a = 2 * (byte_off a div 2)" "2 * (byte_off a div 2) + 2 \<le> 8"
    using byte_off_less [of a] by presburger+
  then show ?thesis
    using elem_written [of 2 a "byte_off a div 2" v s junk] True elem_index [of 1 a]
    by (simp add: stm_store_u16_def and_low_bits word_base_def Let_def)
next
  case False
  then show ?thesis
    using store_bytes_written [of "to_bytes v" a s] by (simp add: stm_store_u16_def and_low_bits)
qed

lemma store_u32_written: "bytes_written ld a (to_bytes v) s (stm_store_u32 st2 junk a v s)"
proof (cases "byte_off a mod 4 = 0")
  case True
  then have "byte_off a = 4 * (byte_off a div 4)" "4 * (byte_off a div 4) + 4 \<le> 8"
    using byte_off_less [of a] by presburger+
  then show ?thesis
    using elem_written [of 4 a "byte_off a div 4" v s junk] True elem_index [of 2 a]
    by (simp add: stm_store_u32_def and_low_bits word_base_def Let_def)
next
  case False
  then show ?thesis
    using store_bytes_written [of "to_bytes v" a s] by (simp add: stm_store_u32_def and_low_bits)
qed

lemma store_u64_written: "bytes_written ld a (to_bytes v) s (stm_store_u64 st2 a v s)"
  using store_bytes_written [of "to_bytes v" a s] full_word [of a "to_bytes v" s] of_to_bytes [of v]
  by (simp add: stm_store_u64_def and_low_bits)

text \<open>\<^verbatim>\<open>stm_set_bytes\<close>.\<close>

lemma get_elem_replicate: "k < 8 \<Longrightarrow> (get_elem k (of_bytes (replicate 8 b) :: stm_word) :: 8 word) = b"
  by (intro bit_word_eqI) (simp add: bit_get_elem bit_of_bytes)

lemma part_set:
  assumes "byte_off a = 0" "mask_bytes i n 0 = (msk, rest)" "i < 8"
  shows "bytes_written ld (a + of_nat i) (replicate (min (8 - i) n) b) s (st2 a (of_bytes (replicate 8 b)) msk s)"
    "rest = n - (8 - i)"
proof -
  note f = mask_bytes_eq [OF assms(2)]
  have nth: "replicate (min (8 - i) n) b ! (k - i) = b" if "i \<le> k" "k < i + min (8 - i) n" for k
    using that by (intro nth_replicate) linarith
  show "rest = n - (8 - i)"
    by (rule f(1) [of 0]) simp
  show "bytes_written ld (a + of_nat i) (replicate (min (8 - i) n) b) s (st2 a (of_bytes (replicate 8 b)) msk s)"
    using assms(1,3) f(2) nth by (intro one_word) (auto simp: get_elem_replicate)
qed

lemma set_words_written:
  "byte_off a = 0 \<Longrightarrow> n \<le> 2 ^ 64 \<Longrightarrow>
    bytes_written ld a (replicate n b) s (set_words st2 (of_bytes (replicate 8 b)) a n s)"
proof (induction n arbitrary: a s rule: less_induct)
  case (less n)
  show ?case
  proof (cases "8 \<le> n")
    case True
    let ?s = "stm_store_word st2 a (of_bytes (replicate 8 b)) s"
    have "bytes_written ld a (replicate 8 b) s ?s"
      using full_word less.prems(1) by simp
    moreover have "bytes_written ld (a + 8) (replicate (n - 8) b) ?s (set_words st2 (of_bytes (replicate 8 b)) (a + 8) (n - 8) ?s)"
      using less.prems True by (intro less.IH) auto
    ultimately have "bytes_written ld a (replicate 8 b @ replicate (n - 8) b) s
        (set_words st2 (of_bytes (replicate 8 b)) (a + 8) (n - 8) ?s)"
      using less.prems(2) True by (intro bytes_written_append) auto
    with True show ?thesis
      by (subst set_words.simps) (simp add: replicate_add [symmetric])
  next
    case False
    obtain msk rest where f: "mask_bytes 0 n 0 = (msk, rest)"
      by fastforce
    have "bytes_written ld a (replicate n b) s (st2 a (of_bytes (replicate 8 b)) msk s)"
      using part_set(1) [OF less.prems(1) f, of b s] False by simp
    with False f show ?thesis
      by (subst set_words.simps) (auto simp: bytes_written_Nil)
  qed
qed

lemma set_bytes_written:
  assumes "n \<le> 2 ^ 64"
  shows "bytes_written ld a (replicate n b) s (stm_set_bytes st2 a b n s)"
proof (cases "byte_off a = 0 \<or> n = 0")
  case True
  then show ?thesis
    using set_words_written [of a n b s] assms
    by (auto simp: stm_set_bytes_def byte_off_def [symmetric] bytes_written_Nil)
next
  case False
  let ?b = "word_base a" and ?i = "byte_off a" and ?v = "of_bytes (replicate 8 b) :: stm_word"
  obtain msk rest where f: "mask_bytes ?i n 0 = (msk, rest)"
    by fastforce
  note p = part_set [OF byte_off_base(1) f byte_off_less]
  have 1: "bytes_written ld a (replicate (min (8 - ?i) n) b) s (st2 ?b ?v msk s)"
    using p(1) [of ?b b s] base_off [of a] by simp
  have "bytes_written ld a (replicate (min (8 - ?i) n) b @ replicate rest b) s
      (set_words st2 ?v (?b + 8) rest (st2 ?b ?v msk s))"
  proof (cases "n \<le> 8 - ?i")
    case True
    then show ?thesis
      using 1 p(2) by (subst set_words.simps) simp
  next
    case False
    have "a + of_nat (8 - ?i) = ?b + of_nat (?i + (8 - ?i))"
      using base_off [of a] by (simp add: add.assoc [symmetric])
    also have "?i + (8 - ?i) = 8"
      using byte_off_less [of a] by linarith
    finally have "bytes_written ld (a + of_nat (8 - ?i)) (replicate rest b) (st2 ?b ?v msk s)
        (set_words st2 ?v (?b + 8) rest (st2 ?b ?v msk s))"
      using set_words_written [of "?b + 8" rest b] assms p(2) by simp
    then show ?thesis
      using False assms p(2) by (intro bytes_written_append [OF 1]) auto
  qed
  moreover have "stm_set_bytes st2 a b n s = set_words st2 ?v (?b + 8) rest (st2 ?b ?v msk s)"
    unfolding stm_set_bytes_def byte_off_def [symmetric] word_base_def [symmetric] Let_def using False f by simp
  moreover have "min (8 - ?i) n + rest = n"
    using p(2) by simp
  ultimately show ?thesis
    by (metis replicate_add)
qed

end

text \<open>What the typed loads return, on any memory.\<close>

lemma load_u8_eq: "stm_load_u8 ld a s = byte_at ld s a"
  by (simp add: stm_load_u8_def byte_at_def byte_off_def word_base_def)

lemma load_u16_eq: "stm_load_u16 ld a s = of_bytes (bytes_at ld s a 2)"
proof (cases "byte_off a mod 2 = 0")
  case True
  then have "byte_off a = 2 * (byte_off a div 2)" "2 * (byte_off a div 2) + 2 \<le> 8"
    using byte_off_less [of a] by presburger+
  then show ?thesis
    using get_elem_at [where 'a = 16 and c = 2 and a = a and i = "byte_off a div 2"] True elem_index [of 1 a]
    by (simp add: stm_load_u16_def and_low_bits word_base_def)
next
  case False
  then show ?thesis
    by (simp add: stm_load_u16_def and_low_bits stm_load_bytes_eq)
qed

lemma load_u32_eq: "stm_load_u32 ld a s = of_bytes (bytes_at ld s a 4)"
proof (cases "byte_off a mod 4 = 0")
  case True
  then have "byte_off a = 4 * (byte_off a div 4)" "4 * (byte_off a div 4) + 4 \<le> 8"
    using byte_off_less [of a] by presburger+
  then show ?thesis
    using get_elem_at [where 'a = 32 and c = 4 and a = a and i = "byte_off a div 4"] True elem_index [of 2 a]
    by (simp add: stm_load_u32_def and_low_bits word_base_def)
next
  case False
  then show ?thesis
    by (simp add: stm_load_u32_def and_low_bits stm_load_bytes_eq)
qed

lemma load_u64_eq: "stm_load_u64 ld a s = of_bytes (bytes_at ld s a 8)"
proof (cases "byte_off a = 0")
  case True
  have "(get_elem 0 (ld (word_base a) s) :: 64 word) = of_bytes (bytes_at ld s a 8)"
    using True by (intro get_elem_at) simp_all
  moreover have "word_base a = a"
    using base_off [of a] True by simp
  ultimately show ?thesis
    using True by (simp add: stm_load_u64_def and_low_bits get_elem_def)
next
  case False
  then show ?thesis
    by (simp add: stm_load_u64_def and_low_bits stm_load_bytes_eq)
qed

section \<open>The accesses of a transaction\<close>

text \<open>
  The word-sized accesses of a transaction as its read and write sets define them: a load sees the
  snapshot \<open>M\<close> overlaid with the write set, a store merges into an entry of the write set or adds
  one (\<^verbatim>\<open>stm_read_invisible\<close> and \<^verbatim>\<open>stm_write\<close> on their successful paths).
\<close>

definition tx_load :: "(addr \<Rightarrow> stm_word) \<Rightarrow> addr \<Rightarrow> stm_tx \<Rightarrow> stm_word" where
  "tx_load M a tx = merge_written tx a (M a)"

definition tx_store2 :: "config \<Rightarrow> addr \<Rightarrow> stm_word \<Rightarrow> stm_word \<Rightarrow> stm_tx \<Rightarrow> stm_tx" where
  "tx_store2 c a v m tx = (if stm_has_written tx a \<noteq> None
     then tx\<lparr>w_set := update_written a (merge_entry v m) (w_set tx)\<rparr>
     else add_to_write_set c a v m tx)"

lemma tx_store2_write_lock:
  assumes "run c t (s, th) = (s', th')" "pc th = W_lock a v m" "pc th' = WriteEnd"
  shows "desc th' = tx_store2 c a v m (desc th)"
proof -
  have "pc (write_abort c th) \<noteq> WriteEnd"
    by (auto simp: write_abort_def stm_rollback_def rb_return_def)
  then show ?thesis
    using assms by (auto simp: run_def write_lock_def tx_store2_def split: lock.splits if_splits)
qed

interpretation txmem: word_memory "tx_load M" "tx_store2 c" for M c
proof unfold_locales
  fix b a v m s
  show "tx_load M b (tx_store2 c a v m s) = (if b = a then masked (tx_load M a s) v m else tx_load M b s)"
    by (simp add: tx_load_def tx_store2_def merge_written_update merge_written_add)
qed

text \<open>
  C17. \<^verbatim>\<open>stm_store_bytes\<close> writes exactly the bytes of its buffer, at any alignment and across word
  boundaries, leaves every other byte of the transaction's view alone, and \<^verbatim>\<open>stm_load_bytes\<close> reads
  the buffer back.
\<close>

theorem store_bytes_exact:
  assumes "length buf \<le> 2 ^ 64"
  shows "bytes_written (tx_load M) a buf tx (stm_store_bytes (tx_store2 c) a buf tx) \<and>
    stm_load_bytes (tx_load M) a (length buf) (stm_store_bytes (tx_store2 c) a buf tx) = buf"
  using txmem.store_bytes_written [OF assms] bytes_written_read [OF txmem.store_bytes_written [OF assms] assms]
  by (simp add: stm_load_bytes_eq)

theorem store_bytes_exact_witness:
  "stm_load_bytes (tx_load (\<lambda>_. 0)) 13 5 (stm_store_bytes (tx_store2 cfg0) 13 [1, 2, 3, 4, 5] (desc thread0)) = [1, 2, 3, 4, 5]"
proof -
  have l: "length [1, 2, 3, 4, 5 :: 8 word] = 5" by simp
  show ?thesis
    using store_bytes_exact [of "[1, 2, 3, 4, 5]" "\<lambda>_. 0" 13 "desc thread0" cfg0, unfolded l] by simp
qed

text \<open>
  Whatever the alignment of the address, the 16-, 32- and 64-bit loads return the little-endian
  number made of the bytes at the address: the aligned accesses, which cut a part out of one word,
  and the byte loops agree.
\<close>

theorem typed_loads_by_bytes:
  "stm_load_u8 ld a s = byte_at ld s a \<and> stm_load_u16 ld a s = of_bytes (bytes_at ld s a 2) \<and>
   stm_load_u32 ld a s = of_bytes (bytes_at ld s a 4) \<and> stm_load_u64 ld a s = of_bytes (bytes_at ld s a 8)"
  by (simp add: load_u8_eq load_u16_eq load_u32_eq load_u64_eq)

lemma written_value:
  assumes "bytes_written ld a (to_bytes (v :: 'a::len word)) s s'" "LENGTH('a) = 8 * c" "c \<le> 8"
  shows "of_bytes (bytes_at ld s' a c) = v"
proof -
  have "bytes_at ld s' a c = to_bytes v"
    using bytes_written_read [OF assms(1)] assms(2,3) by simp
  then show ?thesis
    using of_to_bytes [of v] assms(2) by simp
qed

lemma typed_roundtrip:
  shows "stm_load_u8 (tx_load M) a (stm_store_u8 (tx_store2 c) junk a v8 tx) = v8"
    and "stm_load_u16 (tx_load M) a (stm_store_u16 (tx_store2 c) junk a v16 tx) = v16"
    and "stm_load_u32 (tx_load M) a (stm_store_u32 (tx_store2 c) junk a v32 tx) = v32"
    and "stm_load_u64 (tx_load M) a (stm_store_u64 (tx_store2 c) a v64 tx) = v64"
proof -
  show "stm_load_u8 (tx_load M) a (stm_store_u8 (tx_store2 c) junk a v8 tx) = v8"
    using txmem.store_u8_written [of M a v8 tx c junk]
    by (auto simp: bytes_written_def to_bytes_def load_u8_eq dest: spec [of _ a])
  show "stm_load_u16 (tx_load M) a (stm_store_u16 (tx_store2 c) junk a v16 tx) = v16"
    unfolding load_u16_eq by (rule written_value [OF txmem.store_u16_written]) simp_all
  show "stm_load_u32 (tx_load M) a (stm_store_u32 (tx_store2 c) junk a v32 tx) = v32"
    unfolding load_u32_eq by (rule written_value [OF txmem.store_u32_written]) simp_all
  show "stm_load_u64 (tx_load M) a (stm_store_u64 (tx_store2 c) a v64 tx) = v64"
    unfolding load_u64_eq by (rule written_value [OF txmem.store_u64_written]) simp_all
qed

text \<open>
  C18. The typed accesses round trip: inside a transaction a load of a signed C type returns the
  value last stored at the address, for every value of the type, at any alignment and whatever the
  uninitialised part of the conversion union contains.
\<close>

theorem typed_accesses_roundtrip:
  assumes "- (2 ^ 7) \<le> v8" "v8 < 2 ^ 7" "- (2 ^ 15) \<le> v16" "v16 < 2 ^ 15" "- (2 ^ 31) \<le> v32" "v32 < 2 ^ 31"
    "- (2 ^ 63) \<le> v64" "v64 < 2 ^ 63"
  shows "stm_load_char (tx_load M) a (stm_store_char (tx_store2 c) junk a v8 tx) = v8 \<and>
    stm_load_short (tx_load M) a (stm_store_short (tx_store2 c) junk a v16 tx) = v16 \<and>
    stm_load_int (tx_load M) a (stm_store_int (tx_store2 c) junk a v32 tx) = v32 \<and>
    stm_load_long (tx_load M) a (stm_store_long (tx_store2 c) a v64 tx) = v64"
proof -
  have "signed_take_bit 7 v8 = v8" "signed_take_bit 15 v16 = v16" "signed_take_bit 31 v32 = v32" "signed_take_bit 63 v64 = v64"
    using assms by (simp_all add: signed_take_bit_int_eq_self_iff)
  then show ?thesis
    by (simp add: stm_load_char_def stm_store_char_def stm_load_short_def stm_store_short_def stm_load_int_def
        stm_store_int_def stm_load_long_def stm_store_long_def typed_roundtrip signed_of_int)
qed

theorem typed_accesses_roundtrip_witness:
  "stm_load_int (tx_load (\<lambda>_. 0)) 6 (stm_store_int (tx_store2 cfg0) 0 6 (- 5) (desc thread0)) = - 5"
  using typed_accesses_roundtrip [of 0 0 "- 5" 0 "\<lambda>_. 0" 6 cfg0 0 "desc thread0"] by simp

text \<open>
  \<^verbatim>\<open>stm_set_bytes\<close> sets exactly \<open>n\<close> bytes from the address on, like \<^verbatim>\<open>memset\<close>, and no other.
\<close>

theorem set_bytes_exact:
  assumes "n \<le> 2 ^ 64"
  shows "bytes_written (tx_load M) a (replicate n b) tx (stm_set_bytes (tx_store2 c) a b n tx)"
  using assms by (rule txmem.set_bytes_written)

theorem set_bytes_exact_witness:
  "bytes_written (tx_load (\<lambda>_. 0)) 5 (replicate 12 7) (desc thread0) (stm_set_bytes (tx_store2 cfg0) 5 7 12 (desc thread0))"
  by (rule set_bytes_exact) simp

end
