(* ===== verification/Gc.thy ===== *)
theory Gc
  imports Stm_Prelude "HOL-Library.Multiset"
begin

text \<open>
  Epoch-based reclamation, \<^verbatim>\<open>tinySTM/src/gc.c\<close>: each thread has a slot with the start time of its
  current transaction and a list of regions of memory it has freed; a region is returned to the
  allocator when every active thread has started after it. Each call of the interface is one step;
  \<open>now\<close> is what \<^verbatim>\<open>gc_current_epoch()\<close> returns in it, and \<open>freed\<close> logs the calls of \<^verbatim>\<open>free\<close>.

  A block carries the epoch given to \<^verbatim>\<open>gc_free\<close> besides its address. The code does not store it: it
  is there to state what the reclamation guarantees. Allocation failures of the bookkeeping
  structures are not modelled.
\<close>

section \<open>Data\<close>

type_synonym gc_word = "64 word"

definition MAX_GC_THREADS :: nat where "MAX_GC_THREADS = 1024"
definition EPOCH_MAX :: gc_word where "EPOCH_MAX = NOT 0"
definition CLEANUP_FREQUENCY :: "32 word" where "CLEANUP_FREQUENCY = 1"

datatype gc_used = GC_NULL | GC_BUSY | GC_FREE_EMPTY | GC_FREE_FULL

record gc_block =
  b_addr :: addr
  b_epoch :: gc_word

record gc_region =
  g_blocks :: "gc_block list"
  g_ts :: gc_word

record gc_thread =
  used :: gc_used
  slot_ts :: gc_word
  regions :: "gc_region list"
  frees :: "32 word"

record gc =
  slots :: "gc_thread list"
  nb_active :: nat
  freed :: "gc_block list"

datatype gc_error = TooManyThreads | ThreadsNotCleanedUp | NoSlot

section \<open>Operations\<close>

text \<open>A lower bound on the start times of all active transactions.\<close>

fun gc_compute_min :: "gc_thread list \<Rightarrow> gc_word \<Rightarrow> gc_word" where
  "gc_compute_min [] m = m"
| "gc_compute_min (s # ss) m = (case used s of
     GC_NULL \<Rightarrow> m
   | GC_BUSY \<Rightarrow> gc_compute_min ss (if slot_ts s < m then slot_ts s else m)
   | _ \<Rightarrow> gc_compute_min ss m)"

definition gc_clean_regions :: "gc_region list \<Rightarrow> gc_block list" where
  "gc_clean_regions rs = concat (map g_blocks rs)"

text \<open>The loop of \<^verbatim>\<open>gc_cleanup_thread\<close>: the blocks it frees and the regions it leaves.\<close>

fun clean_old :: "gc_word \<Rightarrow> gc_region list \<Rightarrow> gc_block list \<times> gc_region list" where
  "clean_old m [] = ([], [])"
| "clean_old m (r # rs) = (if m > g_ts r then (let (bs, rs') = clean_old m rs in (g_blocks r @ bs, rs'))
     else ([], r # rs))"

definition gc_cleanup_thread :: "nat \<Rightarrow> gc_word \<Rightarrow> gc \<Rightarrow> gc" where
  "gc_cleanup_thread idx m g =
    (if regions (slots g ! idx) = [] then g
     else let (bs, rs) = clean_old m (regions (slots g ! idx)) in
       g\<lparr>slots := (slots g)[idx := (slots g ! idx)\<lparr>regions := rs\<rparr>], freed := freed g @ bs\<rparr>)"

definition gc_init :: gc where
  "gc_init = \<lparr>slots = replicate MAX_GC_THREADS
      \<lparr>used = GC_NULL, slot_ts = EPOCH_MAX, regions = [], frees = 0\<rparr>, nb_active = 0, freed = []\<rparr>"

definition gc_exit :: "gc \<Rightarrow> gc_error + gc_block list" where
  "gc_exit g = (if nb_active g \<noteq> 0 then Inl ThreadsNotCleanedUp
     else Inr (freed g @ concat (map (gc_clean_regions \<circ> regions) (slots g))))"

text \<open>The first slot that is not busy; the search never ends when there is none.\<close>

fun free_slot :: "nat \<Rightarrow> gc_thread list \<Rightarrow> nat option" where
  "free_slot i [] = None"
| "free_slot i (s # ss) = (if used s \<noteq> GC_BUSY then Some i else free_slot (i + 1) ss)"

definition gc_init_thread :: "gc_word \<Rightarrow> gc \<Rightarrow> gc_error + nat \<times> gc" where
  "gc_init_thread now g =
    (if nb_active g \<ge> MAX_GC_THREADS then Inl TooManyThreads
     else case free_slot 0 (slots g) of
       None \<Rightarrow> Inl NoSlot
     | Some idx \<Rightarrow> Inr (idx, g\<lparr>nb_active := nb_active g + 1,
           slots := (slots g)[idx := (slots g ! idx)\<lparr>used := GC_BUSY, slot_ts := now\<rparr>]\<rparr>))"

definition gc_exit_thread :: "nat \<Rightarrow> gc \<Rightarrow> gc" where
  "gc_exit_thread idx g =
     g\<lparr>slots := (slots g)[idx := (slots g ! idx)\<lparr>slot_ts := EPOCH_MAX,
         used := (if regions (slots g ! idx) = [] then GC_FREE_EMPTY else GC_FREE_FULL)\<rparr>],
       nb_active := nb_active g - 1\<rparr>"

definition gc_set_epoch :: "nat \<Rightarrow> gc_word \<Rightarrow> gc \<Rightarrow> gc" where
  "gc_set_epoch idx epoch g = (if epoch \<ge> EPOCH_MAX then g
     else g\<lparr>slots := (slots g)[idx := (slots g ! idx)\<lparr>slot_ts := epoch\<rparr>]\<rparr>)"

definition gc_cleanup :: "nat \<Rightarrow> gc_word \<Rightarrow> gc \<Rightarrow> gc" where
  "gc_cleanup idx now g = (if regions (slots g ! idx) = [] then g
     else gc_cleanup_thread idx (gc_compute_min (slots g) now) g)"

text \<open>
  A block goes to the region at the \<^emph>\<open>head\<close> if that is young enough, otherwise to a new region at
  the tail.
\<close>

definition add_block :: "addr \<Rightarrow> gc_word \<Rightarrow> gc_region list \<Rightarrow> gc_region list" where
  "add_block a epoch rs =
    (let b = \<lparr>b_addr = a, b_epoch = epoch\<rparr> in case rs of
       [] \<Rightarrow> [\<lparr>g_blocks = [b], g_ts = epoch\<rparr>]
     | r # rs' \<Rightarrow> if g_ts r < epoch then rs @ [\<lparr>g_blocks = [b], g_ts = epoch\<rparr>]
                 else r\<lparr>g_blocks := b # g_blocks r\<rparr> # rs')"

definition gc_free :: "nat \<Rightarrow> addr \<Rightarrow> gc_word \<Rightarrow> gc_word \<Rightarrow> gc \<Rightarrow> gc" where
  "gc_free idx a epoch now g =
    (let s = slots g ! idx;
         s = s\<lparr>regions := add_block a epoch (regions s), frees := frees s + 1\<rparr>;
         g = g\<lparr>slots := (slots g)[idx := s]\<rparr>
     in if frees s mod CLEANUP_FREQUENCY = 0 then gc_cleanup idx now g else g)"

text \<open>\<^verbatim>\<open>gc_cleanup_all\<close>, over the slots still to visit; \<open>m\<close> is computed when first needed.\<close>

fun cleanup_slots :: "nat list \<Rightarrow> gc_word \<Rightarrow> gc_word \<Rightarrow> gc \<Rightarrow> gc" where
  "cleanup_slots [] m now g = g"
| "cleanup_slots (i # is) m now g =
    (if used (slots g ! i) = GC_NULL then g
     else if used (slots g ! i) = GC_FREE_FULL then
       (let g = g\<lparr>slots := (slots g)[i := (slots g ! i)\<lparr>used := GC_BUSY\<rparr>]\<rparr>;
            m = (if m = EPOCH_MAX then gc_compute_min (slots g) now else m);
            g = gc_cleanup_thread i m g;
            g = g\<lparr>slots := (slots g)[i := (slots g ! i)\<lparr>used :=
                  (if regions (slots g ! i) = [] then GC_FREE_EMPTY else GC_FREE_FULL)\<rparr>]\<rparr>
        in cleanup_slots is m now g)
     else cleanup_slots is m now g)"

definition gc_cleanup_all :: "gc_word \<Rightarrow> gc \<Rightarrow> gc" where
  "gc_cleanup_all now g = cleanup_slots [0..<MAX_GC_THREADS] EPOCH_MAX now g"

fun reset_slots :: "gc_thread list \<Rightarrow> gc_block list \<times> gc_thread list" where
  "reset_slots [] = ([], [])"
| "reset_slots (s # ss) = (if used s = GC_NULL then ([], s # ss)
     else let (bs, ss') = reset_slots ss in
       (gc_clean_regions (regions s) @ bs, s\<lparr>slot_ts := EPOCH_MAX, regions := [], frees := 0\<rparr> # ss'))"

definition gc_reset :: "gc \<Rightarrow> gc" where
  "gc_reset g = (let (bs, ss) = reset_slots (slots g) in g\<lparr>slots := ss, freed := freed g @ bs\<rparr>)"

section \<open>The invariant\<close>

definition pending :: "gc_thread list \<Rightarrow> gc_block list" where
  "pending ss = concat (map (gc_clean_regions \<circ> regions) ss)"

definition null_suffix :: "gc_thread list \<Rightarrow> bool" where
  "null_suffix ss \<longleftrightarrow> (\<forall>i j. i < j \<and> j < length ss \<and> used (ss ! i) = GC_NULL \<longrightarrow> used (ss ! j) = GC_NULL)"

definition busy :: "gc_thread list \<Rightarrow> nat set" where
  "busy ss = {i. i < length ss \<and> used (ss ! i) = GC_BUSY}"

definition region_ok :: "gc_region \<Rightarrow> bool" where
  "region_ok r \<longleftrightarrow> (\<forall>b\<in>set (g_blocks r). b_epoch b \<le> g_ts r)"

definition gc_inv :: "gc \<Rightarrow> bool" where
  "gc_inv g \<longleftrightarrow> length (slots g) = MAX_GC_THREADS \<and> nb_active g = card (busy (slots g)) \<and>
     null_suffix (slots g) \<and>
     (\<forall>s\<in>set (slots g). (used s = GC_NULL \<or> used s = GC_FREE_EMPTY \<longrightarrow> regions s = []) \<and>
        (used s \<noteq> GC_BUSY \<longrightarrow> slot_ts s = EPOCH_MAX) \<and> (\<forall>r\<in>set (regions s). region_ok r))"

lemma finite_busy [simp]: "finite (busy ss)"
  by (simp add: busy_def)

text \<open>The scan stops at the first unused slot and still sees every busy one.\<close>

lemma null_suffix_Cons:
  "null_suffix (s # ss) \<longleftrightarrow> null_suffix ss \<and> (used s = GC_NULL \<longrightarrow> (\<forall>t\<in>set ss. used t = GC_NULL))"
proof
  assume n: "null_suffix (s # ss)"
  have "null_suffix ss"
    unfolding null_suffix_def
  proof (intro allI impI)
    fix i j assume "i < j \<and> j < length ss \<and> used (ss ! i) = GC_NULL"
    then show "used (ss ! j) = GC_NULL"
      using n [unfolded null_suffix_def, rule_format, of "Suc i" "Suc j"] by simp
  qed
  moreover have "used t = GC_NULL" if "used s = GC_NULL" "t \<in> set ss" for t
  proof -
    obtain j where "j < length ss" "t = ss ! j" using \<open>t \<in> set ss\<close> by (auto simp: in_set_conv_nth)
    then show ?thesis
      using n [unfolded null_suffix_def, rule_format, of 0 "Suc j"] that(1) by simp
  qed
  ultimately show "null_suffix ss \<and> (used s = GC_NULL \<longrightarrow> (\<forall>t\<in>set ss. used t = GC_NULL))" by blast
next
  assume n: "null_suffix ss \<and> (used s = GC_NULL \<longrightarrow> (\<forall>t\<in>set ss. used t = GC_NULL))"
  show "null_suffix (s # ss)"
    unfolding null_suffix_def
  proof (intro allI impI)
    fix i j assume ij: "i < j \<and> j < length (s # ss) \<and> used ((s # ss) ! i) = GC_NULL"
    then obtain j' where "j = Suc j'" by (cases j) auto
    with ij n show "used ((s # ss) ! j) = GC_NULL"
      by (cases i) (auto simp: null_suffix_def)
  qed
qed

lemma compute_min_le: "gc_compute_min ss m \<le> m"
  by (induction ss arbitrary: m) (auto split: gc_used.splits intro: order_trans less_imp_le)

lemma compute_min_busy:
  "null_suffix ss \<Longrightarrow> s \<in> set ss \<Longrightarrow> used s = GC_BUSY \<Longrightarrow> gc_compute_min ss m \<le> slot_ts s"
proof (induction ss arbitrary: m)
  case (Cons u ss)
  show ?case
  proof (cases "s = u")
    case True
    then show ?thesis
      using Cons.prems compute_min_le [of ss "slot_ts u"] compute_min_le [of ss m] by (auto simp: not_less intro: order_trans)
  next
    case False
    then show ?thesis
      using Cons by (auto simp: null_suffix_Cons split: gc_used.splits)
  qed
qed simp

lemma compute_min_exact:
  "null_suffix ss \<Longrightarrow> gc_compute_min ss m \<in> insert m (slot_ts ` {s \<in> set ss. used s = GC_BUSY})"
proof (induction ss arbitrary: m)
  case (Cons u ss)
  then have "gc_compute_min ss x \<in> insert x (slot_ts ` {s \<in> set ss. used s = GC_BUSY})" for x
    by (simp add: null_suffix_Cons)
  then show ?case
    by (auto split: gc_used.splits)
qed simp

section \<open>Every operation keeps the invariant\<close>

definition slot_ok :: "gc_thread \<Rightarrow> bool" where
  "slot_ok s \<longleftrightarrow> (used s = GC_NULL \<or> used s = GC_FREE_EMPTY \<longrightarrow> regions s = []) \<and>
     (used s \<noteq> GC_BUSY \<longrightarrow> slot_ts s = EPOCH_MAX) \<and> (\<forall>r\<in>set (regions s). region_ok r)"

lemma gc_inv_alt:
  "gc_inv g \<longleftrightarrow> length (slots g) = MAX_GC_THREADS \<and> nb_active g = card (busy (slots g)) \<and>
     null_suffix (slots g) \<and> (\<forall>s\<in>set (slots g). slot_ok s)"
  by (auto simp: gc_inv_def slot_ok_def)

lemma clean_old_split:
  "clean_old m rs = (bs, rs') \<Longrightarrow> bs @ gc_clean_regions rs' = gc_clean_regions rs \<and> set rs' \<subseteq> set rs"
  by (induction rs arbitrary: bs) (auto simp: gc_clean_regions_def split: if_splits prod.splits)

lemma clean_old_young:
  assumes "\<forall>r\<in>set rs. region_ok r" "clean_old m rs = (bs, rs')" "b \<in> set bs"
  shows "b_epoch b < m"
  using assms
proof (induction rs arbitrary: bs)
  case (Cons r rs)
  then show ?case
    by (auto simp: region_ok_def split: if_splits prod.splits intro: le_less_trans)
qed simp

lemma busy_update:
  assumes "i < length ss"
  shows "busy (ss[i := s]) = (if used s = GC_BUSY then insert i (busy ss) else busy ss - {i})"
  using assms by (auto simp: busy_def nth_list_update split: if_splits)

lemma null_suffix_update:
  assumes "null_suffix ss" "i < length ss" "used s \<noteq> GC_NULL" "\<forall>j<i. used (ss ! j) \<noteq> GC_NULL"
  shows "null_suffix (ss[i := s])"
  using assms unfolding null_suffix_def by (auto simp: nth_list_update)

lemma null_suffix_prefix:
  "null_suffix ss \<Longrightarrow> i < length ss \<Longrightarrow> used (ss ! i) \<noteq> GC_NULL \<Longrightarrow> \<forall>j<i. used (ss ! j) \<noteq> GC_NULL"
  unfolding null_suffix_def by blast

lemma slots_update_ok:
  "\<forall>s\<in>set ss. slot_ok s \<Longrightarrow> slot_ok s' \<Longrightarrow> \<forall>s\<in>set (ss[i := s']). slot_ok s"
  using set_update_subset_insert [of ss i s'] by blast

text \<open>Replacing a slot in use by one with the same status.\<close>

lemma gc_inv_same:
  assumes "gc_inv g" "i < length (slots g)" "used s = used (slots g ! i)" "used s \<noteq> GC_NULL" "slot_ok s"
  shows "gc_inv (g\<lparr>slots := (slots g)[i := s], freed := fr\<rparr>)"
proof -
  have n: "null_suffix (slots g)" and ok: "\<forall>s\<in>set (slots g). slot_ok s"
    using assms(1) by (simp_all add: gc_inv_alt)
  have "\<forall>j<i. used (slots g ! j) \<noteq> GC_NULL"
    using null_suffix_prefix [OF n assms(2)] assms(3,4) by simp
  then have "null_suffix ((slots g)[i := s])"
    using null_suffix_update [OF n assms(2,4)] by blast
  moreover have "busy ((slots g)[i := s]) = busy (slots g)"
    using assms(2,3) by (auto simp: busy_update) (auto simp: busy_def)
  ultimately show ?thesis
    using assms(1) slots_update_ok [OF ok assms(5)] by (simp add: gc_inv_alt)
qed

lemma gc_inv_freed: "gc_inv (g\<lparr>freed := fr\<rparr>) = gc_inv g"
  by (simp add: gc_inv_def)

lemma cleanup_thread_inv:
  assumes "gc_inv g" "i < length (slots g)" "used (slots g ! i) = GC_BUSY"
  shows "gc_inv (gc_cleanup_thread i m g)"
proof (cases "regions (slots g ! i) = []")
  case True
  then show ?thesis using assms by (simp add: gc_cleanup_thread_def)
next
  case False
  obtain bs rs where c: "clean_old m (regions (slots g ! i)) = (bs, rs)" by fastforce
  have "slot_ok (slots g ! i)"
    using assms by (auto simp: gc_inv_alt)
  then have "slot_ok ((slots g ! i)\<lparr>regions := rs\<rparr>)"
    using clean_old_split [OF c] assms(3) by (auto simp: slot_ok_def)
  then show ?thesis
    using assms False by (simp add: gc_cleanup_thread_def c gc_inv_same)
qed

lemma add_block_ok: "\<forall>r\<in>set rs. region_ok r \<Longrightarrow> \<forall>r\<in>set (add_block a e rs). region_ok r"
  by (auto simp: add_block_def region_ok_def Let_def split: list.splits)

lemma add_block_ne [simp]: "add_block a e rs \<noteq> []"
  by (auto simp: add_block_def Let_def split: list.splits)

lemma gc_free_inv:
  assumes "gc_inv g" "i < length (slots g)" "used (slots g ! i) = GC_BUSY"
  shows "gc_inv (gc_free i a e now g)"
proof -
  let ?s = "(slots g ! i)\<lparr>regions := add_block a e (regions (slots g ! i)), frees := frees (slots g ! i) + 1\<rparr>"
  have "slot_ok (slots g ! i)"
    using assms by (auto simp: gc_inv_alt)
  then have "slot_ok ?s"
    using assms(3) add_block_ok by (auto simp: slot_ok_def)
  then have "gc_inv (g\<lparr>slots := (slots g)[i := ?s]\<rparr>)"
    using gc_inv_same [OF assms(1,2), of ?s "freed g"] assms(3) by simp
  then show ?thesis
    using cleanup_thread_inv [of "g\<lparr>slots := (slots g)[i := ?s]\<rparr>" i] assms(2,3)
    by (simp add: gc_free_def gc_cleanup_def Let_def)
qed

lemma free_slot_spec:
  "free_slot i ss = Some k \<Longrightarrow> i \<le> k \<and> k - i < length ss \<and> used (ss ! (k - i)) \<noteq> GC_BUSY \<and>
     (\<forall>j < k - i. used (ss ! j) = GC_BUSY)"
proof (induction i ss rule: free_slot.induct)
  case (2 i s ss)
  show ?case
  proof (cases "used s = GC_BUSY")
    case True
    then have IH: "Suc i \<le> k" "k - Suc i < length ss" "used (ss ! (k - Suc i)) \<noteq> GC_BUSY"
        "\<forall>j < k - Suc i. used (ss ! j) = GC_BUSY"
      using 2 by simp_all
    then obtain d where "k = Suc i + d" using le_Suc_ex by blast
    then show ?thesis
      using IH True by (auto simp: nth_Cons split: nat.splits)
  next
    case False
    then show ?thesis using 2 by simp
  qed
qed simp

lemma free_slot_None: "free_slot i ss = None \<Longrightarrow> busy ss = {..<length ss}"
proof -
  assume "free_slot i ss = None"
  then have "\<forall>s\<in>set ss. used s = GC_BUSY"
    by (induction i ss rule: free_slot.induct) (auto split: if_splits)
  then show ?thesis
    by (auto simp: busy_def)
qed

lemma gc_init_thread_inv:
  assumes "gc_inv g" "gc_init_thread now g = Inr (k, g')"
  shows "gc_inv g'" "k < length (slots g')" "used (slots g ! k) \<noteq> GC_BUSY" "used (slots g' ! k) = GC_BUSY"
    "slot_ts (slots g' ! k) = now"
proof -
  let ?s = "(slots g ! k)\<lparr>used := GC_BUSY, slot_ts := now\<rparr>"
  have f: "free_slot 0 (slots g) = Some k"
    and g': "g' = g\<lparr>nb_active := nb_active g + 1, slots := (slots g)[k := ?s]\<rparr>"
    using assms(2) by (auto simp: gc_init_thread_def split: if_splits option.splits)
  have k: "k < length (slots g)" "used (slots g ! k) \<noteq> GC_BUSY" "\<forall>j<k. used (slots g ! j) = GC_BUSY"
    using free_slot_spec [OF f] by simp_all
  then have pre: "\<forall>j<k. used (slots g ! j) \<noteq> GC_NULL" by simp
  have "slot_ok (slots g ! k)"
    using assms(1) k(1) by (simp add: gc_inv_alt)
  then have "slot_ok ?s"
    by (simp add: slot_ok_def)
  moreover have "null_suffix ((slots g)[k := ?s])"
    using assms(1) k(1) pre by (intro null_suffix_update) (auto simp: gc_inv_alt)
  moreover have "k \<notin> busy (slots g)"
    using k(2) by (simp add: busy_def)
  then have "card (busy ((slots g)[k := ?s])) = card (busy (slots g)) + 1"
    using k(1) by (simp add: busy_update)
  ultimately show "gc_inv g'"
    using assms(1) slots_update_ok [of "slots g" ?s k] by (simp add: gc_inv_alt g')
  show "k < length (slots g')" "used (slots g ! k) \<noteq> GC_BUSY" "used (slots g' ! k) = GC_BUSY" "slot_ts (slots g' ! k) = now"
    using k by (simp_all add: g')
qed

lemma gc_exit_thread_inv:
  assumes "gc_inv g" "i < length (slots g)" "used (slots g ! i) = GC_BUSY"
  shows "gc_inv (gc_exit_thread i g)"
proof -
  let ?s = "(slots g ! i)\<lparr>slot_ts := EPOCH_MAX,
      used := (if regions (slots g ! i) = [] then GC_FREE_EMPTY else GC_FREE_FULL)\<rparr>"
  have "slot_ok (slots g ! i)"
    using assms by (auto simp: gc_inv_alt)
  then have "slot_ok ?s"
    by (simp add: slot_ok_def)
  moreover have "null_suffix ((slots g)[i := ?s])"
    using assms null_suffix_prefix [of "slots g" i] by (intro null_suffix_update) (auto simp: gc_inv_alt)
  moreover have "i \<in> busy (slots g)"
    using assms(2,3) by (simp add: busy_def)
  then have "card (busy ((slots g)[i := ?s])) = card (busy (slots g)) - 1"
    using assms(2) by (simp add: busy_update card_Diff_singleton)
  ultimately show ?thesis
    using assms(1) slots_update_ok [of "slots g" ?s i] by (simp add: gc_inv_alt gc_exit_thread_def)
qed

lemma gc_set_epoch_inv:
  assumes "gc_inv g" "i < length (slots g)" "used (slots g ! i) = GC_BUSY"
  shows "gc_inv (gc_set_epoch i e g)"
proof -
  have "slot_ok (slots g ! i)"
    using assms by (auto simp: gc_inv_alt)
  then have "slot_ok ((slots g ! i)\<lparr>slot_ts := e\<rparr>)"
    using assms(3) by (simp add: slot_ok_def)
  then show ?thesis
    using gc_inv_same [OF assms(1,2), of "(slots g ! i)\<lparr>slot_ts := e\<rparr>" "freed g"] assms
    by (simp add: gc_set_epoch_def)
qed

section \<open>What is reclaimed\<close>

text \<open>All blocks ever given to \<^verbatim>\<open>gc_free\<close>: returned to the allocator or still waiting.\<close>

definition all_blocks :: "gc \<Rightarrow> gc_block multiset" where
  "all_blocks g = mset (freed g) + mset (pending (slots g))"

definition busy_ts :: "gc_thread list \<Rightarrow> gc_word set" where
  "busy_ts ss = slot_ts ` {s \<in> set ss. used s = GC_BUSY}"

text \<open>Every active thread has started after the block was freed.\<close>

definition reclaimable :: "gc_word \<Rightarrow> gc_word set \<Rightarrow> gc_block \<Rightarrow> bool" where
  "reclaimable now T b \<longleftrightarrow> b_epoch b < now \<and> (\<forall>t\<in>T. b_epoch b < t)"

lemma pending_update:
  "i < length ss \<Longrightarrow> mset (pending (ss[i := s])) + mset (gc_clean_regions (regions (ss ! i))) =
     mset (pending ss) + mset (gc_clean_regions (regions s))"
proof (induction ss arbitrary: i)
  case (Cons u ss)
  then show ?case
    by (cases i) (auto simp: pending_def ac_simps add_left_cancel)
qed simp

lemma busy_ts_update_idle:
  assumes "i < length ss" "used (ss ! i) \<noteq> GC_BUSY" "used s \<noteq> GC_BUSY"
  shows "busy_ts (ss[i := s]) = busy_ts ss"
proof -
  have "{s' \<in> set (ss[i := s]). used s' = GC_BUSY} = {s' \<in> set ss. used s' = GC_BUSY}"
    using assms by (auto simp: in_set_conv_nth nth_list_update)
  then show ?thesis by (simp add: busy_ts_def)
qed

lemma min_low:
  assumes "null_suffix ss"
  shows "gc_compute_min ss now \<le> now" "t \<in> busy_ts ss \<Longrightarrow> gc_compute_min ss now \<le> t"
  using compute_min_le compute_min_busy [OF assms] by (auto simp: busy_ts_def)

lemma cleanup_thread_effect:
  assumes "i < length (slots g)" "\<forall>r\<in>set (regions (slots g ! i)). region_ok r"
  obtains bs rs where "gc_cleanup_thread i m g =
      g\<lparr>slots := (slots g)[i := (slots g ! i)\<lparr>regions := rs\<rparr>], freed := freed g @ bs\<rparr>"
    "bs @ gc_clean_regions rs = gc_clean_regions (regions (slots g ! i))" "set rs \<subseteq> set (regions (slots g ! i))"
    "\<And>b. b \<in> set bs \<Longrightarrow> b_epoch b < m"
proof -
  obtain bs rs where c: "clean_old m (regions (slots g ! i)) = (bs, rs)" by fastforce
  have "gc_cleanup_thread i m g = g\<lparr>slots := (slots g)[i := (slots g ! i)\<lparr>regions := rs\<rparr>], freed := freed g @ bs\<rparr>"
  proof (cases "regions (slots g ! i) = []")
    case True
    then have "(slots g ! i)\<lparr>regions := rs\<rparr> = slots g ! i" "bs = []"
      using c by auto
    then show ?thesis
      using True by (simp add: gc_cleanup_thread_def)
  next
    case False
    then show ?thesis by (simp add: gc_cleanup_thread_def c)
  qed
  then show thesis
    using that clean_old_split [OF c] clean_old_young [OF assms(2) c] by blast
qed

lemma all_blocks_move:
  assumes "i < length (slots g)" "bs @ gc_clean_regions (regions s) = gc_clean_regions (regions (slots g ! i))"
  shows "all_blocks (g\<lparr>slots := (slots g)[i := s], freed := freed g @ bs\<rparr>) = all_blocks g"
proof -
  let ?p = "mset (pending ((slots g)[i := s]))" and ?c = "mset (gc_clean_regions (regions s))"
  have "mset (gc_clean_regions (regions (slots g ! i))) = mset bs + ?c"
    using assms(2) [symmetric] by simp
  then have "?p + mset bs + ?c = mset (pending (slots g)) + ?c"
    using pending_update [OF assms(1), of s] by (simp only: add.assoc)
  then have "?p + mset bs = mset (pending (slots g))"
    by (rule add_right_imp_eq)
  then show ?thesis
    by (simp add: all_blocks_def ac_simps)
qed

text \<open>One operation: the invariant, no block lost, and only blocks that may go are returned.\<close>

definition reclaims :: "gc_word \<Rightarrow> gc \<Rightarrow> gc \<Rightarrow> bool" where
  "reclaims now g g' \<longleftrightarrow> (\<exists>bs. freed g' = freed g @ bs \<and> (\<forall>b\<in>set bs. reclaimable now (busy_ts (slots g)) b))"

lemma cleanup_thread_busy:
  assumes "gc_inv g" "i < length (slots g)" "used (slots g ! i) = GC_BUSY"
    "m \<le> now" "\<forall>t\<in>busy_ts (slots g). m \<le> t"
  shows "all_blocks (gc_cleanup_thread i m g) = all_blocks g" "reclaims now g (gc_cleanup_thread i m g)"
proof -
  have r: "\<forall>r\<in>set (regions (slots g ! i)). region_ok r"
    using assms(1,2) by (auto simp: gc_inv_alt slot_ok_def)
  obtain bs rs where e: "gc_cleanup_thread i m g =
      g\<lparr>slots := (slots g)[i := (slots g ! i)\<lparr>regions := rs\<rparr>], freed := freed g @ bs\<rparr>"
    "bs @ gc_clean_regions rs = gc_clean_regions (regions (slots g ! i))" "\<And>b. b \<in> set bs \<Longrightarrow> b_epoch b < m"
    using cleanup_thread_effect [OF assms(2) r] by metis
  show "all_blocks (gc_cleanup_thread i m g) = all_blocks g"
    unfolding e(1) using e(2) assms(2) by (intro all_blocks_move) simp_all
  show "reclaims now g (gc_cleanup_thread i m g)"
    unfolding e(1) reclaims_def using e(3) assms(4,5) by (auto simp: reclaimable_def intro: less_le_trans)
qed


text \<open>\<^verbatim>\<open>gc_free\<close> adds its block; the others only move blocks.\<close>

lemma add_block_mset:
  "mset (gc_clean_regions (add_block a e rs)) = mset (gc_clean_regions rs) + {#\<lparr>b_addr = a, b_epoch = e\<rparr>#}"
  by (auto simp: add_block_def gc_clean_regions_def Let_def split: list.splits)

lemma busy_ts_map:
  "busy_ts ss = snd ` {p \<in> set (map (\<lambda>s. (used s, slot_ts s)) ss). fst p = GC_BUSY}"
  by (force simp: busy_ts_def)

lemma busy_ts_update_same:
  assumes "i < length ss" "used s = used (ss ! i)" "slot_ts s = slot_ts (ss ! i)"
  shows "busy_ts (ss[i := s]) = busy_ts ss"
proof -
  have "map (\<lambda>s. (used s, slot_ts s)) (ss[i := s]) = map (\<lambda>s. (used s, slot_ts s)) ss"
    using assms by (simp add: map_update list_update_same_conv)
  then show ?thesis
    by (simp only: busy_ts_map)
qed

lemma busy_ts_update_mono:
  assumes "used (ss ! i) \<noteq> GC_BUSY"
  shows "busy_ts ss \<subseteq> busy_ts (ss[i := s])"
proof
  fix t assume "t \<in> busy_ts ss"
  then obtain j where j: "j < length ss" "used (ss ! j) = GC_BUSY" "t = slot_ts (ss ! j)"
    by (auto simp: busy_ts_def in_set_conv_nth)
  then have "ss ! j \<in> set (ss[i := s])"
    using assms nth_mem [of j "ss[i := s]"] by (cases "i = j") auto
  then show "t \<in> busy_ts (ss[i := s])"
    using j(2,3) by (auto simp: busy_ts_def)
qed

text \<open>An operation that keeps the invariant, the blocks and the start times, and reclaims safely.\<close>

definition gc_keeps :: "gc_word \<Rightarrow> gc \<Rightarrow> gc \<Rightarrow> bool" where
  "gc_keeps now g g' \<longleftrightarrow> gc_inv g' \<and> all_blocks g' = all_blocks g \<and>
     busy_ts (slots g') = busy_ts (slots g) \<and> reclaims now g g'"

lemma gc_keeps_refl: "gc_inv g \<Longrightarrow> gc_keeps now g g"
  by (simp add: gc_keeps_def reclaims_def)

lemma gc_keeps_trans: "gc_keeps now g h \<Longrightarrow> gc_keeps now h k \<Longrightarrow> gc_keeps now g k"
  unfolding gc_keeps_def reclaims_def by (metis append_assoc set_append Un_iff)

lemma gc_keeps_cleanup_thread:
  assumes "gc_inv g" "i < length (slots g)" "used (slots g ! i) = GC_BUSY"
    "m \<le> now" "\<forall>t\<in>busy_ts (slots g). m \<le> t"
  shows "gc_keeps now g (gc_cleanup_thread i m g)"
proof -
  have "busy_ts (slots (gc_cleanup_thread i m g)) = busy_ts (slots g)"
    using assms(2) by (auto simp: gc_cleanup_thread_def busy_ts_update_same split: prod.splits)
  then show ?thesis
    using cleanup_thread_inv [OF assms(1-3)] cleanup_thread_busy [OF assms] by (simp add: gc_keeps_def)
qed

lemma gc_keeps_cleanup:
  assumes "gc_inv g" "i < length (slots g)" "used (slots g ! i) = GC_BUSY"
  shows "gc_keeps now g (gc_cleanup i now g)"
proof -
  have "null_suffix (slots g)"
    using assms(1) by (simp add: gc_inv_alt)
  then show ?thesis
    using assms gc_keeps_refl [OF assms(1)] min_low
    by (auto simp: gc_cleanup_def intro!: gc_keeps_cleanup_thread)
qed

text \<open>One slot left behind by a thread, as \<^verbatim>\<open>gc_cleanup_all\<close> treats it.\<close>

definition visit_slot :: "nat \<Rightarrow> gc_word \<Rightarrow> gc_word \<Rightarrow> gc \<Rightarrow> gc_word \<times> gc" where
  "visit_slot i m now g =
    (let g = g\<lparr>slots := (slots g)[i := (slots g ! i)\<lparr>used := GC_BUSY\<rparr>]\<rparr>;
         m = (if m = EPOCH_MAX then gc_compute_min (slots g) now else m);
         g = gc_cleanup_thread i m g
     in (m, g\<lparr>slots := (slots g)[i := (slots g ! i)\<lparr>used :=
            (if regions (slots g ! i) = [] then GC_FREE_EMPTY else GC_FREE_FULL)\<rparr>]\<rparr>))"

lemma cleanup_slots_visit:
  "cleanup_slots (i # is) m now g =
    (if used (slots g ! i) = GC_NULL then g
     else if used (slots g ! i) = GC_FREE_FULL then (let (m', g') = visit_slot i m now g in cleanup_slots is m' now g')
     else cleanup_slots is m now g)"
  by (simp add: visit_slot_def Let_def)

definition low_bound :: "gc_word \<Rightarrow> gc_word \<Rightarrow> gc \<Rightarrow> bool" where
  "low_bound m now g \<longleftrightarrow> m \<le> now \<and> (\<forall>t\<in>busy_ts (slots g). m \<le> t)"

lemma visit_slot_shape:
  assumes "i < length (slots g)" "\<forall>r\<in>set (regions (slots g ! i)). region_ok r"
    "m' = (if m = EPOCH_MAX then gc_compute_min ((slots g)[i := (slots g ! i)\<lparr>used := GC_BUSY\<rparr>]) now else m)"
  obtains bs rs where "visit_slot i m now g = (m', g\<lparr>slots := (slots g)[i := (slots g ! i)\<lparr>regions := rs,
        used := (if rs = [] then GC_FREE_EMPTY else GC_FREE_FULL)\<rparr>], freed := freed g @ bs\<rparr>)"
    "bs @ gc_clean_regions rs = gc_clean_regions (regions (slots g ! i))" "set rs \<subseteq> set (regions (slots g ! i))"
    "\<And>b. b \<in> set bs \<Longrightarrow> b_epoch b < m'"
proof -
  let ?g = "g\<lparr>slots := (slots g)[i := (slots g ! i)\<lparr>used := GC_BUSY\<rparr>]\<rparr>"
  obtain bs rs where e: "gc_cleanup_thread i m' ?g =
      ?g\<lparr>slots := (slots ?g)[i := (slots ?g ! i)\<lparr>regions := rs\<rparr>], freed := freed ?g @ bs\<rparr>"
    "bs @ gc_clean_regions rs = gc_clean_regions (regions (slots ?g ! i))"
    "set rs \<subseteq> set (regions (slots ?g ! i))" "\<And>b. b \<in> set bs \<Longrightarrow> b_epoch b < m'"
    using cleanup_thread_effect [of i ?g m'] assms(1,2) by auto
  have "visit_slot i m now g = (m', g\<lparr>slots := (slots g)[i := (slots g ! i)\<lparr>regions := rs,
        used := (if rs = [] then GC_FREE_EMPTY else GC_FREE_FULL)\<rparr>], freed := freed g @ bs\<rparr>)"
    using assms(1) e(1) by (cases "m = EPOCH_MAX") (simp_all add: visit_slot_def Let_def assms(3))
  then show thesis
    using that e(2-4) assms(1) by auto
qed

lemma gc_keeps_visit:
  assumes g: "gc_inv g" and i: "i < length (slots g)" "used (slots g ! i) = GC_FREE_FULL"
    and m: "m = EPOCH_MAX \<or> low_bound m now g" and v: "visit_slot i m now g = (m', g')"
  shows "gc_keeps now g g'" "low_bound m' now g'"
proof -
  define m1 where "m1 = (if m = EPOCH_MAX then gc_compute_min ((slots g)[i := (slots g ! i)\<lparr>used := GC_BUSY\<rparr>]) now else m)"
  have ok: "slot_ok (slots g ! i)" and n: "null_suffix (slots g)"
    using g i(1) by (auto simp: gc_inv_alt)
  then have r: "\<forall>r\<in>set (regions (slots g ! i)). region_ok r"
    by (simp add: slot_ok_def)
  obtain bs rs where e: "visit_slot i m now g = (m1, g\<lparr>slots := (slots g)[i := (slots g ! i)\<lparr>regions := rs,
        used := (if rs = [] then GC_FREE_EMPTY else GC_FREE_FULL)\<rparr>], freed := freed g @ bs\<rparr>)"
    "bs @ gc_clean_regions rs = gc_clean_regions (regions (slots g ! i))" "set rs \<subseteq> set (regions (slots g ! i))"
    "\<And>b. b \<in> set bs \<Longrightarrow> b_epoch b < m1"
    using visit_slot_shape [OF i(1) r m1_def] by blast
  let ?s = "(slots g ! i)\<lparr>regions := rs, used := (if rs = [] then GC_FREE_EMPTY else GC_FREE_FULL)\<rparr>"
  have g': "m' = m1" "g' = g\<lparr>slots := (slots g)[i := ?s], freed := freed g @ bs\<rparr>"
    using v e(1) by auto
  have pre: "\<forall>j<i. used (slots g ! j) \<noteq> GC_NULL"
    using null_suffix_prefix [OF n i(1)] i(2) by simp
  have n': "null_suffix ((slots g)[i := (slots g ! i)\<lparr>used := GC_BUSY\<rparr>])" "null_suffix ((slots g)[i := ?s])"
    using null_suffix_update [OF n i(1) _ pre] by simp_all
  have b: "busy_ts ((slots g)[i := ?s]) = busy_ts (slots g)"
    using i by (simp add: busy_ts_update_idle)
  have b': "busy ((slots g)[i := ?s]) = busy (slots g)"
    using i by (auto simp: busy_def nth_list_update split: if_splits)
  have "t \<in> busy_ts (slots g) \<Longrightarrow> t \<in> busy_ts ((slots g)[i := (slots g ! i)\<lparr>used := GC_BUSY\<rparr>])" for t
    using busy_ts_update_mono [of "slots g" i] i(2) by auto
  then have low: "low_bound m1 now g"
    using m min_low [OF n'(1)] by (auto simp: m1_def low_bound_def)
  have "slot_ok ?s"
    using ok e(3) i(2) by (auto simp: slot_ok_def)
  then have "gc_inv g'"
    using g n'(2) b' slots_update_ok [of "slots g" ?s i] by (simp add: gc_inv_alt g')
  moreover have "all_blocks g' = all_blocks g"
    unfolding g' using i(1) e(2) by (intro all_blocks_move) simp_all
  moreover have "reclaims now g g'"
    unfolding reclaims_def g' using e(4) low by (auto simp: reclaimable_def low_bound_def intro: less_le_trans)
  ultimately show "gc_keeps now g g'"
    using b by (simp add: gc_keeps_def g')
  then show "low_bound m' now g'"
    using low g'(1) by (simp add: low_bound_def gc_keeps_def)
qed

lemma gc_keeps_cleanup_slots:
  "gc_inv g \<Longrightarrow> \<forall>i\<in>set is. i < length (slots g) \<Longrightarrow> m = EPOCH_MAX \<or> low_bound m now g \<Longrightarrow>
     gc_keeps now g (cleanup_slots is m now g)"
proof (induction "is" arbitrary: m g)
  case (Cons i "is")
  show ?case
  proof (cases "used (slots g ! i) = GC_FREE_FULL")
    case True
    obtain m' g' where v: "visit_slot i m now g = (m', g')" by fastforce
    have k: "gc_keeps now g g'" "low_bound m' now g'"
      using gc_keeps_visit [OF Cons.prems(1) _ True Cons.prems(3) v] Cons.prems(2) by simp_all
    then have "gc_inv g'" "length (slots g') = length (slots g)"
      using Cons.prems(1) by (simp_all add: gc_keeps_def gc_inv_alt)
    then have "gc_keeps now g' (cleanup_slots is m' now g')"
      using Cons k(2) by simp
    then show ?thesis
      using gc_keeps_trans [OF k(1)] True by (simp add: cleanup_slots_visit v del: cleanup_slots.simps)
  next
    case False
    then show ?thesis
      using Cons by (simp add: gc_keeps_refl)
  qed
qed (simp add: gc_keeps_refl)

lemma gc_keeps_cleanup_all: "gc_inv g \<Longrightarrow> gc_keeps now g (gc_cleanup_all now g)"
  unfolding gc_cleanup_all_def by (rule gc_keeps_cleanup_slots) (auto simp: gc_inv_alt)

lemma gc_free_effect:
  assumes "gc_inv g" "i < length (slots g)" "used (slots g ! i) = GC_BUSY"
  shows "all_blocks (gc_free i a e now g) = all_blocks g + {#\<lparr>b_addr = a, b_epoch = e\<rparr>#}"
    "reclaims now g (gc_free i a e now g)" "busy_ts (slots (gc_free i a e now g)) = busy_ts (slots g)"
proof -
  let ?s = "(slots g ! i)\<lparr>regions := add_block a e (regions (slots g ! i)), frees := frees (slots g ! i) + 1\<rparr>"
  let ?g = "g\<lparr>slots := (slots g)[i := ?s]\<rparr>"
  have "slot_ok (slots g ! i)"
    using assms by (auto simp: gc_inv_alt)
  then have "slot_ok ?s"
    using assms(3) add_block_ok by (auto simp: slot_ok_def)
  then have inv: "gc_inv ?g"
    using gc_inv_same [OF assms(1,2), of ?s "freed g"] assms(3) by simp
  have "mset (pending (slots ?g)) + mset (gc_clean_regions (regions (slots g ! i))) =
      mset (pending (slots g)) + {#\<lparr>b_addr = a, b_epoch = e\<rparr>#} + mset (gc_clean_regions (regions (slots g ! i)))"
    using pending_update [OF assms(2), of ?s] by (simp add: add_block_mset ac_simps)
  then have p: "all_blocks ?g = all_blocks g + {#\<lparr>b_addr = a, b_epoch = e\<rparr>#}"
    by (simp add: all_blocks_def)
  have b: "busy_ts (slots ?g) = busy_ts (slots g)"
    using assms(2) by (simp add: busy_ts_update_same)
  have "gc_keeps now ?g (gc_free i a e now g)"
    using gc_keeps_cleanup [OF inv, of i now] gc_keeps_refl [OF inv] assms(2,3) by (simp add: gc_free_def Let_def)
  then show "all_blocks (gc_free i a e now g) = all_blocks g + {#\<lparr>b_addr = a, b_epoch = e\<rparr>#}"
    "reclaims now g (gc_free i a e now g)" "busy_ts (slots (gc_free i a e now g)) = busy_ts (slots g)"
    using p b by (simp_all add: gc_keeps_def reclaims_def)
qed


text \<open>\<^verbatim>\<open>gc_reset\<close> returns everything; the slots stay with their threads.\<close>

lemma reset_slots_spec:
  assumes "\<forall>s\<in>set ss. slot_ok s" "null_suffix ss" "reset_slots ss = (bs, ss')"
  shows "bs = pending ss \<and> map used ss' = map used ss \<and> (\<forall>s\<in>set ss'. slot_ts s = EPOCH_MAX \<and> regions s = [])"
  using assms
proof (induction ss arbitrary: bs ss')
  case (Cons u ss)
  show ?case
  proof (cases "used u = GC_NULL")
    case True
    then have "\<forall>s\<in>set (u # ss). used s = GC_NULL"
      using Cons.prems(2) by (simp add: null_suffix_Cons)
    then have "\<forall>s\<in>set (u # ss). slot_ts s = EPOCH_MAX \<and> regions s = []"
      using Cons.prems(1) by (auto simp: slot_ok_def)
    then show ?thesis
      using Cons.prems(3) True by (auto simp: pending_def gc_clean_regions_def)
  next
    case False
    then obtain bs1 ss1 where "reset_slots ss = (bs1, ss1)" "bs = gc_clean_regions (regions u) @ bs1"
        "ss' = u\<lparr>slot_ts := EPOCH_MAX, regions := [], frees := 0\<rparr> # ss1"
      using Cons.prems(3) by (auto split: prod.splits)
    then show ?thesis
      using Cons by (auto simp: null_suffix_Cons pending_def)
  qed
qed (simp add: pending_def)

lemma pending_empty: "\<forall>s\<in>set ss. regions s = [] \<Longrightarrow> pending ss = []"
  by (induction ss) (auto simp: pending_def gc_clean_regions_def)

lemma map_used_nth: "map used ss' = map used ss \<Longrightarrow> length ss' = length ss \<and> (\<forall>i<length ss. used (ss' ! i) = used (ss ! i))"
  by (metis length_map nth_map)

lemma gc_reset_effect:
  assumes "gc_inv g"
  shows "gc_inv (gc_reset g)" "freed (gc_reset g) = freed g @ pending (slots g)" "pending (slots (gc_reset g)) = []"
proof -
  obtain bs ss where r: "reset_slots (slots g) = (bs, ss)" by fastforce
  have s: "bs = pending (slots g)" "map used ss = map used (slots g)"
      "\<forall>s\<in>set ss. slot_ts s = EPOCH_MAX \<and> regions s = []"
    using reset_slots_spec [OF _ _ r] assms by (auto simp: gc_inv_alt)
  have u: "length ss = length (slots g)" "\<And>i. i < length (slots g) \<Longrightarrow> used (ss ! i) = used (slots g ! i)"
    using map_used_nth [OF s(2)] by auto
  have "busy ss = busy (slots g)"
    using u by (auto simp: busy_def)
  moreover have "null_suffix ss = null_suffix (slots g)"
    unfolding null_suffix_def u(1) using u(2) by (metis order.strict_trans)
  ultimately show "gc_inv (gc_reset g)"
    using assms u(1) s(3) by (auto simp: gc_reset_def r gc_inv_alt slot_ok_def)
  show "freed (gc_reset g) = freed g @ pending (slots g)" "pending (slots (gc_reset g)) = []"
    using s pending_empty by (simp_all add: gc_reset_def r)
qed

section \<open>Executions\<close>

text \<open>
  A call by some thread, with the epoch \<^verbatim>\<open>gc_current_epoch()\<close> returns during it. The thread of
  slot \<open>i\<close> calls only between its initialisation and its exit.
\<close>

datatype gc_op = InitThread | ExitThread nat | SetEpoch nat gc_word | Free nat addr gc_word
  | Cleanup nat | CleanupAll | Reset

fun gc_call_ok :: "gc_op \<Rightarrow> gc \<Rightarrow> bool" where
  "gc_call_ok InitThread g \<longleftrightarrow> nb_active g < MAX_GC_THREADS"
| "gc_call_ok (ExitThread i) g \<longleftrightarrow> i \<in> busy (slots g)"
| "gc_call_ok (SetEpoch i e) g \<longleftrightarrow> i \<in> busy (slots g)"
| "gc_call_ok (Free i a e) g \<longleftrightarrow> i \<in> busy (slots g)"
| "gc_call_ok (Cleanup i) g \<longleftrightarrow> i \<in> busy (slots g)"
| "gc_call_ok CleanupAll g \<longleftrightarrow> True"
| "gc_call_ok Reset g \<longleftrightarrow> True"

fun gc_call :: "gc_word \<Rightarrow> gc_op \<Rightarrow> gc \<Rightarrow> gc" where
  "gc_call now InitThread g = (case gc_init_thread now g of Inr (k, g') \<Rightarrow> g' | Inl _ \<Rightarrow> g)"
| "gc_call now (ExitThread i) g = gc_exit_thread i g"
| "gc_call now (SetEpoch i e) g = gc_set_epoch i e g"
| "gc_call now (Free i a e) g = gc_free i a e now g"
| "gc_call now (Cleanup i) g = gc_cleanup i now g"
| "gc_call now CleanupAll g = gc_cleanup_all now g"
| "gc_call now Reset g = gc_reset g"

fun handed :: "gc_op \<Rightarrow> gc_block list" where
  "handed (Free i a e) = [\<lparr>b_addr = a, b_epoch = e\<rparr>]"
| "handed _ = []"

inductive gc_run :: "gc_op list \<Rightarrow> gc \<Rightarrow> bool" where
  start: "gc_run [] gc_init"
| call: "gc_run cs g \<Longrightarrow> gc_call_ok c g \<Longrightarrow> gc_run (cs @ [c]) (gc_call now c g)"

lemma gc_init_inv: "gc_inv gc_init"
  by (auto simp: gc_inv_def gc_init_def null_suffix_def busy_def)

lemma init_thread_finds_slot:
  assumes "gc_inv g" "nb_active g < MAX_GC_THREADS"
  shows "\<exists>k g'. gc_init_thread now g = Inr (k, g')"
proof (cases "free_slot 0 (slots g)")
  case None
  then have "card (busy (slots g)) = MAX_GC_THREADS"
    using free_slot_None assms(1) by (auto simp: gc_inv_alt)
  then show ?thesis
    using assms by (simp add: gc_inv_alt)
next
  case (Some k)
  then show ?thesis
    using assms(2) by (simp add: gc_init_thread_def)
qed

lemma gc_init_thread_blocks:
  assumes "gc_init_thread now g = Inr (k, g')"
  shows "all_blocks g' = all_blocks g" "freed g' = freed g"
proof -
  have f: "free_slot 0 (slots g) = Some k"
    and g': "g' = g\<lparr>nb_active := nb_active g + 1, slots := (slots g)[k := (slots g ! k)\<lparr>used := GC_BUSY, slot_ts := now\<rparr>]\<rparr>"
    using assms by (auto simp: gc_init_thread_def split: if_splits option.splits)
  have "k < length (slots g)"
    using free_slot_spec [OF f] by simp
  then show "all_blocks g' = all_blocks g" "freed g' = freed g"
    using pending_update [of k "slots g" "(slots g ! k)\<lparr>used := GC_BUSY, slot_ts := now\<rparr>"]
    by (simp_all add: g' all_blocks_def)
qed

lemma update_same_blocks:
  assumes "i < length (slots g)" "regions s = regions (slots g ! i)"
  shows "all_blocks (g\<lparr>slots := (slots g)[i := s]\<rparr>) = all_blocks g"
    "all_blocks (g\<lparr>slots := (slots g)[i := s], nb_active := n\<rparr>) = all_blocks g"
  using pending_update [OF assms(1), of s] assms(2) by (simp_all add: all_blocks_def)

lemma gc_call_effect:
  assumes "gc_inv g" "gc_call_ok c g"
  shows "gc_inv (gc_call now c g)" "all_blocks (gc_call now c g) = all_blocks g + mset (handed c)"
    "c \<noteq> Reset \<Longrightarrow> reclaims now g (gc_call now c g)"
proof -
  have "gc_inv (gc_call now c g) \<and> all_blocks (gc_call now c g) = all_blocks g + mset (handed c) \<and>
      (c \<noteq> Reset \<longrightarrow> reclaims now g (gc_call now c g))"
  proof (cases c)
    case InitThread
    then obtain k g' where i: "gc_init_thread now g = Inr (k, g')"
      using init_thread_finds_slot [OF assms(1), of now] assms(2) by auto
    show ?thesis
      using gc_init_thread_inv(1) [OF assms(1) i] gc_init_thread_blocks [OF i] by (simp add: InitThread i reclaims_def)
  next
    case (ExitThread i)
    then show ?thesis
      using assms gc_exit_thread_inv [OF assms(1), of i]
      by (auto simp: busy_def reclaims_def gc_exit_thread_def update_same_blocks)
  next
    case (SetEpoch i e)
    then show ?thesis
      using assms gc_set_epoch_inv [OF assms(1), of i]
      by (auto simp: busy_def reclaims_def gc_set_epoch_def update_same_blocks)
  next
    case (Free i a e)
    then show ?thesis
      using assms gc_free_inv [OF assms(1), of i] gc_free_effect [OF assms(1), of i] by (simp add: busy_def)
  next
    case (Cleanup i)
    then show ?thesis
      using assms gc_keeps_cleanup [OF assms(1), of i now] by (simp add: busy_def gc_keeps_def)
  next
    case CleanupAll
    then show ?thesis
      using gc_keeps_cleanup_all [OF assms(1), of now] by (simp add: gc_keeps_def)
  next
    case Reset
    then show ?thesis
      using gc_reset_effect [OF assms(1)] by (simp add: all_blocks_def)
  qed
  then show "gc_inv (gc_call now c g)" "all_blocks (gc_call now c g) = all_blocks g + mset (handed c)"
    "c \<noteq> Reset \<Longrightarrow> reclaims now g (gc_call now c g)" by blast+
qed

lemma gc_run_inv:
  "gc_run cs g \<Longrightarrow> gc_inv g \<and> all_blocks g = mset (concat (map handed cs))"
proof (induction rule: gc_run.induct)
  case start
  then show ?case
    using gc_init_inv pending_empty [of "slots gc_init"] by (auto simp: all_blocks_def gc_init_def)
next
  case (call cs g c now)
  then show ?case
    using gc_call_effect [of g c now] by simp
qed


section \<open>Properties\<close>

text \<open>
  C19. Nothing is reclaimed early. In every execution, each block that a call other than
  \<^verbatim>\<open>gc_reset\<close> returns to the allocator was retired at an epoch before the current one and before the
  start time of every active thread. \<^verbatim>\<open>gc_reset\<close> is the exception by design: it returns exactly the blocks that are still
  waiting, whatever their epochs, in the order of the slots, and none is left waiting. The code calls
  it from \<^verbatim>\<open>rollover_clock\<close> only, which the barrier runs while no transaction is active
  (\<^verbatim>\<open>barrier_runs_alone\<close> in \<^verbatim>\<open>Quiescence\<close>).
\<close>

theorem gc_reclaims_safely:
  assumes "gc_run cs g" "gc_call_ok c g"
  shows "\<exists>bs. freed (gc_call now c g) = freed g @ bs \<and>
    (if c = Reset then bs = pending (slots g) \<and> pending (slots (gc_call now c g)) = []
     else \<forall>b\<in>set bs. b_epoch b < now \<and> (\<forall>s\<in>set (slots g). used s = GC_BUSY \<longrightarrow> b_epoch b < slot_ts s))"
proof (cases "c = Reset")
  case True
  then show ?thesis
    using gc_reset_effect(2,3) gc_run_inv [OF assms(1)] by simp
next
  case False
  then have "reclaims now g (gc_call now c g)"
    using gc_call_effect(3) assms gc_run_inv by blast
  then show ?thesis
    using False unfolding reclaims_def reclaimable_def busy_ts_def by auto
qed

text \<open>A run used by the witnesses: one thread, started at epoch 5, retires a block of epoch 3.\<close>

definition demo1 :: gc where "demo1 = gc_call 5 InitThread gc_init"
definition demo2 :: gc where "demo2 = gc_call 2 (Free 0 100 3) demo1"

lemma slots_init:
  "slots gc_init = \<lparr>used = GC_NULL, slot_ts = EPOCH_MAX, regions = [], frees = 0\<rparr> #
     replicate 1023 \<lparr>used = GC_NULL, slot_ts = EPOCH_MAX, regions = [], frees = 0\<rparr>"
proof -
  have m: "MAX_GC_THREADS = Suc 1023" by (simp add: MAX_GC_THREADS_def)
  show ?thesis unfolding gc_init_def m by (simp only: gc.simps replicate_Suc)
qed

lemma demo1_eq:
  "demo1 = \<lparr>slots = \<lparr>used = GC_BUSY, slot_ts = 5, regions = [], frees = 0\<rparr> #
     replicate 1023 \<lparr>used = GC_NULL, slot_ts = EPOCH_MAX, regions = [], frees = 0\<rparr>, nb_active = 1, freed = []\<rparr>"
proof -
  have "nb_active gc_init = 0" "freed gc_init = []" by (simp_all add: gc_init_def)
  then show ?thesis
    by (simp add: demo1_def gc_init_thread_def slots_init MAX_GC_THREADS_def)
qed

lemma demo2_eq:
  "demo2 = \<lparr>slots = \<lparr>used = GC_BUSY, slot_ts = 5,
         regions = [\<lparr>g_blocks = [\<lparr>b_addr = 100, b_epoch = 3\<rparr>], g_ts = 3\<rparr>], frees = 1\<rparr> #
     replicate 1023 \<lparr>used = GC_NULL, slot_ts = EPOCH_MAX, regions = [], frees = 0\<rparr>, nb_active = 1, freed = []\<rparr>"
proof -
  have "replicate 1023 x = x # replicate 1022 x" for x :: gc_thread
    using replicate_Suc [of 1022 x] by simp
  then show ?thesis
    by (simp add: demo2_def demo1_eq gc_free_def gc_cleanup_def gc_cleanup_thread_def add_block_def)
qed

lemma demo_run: "gc_run [InitThread] demo1" "gc_run [InitThread, Free 0 100 3] demo2"
proof -
  show 1: "gc_run [InitThread] demo1"
    using gc_run.call [OF gc_run.start, of InitThread 5] by (simp add: demo1_def gc_init_def MAX_GC_THREADS_def)
  have "0 \<in> busy (slots demo1)"
    by (simp add: demo1_eq busy_def)
  then show "gc_run [InitThread, Free 0 100 3] demo2"
    using gc_run.call [OF 1, of "Free 0 100 3" 2] by (simp add: demo2_def)
qed

theorem gc_reclaims_safely_witness:
  "\<exists>bs. freed (gc_call 9 (Cleanup 0) demo2) = freed demo2 @ bs \<and>
    (\<forall>b\<in>set bs. b_epoch b < 9 \<and> (\<forall>s\<in>set (slots demo2). used s = GC_BUSY \<longrightarrow> b_epoch b < slot_ts s))"
  using gc_reclaims_safely [OF demo_run(2), of "Cleanup 0" 9] by (simp add: demo2_eq busy_def)

text \<open>
  C20. No block is lost and none is freed twice: when the collector is shut down, the blocks returned
  to the allocator are exactly those given to \<^verbatim>\<open>gc_free\<close>, each as often as it was given.
\<close>

theorem gc_frees_each_block_once:
  assumes "gc_run cs g" "gc_exit g = Inr bs"
  shows "mset bs = mset (concat (map handed cs))"
proof -
  have "bs = freed g @ pending (slots g)"
    using assms(2) by (simp add: gc_exit_def pending_def split: if_splits)
  then show ?thesis
    using gc_run_inv [OF assms(1)] by (simp add: all_blocks_def)
qed

theorem gc_frees_each_block_once_witness:
  "mset [\<lparr>b_addr = 100, b_epoch = 3\<rparr>] = mset (concat (map handed [InitThread, Free 0 100 3, ExitThread 0]))"
proof (rule gc_frees_each_block_once)
  have "0 \<in> busy (slots demo2)"
    by (simp add: demo2_eq busy_def)
  then show "gc_run [InitThread, Free 0 100 3, ExitThread 0] (gc_call 9 (ExitThread 0) demo2)"
    using gc_run.call [OF demo_run(2), of "ExitThread 0" 9] by simp
  show "gc_exit (gc_call 9 (ExitThread 0) demo2) = Inr [\<lparr>b_addr = 100, b_epoch = 3\<rparr>]"
    by (simp add: demo2_eq gc_exit_thread_def gc_exit_def gc_clean_regions_def)
qed

text \<open>
  A thread that registers while fewer than the maximum are active finds a slot: the search ends,
  the slot was not in use, and it starts with the current epoch as its lower bound.
\<close>

theorem gc_init_thread_terminates:
  assumes "gc_run cs g" "nb_active g < MAX_GC_THREADS"
  shows "\<exists>k g'. gc_init_thread now g = Inr (k, g') \<and> used (slots g ! k) \<noteq> GC_BUSY \<and>
    used (slots g' ! k) = GC_BUSY \<and> slot_ts (slots g' ! k) = now"
proof -
  have g: "gc_inv g"
    using gc_run_inv [OF assms(1)] by simp
  then obtain k g' where "gc_init_thread now g = Inr (k, g')"
    using init_thread_finds_slot [OF g assms(2)] by blast
  then show ?thesis
    using gc_init_thread_inv [OF g] by blast
qed

theorem gc_init_thread_terminates_witness:
  "\<exists>k g'. gc_init_thread 7 demo2 = Inr (k, g') \<and> used (slots demo2 ! k) \<noteq> GC_BUSY \<and>
    used (slots g' ! k) = GC_BUSY \<and> slot_ts (slots g' ! k) = 7"
  using gc_init_thread_terminates [OF demo_run(2)] by (simp add: demo2_eq MAX_GC_THREADS_def)

text \<open>
  \<^verbatim>\<open>gc_compute_min\<close>, which stops at the first slot never used, computes the exact minimum of the
  current epoch and the start times of all active threads.
\<close>

theorem gc_compute_min_exact:
  assumes "gc_run cs g"
  shows "gc_compute_min (slots g) now =
    Min (insert now (slot_ts ` {s \<in> set (slots g). used s = GC_BUSY}))"
proof -
  have n: "null_suffix (slots g)"
    using gc_run_inv [OF assms] by (simp add: gc_inv_def)
  show ?thesis
    using compute_min_exact [OF n] compute_min_le compute_min_busy [OF n]
    by (intro Min_eqI [symmetric]) auto
qed

theorem gc_compute_min_exact_witness:
  "gc_compute_min (slots demo2) 7 = Min (insert 7 (slot_ts ` {s \<in> set (slots demo2). used s = GC_BUSY}))"
  by (rule gc_compute_min_exact [OF demo_run(2)])

lemma clean_old_all: "\<forall>r\<in>set rs. g_ts r < m \<Longrightarrow> clean_old m rs = (gc_clean_regions rs, [])"
  by (induction rs) (simp_all add: gc_clean_regions_def)

text \<open>
  Memory does not wait longer than needed: when all active threads have started after every
  region of a thread, its \<^verbatim>\<open>gc_cleanup\<close> returns all of them.
\<close>

theorem gc_cleanup_complete:
  assumes "gc_run cs g" "i < length (slots g)"
    "\<forall>r\<in>set (regions (slots g ! i)). g_ts r < now \<and> (\<forall>s\<in>set (slots g). used s = GC_BUSY \<longrightarrow> g_ts r < slot_ts s)"
  shows "regions (slots (gc_cleanup i now g) ! i) = [] \<and>
    freed (gc_cleanup i now g) = freed g @ gc_clean_regions (regions (slots g ! i))"
proof -
  have n: "null_suffix (slots g)"
    using gc_run_inv [OF assms(1)] by (simp add: gc_inv_def)
  then have "\<forall>r\<in>set (regions (slots g ! i)). g_ts r < gc_compute_min (slots g) now"
    using compute_min_exact [OF n, of now] assms(3) by auto
  then show ?thesis
    using assms(2) clean_old_all
    by (auto simp: gc_cleanup_def gc_cleanup_thread_def gc_clean_regions_def)
qed

theorem gc_cleanup_complete_witness:
  "regions (slots (gc_cleanup 0 7 demo2) ! 0) = [] \<and>
   freed (gc_cleanup 0 7 demo2) = freed demo2 @ gc_clean_regions (regions (slots demo2 ! 0))"
  using gc_cleanup_complete [OF demo_run(2), of 0 7] by (simp add: demo2_eq)

end
