(* ===== verification/Mod_Mem.thy ===== *)
theory Mod_Mem
  imports Wrappers Gc
begin

text \<open>
  Transactional memory management, \<^verbatim>\<open>tinySTM/src/mod_mem.c\<close>: blocks allocated in a transaction are
  returned to the allocator when it aborts, blocks freed in it when it commits (directly, or
  through the epoch-based collector of \<open>Gc\<close>).

  The word-sized stores of the transaction are a parameter (\<open>st2\<close>, as in \<open>Wrappers\<close>). What \<^verbatim>\<open>malloc\<close>
  answers is an argument of \<open>stm_malloc\<close>; the calls of \<^verbatim>\<open>free\<close> on blocks of the application are
  logged in \<open>free_calls\<close>. The list nodes of the module itself are the Isabelle lists. How a block is
  disposed of is the interface \<open>disposal\<close>, interpreted on \<^verbatim>\<open>free\<close> and on \<^verbatim>\<open>gc_free\<close>.
\<close>

section \<open>Data and operations\<close>

record mod_mem_info =
  mi_allocated :: "addr list"
  mi_freed :: "addr list"

record heap =
  free_calls :: "addr list"
  heap_gc :: gc

datatype mem_error = MemNotInitialized | OutOfMemory

definition mod_mem_on_thread_init :: mod_mem_info where
  "mod_mem_on_thread_init = \<lparr>mi_allocated = [], mi_freed = []\<rparr>"

definition round_up_size :: "64 word \<Rightarrow> 64 word" where
  "round_up_size n = (n + 7) AND NOT 7"

text \<open>The result is the address, the size requested from \<^verbatim>\<open>malloc\<close> and the new descriptor.\<close>

definition stm_malloc ::
  "bool \<Rightarrow> (64 word \<Rightarrow> addr option) \<Rightarrow> 64 word \<Rightarrow> mod_mem_info \<Rightarrow> mem_error + addr \<times> mod_mem_info" where
  "stm_malloc init malloc n mi =
    (if \<not> init then Inl MemNotInitialized
     else case malloc (round_up_size n) of
       None \<Rightarrow> Inl OutOfMemory
     | Some a \<Rightarrow> Inr (a, mi\<lparr>mi_allocated := a # mi_allocated mi\<rparr>))"

fun overwrite :: "'s store_fn \<Rightarrow> addr \<Rightarrow> nat \<Rightarrow> 's \<Rightarrow> 's" where
  "overwrite st2 a 0 s = s"
| "overwrite st2 a (Suc n) s = overwrite st2 (a + 8) n (st2 a 0 0 s)"

definition stm_free2 ::
  "bool \<Rightarrow> 's store_fn \<Rightarrow> addr \<Rightarrow> 64 word \<Rightarrow> 64 word \<Rightarrow> 's \<times> mod_mem_info \<Rightarrow> mem_error + 's \<times> mod_mem_info" where
  "stm_free2 init st2 a idx n = (\<lambda>(s, mi).
    if \<not> init then Inl MemNotInitialized
    else Inr (if n > 0 then overwrite st2 (a + 8 * drop_bit 3 (idx + 7)) (unat (drop_bit 3 (n + 7))) s else s,
              mi\<lparr>mi_freed := a # mi_freed mi\<rparr>))"

definition stm_free ::
  "bool \<Rightarrow> 's store_fn \<Rightarrow> addr \<Rightarrow> 64 word \<Rightarrow> 's \<times> mod_mem_info \<Rightarrow> mem_error + 's \<times> mod_mem_info" where
  "stm_free init st2 a n = stm_free2 init st2 a 0 n"

definition libc_free :: "addr \<Rightarrow> heap \<Rightarrow> heap" where
  "libc_free a h = h\<lparr>free_calls := free_calls h @ [a]\<rparr>"

text \<open>
  \<open>idx\<close> is the collector's slot of the thread, \<open>t\<close> the clock read once before the loop, \<open>now\<close> the
  clock read by the collector.
\<close>

definition gc_dispose :: "nat \<Rightarrow> gc_word \<Rightarrow> gc_word \<Rightarrow> addr \<Rightarrow> heap \<Rightarrow> heap" where
  "gc_dispose idx t now a h = h\<lparr>heap_gc := gc_free idx a t now (heap_gc h)\<rparr>"

fun dispose_all :: "bool \<Rightarrow> nat \<Rightarrow> gc_word \<Rightarrow> (nat \<Rightarrow> gc_word) \<Rightarrow> addr list \<Rightarrow> heap \<Rightarrow> heap" where
  "dispose_all use_gc idx t now [] h = h"
| "dispose_all use_gc idx t now (a # as) h =
     dispose_all use_gc idx t (\<lambda>k. now (Suc k)) as
       (if use_gc then gc_dispose idx t (now 0) a h else libc_free a h)"

definition mod_mem_on_commit ::
  "bool \<Rightarrow> nat \<Rightarrow> gc_word \<Rightarrow> (nat \<Rightarrow> gc_word) \<Rightarrow> mod_mem_info \<times> heap \<Rightarrow> mod_mem_info \<times> heap" where
  "mod_mem_on_commit use_gc idx t now = (\<lambda>(mi, h).
     (mi\<lparr>mi_allocated := [], mi_freed := []\<rparr>, dispose_all use_gc idx t now (mi_freed mi) h))"

definition mod_mem_on_abort :: "mod_mem_info \<times> heap \<Rightarrow> mod_mem_info \<times> heap" where
  "mod_mem_on_abort = (\<lambda>(mi, h).
     (mi\<lparr>mi_allocated := [], mi_freed := []\<rparr>, fold libc_free (mi_allocated mi) h))"

section \<open>Disposal of blocks\<close>

text \<open>
  What the module needs of a way to dispose of a block: under \<open>ok\<close>, the block is taken over, once,
  and nothing else is (\<open>handled\<close>: the blocks disposed of so far).
\<close>

locale disposal =
  fixes dispose :: "gc_word \<Rightarrow> addr \<Rightarrow> 'h \<Rightarrow> 'h"
    and ok :: "'h \<Rightarrow> bool"
    and handled :: "'h \<Rightarrow> addr multiset"
  assumes dispose_ok: "ok h \<Longrightarrow> ok (dispose now a h)"
    and dispose_handled: "ok h \<Longrightarrow> handled (dispose now a h) = add_mset a (handled h)"
begin

primrec all_disposed :: "(nat \<Rightarrow> gc_word) \<Rightarrow> addr list \<Rightarrow> 'h \<Rightarrow> 'h" where
  "all_disposed now [] h = h"
| "all_disposed now (a # as) h = all_disposed (\<lambda>k. now (Suc k)) as (dispose (now 0) a h)"

lemma all_disposed_handled:
  "ok h \<Longrightarrow> ok (all_disposed now as h) \<and> handled (all_disposed now as h) = handled h + mset as"
  by (induction as arbitrary: now h) (simp_all add: dispose_ok dispose_handled)

end





interpretation direct: disposal "\<lambda>now. libc_free" "\<lambda>h. True" "\<lambda>h. mset (free_calls h)"
  by unfold_locales (simp_all add: libc_free_def)


lemma dispose_all_direct: "dispose_all False idx t now as h = direct.all_disposed now as h"
  by (induction as arbitrary: now h) simp_all


lemma free_calls_fold: "free_calls (fold libc_free as h) = free_calls h @ as \<and> heap_gc (fold libc_free as h) = heap_gc h"
  by (induction as arbitrary: h) (simp_all add: libc_free_def)

lemma dispose_all_frame:
  "heap_gc (dispose_all False idx t now as h) = heap_gc h"
  "free_calls (dispose_all True idx t now as h) = free_calls h"
  "free_calls (dispose_all False idx t now as h) = free_calls h @ as"
  by (induction as arbitrary: now h) (simp_all add: libc_free_def gc_dispose_def)

section \<open>Sizes and addresses\<close>

lemma drop_bit_3_nat: "drop_bit 3 w = (of_nat (unat w div 8) :: 64 word)"
proof -
  have "unat (drop_bit 3 w) = unat w div 8"
    by (simp only: unat_drop_bit_eq) (simp add: drop_bit_eq_div)
  then have "of_nat (unat (drop_bit 3 w)) = (of_nat (unat w div 8) :: 64 word)"
    by (simp only:)
  then show ?thesis
    by simp
qed

lemma unat_less_64: "unat (n :: 64 word) < 2 ^ 64"
  using unsigned_less [of n] by simp

lemma words_of_bytes:
  assumes "unat (n :: 64 word) + 7 < 2 ^ 64"
  shows "unat (drop_bit 3 (n + 7)) = (unat n + 7) div 8"
  using assms by (simp add: unat_drop_bit_eq drop_bit_eq_div unat_word_ariths)

lemma round_up_multiple:
  assumes "unat (n :: 64 word) mod 8 = 0"
  shows "8 * drop_bit 3 (n + 7) = n"
proof -
  have "unat n + 7 < 2 ^ 64"
    using assms unat_less_64 [of n] by (auto elim!: dvdE simp: mod_eq_0_iff_dvd)
  then have "drop_bit 3 (n + 7) = of_nat ((unat n + 7) div 8)"
    by (simp add: drop_bit_3_nat unat_word_ariths)
  moreover have "(unat n + 7) div 8 = unat n div 8" "8 * (unat n div 8) = unat n"
    using assms by auto
  ultimately show ?thesis
    by (metis of_nat_mult of_nat_numeral of_nat_unat ucast_id)
qed

lemma byte_off_add:
  assumes "byte_off a = 0" "unat b mod 8 = 0"
  shows "byte_off (a + b) = 0"
proof -
  have "unat (a + b) mod 8 = (unat a + unat b) mod 8"
    by (simp add: unat_word_ariths mod_mod_cancel)
  also have "\<dots> = 0"
    using assms by (simp add: byte_off_mod mod_add_eq [symmetric])
  finally show ?thesis
    by (simp add: byte_off_mod)
qed

lemma unat_8_mult: "unat (8 * w :: 64 word) mod 8 = 0"
  by (simp add: unat_word_ariths mod_mod_cancel)

section \<open>Blocks freed in a transaction\<close>

lemma tx_store2_addrs:
  "w_addr ` set (w_set (tx_store2 c a v m tx)) = insert a (w_addr ` set (w_set tx))"
proof (cases "stm_has_written tx a")
  case None
  then show ?thesis by (auto simp: tx_store2_def)
next
  case (Some w)
  then have "a \<in> w_addr ` set (w_set tx)"
    using has_written_None [of tx a] by simp
  moreover have "w_addr ` set (update_written a (merge_entry v m) (w_set tx)) = w_addr ` set (w_set tx)"
    using update_written_addrs [of "merge_entry v m" a "w_set tx"] by (metis list.set_map merge_entry_def w_entry.select_convs(1) w_entry.surjective w_entry.update_convs(2,3))
  ultimately show ?thesis
    using Some by (simp add: tx_store2_def insert_absorb)
qed

lemma overwrite_addrs:
  "w_addr ` set (w_set (overwrite (tx_store2 c) a n tx)) = w_addr ` set (w_set tx) \<union> (\<lambda>k. a + 8 * of_nat k) ` {..<n}"
proof (induction n arbitrary: a tx)
  case (Suc n)
  have "(\<lambda>k. a + 8 + 8 * of_nat k :: addr) ` {..<n} = (\<lambda>k. a + 8 * of_nat k) ` Suc ` {..<n}"
    by (simp add: image_image algebra_simps)
  moreover have "{..<Suc n} = insert 0 (Suc ` {..<n})"
    by (rule lessThan_Suc_eq_insert_0)
  ultimately show ?case
    using Suc by (simp add: tx_store2_addrs)
qed simp

lemma overwrite_view: "tx_load M b (overwrite (tx_store2 c) a n tx) = tx_load M b tx"
  by (induction n arbitrary: a tx) (simp_all add: txmem.ld_st2)

section \<open>The calls of a transaction\<close>

datatype mem_call = Malloc "64 word" addr | FreeBlock addr "64 word" "64 word"

text \<open>The calls a transaction makes, with the answers of \<^verbatim>\<open>malloc\<close>.\<close>

fun mem_calls :: "'s store_fn \<Rightarrow> mem_call list \<Rightarrow> 's \<times> mod_mem_info \<Rightarrow> mem_error + 's \<times> mod_mem_info" where
  "mem_calls st2 [] (s, mi) = Inr (s, mi)"
| "mem_calls st2 (Malloc n a # cs) (s, mi) = (case stm_malloc True (\<lambda>_. Some a) n mi of
     Inl e \<Rightarrow> Inl e | Inr (_, mi') \<Rightarrow> mem_calls st2 cs (s, mi'))"
| "mem_calls st2 (FreeBlock a idx n # cs) (s, mi) = (case stm_free2 True st2 a idx n (s, mi) of
     Inl e \<Rightarrow> Inl e | Inr (s', mi') \<Rightarrow> mem_calls st2 cs (s', mi'))"

fun allocated_by :: "mem_call list \<Rightarrow> addr list" where
  "allocated_by [] = []"
| "allocated_by (Malloc n a # cs) = a # allocated_by cs"
| "allocated_by (FreeBlock a idx n # cs) = allocated_by cs"

fun freed_by :: "mem_call list \<Rightarrow> addr list" where
  "freed_by [] = []"
| "freed_by (Malloc n a # cs) = freed_by cs"
| "freed_by (FreeBlock a idx n # cs) = a # freed_by cs"

lemma mem_calls_lists:
  "\<exists>s' mi'. mem_calls st2 cs (s, mi) = Inr (s', mi') \<and>
     mi_allocated mi' = rev (allocated_by cs) @ mi_allocated mi \<and> mi_freed mi' = rev (freed_by cs) @ mi_freed mi"
proof (induction cs arbitrary: s mi)
  case (Cons c cs)
  show ?case
  proof (cases c)
    case (Malloc n a)
    then show ?thesis
      using Cons.IH [of s "mi\<lparr>mi_allocated := a # mi_allocated mi\<rparr>"] by (simp add: stm_malloc_def)
  next
    case (FreeBlock a idx n)
    then show ?thesis
      using Cons.IH [of _ "mi\<lparr>mi_freed := a # mi_freed mi\<rparr>"] by (simp add: stm_free2_def)
  qed
qed simp

lemma mem_info_eqI: "mi\<lparr>mi_allocated := [], mi_freed := []\<rparr> = mod_mem_on_thread_init"
  by (cases mi) (simp add: mod_mem_on_thread_init_def)

text \<open>
  Aborting undoes the allocations: whatever a transaction allocated and freed, its abort returns
  to the allocator exactly the blocks it allocated, each once, newest first, keeps the blocks it
  freed, and leaves nothing behind for the retry.
\<close>

theorem mem_abort_exact:
  "\<exists>s' mi h'. mem_calls st2 cs (s, mod_mem_on_thread_init) = Inr (s', mi) \<and>
     mod_mem_on_abort (mi, h) = (mod_mem_on_thread_init, h') \<and>
     free_calls h' = free_calls h @ rev (allocated_by cs) \<and> heap_gc h' = heap_gc h"
  using mem_calls_lists [of st2 cs s mod_mem_on_thread_init]
  by (auto simp: mod_mem_on_abort_def mem_info_eqI free_calls_fold) (simp add: mod_mem_on_thread_init_def)

text \<open>
  Committing performs the frees: without the collector, exactly the blocks the transaction freed
  are returned to the allocator, each once; the blocks it allocated are kept, and the lists are
  empty for the next transaction.
\<close>

theorem mem_commit_exact:
  "\<exists>s' mi h'. mem_calls st2 cs (s, mod_mem_on_thread_init) = Inr (s', mi) \<and>
     mod_mem_on_commit False idx t now (mi, h) = (mod_mem_on_thread_init, h') \<and>
     free_calls h' = free_calls h @ rev (freed_by cs) \<and> heap_gc h' = heap_gc h"
  using mem_calls_lists [of st2 cs s mod_mem_on_thread_init]
  by (auto simp: mod_mem_on_commit_def mem_info_eqI dispose_all_frame) (simp add: mod_mem_on_thread_init_def)






text \<open>
  The size requested from \<^verbatim>\<open>malloc\<close> is the least multiple of eight that is large enough. For the
  largest seven sizes the rounding wraps around and the request is for no memory at all.
\<close>

theorem malloc_rounding:
  "unat (round_up_size n) = (if unat n + 7 < 2 ^ 64 then (unat n + 7) div 8 * 8 else 0)"
proof -
  have m: "unat (w AND NOT 7) = unat w div 8 * 8" for w :: "64 word"
  proof -
    have "unat (word_base w) + byte_off w = unat w"
      using unat_add_off [of "word_base w" "byte_off w"] base_off [of w] by simp
    then have "unat (word_base w) = unat w - unat w mod 8"
      by (simp add: byte_off_mod)
    then show ?thesis
      by (simp add: word_base_def minus_mod_eq_div_mult)
  qed
  show ?thesis
  proof (cases "unat n + 7 < 2 ^ 64")
    case True
    then have "unat (n + 7) = unat n + 7" by (simp add: unat_word_ariths)
    then show ?thesis using True m [of "n + 7"] by (simp add: round_up_size_def)
  next
    case False
    then have "unat (n + 7) = unat n + 7 - 2 ^ 64"
      using unat_less_64 [of n] by (simp add: unat_word_ariths mod_if)
    then have "unat (n + 7) < 8"
      using unat_less_64 [of n] by simp
    then show ?thesis using False m [of "n + 7"] by (simp add: round_up_size_def)
  qed
qed

text \<open>
  \<^verbatim>\<open>stm_free2\<close> from a word boundary on puts every word that holds one of the given bytes into the
  write set, so that the commit locks it and gives it a new version; the transaction's own view of
  memory does not change.
\<close>

theorem free2_locks_block:
  assumes "stm_free2 True (tx_store2 c) a idx n (tx, mi) = Inr (tx', mi')"
    "byte_off a = 0" "unat idx mod 8 = 0" "unat n + 7 < 2 ^ 64"
  shows "(\<forall>i<unat n. word_base (a + idx + of_nat i) \<in> w_addr ` set (w_set tx')) \<and>
    (\<forall>M b. tx_load M b tx' = tx_load M b tx) \<and> mi_freed mi' = a # mi_freed mi"
proof (intro conjI allI impI)
  let ?n = "(unat n + 7) div 8"
  have tx': "tx' = (if n > 0 then overwrite (tx_store2 c) (a + idx) ?n tx else tx)" "mi' = mi\<lparr>mi_freed := a # mi_freed mi\<rparr>"
    using assms(1) by (simp_all add: stm_free2_def round_up_multiple [OF assms(3)] words_of_bytes [OF assms(4)] split: if_splits)
  show "tx_load M b tx' = tx_load M b tx" for M b
    by (simp add: tx' overwrite_view)
  show "mi_freed mi' = a # mi_freed mi"
    by (simp add: tx')
  fix i assume i: "i < unat n"
  then have "n > 0" by (metis gr_implies_not0 unat_0 word_neq_0_conv)
  have "byte_off (a + idx + 8 * of_nat (i div 8)) = 0"
    using byte_off_add [OF byte_off_add [OF assms(2,3)] unat_8_mult] by simp
  then have "word_base (a + idx + 8 * of_nat (i div 8) + of_nat (i mod 8)) = a + idx + 8 * of_nat (i div 8)"
    by (rule aligned_off(2)) simp
  moreover have "8 * of_nat (i div 8) + of_nat (i mod 8) = (of_nat i :: addr)"
    by (metis mult_div_mod_eq of_nat_add of_nat_mult of_nat_numeral)
  ultimately have "word_base (a + idx + of_nat i) = a + idx + 8 * of_nat (i div 8)"
    by (simp add: add.assoc)
  moreover have "i div 8 < ?n"
    using i by simp
  ultimately show "word_base (a + idx + of_nat i) \<in> w_addr ` set (w_set tx')"
    using \<open>n > 0\<close> by (auto simp: tx' overwrite_addrs)
qed

theorem free2_locks_block_witness:
  "\<exists>tx' mi'. stm_free2 True (tx_store2 cfg0) 64 8 20 (desc thread0, mod_mem_on_thread_init) = Inr (tx', mi') \<and>
     (\<forall>i<20. word_base (72 + of_nat i) \<in> w_addr ` set (w_set tx')) \<and>
     (\<forall>M b. tx_load M b tx' = tx_load M b (desc thread0)) \<and> mi_freed mi' = [64]"
proof -
  obtain tx' mi' where e: "stm_free2 True (tx_store2 cfg0) 64 8 20 (desc thread0, mod_mem_on_thread_init) = Inr (tx', mi')"
    by (simp add: stm_free2_def)
  have "byte_off 64 = 0" by (simp add: byte_off_mod)
  then show ?thesis
    using free2_locks_block [OF e] e by (simp add: mod_mem_on_thread_init_def)
qed

text \<open>
  From the middle of a word on it does not: asked to overwrite the bytes 4 to 7 of a block
  (the documentation calls \<^verbatim>\<open>idx\<close> the first byte to overwrite), \<^verbatim>\<open>stm_free2\<close> rounds the index up and
  writes the next word instead, so the word with these bytes is not protected.
\<close>

theorem free2_skips_partial_word:
  "\<exists>tx' mi'. stm_free2 True (tx_store2 c) 64 4 4 (tx\<lparr>w_set := []\<rparr>, mi) = Inr (tx', mi') \<and>
     word_base (64 + 4) = 64 \<and> w_addr ` set (w_set tx') = {72}"
proof -
  have "drop_bit 3 (4 + 7 :: 64 word) = 1" "unat (drop_bit 3 (4 + 7 :: 64 word)) = 1"
    by simp_all
  then have e: "stm_free2 True (tx_store2 c) 64 4 4 (tx\<lparr>w_set := []\<rparr>, mi) =
      Inr (overwrite (tx_store2 c) 72 1 (tx\<lparr>w_set := []\<rparr>), mi\<lparr>mi_freed := 64 # mi_freed mi\<rparr>)"
    by (simp add: stm_free2_def del: overwrite.simps)
  have "w_addr ` set (w_set (overwrite (tx_store2 c) 72 1 (tx\<lparr>w_set := []\<rparr>))) = {72}"
    by (subst overwrite_addrs) (simp add: lessThan_Suc)
  moreover have "word_base (64 + 4) = 64"
    by (simp add: word_base_def)
  ultimately show ?thesis
    using e by blast
qed

end
