(* ===== verification/Mod_Cb.thy ===== *)
theory Mod_Cb
  imports Stm_Prelude
begin

text \<open>
  Commit and abort callbacks of single transactions, \<^verbatim>\<open>tinySTM/src/mod_cb.c\<close>. The callbacks are code
  of the application: \<open>call f arg\<close> is what running \<^verbatim>\<open>f(arg)\<close> does to the state of the application and
  to the registered callbacks (a callback may register others).
\<close>

section \<open>Data and operations\<close>

record 'f mod_cb_entry =
  cb_f :: 'f
  cb_arg :: addr

record 'f mod_cb_info =
  cb_commit :: "'f mod_cb_entry list"
  cb_abort :: "'f mod_cb_entry list"

datatype cb_error = CbNotInitialized

type_synonym ('f, 's) cb_call = "'f \<Rightarrow> addr \<Rightarrow> 's \<times> 'f mod_cb_info \<Rightarrow> 's \<times> 'f mod_cb_info"

definition mod_cb_on_thread_init :: "'f mod_cb_info" where
  "mod_cb_on_thread_init = \<lparr>cb_commit = [], cb_abort = []\<rparr>"

definition stm_on_abort :: "bool \<Rightarrow> 'f \<Rightarrow> addr \<Rightarrow> 'f mod_cb_info \<Rightarrow> cb_error + 'f mod_cb_info" where
  "stm_on_abort init f arg icb = (if \<not> init then Inl CbNotInitialized
     else Inr (icb\<lparr>cb_abort := \<lparr>cb_f = f, cb_arg = arg\<rparr> # cb_abort icb\<rparr>))"

definition stm_on_commit :: "bool \<Rightarrow> 'f \<Rightarrow> addr \<Rightarrow> 'f mod_cb_info \<Rightarrow> cb_error + 'f mod_cb_info" where
  "stm_on_commit init f arg icb = (if \<not> init then Inl CbNotInitialized
     else Inr (icb\<lparr>cb_commit := \<lparr>cb_f = f, cb_arg = arg\<rparr> # cb_commit icb\<rparr>))"

text \<open>
  The loops that run callbacks: \<^verbatim>\<open>ccb\<close> is the head of the list when its function is called, and the
  list is set to its successor afterwards, whatever the callback did to the list meanwhile.
\<close>

fun call_commits :: "('f, 's) cb_call \<Rightarrow> 'f mod_cb_entry list \<Rightarrow> 's \<times> 'f mod_cb_info \<Rightarrow> 's \<times> 'f mod_cb_info" where
  "call_commits call [] si = si"
| "call_commits call (ccb # next) si =
     (let (s, icb) = call (cb_f ccb) (cb_arg ccb) si in call_commits call next (s, icb\<lparr>cb_commit := next\<rparr>))"

fun call_aborts :: "('f, 's) cb_call \<Rightarrow> 'f mod_cb_entry list \<Rightarrow> 's \<times> 'f mod_cb_info \<Rightarrow> 's \<times> 'f mod_cb_info" where
  "call_aborts call [] si = si"
| "call_aborts call (ccb # next) si =
     (let (s, icb) = call (cb_f ccb) (cb_arg ccb) si in call_aborts call next (s, icb\<lparr>cb_abort := next\<rparr>))"

definition mod_cb_on_commit :: "bool \<Rightarrow> ('f, 's) cb_call \<Rightarrow> 's \<times> 'f mod_cb_info \<Rightarrow> cb_error + 's \<times> 'f mod_cb_info" where
  "mod_cb_on_commit init call = (\<lambda>(s, icb). if \<not> init then Inl CbNotInitialized
     else let (s, icb) = call_commits call (cb_commit icb) (s, icb) in Inr (s, icb\<lparr>cb_abort := []\<rparr>))"

definition mod_cb_on_abort :: "bool \<Rightarrow> ('f, 's) cb_call \<Rightarrow> 's \<times> 'f mod_cb_info \<Rightarrow> cb_error + 's \<times> 'f mod_cb_info" where
  "mod_cb_on_abort init call = (\<lambda>(s, icb). if \<not> init then Inl CbNotInitialized
     else let (s, icb) = call_aborts call (cb_abort icb) (s, icb) in Inr (s, icb\<lparr>cb_commit := []\<rparr>))"

section \<open>Which callbacks run\<close>

text \<open>What the callbacks do to the application, in the order of a list.\<close>

definition effects :: "('f \<Rightarrow> addr \<Rightarrow> 's \<Rightarrow> 's) \<Rightarrow> 'f mod_cb_entry list \<Rightarrow> 's \<Rightarrow> 's" where
  "effects g es s = fold (\<lambda>e. g (cb_f e) (cb_arg e)) es s"

definition runs_as :: "('f, 's) cb_call \<Rightarrow> ('f \<Rightarrow> addr \<Rightarrow> 's \<Rightarrow> 's) \<Rightarrow> bool" where
  "runs_as call g \<longleftrightarrow> (\<forall>f arg s icb. fst (call f arg (s, icb)) = g f arg s)"

lemma call_commits_effect:
  assumes "runs_as call g" "cb_commit icb = es"
  shows "\<exists>ab. call_commits call es (s, icb) = (effects g es s, \<lparr>cb_commit = [], cb_abort = ab\<rparr>)"
  using assms(2)
proof (induction es arbitrary: s icb)
  case Nil
  then show ?case by (cases icb) (simp add: effects_def)
next
  case (Cons e es)
  obtain s' icb' where c: "call (cb_f e) (cb_arg e) (s, icb) = (s', icb')" by fastforce
  then have "s' = g (cb_f e) (cb_arg e) s"
    using assms(1) by (metis fst_conv runs_as_def)
  then show ?case
    using Cons.IH [of "icb'\<lparr>cb_commit := es\<rparr>" s'] by (simp add: c effects_def)
qed

lemma call_aborts_effect:
  assumes "runs_as call g" "cb_abort icb = es"
  shows "\<exists>co. call_aborts call es (s, icb) = (effects g es s, \<lparr>cb_commit = co, cb_abort = []\<rparr>)"
  using assms(2)
proof (induction es arbitrary: s icb)
  case Nil
  then show ?case by (cases icb) (simp add: effects_def)
next
  case (Cons e es)
  obtain s' icb' where c: "call (cb_f e) (cb_arg e) (s, icb) = (s', icb')" by fastforce
  then have "s' = g (cb_f e) (cb_arg e) s"
    using assms(1) by (metis fst_conv runs_as_def)
  then show ?case
    using Cons.IH [of "icb'\<lparr>cb_abort := es\<rparr>" s'] by (simp add: c effects_def)
qed

text \<open>The registrations of a transaction.\<close>

datatype 'f cb_reg = OnCommit 'f addr | OnAbort 'f addr

fun register :: "'f cb_reg list \<Rightarrow> 'f mod_cb_info \<Rightarrow> cb_error + 'f mod_cb_info" where
  "register [] icb = Inr icb"
| "register (OnCommit f arg # rs) icb = (case stm_on_commit True f arg icb of Inl e \<Rightarrow> Inl e | Inr icb' \<Rightarrow> register rs icb')"
| "register (OnAbort f arg # rs) icb = (case stm_on_abort True f arg icb of Inl e \<Rightarrow> Inl e | Inr icb' \<Rightarrow> register rs icb')"

fun commit_regs :: "'f cb_reg list \<Rightarrow> 'f mod_cb_entry list" where
  "commit_regs [] = []"
| "commit_regs (OnCommit f arg # rs) = \<lparr>cb_f = f, cb_arg = arg\<rparr> # commit_regs rs"
| "commit_regs (OnAbort f arg # rs) = commit_regs rs"

fun abort_regs :: "'f cb_reg list \<Rightarrow> 'f mod_cb_entry list" where
  "abort_regs [] = []"
| "abort_regs (OnCommit f arg # rs) = abort_regs rs"
| "abort_regs (OnAbort f arg # rs) = \<lparr>cb_f = f, cb_arg = arg\<rparr> # abort_regs rs"

lemma register_lists:
  "register rs icb = Inr \<lparr>cb_commit = rev (commit_regs rs) @ cb_commit icb, cb_abort = rev (abort_regs rs) @ cb_abort icb\<rparr>"
proof (induction rs arbitrary: icb)
  case (Cons r rs)
  then show ?case by (cases r) (simp_all add: stm_on_commit_def stm_on_abort_def)
qed simp

text \<open>
  On commit, exactly the commit callbacks registered in the transaction run, each once, the
  latest registration first; the abort callbacks are dropped and nothing is left for the next
  transaction. A callback may itself register callbacks: they are dropped too.
\<close>

theorem cb_commit_exact:
  assumes "runs_as call g" "register rs mod_cb_on_thread_init = Inr icb"
  shows "mod_cb_on_commit True call (s, icb) = Inr (effects g (rev (commit_regs rs)) s, mod_cb_on_thread_init)"
proof -
  have c: "cb_commit icb = rev (commit_regs rs)"
    using assms(2) by (auto simp: register_lists mod_cb_on_thread_init_def)
  show ?thesis
    using call_commits_effect [OF assms(1) c, of s] c by (auto simp: mod_cb_on_commit_def mod_cb_on_thread_init_def)
qed

text \<open>The callback of the witnesses logs its name and registers itself again.\<close>

definition again :: "(nat, nat list) cb_call" where
  "again f arg = (\<lambda>(s, icb). (s @ [f], icb\<lparr>cb_commit := \<lparr>cb_f = f, cb_arg = arg\<rparr> # cb_commit icb\<rparr>))"

lemma again_runs: "runs_as again (\<lambda>f arg s. s @ [f])"
  by (simp add: runs_as_def again_def)

theorem cb_commit_exact_witness:
  "\<exists>icb. register [OnCommit 1 0, OnAbort 2 0, OnCommit 3 0] mod_cb_on_thread_init = Inr icb \<and>
     mod_cb_on_commit True again ([], icb) = Inr ([3, 1 :: nat], mod_cb_on_thread_init)"
  using cb_commit_exact [OF again_runs, of "[OnCommit 1 0, OnAbort 2 0, OnCommit 3 0]" _ "[]"]
  by (simp add: register_lists effects_def)

text \<open>
  On abort, exactly the abort callbacks registered in the transaction run, each once, the latest
  registration first; the commit callbacks are dropped and nothing is left for the retry.
\<close>

theorem cb_abort_exact:
  assumes "runs_as call g" "register rs mod_cb_on_thread_init = Inr icb"
  shows "mod_cb_on_abort True call (s, icb) = Inr (effects g (rev (abort_regs rs)) s, mod_cb_on_thread_init)"
proof -
  have c: "cb_abort icb = rev (abort_regs rs)"
    using assms(2) by (auto simp: register_lists mod_cb_on_thread_init_def)
  show ?thesis
    using call_aborts_effect [OF assms(1) c, of s] c by (auto simp: mod_cb_on_abort_def mod_cb_on_thread_init_def)
qed

theorem cb_abort_exact_witness:
  "\<exists>icb. register [OnCommit 1 0, OnAbort 2 0, OnAbort 3 0] mod_cb_on_thread_init = Inr icb \<and>
     mod_cb_on_abort True again ([], icb) = Inr ([3, 2 :: nat], mod_cb_on_thread_init)"
  using cb_abort_exact [OF again_runs, of "[OnCommit 1 0, OnAbort 2 0, OnAbort 3 0]" _ "[]"]
  by (simp add: register_lists effects_def)

end
