(* ===== verification/Mod_Log.thy ===== *)
theory Mod_Log
  imports Wrappers
begin

text \<open>
  The undo log for thread-local data, \<^verbatim>\<open>tinySTM/src/mod_log.c\<close>: a transaction logs a location before
  it changes it in place, and the abort callback writes the logged values back, last entry first.

  Memory is an array of bytes. The variants of \<open>mod_log_w_entry\<close> are those of the C union, with the
  types of their fields: the old value of \<^verbatim>\<open>u8\<close>, \<^verbatim>\<open>u16\<close>, \<^verbatim>\<open>u32\<close> and \<^verbatim>\<open>u64\<close> is a (signed) \<^verbatim>\<open>char\<close>.
  Floating-point values and pointers are their bit patterns, \<^verbatim>\<open>nb_entries\<close> is the length of the list.
  The assertions of the code are compiled out (\<^verbatim>\<open>-DNDEBUG\<close>).
\<close>

section \<open>Data\<close>

type_synonym bytes_mem = "addr \<Rightarrow> 8 word"

definition LW_SET_SIZE :: nat where "LW_SET_SIZE = 1024"

datatype mod_log_w_entry =
    TYPE_WORD addr "64 word" | TYPE_U8 addr "8 word" | TYPE_U16 addr "8 word" | TYPE_U32 addr "8 word"
  | TYPE_U64 addr "8 word" | TYPE_CHAR addr "8 word" | TYPE_UCHAR addr "8 word" | TYPE_SHORT addr "16 word"
  | TYPE_USHORT addr "16 word" | TYPE_INT addr "32 word" | TYPE_UINT addr "32 word" | TYPE_LONG addr "64 word"
  | TYPE_ULONG addr "64 word" | TYPE_FLOAT addr "32 word" | TYPE_DOUBLE addr "64 word" | TYPE_PTR addr "64 word"
  | TYPE_BYTES addr "8 word list"

record mod_log_w_set =
  lw_entries :: "mod_log_w_entry list"
  lw_size :: nat
  lw_allocated :: int

datatype log_error = LogNotInitialized

definition mod_log_on_thread_init :: mod_log_w_set where
  "mod_log_on_thread_init = \<lparr>lw_entries = [], lw_size = 0, lw_allocated = 0\<rparr>"

section \<open>Memory\<close>

definition read_bytes :: "bytes_mem \<Rightarrow> addr \<Rightarrow> nat \<Rightarrow> 8 word list" where
  "read_bytes m a n = map (\<lambda>i. m (a + of_nat i)) [0..<n]"

definition write_bytes :: "addr \<Rightarrow> 8 word list \<Rightarrow> bytes_mem \<Rightarrow> bytes_mem" where
  "write_bytes a bs m = (\<lambda>x. if unat (x - a) < length bs then bs ! unat (x - a) else m x)"

text \<open>\<^verbatim>\<open>*addr\<close> and \<^verbatim>\<open>*addr = v\<close> for the integer types.\<close>

definition deref :: "bytes_mem \<Rightarrow> addr \<Rightarrow> 'a::len word" where
  "deref m a = of_bytes (read_bytes m a (LENGTH('a) div 8))"

definition assign :: "addr \<Rightarrow> 'a::len word \<Rightarrow> bytes_mem \<Rightarrow> bytes_mem" where
  "assign a v = write_bytes a (to_bytes v)"

section \<open>Operations\<close>

text \<open>\<^verbatim>\<open>get_entry\<close>: room for one more entry; the caller fills it in.\<close>

definition get_entry :: "bool \<Rightarrow> mod_log_w_set \<Rightarrow> log_error + mod_log_w_set" where
  "get_entry init ws = (if \<not> init then Inl LogNotInitialized
     else Inr (if length (lw_entries ws) = lw_size ws
       then ws\<lparr>lw_size := (if lw_size ws < LW_SET_SIZE then LW_SET_SIZE else lw_size ws * 2)\<rparr> else ws))"

definition add_entry :: "mod_log_w_entry \<Rightarrow> bool \<Rightarrow> mod_log_w_set \<Rightarrow> log_error + mod_log_w_set" where
  "add_entry w init ws = (case get_entry init ws of Inl e \<Rightarrow> Inl e
     | Inr ws \<Rightarrow> Inr (ws\<lparr>lw_entries := lw_entries ws @ [w]\<rparr>))"

definition stm_log :: "bool \<Rightarrow> bytes_mem \<Rightarrow> addr \<Rightarrow> mod_log_w_set \<Rightarrow> log_error + mod_log_w_set" where
  "stm_log init m a = add_entry (TYPE_WORD a (deref m a)) init"
definition stm_log_u8 :: "bool \<Rightarrow> bytes_mem \<Rightarrow> addr \<Rightarrow> mod_log_w_set \<Rightarrow> log_error + mod_log_w_set" where
  "stm_log_u8 init m a = add_entry (TYPE_U8 a (deref m a)) init"
definition stm_log_u16 :: "bool \<Rightarrow> bytes_mem \<Rightarrow> addr \<Rightarrow> mod_log_w_set \<Rightarrow> log_error + mod_log_w_set" where
  "stm_log_u16 init m a = add_entry (TYPE_U16 a (ucast (deref m a :: 16 word))) init"
definition stm_log_u32 :: "bool \<Rightarrow> bytes_mem \<Rightarrow> addr \<Rightarrow> mod_log_w_set \<Rightarrow> log_error + mod_log_w_set" where
  "stm_log_u32 init m a = add_entry (TYPE_U32 a (ucast (deref m a :: 32 word))) init"
definition stm_log_u64 :: "bool \<Rightarrow> bytes_mem \<Rightarrow> addr \<Rightarrow> mod_log_w_set \<Rightarrow> log_error + mod_log_w_set" where
  "stm_log_u64 init m a = add_entry (TYPE_U64 a (ucast (deref m a :: 64 word))) init"
definition stm_log_char :: "bool \<Rightarrow> bytes_mem \<Rightarrow> addr \<Rightarrow> mod_log_w_set \<Rightarrow> log_error + mod_log_w_set" where
  "stm_log_char init m a = add_entry (TYPE_CHAR a (deref m a)) init"
definition stm_log_uchar :: "bool \<Rightarrow> bytes_mem \<Rightarrow> addr \<Rightarrow> mod_log_w_set \<Rightarrow> log_error + mod_log_w_set" where
  "stm_log_uchar init m a = add_entry (TYPE_UCHAR a (deref m a)) init"
definition stm_log_short :: "bool \<Rightarrow> bytes_mem \<Rightarrow> addr \<Rightarrow> mod_log_w_set \<Rightarrow> log_error + mod_log_w_set" where
  "stm_log_short init m a = add_entry (TYPE_SHORT a (deref m a)) init"
definition stm_log_ushort :: "bool \<Rightarrow> bytes_mem \<Rightarrow> addr \<Rightarrow> mod_log_w_set \<Rightarrow> log_error + mod_log_w_set" where
  "stm_log_ushort init m a = add_entry (TYPE_USHORT a (deref m a)) init"
definition stm_log_int :: "bool \<Rightarrow> bytes_mem \<Rightarrow> addr \<Rightarrow> mod_log_w_set \<Rightarrow> log_error + mod_log_w_set" where
  "stm_log_int init m a = add_entry (TYPE_INT a (deref m a)) init"
definition stm_log_uint :: "bool \<Rightarrow> bytes_mem \<Rightarrow> addr \<Rightarrow> mod_log_w_set \<Rightarrow> log_error + mod_log_w_set" where
  "stm_log_uint init m a = add_entry (TYPE_UINT a (deref m a)) init"
definition stm_log_long :: "bool \<Rightarrow> bytes_mem \<Rightarrow> addr \<Rightarrow> mod_log_w_set \<Rightarrow> log_error + mod_log_w_set" where
  "stm_log_long init m a = add_entry (TYPE_LONG a (deref m a)) init"
definition stm_log_ulong :: "bool \<Rightarrow> bytes_mem \<Rightarrow> addr \<Rightarrow> mod_log_w_set \<Rightarrow> log_error + mod_log_w_set" where
  "stm_log_ulong init m a = add_entry (TYPE_ULONG a (deref m a)) init"
definition stm_log_float :: "bool \<Rightarrow> bytes_mem \<Rightarrow> addr \<Rightarrow> mod_log_w_set \<Rightarrow> log_error + mod_log_w_set" where
  "stm_log_float init m a = add_entry (TYPE_FLOAT a (deref m a)) init"
definition stm_log_double :: "bool \<Rightarrow> bytes_mem \<Rightarrow> addr \<Rightarrow> mod_log_w_set \<Rightarrow> log_error + mod_log_w_set" where
  "stm_log_double init m a = add_entry (TYPE_DOUBLE a (deref m a)) init"
definition stm_log_ptr :: "bool \<Rightarrow> bytes_mem \<Rightarrow> addr \<Rightarrow> mod_log_w_set \<Rightarrow> log_error + mod_log_w_set" where
  "stm_log_ptr init m a = add_entry (TYPE_PTR a (deref m a)) init"
definition stm_log_bytes :: "bool \<Rightarrow> bytes_mem \<Rightarrow> addr \<Rightarrow> nat \<Rightarrow> mod_log_w_set \<Rightarrow> log_error + mod_log_w_set" where
  "stm_log_bytes init m a n ws = (case add_entry (TYPE_BYTES a (read_bytes m a n)) init ws of Inl e \<Rightarrow> Inl e
     | Inr ws \<Rightarrow> Inr (ws\<lparr>lw_allocated := lw_allocated ws + 1\<rparr>))"

text \<open>
  \<^verbatim>\<open>mod_log_on_commit\<close>: the loop frees the buffers until none is allocated (it runs past the array,
  here \<open>None\<close>, when the count exceeds the entries), then the log is erased.
\<close>

fun free_buffers :: "mod_log_w_entry list \<Rightarrow> int \<Rightarrow> int option" where
  "free_buffers [] n = None"
| "free_buffers (w # ws) n =
    (let n = (case w of TYPE_BYTES _ _ \<Rightarrow> n - 1 | _ \<Rightarrow> n) in if n > 0 then free_buffers ws n else Some n)"

definition mod_log_on_commit :: "mod_log_w_set \<Rightarrow> mod_log_w_set option" where
  "mod_log_on_commit ws =
    (if lw_allocated ws > 0 then
       (case free_buffers (lw_entries ws) (lw_allocated ws) of None \<Rightarrow> None
        | Some n \<Rightarrow> Some (ws\<lparr>lw_allocated := n, lw_entries := []\<rparr>))
     else Some (ws\<lparr>lw_entries := []\<rparr>))"

fun undo_entry :: "mod_log_w_entry \<Rightarrow> bytes_mem \<Rightarrow> bytes_mem" where
  "undo_entry (TYPE_WORD a v) = assign a v"
| "undo_entry (TYPE_U8 a v) = assign a v"
| "undo_entry (TYPE_U16 a v) = assign a (scast v :: 16 word)"
| "undo_entry (TYPE_U32 a v) = assign a (scast v :: 32 word)"
| "undo_entry (TYPE_U64 a v) = assign a (scast v :: 64 word)"
| "undo_entry (TYPE_CHAR a v) = assign a v"
| "undo_entry (TYPE_UCHAR a v) = assign a v"
| "undo_entry (TYPE_SHORT a v) = assign a v"
| "undo_entry (TYPE_USHORT a v) = assign a v"
| "undo_entry (TYPE_INT a v) = assign a v"
| "undo_entry (TYPE_UINT a v) = assign a v"
| "undo_entry (TYPE_LONG a v) = assign a v"
| "undo_entry (TYPE_ULONG a v) = assign a v"
| "undo_entry (TYPE_FLOAT a v) = assign a v"
| "undo_entry (TYPE_DOUBLE a v) = assign a v"
| "undo_entry (TYPE_PTR a v) = assign a v"
| "undo_entry (TYPE_BYTES a v) = write_bytes a v"

fun undo_all :: "mod_log_w_entry list \<Rightarrow> bytes_mem \<times> int \<Rightarrow> bytes_mem \<times> int" where
  "undo_all [] mn = mn"
| "undo_all (w # ws) (m, n) =
     undo_all ws (undo_entry w m, case w of TYPE_BYTES _ _ \<Rightarrow> n - 1 | _ \<Rightarrow> n)"

text \<open>The log is walked backwards; it is not erased.\<close>

definition mod_log_on_abort :: "bytes_mem \<times> mod_log_w_set \<Rightarrow> bytes_mem \<times> mod_log_w_set" where
  "mod_log_on_abort = (\<lambda>(m, ws). if lw_entries ws \<noteq> [] then
       let (m, n) = undo_all (rev (lw_entries ws)) (m, lw_allocated ws) in (m, ws\<lparr>lw_allocated := n\<rparr>)
     else (m, ws))"

section \<open>Bytes restored by an entry\<close>

fun entry_addr :: "mod_log_w_entry \<Rightarrow> addr" where
  "entry_addr (TYPE_WORD a v) = a" | "entry_addr (TYPE_U8 a v') = a" | "entry_addr (TYPE_U16 a v') = a"
| "entry_addr (TYPE_U32 a v') = a" | "entry_addr (TYPE_U64 a v') = a" | "entry_addr (TYPE_CHAR a v') = a"
| "entry_addr (TYPE_UCHAR a v') = a" | "entry_addr (TYPE_SHORT a v2) = a" | "entry_addr (TYPE_USHORT a v2) = a"
| "entry_addr (TYPE_INT a v4) = a" | "entry_addr (TYPE_UINT a v4) = a" | "entry_addr (TYPE_LONG a v) = a"
| "entry_addr (TYPE_ULONG a v) = a" | "entry_addr (TYPE_FLOAT a v4) = a" | "entry_addr (TYPE_DOUBLE a v) = a"
| "entry_addr (TYPE_PTR a v) = a" | "entry_addr (TYPE_BYTES a bs) = a"

fun entry_bytes :: "mod_log_w_entry \<Rightarrow> 8 word list" where
  "entry_bytes (TYPE_WORD a v) = to_bytes v" | "entry_bytes (TYPE_U8 a v') = to_bytes v'"
| "entry_bytes (TYPE_U16 a v') = to_bytes (scast v' :: 16 word)" | "entry_bytes (TYPE_U32 a v') = to_bytes (scast v' :: 32 word)"
| "entry_bytes (TYPE_U64 a v') = to_bytes (scast v' :: 64 word)" | "entry_bytes (TYPE_CHAR a v') = to_bytes v'"
| "entry_bytes (TYPE_UCHAR a v') = to_bytes v'" | "entry_bytes (TYPE_SHORT a v2) = to_bytes v2"
| "entry_bytes (TYPE_USHORT a v2) = to_bytes v2" | "entry_bytes (TYPE_INT a v4) = to_bytes v4"
| "entry_bytes (TYPE_UINT a v4) = to_bytes v4" | "entry_bytes (TYPE_LONG a v) = to_bytes v"
| "entry_bytes (TYPE_ULONG a v) = to_bytes v" | "entry_bytes (TYPE_FLOAT a v4) = to_bytes v4"
| "entry_bytes (TYPE_DOUBLE a v) = to_bytes v" | "entry_bytes (TYPE_PTR a v) = to_bytes v"
| "entry_bytes (TYPE_BYTES a bs) = bs"

lemma undo_entry_bytes: "undo_entry w m = write_bytes (entry_addr w) (entry_bytes w) m"
  by (cases w) (simp_all add: assign_def)

definition covers :: "mod_log_w_entry \<Rightarrow> addr \<Rightarrow> bool" where
  "covers w x \<longleftrightarrow> unat (x - entry_addr w) < length (entry_bytes w)"

lemma undo_entry_apply:
  "undo_entry w m x = (if covers w x then entry_bytes w ! unat (x - entry_addr w) else m x)"
  by (simp add: undo_entry_bytes write_bytes_def covers_def)

lemma fst_undo_all: "fst (undo_all ws (m, n)) = fold undo_entry ws m"
  by (induction ws arbitrary: m n) simp_all

lemma fold_undo_covered:
  "\<exists>w\<in>set ws. covers w x \<Longrightarrow> fold undo_entry ws m x = fold undo_entry ws m' x"
proof (induction ws rule: rev_induct)
  case (snoc w ws)
  then show ?case by (auto simp: undo_entry_apply)
qed simp

lemma fold_undo_cong:
  "m x = m' x \<Longrightarrow> fold undo_entry ws m x = fold undo_entry ws m' x"
proof (induction ws rule: rev_induct)
  case (snoc w ws)
  then show ?case by (auto simp: undo_entry_apply)
qed simp

section \<open>Transactions that log what they change\<close>

datatype log_type = T_WORD | T_U8 | T_U16 | T_U32 | T_U64 | T_CHAR | T_UCHAR | T_SHORT | T_USHORT
  | T_INT | T_UINT | T_LONG | T_ULONG | T_FLOAT | T_DOUBLE | T_PTR

fun log_call :: "log_type \<Rightarrow> bool \<Rightarrow> bytes_mem \<Rightarrow> addr \<Rightarrow> mod_log_w_set \<Rightarrow> log_error + mod_log_w_set" where
  "log_call T_WORD = stm_log" | "log_call T_U8 = stm_log_u8" | "log_call T_U16 = stm_log_u16"
| "log_call T_U32 = stm_log_u32" | "log_call T_U64 = stm_log_u64" | "log_call T_CHAR = stm_log_char"
| "log_call T_UCHAR = stm_log_uchar" | "log_call T_SHORT = stm_log_short" | "log_call T_USHORT = stm_log_ushort"
| "log_call T_INT = stm_log_int" | "log_call T_UINT = stm_log_uint" | "log_call T_LONG = stm_log_long"
| "log_call T_ULONG = stm_log_ulong" | "log_call T_FLOAT = stm_log_float" | "log_call T_DOUBLE = stm_log_double"
| "log_call T_PTR = stm_log_ptr"

text \<open>Types whose entries hold the whole old value.\<close>

definition full_width :: "log_type \<Rightarrow> bool" where
  "full_width ty \<longleftrightarrow> ty \<noteq> T_U16 \<and> ty \<noteq> T_U32 \<and> ty \<noteq> T_U64"

text \<open>A transaction logs locations and changes bytes of memory.\<close>

datatype log_op = Log log_type addr | LogBytes addr nat | Store addr "8 word"

fun log_op_ok :: "log_op \<Rightarrow> bytes_mem \<times> mod_log_w_set \<Rightarrow> bool" where
  "log_op_ok (Log ty a) mw \<longleftrightarrow> full_width ty"
| "log_op_ok (LogBytes a n) mw \<longleftrightarrow> True"
| "log_op_ok (Store x v) mw \<longleftrightarrow> list_ex (\<lambda>w. covers w x) (lw_entries (snd mw))"

fun log_step :: "log_op \<Rightarrow> bytes_mem \<times> mod_log_w_set \<Rightarrow> log_error + bytes_mem \<times> mod_log_w_set" where
  "log_step (Log ty a) (m, ws) = (case log_call ty True m a ws of Inl e \<Rightarrow> Inl e | Inr ws' \<Rightarrow> Inr (m, ws'))"
| "log_step (LogBytes a n) (m, ws) = (case stm_log_bytes True m a n ws of Inl e \<Rightarrow> Inl e | Inr ws' \<Rightarrow> Inr (m, ws'))"
| "log_step (Store x v) (m, ws) = Inr (m(x := v), ws)"

text \<open>
  The transactions of a thread: \<open>log_run m0 (m, ws)\<close> says that the current one found memory \<open>m0\<close>, and that
  memory and log are now \<open>m\<close> and \<open>ws\<close>. It is the first of the thread or follows a commit (memory may
  have changed in between). An attempt that follows an abort is not covered: \<^verbatim>\<open>mod_log_on_abort\<close> does
  not erase the log, see \<open>log_abort_replays\<close> below.
\<close>

inductive log_run :: "bytes_mem \<Rightarrow> bytes_mem \<times> mod_log_w_set \<Rightarrow> bool" where
  start: "log_run m0 (m0, mod_log_on_thread_init)"
| commit: "log_run m0 (m, ws) \<Longrightarrow> mod_log_on_commit ws = Some ws' \<Longrightarrow> log_run m1 (m1, ws')"
| step: "log_run m0 mw \<Longrightarrow> log_op_ok op mw \<Longrightarrow> log_step op mw = Inr mw' \<Longrightarrow> log_run m0 mw'"

lemma to_of_bytes:
  assumes "length bs = LENGTH('a) div 8"
  shows "to_bytes (of_bytes bs :: 'a::len word) = bs"
proof (rule nth_equalityI)
  show "length (to_bytes (of_bytes bs :: 'a word)) = length bs"
    using assms by simp
  fix i assume "i < length (to_bytes (of_bytes bs :: 'a word))"
  then have i: "i < LENGTH('a) div 8" by simp
  show "to_bytes (of_bytes bs :: 'a word) ! i = bs ! i"
  proof (rule bit_word_eqI)
    fix n assume n: "n < LENGTH(8)"
    have "8 * i + n < LENGTH('a)"
      using i n by (simp add: less_eq_Suc_le)
    then show "bit (to_bytes (of_bytes bs :: 'a word) ! i) n = bit (bs ! i) n"
      using i n assms by (simp add: to_bytes_nth bit_simps bit_of_bytes)
  qed
qed

lemma write_read_bytes: "write_bytes a (read_bytes m a n) m = m"
  by (rule ext) (simp add: write_bytes_def read_bytes_def)

lemma assign_deref: "assign a (deref m a :: 'a::len word) m = m"
  unfolding assign_def deref_def
  by (subst to_of_bytes) (simp_all add: write_read_bytes, simp add: read_bytes_def)

definition is_bytes :: "mod_log_w_entry \<Rightarrow> bool" where
  "is_bytes w \<longleftrightarrow> (case w of TYPE_BYTES _ _ \<Rightarrow> True | _ \<Rightarrow> False)"

lemma add_entry_appends:
  assumes "add_entry w True ws = Inr ws'"
  shows "lw_entries ws' = lw_entries ws @ [w]" "lw_allocated ws' = lw_allocated ws"
    "length (lw_entries ws) \<le> lw_size ws \<Longrightarrow> length (lw_entries ws') \<le> lw_size ws'"
  using assms by (auto simp: add_entry_def get_entry_def LW_SET_SIZE_def split: if_splits)

lemmas log_call_defs = stm_log_def stm_log_u8_def stm_log_u16_def stm_log_u32_def stm_log_u64_def
  stm_log_char_def stm_log_uchar_def stm_log_short_def stm_log_ushort_def stm_log_int_def stm_log_uint_def
  stm_log_long_def stm_log_ulong_def stm_log_float_def stm_log_double_def stm_log_ptr_def

lemma log_call_entry:
  "\<exists>w. log_call ty init m a = add_entry w init \<and> \<not> is_bytes w \<and> (full_width ty \<longrightarrow> undo_entry w m = m)"
  by (cases ty) (auto simp: log_call_defs is_bytes_def full_width_def intro!: exI assign_deref)

definition log_inv :: "bytes_mem \<Rightarrow> bytes_mem \<times> mod_log_w_set \<Rightarrow> bool" where
  "log_inv m0 = (\<lambda>(m, ws). fold undo_entry (rev (lw_entries ws)) m = m0 \<and>
     lw_allocated ws = int (length (filter is_bytes (lw_entries ws))) \<and> length (lw_entries ws) \<le> lw_size ws)"

lemma log_step_inv:
  assumes "log_inv m0 mw" "log_op_ok op mw" "log_step op mw = Inr mw'"
  shows "log_inv m0 mw'"
proof -
  obtain m ws where mw: "mw = (m, ws)" by fastforce
  show ?thesis
  proof (cases op)
    case (Log ty a)
    obtain w where w: "log_call ty True m a = add_entry w True" "\<not> is_bytes w" "undo_entry w m = m"
      using log_call_entry [of ty True m a] assms(2) Log by auto
    then obtain ws' where "add_entry w True ws = Inr ws'" "mw' = (m, ws')"
      using assms(3) by (auto simp: mw Log split: sum.splits)
    then show ?thesis
      using assms(1) w(2,3) add_entry_appends [of w ws ws'] by (simp add: mw log_inv_def)
  next
    case (LogBytes a n)
    let ?w = "TYPE_BYTES a (read_bytes m a n)"
    obtain ws' where "add_entry ?w True ws = Inr ws'" "mw' = (m, ws'\<lparr>lw_allocated := lw_allocated ws' + 1\<rparr>)"
      using assms(3) by (auto simp: mw LogBytes stm_log_bytes_def split: sum.splits)
    then show ?thesis
      using assms(1) add_entry_appends [of ?w ws ws'] by (simp add: mw log_inv_def is_bytes_def write_read_bytes)
  next
    case (Store x v)
    then have c: "\<exists>w\<in>set (rev (lw_entries ws)). covers w x"
      using assms(2) by (simp add: mw list_ex_iff)
    have "fold undo_entry (rev (lw_entries ws)) (m(x := v)) y = fold undo_entry (rev (lw_entries ws)) m y" for y
      using fold_undo_covered [OF c, of "m(x := v)" m] fold_undo_cong [of "m(x := v)" y m] by (cases "y = x") auto
    then have "fold undo_entry (rev (lw_entries ws)) (m(x := v)) = fold undo_entry (rev (lw_entries ws)) m"
      by (rule ext)
    then show ?thesis
      using assms(1,3) by (auto simp: mw Store log_inv_def)
  qed
qed

lemma snd_undo_all: "snd (undo_all ws (m, n)) = n - int (length (filter is_bytes ws))"
  by (induction ws arbitrary: m n) (auto simp: is_bytes_def split: mod_log_w_entry.splits)

lemma free_buffers_all:
  "n = int (length (filter is_bytes ws)) \<Longrightarrow> n > 0 \<Longrightarrow> free_buffers ws n = Some 0"
proof (induction ws arbitrary: n)
  case (Cons w ws)
  show ?case
  proof (cases "is_bytes w")
    case True
    then have "free_buffers (w # ws) n = (if n - 1 > 0 then free_buffers ws (n - 1) else Some (n - 1))"
      by (auto simp: is_bytes_def split: mod_log_w_entry.splits)
    then show ?thesis
      using Cons True by auto
  next
    case False
    then have "free_buffers (w # ws) n = free_buffers ws n"
      using Cons.prems(2) by (auto simp: is_bytes_def split: mod_log_w_entry.splits)
    then show ?thesis
      using Cons False by simp
  qed
qed simp

text \<open>
  Committing erases the log and releases every buffer: the loop over the entries ends within the array.
\<close>

lemma commit_erases:
  assumes "log_inv m0 (m, ws)"
  shows "mod_log_on_commit ws = Some \<lparr>lw_entries = [], lw_size = lw_size ws, lw_allocated = 0\<rparr>"
proof (cases "lw_allocated ws > 0")
  case True
  then have "free_buffers (lw_entries ws) (lw_allocated ws) = Some 0"
    using assms by (intro free_buffers_all) (simp_all add: log_inv_def)
  then show ?thesis
    using True by (simp add: mod_log_on_commit_def)
next
  case False
  then have "lw_allocated ws = 0"
    using assms by (simp add: log_inv_def)
  then show ?thesis
    by (cases ws) (simp add: mod_log_on_commit_def)
qed

lemma log_run_inv: "log_run m0 mw \<Longrightarrow> log_inv m0 mw"
proof (induction rule: log_run.induct)
  case (start m0)
  then show ?case by (simp add: log_inv_def mod_log_on_thread_init_def)
next
  case (commit m0 m ws ws' m1)
  then show ?case using commit_erases by (auto simp: log_inv_def)
next
  case (step m0 mw op mw')
  then show ?case by (blast intro: log_step_inv)
qed

text \<open>
  C22. The undo log undoes: take a transaction that is the first of its thread or follows a commit (not
  an abort, after which the log still holds the old entries), and that changes only bytes it has logged
  before, with any of the logging functions but \<^verbatim>\<open>stm_log_u16\<close>, \<^verbatim>\<open>stm_log_u32\<close> and \<^verbatim>\<open>stm_log_u64\<close>, which keep one byte of
  the old value. Its abort restores memory exactly as it was at the start of the transaction, also
  when locations were logged several times or overlap, and every buffer is released.
\<close>

theorem log_abort_restores:
  assumes "log_run m0 (m, ws)"
  shows "fst (mod_log_on_abort (m, ws)) = m0 \<and> lw_allocated (snd (mod_log_on_abort (m, ws))) = 0"
proof -
  obtain m' n' where u: "undo_all (rev (lw_entries ws)) (m, lw_allocated ws) = (m', n')" by fastforce
  then have "m' = fold undo_entry (rev (lw_entries ws)) m" "n' = lw_allocated ws - int (length (filter is_bytes (rev (lw_entries ws))))"
    using fst_undo_all [of "rev (lw_entries ws)" m "lw_allocated ws"] snd_undo_all [of "rev (lw_entries ws)" m "lw_allocated ws"]
    by simp_all
  then show ?thesis
    using log_run_inv [OF assms] u by (auto simp: mod_log_on_abort_def log_inv_def rev_filter [symmetric])
qed

text \<open>
  The run of the witnesses: a transaction logs two bytes, changes one and commits; the next one logs an
  \<^verbatim>\<open>int\<close> and the same two bytes and changes them.
\<close>

definition log_demo0 :: bytes_mem where "log_demo0 = (\<lambda>_. 0)(81 := 5)"

definition log_demo :: "bytes_mem \<times> mod_log_w_set" where
  "log_demo = (log_demo0(65 := 7, 81 := 9),
     \<lparr>lw_entries = [TYPE_INT 64 (deref log_demo0 64), TYPE_BYTES 80 (read_bytes (log_demo0(65 := 7)) 80 2)],
      lw_size = 1024, lw_allocated = 1\<rparr>)"

lemma log_demo_run: "log_run log_demo0 log_demo"
proof -
  let ?w = "TYPE_INT 64 (deref log_demo0 64)" and ?m = "log_demo0(65 := 7)"
  let ?b = "TYPE_BYTES 80 (read_bytes (\<lambda>_. 0) 80 2)"
  have 1: "log_run (\<lambda>_. 0) (\<lambda>_. 0, \<lparr>lw_entries = [?b], lw_size = 1024, lw_allocated = 1\<rparr>)"
    by (rule log_run.step [OF log_run.start, of "LogBytes 80 2"])
      (simp_all add: stm_log_bytes_def add_entry_def get_entry_def mod_log_on_thread_init_def LW_SET_SIZE_def)
  have 2: "log_run (\<lambda>_. 0) (log_demo0, \<lparr>lw_entries = [?b], lw_size = 1024, lw_allocated = 1\<rparr>)"
    by (rule log_run.step [OF 1, of "Store 81 5"]) (simp_all add: covers_def read_bytes_def log_demo0_def)
  have 3: "log_run log_demo0 (log_demo0, \<lparr>lw_entries = [], lw_size = 1024, lw_allocated = 0\<rparr>)"
    by (rule log_run.commit [OF 2]) (simp add: mod_log_on_commit_def)
  have 4: "log_run log_demo0 (log_demo0, \<lparr>lw_entries = [?w], lw_size = 1024, lw_allocated = 0\<rparr>)"
    by (rule log_run.step [OF 3, of "Log T_INT 64"])
      (simp_all add: full_width_def stm_log_int_def add_entry_def get_entry_def)
  have 5: "log_run log_demo0 (?m, \<lparr>lw_entries = [?w], lw_size = 1024, lw_allocated = 0\<rparr>)"
    by (rule log_run.step [OF 4, of "Store 65 7"]) (simp_all add: covers_def)
  have 6: "log_run log_demo0 (?m, \<lparr>lw_entries = [?w, TYPE_BYTES 80 (read_bytes ?m 80 2)], lw_size = 1024, lw_allocated = 1\<rparr>)"
    by (rule log_run.step [OF 5, of "LogBytes 80 2"])
      (simp_all add: stm_log_bytes_def add_entry_def get_entry_def)
  show ?thesis
    unfolding log_demo_def
    by (rule log_run.step [OF 6, of "Store 81 9"]) (simp_all add: covers_def read_bytes_def)
qed

theorem log_abort_restores_witness:
  "fst (mod_log_on_abort log_demo) = log_demo0 \<and> lw_allocated (snd (mod_log_on_abort log_demo)) = 0 \<and> fst log_demo 81 = 9"
  using log_abort_restores [of log_demo0 "fst log_demo" "snd log_demo"] log_demo_run by simp (simp add: log_demo_def)

text \<open>A transaction commits from any such state, and the log never outgrows its array.\<close>

theorem log_commit_erases:
  assumes "log_run m0 (m, ws)"
  shows "mod_log_on_commit ws = Some \<lparr>lw_entries = [], lw_size = lw_size ws, lw_allocated = 0\<rparr> \<and>
    length (lw_entries ws) \<le> lw_size ws"
  using commit_erases log_run_inv [OF assms] by (auto simp: log_inv_def)

theorem log_commit_erases_witness:
  "mod_log_on_commit (snd log_demo) = Some \<lparr>lw_entries = [], lw_size = lw_size (snd log_demo), lw_allocated = 0\<rparr> \<and>
   length (lw_entries (snd log_demo)) \<le> lw_size (snd log_demo)"
  using log_commit_erases [of log_demo0 "fst log_demo" "snd log_demo"] log_demo_run by simp

section \<open>Where the log fails\<close>

text \<open>
  The entries for 16-, 32- and 64-bit unsigned integers keep one byte of the old value: a
  transaction that logs a \<^verbatim>\<open>uint16_t\<close> and changes nothing corrupts it by aborting.
\<close>

theorem log_u16_truncates:
  "\<exists>ws. stm_log_u16 True (\<lambda>_. 1) 64 mod_log_on_thread_init = Inr ws \<and>
     fst (mod_log_on_abort (\<lambda>_. 1, ws)) 65 = 0"
proof -
  let ?v = "ucast (deref (\<lambda>_. 1) 64 :: 16 word) :: 8 word"
  have "?v = 1"
    by (simp add: deref_def read_bytes_def of_bytes_def upt_rec)
  then have "to_bytes (scast ?v :: 16 word) ! 1 = 0"
    by (simp add: to_bytes_def)
  then have "fst (mod_log_on_abort (\<lambda>_. 1, \<lparr>lw_entries = [TYPE_U16 64 ?v], lw_size = 1024, lw_allocated = 0\<rparr>)) 65 = 0"
    by (simp add: mod_log_on_abort_def assign_def write_bytes_def)
  then show ?thesis
    by (simp add: stm_log_u16_def add_entry_def get_entry_def mod_log_on_thread_init_def LW_SET_SIZE_def)
qed

text \<open>
  The abort does not erase the log: the entries are still there for the next attempt, and if
  that aborts as well, the stale values are written over whatever memory holds by then.
\<close>

theorem log_abort_replays:
  "lw_entries (snd (mod_log_on_abort (m, ws))) = lw_entries ws \<and>
   fst (mod_log_on_abort (m2, snd (mod_log_on_abort (m, ws)))) = fold undo_entry (rev (lw_entries ws)) m2"
proof -
  have "lw_entries (snd (mod_log_on_abort (m, ws))) = lw_entries ws" for m ws
    by (auto simp: mod_log_on_abort_def split: prod.splits)
  moreover have "fst (mod_log_on_abort (m, ws)) = fold undo_entry (rev (lw_entries ws)) m" for m ws
    using fst_undo_all [of "rev (lw_entries ws)" m "lw_allocated ws"]
    by (cases "undo_all (rev (lw_entries ws)) (m, lw_allocated ws)") (simp add: mod_log_on_abort_def)
  ultimately show ?thesis by simp
qed

end
