(* ===== verification/Mod_Stats.thy ===== *)
theory Mod_Stats
  imports Stm_Prelude
begin

text \<open>
  Statistics about transactions, \<^verbatim>\<open>tinySTM/src/mod_stats.c\<close> without the learning extension: each thread
  counts its commits and aborts; when it exits it adds its counts to the global ones, with atomic
  additions and compare-and-swap loops for the extrema. Counters are \<^verbatim>\<open>unsigned long\<close>. The exits of
  several threads interleave at each atomic access.
\<close>

section \<open>Counters of a thread\<close>

record mod_stats_data =
  commits :: "64 word"
  retries :: "64 word"
  retries_min :: "64 word"
  retries_max :: "64 word"
  retries_acc :: "64 word"
  retries_cnt :: "64 word"
  early_aborts :: "64 word"
  readset_size :: "64 word"

text \<open>\<open>raw\<close> is the contents of the memory returned by \<^verbatim>\<open>malloc\<close>: two fields are not initialised.\<close>

definition mod_stats_on_thread_init :: "mod_stats_data \<Rightarrow> mod_stats_data" where
  "mod_stats_on_thread_init raw = raw\<lparr>commits := 0, retries := 0, retries_acc := 0, retries_cnt := 0,
     retries_min := - 1, retries_max := 0\<rparr>"

text \<open>\<open>early\<close> is \<^verbatim>\<open>thread_tx->aborts_early\<close> (in a build with early aborts), \<open>n\<close> the size of the read set.\<close>

definition mod_stats_on_commit :: "64 word option \<Rightarrow> 64 word \<Rightarrow> mod_stats_data \<Rightarrow> mod_stats_data" where
  "mod_stats_on_commit early n s =
    (let s = s\<lparr>commits := commits s + 1, retries_acc := retries_acc s + retries s, retries_cnt := retries_cnt s + 1\<rparr>;
         s = (if retries_min s > retries s then s\<lparr>retries_min := retries s\<rparr> else s);
         s = (if retries_max s < retries s then s\<lparr>retries_max := retries s\<rparr> else s);
         s = s\<lparr>retries := 0\<rparr>;
         s = (case early of Some e \<Rightarrow> s\<lparr>early_aborts := e\<rparr> | None \<Rightarrow> s)
     in s\<lparr>readset_size := readset_size s + n\<rparr>)"

definition mod_stats_on_abort :: "64 word \<Rightarrow> mod_stats_data \<Rightarrow> mod_stats_data" where
  "mod_stats_on_abort n s = s\<lparr>retries := retries s + 1, readset_size := readset_size s + n\<rparr>"

definition mod_stats_global :: mod_stats_data where
  "mod_stats_global = \<lparr>commits = 0, retries = 0, retries_min = - 1, retries_max = 0, retries_acc = 0, retries_cnt = 0,
     early_aborts = 0, readset_size = 0\<rparr>"

text \<open>Inquiries by name; averages are returned as dividend and divisor.\<close>

datatype stat_value = Count "64 word" | Ratio "64 word" "64 word"
datatype stats_error = StatsNotInitialized

definition stm_get_global_stats :: "bool \<Rightarrow> string \<Rightarrow> mod_stats_data \<Rightarrow> stats_error + stat_value option" where
  "stm_get_global_stats init name g = (if \<not> init then Inl StatsNotInitialized else Inr
    (if name = ''global_nb_commits'' then Some (Count (commits g))
     else if name = ''global_nb_aborts'' then Some (Count (retries_acc g))
     else if name = ''global_max_retries'' then Some (Count (retries_max g))
     else if name = ''global_early_aborts'' then Some (Count (early_aborts g))
     else if name = ''global_readset_size'' then Some (Ratio (readset_size g) (commits g + retries_acc g))
     else None))"

definition stm_get_local_stats :: "bool \<Rightarrow> string \<Rightarrow> mod_stats_data \<Rightarrow> stats_error + stat_value option" where
  "stm_get_local_stats init name s = (if \<not> init then Inl StatsNotInitialized else Inr
    (if name = ''nb_commits'' then Some (Count (commits s))
     else if name = ''nb_aborts'' then Some (Count (retries_acc s))
     else if name = ''nb_retries_avg'' then Some (Ratio (retries_acc s) (retries_cnt s))
     else if name = ''nb_retries_min'' then Some (Count (retries_min s))
     else if name = ''nb_retries_max'' then Some (Count (retries_max s))
     else None))"

section \<open>Exits of threads\<close>

datatype exit_pc = X_commits | X_cnt | X_acc | X_max | X_max_cas "64 word" | X_min | X_min_cas "64 word"
  | X_early | X_readset | X_done

text \<open>One atomic access of \<^verbatim>\<open>mod_stats_on_thread_exit\<close> by a thread with the counters \<open>l\<close>.\<close>

fun mod_stats_on_thread_exit :: "mod_stats_data \<Rightarrow> exit_pc \<times> mod_stats_data \<Rightarrow> exit_pc \<times> mod_stats_data" where
  "mod_stats_on_thread_exit l (X_commits, g) = (X_cnt, g\<lparr>commits := commits g + commits l\<rparr>)"
| "mod_stats_on_thread_exit l (X_cnt, g) = (X_acc, g\<lparr>retries_cnt := retries_cnt g + retries_cnt l\<rparr>)"
| "mod_stats_on_thread_exit l (X_acc, g) = (X_max, g\<lparr>retries_acc := retries_acc g + retries_acc l\<rparr>)"
| "mod_stats_on_thread_exit l (X_max, g) =
     (if retries_max l > retries_max g then X_max_cas (retries_max g) else X_min, g)"
| "mod_stats_on_thread_exit l (X_max_cas old, g) =
     (if retries_max g = old then (X_min, g\<lparr>retries_max := retries_max l\<rparr>) else (X_max, g))"
| "mod_stats_on_thread_exit l (X_min, g) =
     (if retries_min l < retries_min g then X_min_cas (retries_min g) else X_early, g)"
| "mod_stats_on_thread_exit l (X_min_cas old, g) =
     (if retries_min g = old then (X_early, g\<lparr>retries_min := retries_min l\<rparr>) else (X_min, g))"
| "mod_stats_on_thread_exit l (X_early, g) = (X_readset, g\<lparr>early_aborts := early_aborts g + early_aborts l\<rparr>)"
| "mod_stats_on_thread_exit l (X_readset, g) = (X_done, g\<lparr>readset_size := readset_size g + readset_size l\<rparr>)"
| "mod_stats_on_thread_exit l (X_done, g) = (X_done, g)"

record exits =
  xglob :: mod_stats_data
  xpc :: "tid \<Rightarrow> exit_pc"

text \<open>The threads of \<open>ts\<close>, with the counters \<open>l t\<close>, exit in any order and interleaving.\<close>

inductive exits_run :: "tid set \<Rightarrow> (tid \<Rightarrow> mod_stats_data) \<Rightarrow> exits \<Rightarrow> bool" for ts l where
  start: "exits_run ts l \<lparr>xglob = mod_stats_global, xpc = (\<lambda>_. X_commits)\<rparr>"
| step: "exits_run ts l x \<Longrightarrow> t \<in> ts \<Longrightarrow> mod_stats_on_thread_exit (l t) (xpc x t, xglob x) = (p, g) \<Longrightarrow>
    exits_run ts l \<lparr>xglob = g, xpc = (xpc x)(t := p)\<rparr>"

text \<open>How far a thread has come.\<close>

fun stage :: "exit_pc \<Rightarrow> nat" where
  "stage X_commits = 0" | "stage X_cnt = 1" | "stage X_acc = 2" | "stage X_max = 3" | "stage (X_max_cas _) = 3"
| "stage X_min = 4" | "stage (X_min_cas _) = 4" | "stage X_early = 5" | "stage X_readset = 6" | "stage X_done = 7"

definition past :: "tid set \<Rightarrow> exits \<Rightarrow> nat \<Rightarrow> tid set" where
  "past ts x n = {t \<in> ts. stage (xpc x t) > n}"

definition extremum :: "('a::linorder \<Rightarrow> 'a \<Rightarrow> bool) \<Rightarrow> 'a \<Rightarrow> 'a set \<Rightarrow> bool" where
  "extremum le m A \<longleftrightarrow> m \<in> A \<and> (\<forall>a\<in>A. le a m)"

text \<open>The invariant of each field of the global counters, and of the values read for a swap.\<close>

definition summed :: "(mod_stats_data \<Rightarrow> 64 word) \<Rightarrow> nat \<Rightarrow> tid set \<Rightarrow> (tid \<Rightarrow> mod_stats_data) \<Rightarrow> exits \<Rightarrow> bool" where
  "summed f n ts l x \<longleftrightarrow> f (xglob x) = (\<Sum>t\<in>past ts x n. f (l t))"

definition max_inv :: "tid set \<Rightarrow> (tid \<Rightarrow> mod_stats_data) \<Rightarrow> exits \<Rightarrow> bool" where
  "max_inv ts l x \<longleftrightarrow> extremum (\<le>) (retries_max (xglob x)) (insert 0 ((\<lambda>t. retries_max (l t)) ` past ts x 3)) \<and>
     (\<forall>t\<in>ts. \<forall>old. xpc x t = X_max_cas old \<longrightarrow> old < retries_max (l t))"

definition min_inv :: "tid set \<Rightarrow> (tid \<Rightarrow> mod_stats_data) \<Rightarrow> exits \<Rightarrow> bool" where
  "min_inv ts l x \<longleftrightarrow> extremum (\<ge>) (retries_min (xglob x)) (insert (- 1) ((\<lambda>t. retries_min (l t)) ` past ts x 4)) \<and>
     (\<forall>t\<in>ts. \<forall>old. xpc x t = X_min_cas old \<longrightarrow> retries_min (l t) < old)"

definition exits_inv :: "tid set \<Rightarrow> (tid \<Rightarrow> mod_stats_data) \<Rightarrow> exits \<Rightarrow> bool" where
  "exits_inv ts l x \<longleftrightarrow> summed commits 0 ts l x \<and> summed retries_cnt 1 ts l x \<and> summed retries_acc 2 ts l x \<and>
     max_inv ts l x \<and> min_inv ts l x \<and> summed early_aborts 5 ts l x \<and> summed readset_size 6 ts l x"

text \<open>A step either stays at its stage or moves on to the next.\<close>

lemma past_same:
  assumes "t \<in> ts" "stage p > n \<longleftrightarrow> stage (xpc x t) > n"
  shows "past ts \<lparr>xglob = g, xpc = (xpc x)(t := p)\<rparr> n = past ts x n"
  using assms by (auto simp: past_def)

lemma past_next:
  assumes "t \<in> ts" "stage (xpc x t) = n" "stage p = Suc n"
  shows "past ts \<lparr>xglob = g, xpc = (xpc x)(t := p)\<rparr> n = insert t (past ts x n)" "t \<notin> past ts x n"
  using assms by (auto simp: past_def)

lemma past_finite [simp]: "finite ts \<Longrightarrow> finite (past ts x n)"
  by (simp add: past_def)

lemma extremum_insert:
  assumes "extremum le m A" "\<And>a. le a a" "\<And>a b c. le a b \<Longrightarrow> le b c \<Longrightarrow> le a c"
    "m' = b \<and> le m b \<or> m' = m \<and> le b m"
  shows "extremum le m' (insert b A)"
proof -
  have m: "m \<in> A" "\<And>a. a \<in> A \<Longrightarrow> le a m"
    using assms(1) by (simp_all add: extremum_def)
  from assms(4) show ?thesis
  proof
    assume "m' = b \<and> le m b"
    then show ?thesis
      using assms(2) assms(3) [OF m(2)] by (auto simp: extremum_def)
  next
    assume "m' = m \<and> le b m"
    then show ?thesis
      using m by (auto simp: extremum_def)
  qed
qed

lemma summed_step:
  assumes "summed f n ts l x" "finite ts" "t \<in> ts"
    "if stage (xpc x t) = n then stage p = Suc n \<and> f g = f (xglob x) + f (l t)
     else (stage p > n \<longleftrightarrow> stage (xpc x t) > n) \<and> f g = f (xglob x)"
  shows "summed f n ts l \<lparr>xglob = g, xpc = (xpc x)(t := p)\<rparr>"
proof (cases "stage (xpc x t) = n")
  case True
  then have "past ts \<lparr>xglob = g, xpc = (xpc x)(t := p)\<rparr> n = insert t (past ts x n)" "t \<notin> past ts x n"
    using past_next(1) [OF assms(3) True, of p g] past_next(2) [OF assms(3) True, of p] assms(4) True by simp_all
  then show ?thesis
    using assms True by (simp add: summed_def)
next
  case False
  then have "past ts \<lparr>xglob = g, xpc = (xpc x)(t := p)\<rparr> n = past ts x n"
    using past_same [OF assms(3)] assms(4) by simp
  then show ?thesis
    using assms(1,4) False by (simp add: summed_def)
qed

lemma exit_sums:
  assumes "mod_stats_on_thread_exit l0 (q, g0) = (p, g)" "(f, n) \<in> {(commits, 0), (retries_cnt, 1), (retries_acc, 2), (early_aborts, 5), (readset_size, 6)}"
  shows "if stage q = n then stage p = Suc n \<and> f g = f g0 + f l0 else (stage p > n \<longleftrightarrow> stage q > n) \<and> f g = f g0"
  using assms by (cases q) (auto split: if_splits)

lemma extremum_step:
  assumes "extremum le m (insert z (h ` past ts x n))" "t \<in> ts" "\<And>a. le a (a :: 64 word)" "\<And>a b c. le a b \<Longrightarrow> le b c \<Longrightarrow> le a c"
    "(stage p > n \<longleftrightarrow> stage (xpc x t) > n) \<and> m' = m \<or>
     stage (xpc x t) = n \<and> stage p = Suc n \<and> (m' = h t \<and> le m (h t) \<or> m' = m \<and> le (h t) m)"
  shows "extremum le m' (insert z (h ` past ts \<lparr>xglob = g, xpc = (xpc x)(t := p)\<rparr> n))"
  using assms(5)
proof (elim disjE)
  assume "(stage p > n \<longleftrightarrow> stage (xpc x t) > n) \<and> m' = m"
  then show ?thesis
    using assms(1) past_same [OF assms(2)] by simp
next
  assume c: "stage (xpc x t) = n \<and> stage p = Suc n \<and> (m' = h t \<and> le m (h t) \<or> m' = m \<and> le (h t) m)"
  then have "past ts \<lparr>xglob = g, xpc = (xpc x)(t := p)\<rparr> n = insert t (past ts x n)"
    using past_next(1) [OF assms(2)] by simp
  then have "insert z (h ` past ts \<lparr>xglob = g, xpc = (xpc x)(t := p)\<rparr> n) = insert (h t) (insert z (h ` past ts x n))"
    by (simp add: insert_commute)
  then show ?thesis
    using extremum_insert [OF assms(1,3,4)] c by simp
qed

lemma max_step:
  assumes "max_inv ts l x" "t \<in> ts" "mod_stats_on_thread_exit (l t) (xpc x t, xglob x) = (p, g)"
  shows "max_inv ts l \<lparr>xglob = g, xpc = (xpc x)(t := p)\<rparr>"
proof -
  have cas: "xpc x t = X_max_cas old \<Longrightarrow> old < retries_max (l t)" for old
    using assms(1,2) by (simp add: max_inv_def)
  have "(stage p > 3 \<longleftrightarrow> stage (xpc x t) > 3) \<and> retries_max g = retries_max (xglob x) \<or>
      stage (xpc x t) = 3 \<and> stage p = Suc 3 \<and> (retries_max g = retries_max (l t) \<and> retries_max (xglob x) \<le> retries_max (l t) \<or>
        retries_max g = retries_max (xglob x) \<and> retries_max (l t) \<le> retries_max (xglob x))"
    using assms(3) cas by (cases "xpc x t") (auto split: if_splits intro: less_imp_le)
  then have "extremum (\<le>) (retries_max g) (insert 0 ((\<lambda>t. retries_max (l t)) ` past ts \<lparr>xglob = g, xpc = (xpc x)(t := p)\<rparr> 3))"
    using assms(1) by (intro extremum_step [OF _ assms(2)]) (auto simp: max_inv_def)
  moreover have "p = X_max_cas old \<Longrightarrow> old < retries_max (l t)" for old
    using assms(3) by (cases "xpc x t") (auto split: if_splits)
  ultimately show ?thesis
    using assms(1) by (simp add: max_inv_def)
qed

lemma min_step:
  assumes "min_inv ts l x" "t \<in> ts" "mod_stats_on_thread_exit (l t) (xpc x t, xglob x) = (p, g)"
  shows "min_inv ts l \<lparr>xglob = g, xpc = (xpc x)(t := p)\<rparr>"
proof -
  have cas: "xpc x t = X_min_cas old \<Longrightarrow> retries_min (l t) < old" for old
    using assms(1,2) by (simp add: min_inv_def)
  have "(stage p > 4 \<longleftrightarrow> stage (xpc x t) > 4) \<and> retries_min g = retries_min (xglob x) \<or>
      stage (xpc x t) = 4 \<and> stage p = Suc 4 \<and> (retries_min g = retries_min (l t) \<and> retries_min (xglob x) \<ge> retries_min (l t) \<or>
        retries_min g = retries_min (xglob x) \<and> retries_min (l t) \<ge> retries_min (xglob x))"
    using assms(3) cas by (cases "xpc x t") (auto split: if_splits intro: less_imp_le)
  then have "extremum (\<ge>) (retries_min g) (insert (- 1) ((\<lambda>t. retries_min (l t)) ` past ts \<lparr>xglob = g, xpc = (xpc x)(t := p)\<rparr> 4))"
    using assms(1) by (intro extremum_step [OF _ assms(2)]) (auto simp: min_inv_def)
  moreover have "p = X_min_cas old \<Longrightarrow> retries_min (l t) < old" for old
    using assms(3) by (cases "xpc x t") (auto split: if_splits)
  ultimately show ?thesis
    using assms(1) by (simp add: min_inv_def)
qed

lemma exits_run_inv: "exits_run ts l x \<Longrightarrow> finite ts \<Longrightarrow> exits_inv ts l x"
proof (induction rule: exits_run.induct)
  case start
  have "past ts \<lparr>xglob = mod_stats_global, xpc = (\<lambda>_. X_commits)\<rparr> n = {}" for n
    by (simp add: past_def)
  then show ?case
    by (simp add: exits_inv_def summed_def max_inv_def min_inv_def extremum_def mod_stats_global_def)
next
  case (step x t p g)
  then have inv: "exits_inv ts l x" by simp
  have "summed f n ts l \<lparr>xglob = g, xpc = (xpc x)(t := p)\<rparr>"
    if "(f, n) \<in> {(commits, 0), (retries_cnt, 1), (retries_acc, 2), (early_aborts, 5), (readset_size, 6)}" "summed f n ts l x" for f n
    using summed_step [OF that(2) step.prems step.hyps(2)] exit_sums [OF step.hyps(3) that(1)] by blast
  then show ?case
    using inv max_step [of ts l x t p g] min_step [of ts l x t p g] step.hyps(2,3) by (simp add: exits_inv_def)
qed

section \<open>Counting the transactions of a thread\<close>

datatype tx_end = Committed "64 word option" "64 word" | Aborted "64 word"

fun count_tx :: "tx_end \<Rightarrow> mod_stats_data \<Rightarrow> mod_stats_data" where
  "count_tx (Committed early n) s = mod_stats_on_commit early n s"
| "count_tx (Aborted n) s = mod_stats_on_abort n s"

text \<open>The aborts of each committed transaction, and those since the last commit.\<close>

fun retry_counts :: "tx_end list \<Rightarrow> nat list \<times> nat" where
  "retry_counts [] = ([], 0)"
| "retry_counts (e # es) = (let (rs, k) = retry_counts es in
     case e of Committed _ _ \<Rightarrow> (k # rs, 0) | Aborted _ \<Rightarrow> (rs, Suc k))"

lemma retry_counts_bound: "retry_counts es = (rs, k) \<Longrightarrow> sum_list rs + k + length rs = length es"
  by (induction es arbitrary: rs k) (auto split: prod.splits tx_end.splits)

definition counted :: "nat list \<times> nat \<Rightarrow> mod_stats_data \<Rightarrow> bool" where
  "counted rk s \<longleftrightarrow> commits s = of_nat (length (fst rk)) \<and> retries_cnt s = of_nat (length (fst rk)) \<and>
     retries s = of_nat (snd rk) \<and> retries_acc s = of_nat (sum_list (fst rk)) \<and>
     retries_max s = of_nat (Max (set (0 # fst rk))) \<and>
     retries_min s = (if fst rk = [] then - 1 else of_nat (Min (set (fst rk))))"

lemma of_nat_less_64: "a < 2 ^ 64 \<Longrightarrow> b < 2 ^ 64 \<Longrightarrow> (of_nat a :: 64 word) < of_nat b \<longleftrightarrow> a < b"
  by (simp add: word_less_nat_alt unsigned_of_nat take_bit_nat_eq_self)

lemma counted_commit:
  assumes "counted (rs, k) s" "\<forall>r\<in>set (k # rs). r < 2 ^ 64 - 1"
  shows "counted (k # rs, 0) (mod_stats_on_commit early n s)"
proof -
  have less: "r < 2 ^ 64" if "r \<in> set (0 # k # rs)" for r
    using assms(2) that by fastforce
  have M: "Max (set (0 # rs)) \<in> set (0 # k # rs)"
    using Max_in [of "set (0 # rs)"] by auto
  have mx: "(retries_max s < retries s) = (Max (set (0 # rs)) < k)"
    using assms(1) of_nat_less_64 [OF less [OF M] less, of k] by (simp add: counted_def)
  have mn: "(retries_min s > retries s) = (rs = [] \<or> Min (set rs) > k)"
  proof (cases "rs = []")
    case True
    have "(- 1 :: 64 word) = of_nat (2 ^ 64 - 1)" by simp
    moreover have "(of_nat k :: 64 word) < of_nat (2 ^ 64 - 1)"
      using assms(2) by (subst of_nat_less_64) simp_all
    ultimately have "(of_nat k :: 64 word) < - 1" by (simp only:)
    then show ?thesis using assms(1) True by (simp add: counted_def)
  next
    case False
    then have "Min (set rs) \<in> set (0 # k # rs)"
      using Min_in [of "set rs"] by simp
    then show ?thesis
      using assms(1) False of_nat_less_64 [OF less [of k] less, of "Min (set rs)"] by (simp add: counted_def)
  qed
  have m: "max k x = (if x < k then k else x)" for x :: nat
    by (simp add: max_def)
  have "Max (insert k (insert 0 (set rs))) = max k (Max (insert 0 (set rs)))"
    by (rule Max_insert) simp_all
  then have "Max (insert 0 (insert k (set rs))) = (if Max (insert 0 (set rs)) < k then k else Max (insert 0 (set rs)))"
    by (simp only: m insert_commute [of 0 k])
  moreover have "Min (insert k (set rs)) = (if Min (set rs) > k then k else Min (set rs))" if "rs \<noteq> []"
  proof -
    have "Min (insert k (set rs)) = min k (Min (set rs))"
      using that by (intro Min_insert) simp_all
    moreover have "min k x = (if x > k then k else x)" for x
      by (simp add: min_def)
    ultimately show ?thesis by (simp only:)
  qed
  ultimately show ?thesis
    using assms(1) mx mn
    by (cases "rs = []") (auto simp: counted_def mod_stats_on_commit_def Let_def split: option.splits)
qed

lemma counted_run:
  "length es < 2 ^ 64 - 1 \<Longrightarrow> counted (retry_counts es) (foldr count_tx es (mod_stats_on_thread_init raw))"
proof (induction es)
  case Nil
  then show ?case by (simp add: counted_def mod_stats_on_thread_init_def)
next
  case (Cons e es)
  obtain rs k where rk: "retry_counts es = (rs, k)" by fastforce
  have IH: "counted (rs, k) (foldr count_tx es (mod_stats_on_thread_init raw))"
    using Cons rk by simp
  have "r \<le> sum_list rs + k" if "r \<in> set (k # rs)" for r
    using that member_le_sum_list [of r rs] by auto
  then have b: "\<forall>r\<in>set (k # rs). r < 2 ^ 64 - 1"
    using retry_counts_bound [OF rk] Cons.prems by fastforce
  show ?case
  proof (cases e)
    case (Committed early n)
    then show ?thesis
      using counted_commit [OF IH b] rk by simp
  next
    case (Aborted n)
    then show ?thesis
      using IH rk by (simp add: counted_def mod_stats_on_abort_def add.commute)
  qed
qed

section \<open>Properties\<close>

text \<open>
  The counters of a thread count: after any sequence of commits and aborts (latest first, fewer
  than the counters can hold) they are the number of commits, the aborts of the transactions that
  committed, and the least and greatest number of aborts of such a transaction.
\<close>

theorem stats_count_retries:
  assumes "length es < 2 ^ 64 - 1" "retry_counts es = (rs, k)"
    "s = foldr count_tx es (mod_stats_on_thread_init raw)"
  shows "commits s = of_nat (length rs) \<and> retries s = of_nat k \<and> retries_acc s = of_nat (sum_list rs) \<and>
    retries_max s = of_nat (Max (set (0 # rs))) \<and> retries_min s = (if rs = [] then - 1 else of_nat (Min (set rs)))"
  using counted_run [OF assms(1), of raw] assms(2,3) by (simp add: counted_def)

theorem stats_count_retries_witness:
  "let s = foldr count_tx [Aborted 2, Committed None 4, Aborted 1, Aborted 7, Committed None 3] (mod_stats_on_thread_init mod_stats_global)
   in commits s = 2 \<and> retries s = 1 \<and> retries_acc s = 2 \<and> retries_max s = 2 \<and> retries_min s = 0"
  using stats_count_retries [of "[Aborted 2, Committed None 4, Aborted 1, Aborted 7, Committed None 3]" "[2, 0]" 1 _ mod_stats_global]
  by simp

text \<open>
  C24. Nothing is lost when threads exit concurrently: however the atomic accesses of the exiting
  threads interleave, once all are through the global counters are the sums of theirs, and the
  global extrema are the extrema over all threads.
\<close>

theorem stats_aggregate:
  assumes "exits_run ts l x" "finite ts" "\<forall>t\<in>ts. xpc x t = X_done"
  shows "commits (xglob x) = (\<Sum>t\<in>ts. commits (l t)) \<and> retries_cnt (xglob x) = (\<Sum>t\<in>ts. retries_cnt (l t)) \<and>
    retries_acc (xglob x) = (\<Sum>t\<in>ts. retries_acc (l t)) \<and>
    retries_max (xglob x) = Max (insert 0 ((\<lambda>t. retries_max (l t)) ` ts)) \<and>
    retries_min (xglob x) = Min (insert (- 1) ((\<lambda>t. retries_min (l t)) ` ts))"
proof -
  have p: "past ts x n = ts" if "n < 7" for n
    using assms(3) that by (auto simp: past_def)
  have inv: "exits_inv ts l x"
    by (rule exits_run_inv [OF assms(1,2)])
  have "retries_max (xglob x) = Max (insert 0 ((\<lambda>t. retries_max (l t)) ` ts))"
    using inv assms(2) by (intro Max_eqI [symmetric]) (auto simp: exits_inv_def max_inv_def extremum_def p)
  moreover have "retries_min (xglob x) = Min (insert (- 1) ((\<lambda>t. retries_min (l t)) ` ts))"
    using inv assms(2) by (intro Min_eqI [symmetric]) (auto simp: exits_inv_def min_inv_def extremum_def p)
  ultimately show ?thesis
    using inv by (simp add: exits_inv_def summed_def p)
qed

text \<open>A thread that makes nine steps by itself is through.\<close>

lemma exits_solo:
  assumes "exits_run ts l x" "t \<in> ts"
  shows "exits_run ts l \<lparr>xglob = snd ((mod_stats_on_thread_exit (l t) ^^ n) (xpc x t, xglob x)),
    xpc = (xpc x)(t := fst ((mod_stats_on_thread_exit (l t) ^^ n) (xpc x t, xglob x)))\<rparr>"
proof (induction n)
  case 0
  then show ?case using assms(1) by (cases x) simp
next
  case (Suc n)
  then show ?case
    using exits_run.step [OF Suc assms(2), of "fst ((mod_stats_on_thread_exit (l t) ^^ Suc n) (xpc x t, xglob x))"
        "snd ((mod_stats_on_thread_exit (l t) ^^ Suc n) (xpc x t, xglob x))"] by (simp add: fun_upd_def cong: if_cong)
qed

definition exits_demo :: exits where
  "exits_demo = \<lparr>xglob = mod_stats_global\<lparr>commits := 5, retries_acc := 4, retries_cnt := 5\<rparr>,
     xpc = (\<lambda>_. X_commits)(0 := X_done)\<rparr>"

definition counters_demo :: mod_stats_data where
  "counters_demo = mod_stats_global\<lparr>commits := 5, retries_acc := 4, retries_cnt := 5\<rparr>"

lemma exits_demo_run: "exits_run {0} (\<lambda>_. counters_demo) exits_demo"
  using exits_solo [OF exits_run.start, of 0 "{0}" "\<lambda>_. counters_demo"
      "Suc (Suc (Suc (Suc (Suc (Suc (Suc 0))))))"]
  by (simp add: exits_demo_def counters_demo_def mod_stats_global_def)

theorem stats_aggregate_witness:
  "commits (xglob exits_demo) = (\<Sum>t\<in>{0 :: tid}. commits counters_demo) \<and>
   retries_max (xglob exits_demo) = Max (insert 0 ((\<lambda>t. retries_max counters_demo) ` {0 :: tid}))"
  using stats_aggregate [OF exits_demo_run] by (simp add: exits_demo_def)

text \<open>
  The size of the read sets is reported on top of whatever \<^verbatim>\<open>malloc\<close> returned: the field is added
  to without ever being initialised, and the global average inherits it.
\<close>

theorem stats_readset_uninitialised:
  "readset_size (mod_stats_on_commit early n (mod_stats_on_thread_init raw)) = readset_size raw + n"
  by (simp add: mod_stats_on_commit_def mod_stats_on_thread_init_def Let_def split: option.splits)

end
