(* ===== verification/Quiescence.thy ===== *)
theory Quiescence
  imports Stm_Prelude
begin

text \<open>
  The list of registered threads and the barrier at which they stop for the clock to be reset:
  \<^verbatim>\<open>stm_quiesce_init\<close>, \<^verbatim>\<open>stm_quiesce_enter_thread\<close>, \<^verbatim>\<open>stm_quiesce_exit_thread\<close> and \<^verbatim>\<open>stm_quiesce_barrier\<close>
  of \<^verbatim>\<open>tinySTM/src/stm.c\<close>. All of them run under one mutex, so each critical section is one step; a
  thread leaves its critical section in the middle only by waiting on the condition variable.
  A waiting thread is woken by a signal, a broadcast or for no reason; it then takes the mutex again
  and goes on in the loop of the barrier. Each step says whether it called the function \<^verbatim>\<open>f\<close>
  (\<open>rollover_clock\<close> in both uses).

  The protocol of \<open>Stm_Steps\<close> resets the clock in one step once every registered thread is at the
  barrier; the theorems here show that the barrier provides this.
\<close>

section \<open>State and operations\<close>

datatype barrier_pc = Outside | Waiting | Awake

record quiesce_state =
  threads :: "tid list"
  threads_count :: int
  quiesce :: nat
  barrier_at :: "tid \<Rightarrow> barrier_pc"

definition stm_quiesce_init :: quiesce_state where
  "stm_quiesce_init = \<lparr>threads = [], threads_count = 0, quiesce = 0, barrier_at = (\<lambda>_. Outside)\<rparr>"

definition stm_quiesce_enter_thread :: "tid \<Rightarrow> quiesce_state \<Rightarrow> quiesce_state" where
  "stm_quiesce_enter_thread t q = q\<lparr>threads := t # threads q, threads_count := threads_count q + 1\<rparr>"

text \<open>The walk along the list; \<open>None\<close> when it runs off the end.\<close>

fun unlink :: "tid \<Rightarrow> tid list \<Rightarrow> tid list option" where
  "unlink t [] = None"
| "unlink t (u # us) = (if u = t then Some us else map_option (Cons u) (unlink t us))"

definition wake :: "tid \<Rightarrow> quiesce_state \<Rightarrow> quiesce_state" where
  "wake w q = q\<lparr>barrier_at := (barrier_at q)(w := Awake)\<rparr>"

text \<open>\<open>w\<close> is the waiting thread that \<^verbatim>\<open>pthread_cond_signal\<close> chooses, if there is any.\<close>

definition stm_quiesce_exit_thread :: "tid \<Rightarrow> tid option \<Rightarrow> quiesce_state \<Rightarrow> quiesce_state option" where
  "stm_quiesce_exit_thread t w q = (case unlink t (threads q) of
     None \<Rightarrow> None
   | Some us \<Rightarrow>
       let q = q\<lparr>threads := us, threads_count := threads_count q - 1\<rparr> in
       Some (if quiesce q \<noteq> 0 then (case w of None \<Rightarrow> q | Some v \<Rightarrow> wake v q) else q))"

definition broadcast :: "quiesce_state \<Rightarrow> quiesce_state" where
  "broadcast q = q\<lparr>barrier_at := (\<lambda>u. if barrier_at q u = Waiting then Awake else barrier_at q u)\<rparr>"

definition leave_loop :: "tid \<Rightarrow> quiesce_state \<Rightarrow> quiesce_state" where
  "leave_loop t q = q\<lparr>threads_count := threads_count q + 1, barrier_at := (barrier_at q)(t := Outside)\<rparr>"

text \<open>The loop of the barrier, up to the next wait; the flag says whether \<^verbatim>\<open>f\<close> was called.\<close>

definition barrier_loop :: "tid \<Rightarrow> quiesce_state \<Rightarrow> bool \<times> quiesce_state" where
  "barrier_loop t q =
    (if quiesce q = 0 then (False, leave_loop t q)
     else if threads_count q = 0 then (True, leave_loop t (broadcast (q\<lparr>quiesce := 0\<rparr>)))
     else (False, q\<lparr>barrier_at := (barrier_at q)(t := Waiting)\<rparr>))"

definition stm_quiesce_barrier :: "tid \<Rightarrow> quiesce_state \<Rightarrow> bool \<times> quiesce_state" where
  "stm_quiesce_barrier t q = barrier_loop t
     (q\<lparr>threads_count := threads_count q - 1, quiesce := (if quiesce q = 0 then 1 else quiesce q)\<rparr>)"

section \<open>Executions\<close>

datatype quiesce_event = EnterThread tid | ExitThread tid | EnterBarrier tid | Resume tid | Spurious tid

definition signalled :: "quiesce_state \<Rightarrow> tid option \<Rightarrow> bool" where
  "signalled q w \<longleftrightarrow> (case w of Some v \<Rightarrow> barrier_at q v = Waiting | None \<Rightarrow> \<forall>v. barrier_at q v \<noteq> Waiting)"

text \<open>\<open>q_step q e f q'\<close>: in \<open>q\<close> the event \<open>e\<close> leads to \<open>q'\<close>, calling \<^verbatim>\<open>f\<close> or not.\<close>

inductive q_step :: "quiesce_state \<Rightarrow> quiesce_event \<Rightarrow> bool \<Rightarrow> quiesce_state \<Rightarrow> bool" where
  enter: "t \<notin> set (threads q) \<Longrightarrow> q_step q (EnterThread t) False (stm_quiesce_enter_thread t q)"
| exit: "t \<in> set (threads q) \<Longrightarrow> barrier_at q t = Outside \<Longrightarrow> signalled q w \<Longrightarrow>
    stm_quiesce_exit_thread t w q = Some q' \<Longrightarrow> q_step q (ExitThread t) False q'"
| barrier: "t \<in> set (threads q) \<Longrightarrow> barrier_at q t = Outside \<Longrightarrow> stm_quiesce_barrier t q = (f, q') \<Longrightarrow>
    q_step q (EnterBarrier t) f q'"
| resume: "barrier_at q t = Awake \<Longrightarrow> barrier_loop t q = (f, q') \<Longrightarrow> q_step q (Resume t) f q'"
| spurious: "barrier_at q t = Waiting \<Longrightarrow> q_step q (Spurious t) False (wake t q)"

inductive q_reach :: "quiesce_state \<Rightarrow> bool" where
  start: "q_reach stm_quiesce_init"
| step: "q_reach q \<Longrightarrow> q_step q e f q' \<Longrightarrow> q_reach q'"

inductive_cases q_step_fE [consumes 1, case_names barrier resume]: "q_step q e True q'"

section \<open>The invariant\<close>

definition inside :: "quiesce_state \<Rightarrow> tid set" where
  "inside q = {t. barrier_at q t \<noteq> Outside}"

definition q_inv :: "quiesce_state \<Rightarrow> bool" where
  "q_inv q \<longleftrightarrow> distinct (threads q) \<and> inside q \<subseteq> set (threads q) \<and>
     threads_count q = int (length (threads q)) - int (card (inside q)) \<and>
     (quiesce q = 0 \<longrightarrow> (\<forall>t. barrier_at q t \<noteq> Waiting)) \<and>
     (quiesce q \<noteq> 0 \<longrightarrow> inside q \<noteq> {}) \<and>
     (quiesce q \<noteq> 0 \<and> threads_count q = 0 \<longrightarrow> (\<exists>t. barrier_at q t = Awake))"

lemma unlink_spec:
  "t \<in> set us \<Longrightarrow> distinct us \<Longrightarrow> \<exists>vs. unlink t us = Some vs \<and> distinct vs \<and> set vs = set us - {t} \<and> length us = Suc (length vs)"
proof (induction us)
  case (Cons u us)
  then show ?case by (cases "u = t") auto
qed simp

lemma inside_finite: "q_inv q \<Longrightarrow> finite (inside q)"
  unfolding q_inv_def by (metis List.finite_set finite_subset)

lemma inside_wake [simp]: "inside (wake w q) = insert w (inside q)"
  by (rule set_eqI) (simp add: inside_def wake_def)

lemma inside_broadcast [simp]: "inside (broadcast q) = inside q"
  by (rule set_eqI) (simp add: inside_def broadcast_def)

lemma inside_leave [simp]: "inside (leave_loop t q) = inside q - {t}"
  by (rule set_eqI) (simp add: inside_def leave_loop_def)

lemma inside_frame [simp]:
  "inside (q\<lparr>barrier_at := (barrier_at q)(t := Waiting)\<rparr>) = insert t (inside q)"
  "inside (q\<lparr>threads := us\<rparr>) = inside q" "inside (q\<lparr>threads_count := n\<rparr>) = inside q"
  "inside (q\<lparr>quiesce := k\<rparr>) = inside q"
  by (rule set_eqI, simp add: inside_def)+

text \<open>All registered threads are at the barrier exactly when the counter is zero.\<close>

lemma count_zero:
  assumes "q_inv q"
  shows "threads_count q = 0 \<longleftrightarrow> inside q = set (threads q)"
proof -
  have c: "card (set (threads q)) = length (threads q)"
    using assms by (simp add: q_inv_def distinct_card)
  have n: "threads_count q = int (length (threads q)) - int (card (inside q))" and sub: "inside q \<subseteq> set (threads q)"
    using assms by (simp_all add: q_inv_def)
  show ?thesis
  proof
    assume "threads_count q = 0"
    then have "card (inside q) = card (set (threads q))"
      using n c by linarith
    then show "inside q = set (threads q)"
      using card_subset_eq [OF finite_set sub] by blast
  next
    assume "inside q = set (threads q)"
    then show "threads_count q = 0"
      using n c by simp
  qed
qed

lemma count_nonneg: "q_inv q \<Longrightarrow> threads_count q \<ge> 0"
  using card_mono [of "set (threads q)" "inside q"] by (simp add: q_inv_def distinct_card)

section \<open>Every step keeps the invariant\<close>

lemma enter_inv:
  assumes "q_inv q" "t \<notin> set (threads q)"
  shows "q_inv (stm_quiesce_enter_thread t q)"
proof -
  have "inside (stm_quiesce_enter_thread t q) = inside q"
    by (simp add: stm_quiesce_enter_thread_def)
  moreover have "threads_count q + 1 \<noteq> 0"
    using count_nonneg [OF assms(1)] by simp
  ultimately show ?thesis
    using assms unfolding q_inv_def by (simp add: stm_quiesce_enter_thread_def subset_insertI2)
qed

lemma wake_inv:
  assumes "q_inv q" "barrier_at q t = Waiting"
  shows "q_inv (wake t q)"
proof -
  have "t \<in> inside q"
    using assms(2) by (simp add: inside_def)
  then have "inside (wake t q) = inside q" by (simp add: insert_absorb)
  moreover have "quiesce q \<noteq> 0"
    using assms unfolding q_inv_def by metis
  moreover have "barrier_at (wake t q) t = Awake"
    by (simp add: wake_def)
  moreover have "threads (wake t q) = threads q" "threads_count (wake t q) = threads_count q" "quiesce (wake t q) = quiesce q"
    by (simp_all add: wake_def)
  ultimately show ?thesis
    using assms(1) unfolding q_inv_def by metis
qed

text \<open>The loop is entered with the thread counted out: by the entry of the barrier or before its wait.\<close>

lemma barrier_loop_inv:
  assumes "distinct (threads q)" "inside q \<subseteq> set (threads q)" "t \<in> set (threads q)" "barrier_at q t \<noteq> Waiting"
    "threads_count q = int (length (threads q)) - int (card (insert t (inside q)))"
    "quiesce q = 0 \<Longrightarrow> \<forall>t. barrier_at q t \<noteq> Waiting"
    "barrier_loop t q = (f, q')"
  shows "q_inv q'" "f \<Longrightarrow> set (threads q) = insert t (inside q)"
proof -
  have fin: "finite (inside q)"
    using assms(2) finite_subset by blast
  have len: "length (threads q) = card (set (threads q))"
    using assms(1) by (simp add: distinct_card)
  have c: "int (card (inside q - {t})) = int (card (insert t (inside q))) - 1"
  proof -
    have "card (insert t (inside q)) = Suc (card (inside q - {t}))"
      using fin by (rule card.insert_remove)
    then show ?thesis by simp
  qed
  show "q_inv q'"
  proof (cases "quiesce q = 0")
    case True
    then have "q' = leave_loop t q"
      using assms(7) by (simp add: barrier_loop_def)
    then show ?thesis
      using assms(1,2,5,6) True c by (auto simp: q_inv_def) (auto simp: leave_loop_def inside_def split: if_splits)
  next
    case False
    show ?thesis
    proof (cases "threads_count q = 0")
      case True
      then have "q' = leave_loop t (broadcast (q\<lparr>quiesce := 0\<rparr>))"
        using assms(7) False by (simp add: barrier_loop_def)
      then show ?thesis
        using assms(1,2,5) c by (auto simp: q_inv_def) (auto simp: leave_loop_def broadcast_def inside_def split: if_splits)
    next
      case False
      with \<open>quiesce q \<noteq> 0\<close> have "q' = q\<lparr>barrier_at := (barrier_at q)(t := Waiting)\<rparr>"
        using assms(7) by (simp add: barrier_loop_def)
      then show ?thesis
        using assms(1-3,5) False \<open>quiesce q \<noteq> 0\<close> by (simp add: q_inv_def)
    qed
  qed
  assume f
  then have "threads_count q = 0"
    using assms(7) by (simp add: barrier_loop_def split: if_splits)
  then have "card (insert t (inside q)) = card (set (threads q))"
    using assms(5) len by simp
  then show "set (threads q) = insert t (inside q)"
    using card_subset_eq [of "set (threads q)" "insert t (inside q)"] assms(2,3) by auto
qed

lemma q_step_inv:
  assumes "q_inv q" "q_step q e f q'"
  shows "q_inv q'"
  using assms(2)
proof (cases rule: q_step.cases)
  case (enter t)
  then show ?thesis
    using enter_inv [OF assms(1)] by simp
next
  case (exit t w)
  have d: "distinct (threads q)" using assms(1) by (simp add: q_inv_def)
  obtain us where us: "unlink t (threads q) = Some us" "distinct us" "set us = set (threads q) - {t}"
      "length (threads q) = Suc (length us)"
    using unlink_spec [OF exit(3) d] by blast
  let ?q = "q\<lparr>threads := us, threads_count := threads_count q - 1\<rparr>"
  have t: "t \<notin> inside q" using exit(4) by (simp add: inside_def)
  have q': "q' = (if quiesce q \<noteq> 0 then (case w of None \<Rightarrow> ?q | Some v \<Rightarrow> wake v ?q) else ?q)"
    using exit(6) us(1) by (auto simp: stm_quiesce_exit_thread_def Let_def)
  show ?thesis
  proof (cases "quiesce q = 0")
    case True
    then show ?thesis
      using assms(1) us t by (auto simp: q_inv_def q')
  next
    case False
    then have ne: "inside q \<noteq> {}" using assms(1) by (simp add: q_inv_def)
    show ?thesis
    proof (cases w)
      case None
      then have "\<forall>v. barrier_at q v \<noteq> Waiting" using exit(5) by (simp add: signalled_def)
      then have "\<exists>v. barrier_at q v = Awake"
        using ne by (metis (mono_tags, lifting) all_not_in_conv barrier_pc.exhaust inside_def mem_Collect_eq)
      then show ?thesis
        using assms(1) us t False None by (auto simp: q_inv_def q')
    next
      case (Some v)
      then have v: "barrier_at q v = Waiting" using exit(5) by (simp add: signalled_def)
      then have "v \<in> inside q" by (simp add: inside_def)
      then have "inside (wake v ?q) = inside q" by (simp add: insert_absorb)
      moreover have "barrier_at (wake v ?q) v = Awake" by (simp add: wake_def)
      ultimately show ?thesis
        using assms(1) us t False Some ne by (auto simp: q_inv_def q' wake_def)
    qed
  qed
next
  case (barrier t)
  let ?q = "q\<lparr>threads_count := threads_count q - 1, quiesce := (if quiesce q = 0 then 1 else quiesce q)\<rparr>"
  have t: "t \<notin> inside q" using barrier(3) by (simp add: inside_def)
  show ?thesis
  proof (rule barrier_loop_inv(1) [of ?q t f])
    show "threads_count ?q = int (length (threads ?q)) - int (card (insert t (inside ?q)))"
      using assms(1) t inside_finite [OF assms(1)] by (simp add: q_inv_def)
  qed (use assms(1) barrier in \<open>auto simp: q_inv_def stm_quiesce_barrier_def\<close>)
next
  case (resume t)
  then have "insert t (inside q) = inside q" by (auto simp: inside_def)
  then show ?thesis
    using barrier_loop_inv(1) [OF _ _ _ _ _ _ resume(3)] assms(1) resume(2)
    by (auto simp: q_inv_def)
next
  case (spurious t)
  then show ?thesis
    using wake_inv [OF assms(1)] by simp
qed

lemma q_reach_inv: "q_reach q \<Longrightarrow> q_inv q"
proof (induction rule: q_reach.induct)
  case start
  then show ?case by (simp add: q_inv_def stm_quiesce_init_def inside_def)
next
  case (step q e f q')
  then show ?case by (blast intro: q_step_inv)
qed

section \<open>Properties\<close>

text \<open>
  C11. The function given to the barrier (the reset of the clock) runs only when every registered
  thread is stopped there: in each step that calls it, every registered thread is inside the
  barrier, or is the caller itself.
\<close>

theorem barrier_runs_alone:
  assumes "q_reach q" "q_step q e True q'"
  shows "\<exists>t. (e = EnterBarrier t \<or> e = Resume t) \<and> (\<forall>u\<in>set (threads q). u = t \<or> barrier_at q u \<noteq> Outside)"
proof -
  have inv: "q_inv q" by (rule q_reach_inv [OF assms(1)])
  from assms(2) show ?thesis
  proof (cases rule: q_step_fE)
    case (barrier t)
    let ?q = "q\<lparr>threads_count := threads_count q - 1, quiesce := (if quiesce q = 0 then 1 else quiesce q)\<rparr>"
    have t: "t \<notin> inside q" using barrier by (simp add: inside_def)
    have n: "threads_count ?q = int (length (threads ?q)) - int (card (insert t (inside ?q)))"
      using inv t inside_finite [OF inv] by (simp add: q_inv_def)
    have "set (threads ?q) = insert t (inside ?q)"
      by (rule barrier_loop_inv(2) [OF _ _ _ _ n]) (use inv barrier in \<open>auto simp: q_inv_def stm_quiesce_barrier_def\<close>)
    then show ?thesis
      using barrier by (auto simp: inside_def)
  next
    case (resume t)
    then have i: "insert t (inside q) = inside q" by (auto simp: inside_def)
    then have "set (threads q) = insert t (inside q)"
      using barrier_loop_inv(2) [OF _ _ _ _ _ _ resume(4)] inv resume(3) by (auto simp: q_inv_def)
    then show ?thesis
      using resume i by (auto simp: inside_def)
  qed
qed

text \<open>The run of the witnesses: threads 0 and 1 register, 1 waits at the barrier, 0 leaves.\<close>

definition q_demo2 :: quiesce_state where
  "q_demo2 = \<lparr>threads = [1, 0], threads_count = 1, quiesce = 1, barrier_at = (\<lambda>_. Outside)(1 := Waiting)\<rparr>"

definition q_demo3 :: quiesce_state where
  "q_demo3 = \<lparr>threads = [1], threads_count = 0, quiesce = 1, barrier_at = (\<lambda>_. Outside)(1 := Awake)\<rparr>"

lemma q_demo_reach: "q_reach q_demo2" "q_reach q_demo3"
proof -
  let ?q1 = "\<lparr>threads = [0], threads_count = 1, quiesce = 0, barrier_at = (\<lambda>_. Outside)\<rparr> :: quiesce_state"
  let ?q2 = "\<lparr>threads = [1, 0], threads_count = 2, quiesce = 0, barrier_at = (\<lambda>_. Outside)\<rparr> :: quiesce_state"
  have "q_reach ?q1"
    using q_reach.step [OF q_reach.start q_step.enter, of 0]
    by (simp add: stm_quiesce_init_def stm_quiesce_enter_thread_def)
  then have "q_reach ?q2"
    using q_reach.step [OF _ q_step.enter, of ?q1 1] by (simp add: stm_quiesce_enter_thread_def)
  moreover have "q_step ?q2 (EnterBarrier 1) False q_demo2"
    by (rule q_step.barrier) (simp_all add: stm_quiesce_barrier_def barrier_loop_def q_demo2_def)
  ultimately show 2: "q_reach q_demo2"
    by (rule q_reach.step)
  have "q_step q_demo2 (ExitThread 0) False q_demo3"
    by (rule q_step.exit [where w = "Some 1"])
      (simp_all add: q_demo2_def q_demo3_def signalled_def stm_quiesce_exit_thread_def wake_def)
  then show "q_reach q_demo3"
    using 2 by (rule q_reach.step [rotated])
qed

theorem barrier_runs_alone_witness:
  "\<exists>q'. q_step q_demo2 (EnterBarrier 0) True q' \<and>
     (\<exists>t. (EnterBarrier 0 = EnterBarrier t \<or> EnterBarrier 0 = Resume t) \<and>
        (\<forall>u\<in>set (threads q_demo2). u = t \<or> barrier_at q_demo2 u \<noteq> Outside))"
proof -
  have "q_step q_demo2 (EnterBarrier 0) True (snd (stm_quiesce_barrier 0 q_demo2))"
    by (rule q_step.barrier) (simp_all add: stm_quiesce_barrier_def barrier_loop_def q_demo2_def)
  then show ?thesis
    using barrier_runs_alone [OF q_demo_reach(1)] by blast
qed

text \<open>
  C12. No wake-up is lost: whenever all registered threads are at the barrier and it has not been
  released, some thread is awake, and its next step runs the function and releases all of them.
\<close>

theorem barrier_releases:
  assumes "q_reach q" "quiesce q \<noteq> 0" "\<forall>t\<in>set (threads q). barrier_at q t \<noteq> Outside"
  shows "\<exists>t q'. q_step q (Resume t) True q' \<and> quiesce q' = 0 \<and> (\<forall>u. barrier_at q' u \<noteq> Waiting)"
proof -
  have inv: "q_inv q" by (rule q_reach_inv [OF assms(1)])
  have "inside q = set (threads q)"
    using inv assms(3) by (auto simp: q_inv_def inside_def)
  then have c: "threads_count q = 0"
    using count_zero [OF inv] by simp
  then obtain t where t: "barrier_at q t = Awake"
    using inv assms(2) by (auto simp: q_inv_def)
  have "barrier_loop t q = (True, leave_loop t (broadcast (q\<lparr>quiesce := 0\<rparr>)))"
    using c assms(2) by (simp add: barrier_loop_def)
  then have s: "q_step q (Resume t) True (leave_loop t (broadcast (q\<lparr>quiesce := 0\<rparr>)))"
    by (rule q_step.resume [OF t])
  have "quiesce (leave_loop t (broadcast (q\<lparr>quiesce := 0\<rparr>))) = 0"
    by (simp add: leave_loop_def broadcast_def)
  moreover have "\<forall>u. barrier_at (leave_loop t (broadcast (q\<lparr>quiesce := 0\<rparr>))) u \<noteq> Waiting"
    by (simp add: leave_loop_def broadcast_def)
  ultimately show ?thesis
    using s by blast
qed

theorem barrier_releases_witness:
  "\<exists>t q'. q_step q_demo3 (Resume t) True q' \<and> quiesce q' = 0 \<and> (\<forall>u. barrier_at q' u \<noteq> Waiting)"
  using barrier_releases [OF q_demo_reach(2)] by (simp add: q_demo3_def)

text \<open>
  The counter is exact: it is the number of registered threads that are not at the barrier, and
  a registered thread that leaves is always found in the list.
\<close>

theorem threads_count_exact:
  assumes "q_reach q"
  shows "threads_count q = int (card {t \<in> set (threads q). barrier_at q t = Outside}) \<and>
    (\<forall>t\<in>set (threads q). \<forall>w. \<exists>q'. stm_quiesce_exit_thread t w q = Some q' \<and> set (threads q') = set (threads q) - {t})"
proof -
  have inv: "q_inv q" by (rule q_reach_inv [OF assms])
  have "{t \<in> set (threads q). barrier_at q t = Outside} = set (threads q) - inside q"
    by (auto simp: inside_def)
  moreover have "card (set (threads q) - inside q) = card (set (threads q)) - card (inside q)"
    using inv inside_finite [OF inv] by (intro card_Diff_subset) (auto simp: q_inv_def)
  moreover have "card (inside q) \<le> card (set (threads q))"
    using inv by (intro card_mono) (auto simp: q_inv_def)
  ultimately have "threads_count q = int (card {t \<in> set (threads q). barrier_at q t = Outside})"
    using inv by (simp add: q_inv_def distinct_card)
  moreover have "\<exists>q'. stm_quiesce_exit_thread t w q = Some q' \<and> set (threads q') = set (threads q) - {t}"
    if "t \<in> set (threads q)" for t w
    using unlink_spec [OF that] inv
    by (auto simp: q_inv_def stm_quiesce_exit_thread_def Let_def wake_def split: option.splits)
  ultimately show ?thesis by blast
qed

theorem threads_count_exact_witness:
  "threads_count q_demo2 = int (card {t \<in> set (threads q_demo2). barrier_at q_demo2 t = Outside}) \<and>
    (\<forall>t\<in>set (threads q_demo2). \<forall>w. \<exists>q'. stm_quiesce_exit_thread t w q_demo2 = Some q' \<and>
       set (threads q') = set (threads q_demo2) - {t})"
  by (rule threads_count_exact [OF q_demo_reach(1)])

end
