(* ===== verification/Stm_Modules.thy ===== *)
theory Stm_Modules
  imports Stm_Prelude
begin

text \<open>
  How modules plug into the STM (\<^verbatim>\<open>tinySTM/src/stm.c\<close>): the arrays of callbacks filled by
  \<^verbatim>\<open>stm_register\<close>, the keys of transaction-specific data given out by \<^verbatim>\<open>stm_create_specific\<close>, the
  initialisation functions of the modules \<^verbatim>\<open>mod_mem\<close>, \<^verbatim>\<open>mod_cb\<close>, \<^verbatim>\<open>mod_log\<close> and \<^verbatim>\<open>mod_stats\<close>, and the
  callbacks that \<^verbatim>\<open>stm_init_thread\<close> runs.

  A callback is named by what it is; \<open>User n\<close> are callbacks of the application, which leave the data
  of the modules alone. The contents of the data of a module are in its own theory; here a slot is
  \<open>Null\<close>, the fresh data of a module, or data of the application.
\<close>

section \<open>Callbacks\<close>

definition MAX_CB :: nat where "MAX_CB = 16"
definition MAX_SPECIFIC :: nat where "MAX_SPECIFIC = 16"

type_synonym 'f cb_entry = "'f \<times> addr"

record 'f stm_callbacks =
  init_cb :: "'f cb_entry list"
  exit_cb :: "'f cb_entry list"
  start_cb :: "'f cb_entry list"
  commit_cb :: "'f cb_entry list"
  abort_cb :: "'f cb_entry list"

definition no_room :: "'f option \<Rightarrow> 'f cb_entry list \<Rightarrow> bool" where
  "no_room f cbs \<longleftrightarrow> f \<noteq> None \<and> length cbs \<ge> MAX_CB"

definition add_cb :: "'f option \<Rightarrow> addr \<Rightarrow> 'f cb_entry list \<Rightarrow> 'f cb_entry list" where
  "add_cb f arg cbs = (case f of None \<Rightarrow> cbs | Some g \<Rightarrow> cbs @ [(g, arg)])"

definition stm_register ::
  "'f option \<Rightarrow> 'f option \<Rightarrow> 'f option \<Rightarrow> 'f option \<Rightarrow> 'f option \<Rightarrow> addr \<Rightarrow> 'f stm_callbacks \<Rightarrow> bool \<times> 'f stm_callbacks" where
  "stm_register on_thread_init on_thread_exit on_start on_commit on_abort arg c =
    (if no_room on_thread_init (init_cb c) \<or> no_room on_thread_exit (exit_cb c) \<or> no_room on_start (start_cb c) \<or>
        no_room on_commit (commit_cb c) \<or> no_room on_abort (abort_cb c)
     then (False, c)
     else (True, c\<lparr>init_cb := add_cb on_thread_init arg (init_cb c), exit_cb := add_cb on_thread_exit arg (exit_cb c),
                   start_cb := add_cb on_start arg (start_cb c), commit_cb := add_cb on_commit arg (commit_cb c),
                   abort_cb := add_cb on_abort arg (abort_cb c)\<rparr>))"

section \<open>Transaction-specific data\<close>

text \<open>Keys: the result and the new value of \<^verbatim>\<open>nb_specific\<close>.\<close>

definition stm_create_specific :: "int \<Rightarrow> int \<times> int" where
  "stm_create_specific nb_specific = (if nb_specific \<ge> int MAX_SPECIFIC then (-1, nb_specific)
     else (nb_specific, nb_specific + 1))"

text \<open>Access to the array of a descriptor; \<open>None\<close> outside of it.\<close>

definition stm_set_specific :: "int \<Rightarrow> 'v \<Rightarrow> 'v list \<Rightarrow> 'v list option" where
  "stm_set_specific key d ds = (if 0 \<le> key \<and> nat key < length ds then Some (ds[nat key := d]) else None)"

definition stm_get_specific :: "int \<Rightarrow> 'v list \<Rightarrow> 'v option" where
  "stm_get_specific key ds = (if 0 \<le> key \<and> nat key < length ds then Some (ds ! nat key) else None)"

section \<open>Modules\<close>

datatype module = MOD_MEM | MOD_CB | MOD_LOG | MOD_STATS

datatype hook = OnThreadInit module | OnThreadExit module | OnCommit module | OnAbort module | User nat

record modules =
  callbacks :: "hook stm_callbacks"
  nb_specific :: int
  initialized :: "module \<Rightarrow> bool"
  mod_key :: "module \<Rightarrow> int"

datatype init_error = NoSpecificKey

definition no_modules :: modules where
  "no_modules = \<lparr>callbacks = \<lparr>init_cb = [], exit_cb = [], start_cb = [], commit_cb = [], abort_cb = []\<rparr>,
     nb_specific = 0, initialized = (\<lambda>_. False), mod_key = (\<lambda>_. 0)\<rparr>"

text \<open>The four functions are the same up to names; the result of \<^verbatim>\<open>stm_register\<close> is not looked at.\<close>

definition mod_init :: "module \<Rightarrow> modules \<Rightarrow> init_error + modules" where
  "mod_init m s =
    (if initialized s m then Inr s
     else
       let s = s\<lparr>callbacks := snd (stm_register (Some (OnThreadInit m)) (Some (OnThreadExit m)) None
                   (Some (OnCommit m)) (Some (OnAbort m)) 0 (callbacks s))\<rparr>;
           (key, n) = stm_create_specific (nb_specific s);
           s = s\<lparr>nb_specific := n, mod_key := (mod_key s)(m := key)\<rparr>
       in if key < 0 then Inl NoSpecificKey else Inr (s\<lparr>initialized := (initialized s)(m := True)\<rparr>))"

definition mod_mem_init :: "modules \<Rightarrow> init_error + modules" where "mod_mem_init = mod_init MOD_MEM"
definition mod_cb_init :: "modules \<Rightarrow> init_error + modules" where "mod_cb_init = mod_init MOD_CB"
definition mod_log_init :: "modules \<Rightarrow> init_error + modules" where "mod_log_init = mod_init MOD_LOG"
definition mod_stats_init :: "modules \<Rightarrow> init_error + modules" where "mod_stats_init = mod_init MOD_STATS"

section \<open>A thread starts\<close>

datatype specific = Null | Fresh module | AppData nat

fun run_hook :: "modules \<Rightarrow> hook \<Rightarrow> specific list \<Rightarrow> specific list option" where
  "run_hook s (OnThreadInit m) ds = stm_set_specific (mod_key s m) (Fresh m) ds"
| "run_hook s _ ds = Some ds"

fun run_hooks :: "modules \<Rightarrow> hook cb_entry list \<Rightarrow> specific list \<Rightarrow> specific list option" where
  "run_hooks s [] ds = Some ds"
| "run_hooks s (h # hs) ds = (case run_hook s (fst h) ds of None \<Rightarrow> None | Some ds' \<Rightarrow> run_hooks s hs ds')"

text \<open>The data of a new descriptor after \<^verbatim>\<open>memset(tx->data, 0, ...)\<close> and the callbacks.\<close>

definition init_specific :: "modules \<Rightarrow> specific list option" where
  "init_specific s = run_hooks s (init_cb (callbacks s)) (replicate MAX_SPECIFIC Null)"

section \<open>Set-up phase\<close>

datatype setup_call = InitModule module | Register "nat option" "nat option" "nat option" "nat option" "nat option" addr
  | CreateSpecific

text \<open>What the application may do before it starts threads; \<^verbatim>\<open>stm_register\<close> may fail.\<close>

fun setup_step :: "setup_call \<Rightarrow> modules \<Rightarrow> init_error + modules" where
  "setup_step (InitModule m) s = (case m of MOD_MEM \<Rightarrow> mod_mem_init s | MOD_CB \<Rightarrow> mod_cb_init s
     | MOD_LOG \<Rightarrow> mod_log_init s | MOD_STATS \<Rightarrow> mod_stats_init s)"
| "setup_step (Register i e st c a arg) s = Inr (s\<lparr>callbacks := snd (stm_register (map_option User i) (map_option User e)
     (map_option User st) (map_option User c) (map_option User a) arg (callbacks s))\<rparr>)"
| "setup_step CreateSpecific s = Inr (s\<lparr>nb_specific := snd (stm_create_specific (nb_specific s))\<rparr>)"

inductive setup_run :: "setup_call list \<Rightarrow> modules \<Rightarrow> bool" where
  start: "setup_run [] no_modules"
| step: "setup_run xs s \<Longrightarrow> setup_step x s = Inr s' \<Longrightarrow> setup_run (xs @ [x]) s'"

text \<open>The modules whose thread initialisation is among the callbacks.\<close>

fun hook_mods :: "hook cb_entry list \<Rightarrow> module list" where
  "hook_mods [] = []"
| "hook_mods (h # hs) = (case fst h of OnThreadInit m \<Rightarrow> [m] | _ \<Rightarrow> []) @ hook_mods hs"

definition cbs_fit :: "'f stm_callbacks \<Rightarrow> bool" where
  "cbs_fit c \<longleftrightarrow> length (init_cb c) \<le> MAX_CB \<and> length (exit_cb c) \<le> MAX_CB \<and> length (start_cb c) \<le> MAX_CB \<and>
     length (commit_cb c) \<le> MAX_CB \<and> length (abort_cb c) \<le> MAX_CB"

definition mods_inv :: "modules \<Rightarrow> bool" where
  "mods_inv s \<longleftrightarrow> cbs_fit (callbacks s) \<and> 0 \<le> nb_specific s \<and> nb_specific s \<le> int MAX_SPECIFIC \<and>
     (\<forall>m. initialized s m \<longrightarrow> 0 \<le> mod_key s m \<and> mod_key s m < nb_specific s) \<and>
     (\<forall>m n. initialized s m \<and> initialized s n \<and> mod_key s m = mod_key s n \<longrightarrow> m = n) \<and>
     (\<forall>m\<in>set (hook_mods (init_cb (callbacks s))). initialized s m)"

lemma register_fits: "cbs_fit c \<Longrightarrow> cbs_fit (snd (stm_register i e st co a arg c))"
  by (auto simp: stm_register_def cbs_fit_def no_room_def add_cb_def split: option.splits)

lemma room_iff: "no_room f cbs \<longleftrightarrow> f \<noteq> None \<and> \<not> length cbs < 16"
  by (simp add: no_room_def MAX_CB_def not_less)

lemma mod_inits: "setup_step (InitModule m) s = mod_init m s"
  by (cases m) (simp_all add: mod_mem_init_def mod_cb_init_def mod_log_init_def mod_stats_init_def)

lemma hook_mods_append [simp]: "hook_mods (hs @ hs') = hook_mods hs @ hook_mods hs'"
  by (induction hs) simp_all

lemma register_init_cb:
  "set (hook_mods (init_cb (snd (stm_register i e st co a arg c)))) \<subseteq>
     {m. i = Some (OnThreadInit m)} \<union> set (hook_mods (init_cb c))"
  by (auto simp: stm_register_def add_cb_def split: option.splits hook.splits)

lemma mod_init_inv:
  assumes "mods_inv s" "mod_init m s = Inr s'"
  shows "mods_inv s' \<and> initialized s' m"
proof (cases "initialized s m")
  case True
  then show ?thesis using assms by (simp add: mod_init_def)
next
  case False
  let ?c = "snd (stm_register (Some (OnThreadInit m)) (Some (OnThreadExit m)) None (Some (OnCommit m)) (Some (OnAbort m)) 0 (callbacks s))"
  have n: "nb_specific s < int MAX_SPECIFIC"
    and s': "s' = s\<lparr>callbacks := ?c, nb_specific := nb_specific s + 1, mod_key := (mod_key s)(m := nb_specific s),
      initialized := (initialized s)(m := True)\<rparr>"
    using assms False by (auto simp: mod_init_def stm_create_specific_def Let_def split: if_splits)
  have "cbs_fit ?c"
    using assms(1) by (intro register_fits) (simp add: mods_inv_def)
  moreover have "\<forall>k\<in>set (hook_mods (init_cb ?c)). initialized s k \<or> k = m"
    using register_init_cb [of "Some (OnThreadInit m)" "Some (OnThreadExit m)" None "Some (OnCommit m)" "Some (OnAbort m)" 0 "callbacks s"]
      assms(1) unfolding mods_inv_def by blast
  moreover have "\<forall>k. initialized s k \<longrightarrow> mod_key s k \<noteq> nb_specific s"
    using assms(1) by (auto simp: mods_inv_def)
  ultimately show ?thesis
    using assms(1) n by (auto simp: mods_inv_def s')
qed

lemma user_register_inv:
  assumes "mods_inv s"
  shows "mods_inv (s\<lparr>callbacks := snd (stm_register (map_option User i) (map_option User e) (map_option User st)
     (map_option User c) (map_option User a) arg (callbacks s))\<rparr>)"
proof -
  let ?c = "snd (stm_register (map_option User i) (map_option User e) (map_option User st)
     (map_option User c) (map_option User a) arg (callbacks s))"
  have "cbs_fit ?c"
    using assms by (intro register_fits) (simp add: mods_inv_def)
  moreover have "set (hook_mods (init_cb ?c)) \<subseteq> set (hook_mods (init_cb (callbacks s)))"
    using register_init_cb [of "map_option User i" "map_option User e" "map_option User st" "map_option User c"
      "map_option User a" arg "callbacks s"] by auto
  ultimately show ?thesis
    using assms unfolding mods_inv_def by auto
qed

lemma setup_run_inv: "setup_run xs s \<Longrightarrow> mods_inv s"
proof (induction rule: setup_run.induct)
  case start
  then show ?case by (simp add: mods_inv_def no_modules_def cbs_fit_def)
next
  case (step xs s x s')
  show ?case
  proof (cases x)
    case (InitModule m)
    then show ?thesis
      using mod_init_inv [OF step.IH, of m s'] step.hyps(2) by (simp only: mod_inits)
  next
    case (Register i e st c a arg)
    then show ?thesis
      using user_register_inv [OF step.IH] step.hyps(2) by auto
  next
    case CreateSpecific
    then show ?thesis
      using step.IH step.hyps(2) by (auto simp: mods_inv_def stm_create_specific_def)
  qed
qed

text \<open>
  C23. Registration is all or nothing: it succeeds exactly when there is room for each callback that
  is given, that is, fewer than \<^verbatim>\<open>MAX_CB\<close> = 16 entries in its array. When it fails it changes none of the
  arrays; otherwise each array gets exactly its callback, at the end, so that callbacks run in the
  order of registration. No array outgrows its size.
\<close>

theorem register_all_or_nothing:
  assumes "cbs_fit c" "stm_register i e st co a arg c = (ok, c')"
  shows "cbs_fit c' \<and>
    (ok \<longleftrightarrow> (i = None \<or> length (init_cb c) < 16) \<and> (e = None \<or> length (exit_cb c) < 16) \<and>
       (st = None \<or> length (start_cb c) < 16) \<and> (co = None \<or> length (commit_cb c) < 16) \<and>
       (a = None \<or> length (abort_cb c) < 16)) \<and>
    (\<not> ok \<longrightarrow> c' = c) \<and>
    (ok \<longrightarrow> init_cb c' = init_cb c @ map (\<lambda>f. (f, arg)) (case i of None \<Rightarrow> [] | Some f \<Rightarrow> [f]) \<and>
       commit_cb c' = commit_cb c @ map (\<lambda>f. (f, arg)) (case co of None \<Rightarrow> [] | Some f \<Rightarrow> [f]) \<and>
       abort_cb c' = abort_cb c @ map (\<lambda>f. (f, arg)) (case a of None \<Rightarrow> [] | Some f \<Rightarrow> [f]) \<and>
       start_cb c' = start_cb c @ map (\<lambda>f. (f, arg)) (case st of None \<Rightarrow> [] | Some f \<Rightarrow> [f]) \<and>
       exit_cb c' = exit_cb c @ map (\<lambda>f. (f, arg)) (case e of None \<Rightarrow> [] | Some f \<Rightarrow> [f]))"
proof -
  have "cbs_fit c'"
    using register_fits [OF assms(1), of i e st co a arg] assms(2) by simp
  moreover have "ok \<longleftrightarrow> (i = None \<or> length (init_cb c) < 16) \<and> (e = None \<or> length (exit_cb c) < 16) \<and>
       (st = None \<or> length (start_cb c) < 16) \<and> (co = None \<or> length (commit_cb c) < 16) \<and>
       (a = None \<or> length (abort_cb c) < 16)"
    using assms(2) by (auto simp: stm_register_def room_iff split: if_splits)
  ultimately show ?thesis
    using assms(2) by (auto simp: stm_register_def add_cb_def split: if_splits option.splits)
qed

text \<open>The last place of an array is used: 15 callbacks leave room for one, 16 for none.\<close>

definition cbs_demo :: "nat \<Rightarrow> hook stm_callbacks" where
  "cbs_demo n = \<lparr>init_cb = replicate n (User 0, 0), exit_cb = [], start_cb = [], commit_cb = [], abort_cb = []\<rparr>"

theorem register_all_or_nothing_witness:
  "(\<exists>c'. stm_register (Some (User 1)) None None (Some (User 2)) None 7 (cbs_demo 15) = (True, c') \<and>
     init_cb c' = replicate 15 (User 0, 0) @ [(User 1, 7)] \<and> commit_cb c' = [(User 2, 7)] \<and> abort_cb c' = []) \<and>
   stm_register (Some (User 1)) None None (Some (User 2)) None 7 (cbs_demo 16) = (False, cbs_demo 16)"
proof -
  let ?r = "\<lambda>n. stm_register (Some (User 1)) None None (Some (User 2)) None 7 (cbs_demo n)"
  have f: "cbs_fit (cbs_demo 15)" "cbs_fit (cbs_demo 16)"
    by (simp_all add: cbs_demo_def cbs_fit_def MAX_CB_def)
  obtain ok c' where r: "?r 15 = (ok, c')" by fastforce
  obtain ok2 c2 where r2: "?r 16 = (ok2, c2)" by fastforce
  show ?thesis
    using register_all_or_nothing [OF f(1) r] register_all_or_nothing [OF f(2) r2] r r2 by (simp add: cbs_demo_def)
qed

text \<open>The data of a thread after the callbacks: a slot is written by the module that owns it.\<close>

definition put_fresh :: "modules \<Rightarrow> module \<Rightarrow> specific list \<Rightarrow> specific list" where
  "put_fresh s m ds = ds[nat (mod_key s m) := Fresh m]"

lemma length_put_fresh [simp]: "length (put_fresh s m ds) = length ds"
  by (simp add: put_fresh_def)

lemma run_hooks_fold:
  assumes "\<forall>m\<in>set (hook_mods hs). 0 \<le> mod_key s m \<and> nat (mod_key s m) < length ds"
  shows "run_hooks s hs ds = Some (fold (put_fresh s) (hook_mods hs) ds)"
  using assms
proof (induction hs arbitrary: ds)
  case (Cons h hs)
  then show ?case
    by (cases "fst h") (simp_all add: stm_set_specific_def put_fresh_def)
qed simp

lemma fold_put_fresh:
  assumes "inj_on (\<lambda>m. nat (mod_key s m)) (set ms)" "\<forall>m\<in>set ms. nat (mod_key s m) < length ds"
  shows "length (fold (put_fresh s) ms ds) = length ds \<and> (\<forall>m\<in>set ms. fold (put_fresh s) ms ds ! nat (mod_key s m) = Fresh m)"
  using assms
proof (induction ms rule: rev_induct)
  case (snoc m ms)
  have IH: "length (fold (put_fresh s) ms ds) = length ds" "\<forall>m\<in>set ms. fold (put_fresh s) ms ds ! nat (mod_key s m) = Fresh m"
    using snoc by (simp_all add: inj_on_def)
  have "fold (put_fresh s) (ms @ [m]) ds ! nat (mod_key s k) = Fresh k" if k: "k \<in> set (ms @ [m])" for k
  proof (cases "k = m")
    case True
    then show ?thesis using snoc.prems(2) IH(1) by (simp add: put_fresh_def)
  next
    case False
    then have "nat (mod_key s k) \<noteq> nat (mod_key s m)"
      using inj_onD [OF snoc.prems(1), of k m] k by auto
    then show ?thesis using IH(2) k False by (simp add: put_fresh_def)
  qed
  moreover have "length (fold (put_fresh s) (ms @ [m]) ds) = length ds"
    using IH(1) by simp
  ultimately show ?case by blast
qed simp

lemma init_specific_ready:
  assumes "mods_inv s"
  shows "\<exists>ds. init_specific s = Some ds \<and> (\<forall>m\<in>set (hook_mods (init_cb (callbacks s))). stm_get_specific (mod_key s m) ds = Some (Fresh m))"
proof -
  let ?ms = "hook_mods (init_cb (callbacks s))" and ?d = "replicate MAX_SPECIFIC Null"
  have key: "0 \<le> mod_key s m \<and> nat (mod_key s m) < length ?d" if "m \<in> set ?ms" for m
  proof -
    have "initialized s m" "nb_specific s \<le> int MAX_SPECIFIC"
      using assms that by (simp_all add: mods_inv_def)
    moreover have "0 \<le> mod_key s m" "mod_key s m < nb_specific s"
      using assms \<open>initialized s m\<close> by (simp_all add: mods_inv_def)
    ultimately show ?thesis by simp
  qed
  have inj: "inj_on (\<lambda>m. nat (mod_key s m)) (set ?ms)"
  proof (rule inj_onI)
    fix m n assume mn: "m \<in> set ?ms" "n \<in> set ?ms" "nat (mod_key s m) = nat (mod_key s n)"
    then have "mod_key s m = mod_key s n" "initialized s m" "initialized s n"
      using key [OF mn(1)] key [OF mn(2)] assms by (simp_all add: mods_inv_def eq_nat_nat_iff)
    moreover have "\<forall>m n. initialized s m \<and> initialized s n \<and> mod_key s m = mod_key s n \<longrightarrow> m = n"
      using assms unfolding mods_inv_def by (elim conjE) assumption
    ultimately show "m = n" by blast
  qed
  let ?ds = "fold (put_fresh s) ?ms ?d"
  have f: "length ?ds = length ?d" "\<forall>m\<in>set ?ms. ?ds ! nat (mod_key s m) = Fresh m"
    using fold_put_fresh [OF inj, of ?d] key by blast+
  have "init_specific s = Some ?ds"
    unfolding init_specific_def by (rule run_hooks_fold) (use key in blast)
  moreover have "stm_get_specific (mod_key s m) ?ds = Some (Fresh m)" if "m \<in> set ?ms" for m
    using f key [OF that] that by (simp only: stm_get_specific_def) simp
  ultimately show ?thesis by blast
qed

text \<open>
  Modules do not get into each other's way: whatever is initialised and registered during the
  set-up, initialised modules have different keys within the array of a descriptor, and after the
  callbacks of \<^verbatim>\<open>stm_init_thread\<close> each registered module finds its own fresh data under its key (so
  the pointer its operations fetch is not null).
\<close>

theorem modules_ready:
  assumes "setup_run xs s"
  shows "inj_on (mod_key s) {m. initialized s m} \<and>
    (\<forall>m. initialized s m \<longrightarrow> 0 \<le> mod_key s m \<and> mod_key s m < int MAX_SPECIFIC) \<and>
    (\<exists>ds. init_specific s = Some ds \<and>
       (\<forall>m. OnThreadInit m \<in> fst ` set (init_cb (callbacks s)) \<longrightarrow> stm_get_specific (mod_key s m) ds = Some (Fresh m)))"
proof -
  have inv: "mods_inv s" by (rule setup_run_inv [OF assms])
  have "m \<in> set (hook_mods hs)" if "OnThreadInit m \<in> fst ` set hs" for m hs
    using that by (induction hs) auto
  then have "\<exists>ds. init_specific s = Some ds \<and>
       (\<forall>m. OnThreadInit m \<in> fst ` set (init_cb (callbacks s)) \<longrightarrow> stm_get_specific (mod_key s m) ds = Some (Fresh m))"
    using init_specific_ready [OF inv] by meson
  moreover have "inj_on (mod_key s) {m. initialized s m}"
    using inv unfolding mods_inv_def inj_on_def by blast
  moreover have "\<forall>m. initialized s m \<longrightarrow> 0 \<le> mod_key s m \<and> mod_key s m < int MAX_SPECIFIC"
    using inv by (auto simp: mods_inv_def intro: less_le_trans)
  ultimately show ?thesis by blast
qed

definition mods_demo :: modules where
  "mods_demo = \<lparr>callbacks = \<lparr>init_cb = [(OnThreadInit MOD_CB, 0), (OnThreadInit MOD_MEM, 0)],
       exit_cb = [(OnThreadExit MOD_CB, 0), (OnThreadExit MOD_MEM, 0)], start_cb = [],
       commit_cb = [(OnCommit MOD_CB, 0), (OnCommit MOD_MEM, 0)], abort_cb = [(OnAbort MOD_CB, 0), (OnAbort MOD_MEM, 0)]\<rparr>,
     nb_specific = 2, initialized = (\<lambda>_. False)(MOD_CB := True, MOD_MEM := True), mod_key = (\<lambda>_. 0)(MOD_CB := 0, MOD_MEM := 1)\<rparr>"

lemma mods_demo_run: "setup_run [InitModule MOD_CB, InitModule MOD_MEM] mods_demo"
proof -
  let ?s = "\<lparr>callbacks = \<lparr>init_cb = [(OnThreadInit MOD_CB, 0)], exit_cb = [(OnThreadExit MOD_CB, 0)], start_cb = [],
       commit_cb = [(OnCommit MOD_CB, 0)], abort_cb = [(OnAbort MOD_CB, 0)]\<rparr>,
     nb_specific = 1, initialized = (\<lambda>_. False)(MOD_CB := True), mod_key = (\<lambda>_. 0)(MOD_CB := 0)\<rparr> :: modules"
  have "setup_run [InitModule MOD_CB] ?s"
    using setup_run.step [OF setup_run.start, of "InitModule MOD_CB" ?s]
    by (simp add: mod_cb_init_def mod_init_def no_modules_def stm_register_def no_room_def add_cb_def
        stm_create_specific_def MAX_CB_def MAX_SPECIFIC_def)
  then show ?thesis
    using setup_run.step [of "[InitModule MOD_CB]" ?s "InitModule MOD_MEM" mods_demo]
    by (simp add: mod_mem_init_def mod_init_def mods_demo_def stm_register_def no_room_def add_cb_def
        stm_create_specific_def MAX_CB_def MAX_SPECIFIC_def)
qed

theorem modules_ready_witness:
  "\<exists>ds. init_specific mods_demo = Some ds \<and> stm_get_specific (mod_key mods_demo MOD_MEM) ds = Some (Fresh MOD_MEM)"
  using modules_ready [OF mods_demo_run] by (auto simp: mods_demo_def)

lemma sixteen_registered:
  "n \<le> MAX_CB \<Longrightarrow> setup_run (replicate n (Register None None None (Some 0) None 0))
     (no_modules\<lparr>callbacks := (callbacks no_modules)\<lparr>commit_cb := replicate n (User 0, 0)\<rparr>\<rparr>)"
proof (induction n)
  case 0
  then show ?case using setup_run.start by (simp add: no_modules_def)
next
  case (Suc n)
  let ?r = "Register None None None (Some 0) None 0"
  let ?s = "\<lambda>n. no_modules\<lparr>callbacks := (callbacks no_modules)\<lparr>commit_cb := replicate n (User 0, 0)\<rparr>\<rparr>"
  have e: "setup_step ?r (?s n) = Inr (?s (Suc n))"
    using Suc.prems by (simp add: stm_register_def no_room_def add_cb_def replicate_append_same no_modules_def)
  have "setup_run (replicate n ?r @ [?r]) (?s (Suc n))"
    by (rule setup_run.step [OF _ e]) (use Suc in simp)
  then show ?case
    by (simp add: replicate_append_same)
qed

text \<open>
  When the table of callbacks is full, a module is initialised without being connected: the
  result of \<^verbatim>\<open>stm_register\<close> is ignored. After sixteen commit callbacks of the application,
  \<^verbatim>\<open>mod_mem_init\<close> succeeds, none of the module's callbacks is registered, and the data that its
  operations fetch is null.
\<close>

theorem full_table_disconnects_module:
  "\<exists>s s' ds. setup_run (replicate 16 (Register None None None (Some 0) None 0)) s \<and>
     mod_mem_init s = Inr s' \<and> initialized s' MOD_MEM \<and> callbacks s' = callbacks s \<and>
     init_specific s' = Some ds \<and> stm_get_specific (mod_key s' MOD_MEM) ds = Some Null"
proof -
  let ?s = "no_modules\<lparr>callbacks := (callbacks no_modules)\<lparr>commit_cb := replicate 16 (User 0, 0)\<rparr>\<rparr>"
  let ?s' = "?s\<lparr>nb_specific := 1, mod_key := (mod_key ?s)(MOD_MEM := 0), initialized := (initialized ?s)(MOD_MEM := True)\<rparr>"
  have "setup_run (replicate 16 (Register None None None (Some 0) None 0)) ?s"
    using sixteen_registered [of 16] by (simp add: MAX_CB_def)
  moreover have "mod_mem_init ?s = Inr ?s'"
    by (simp add: mod_mem_init_def mod_init_def no_modules_def stm_register_def no_room_def MAX_CB_def MAX_SPECIFIC_def
        stm_create_specific_def)
  moreover have "init_specific ?s' = Some (replicate MAX_SPECIFIC Null)"
    by (simp add: init_specific_def no_modules_def)
  moreover have "stm_get_specific (mod_key ?s' MOD_MEM) (replicate MAX_SPECIFIC Null) = Some Null"
    by (simp add: stm_get_specific_def MAX_SPECIFIC_def)
  moreover have "initialized ?s' MOD_MEM" "callbacks ?s' = callbacks ?s" by simp_all
  ultimately show ?thesis by blast
qed

end
