(* ===== verification/Stm_Api.thy ===== *)
theory Stm_Api
  imports Stm_Progress
begin

text \<open>
  The part of \<^verbatim>\<open>tinySTM/src/stm.c\<close> around the protocol: initialisation of the library and of a
  thread's descriptor, inquiries about a transaction, statistics and parameters by name, and the
  contention managers of the modular build.
\<close>

section \<open>Initialisation\<close>

definition RW_SET_SIZE :: nat where "RW_SET_SIZE = 4096"

text \<open>\<^verbatim>\<open>stm_init\<close> clears the locks and the clock; data memory is whatever it is.\<close>

definition stm_init :: "bool \<Rightarrow> shared \<Rightarrow> shared" where
  "stm_init initialized s = (if initialized then s else s\<lparr>locks := (\<lambda>_. Version 0), clock := 0\<rparr>)"

text \<open>
  \<^verbatim>\<open>stm_init_thread\<close>: \<open>tx\<close> is the thread's descriptor if there is one, \<open>raw\<close> the contents of the memory
  allocated for a new one, of which the fields not set here keep their values.
\<close>

definition stm_init_thread :: "stm_tx option \<Rightarrow> stm_tx \<Rightarrow> stm_tx" where
  "stm_init_thread tx raw = (case tx of Some t \<Rightarrow> t | None \<Rightarrow>
     raw\<lparr>status := TX_IDLE, r_set := [], r_size := RW_SET_SIZE, w_set := [], w_size := RW_SET_SIZE, nb_acquired := 0,
         nesting := 0,
         stats := \<lparr>retries = 0, aborts = 0, aborts_1 = 0, aborts_2 = 0, aborts_ro = 0, aborts_locked_write = 0,
           aborts_validate_read = 0, aborts_validate_write = 0, aborts_validate_commit = 0, aborts_early = 0,
           max_retries = 0\<rparr>\<rparr>)"

section \<open>Inquiries\<close>

definition stm_active :: "stm_tx \<Rightarrow> bool" where
  "stm_active tx \<longleftrightarrow> IS_ACTIVE (status tx)"

definition stm_aborted :: "stm_tx \<Rightarrow> bool" where
  "stm_aborted tx \<longleftrightarrow> status tx = TX_ABORTED"

text \<open>Is there an environment to jump back to?\<close>

definition stm_get_env :: "stm_tx \<Rightarrow> bool" where
  "stm_get_env tx \<longleftrightarrow> nesting tx = 0"

definition stm_get_attributes :: "stm_tx \<Rightarrow> tx_attr option" where
  "stm_get_attributes tx = attr tx"

text \<open>
  Statistics by name; \<open>None\<close> is the result 0. The count of aborts on locked reads stays at its
  initial value in this design; that of invalid accesses (\<open>invalid\<close>) is kept by the signal handler.
\<close>

definition stm_get_stats :: "nat \<Rightarrow> string \<Rightarrow> stm_tx \<Rightarrow> nat option" where
  "stm_get_stats invalid name tx =
    (if name = ''read_set_size'' then Some (r_size tx)
     else if name = ''write_set_size'' then Some (w_size tx)
     else if name = ''read_set_nb_entries'' then Some (length (r_set tx))
     else if name = ''write_set_nb_entries'' then Some (length (w_set tx))
     else if name = ''read_only'' then Some (if ro tx then 1 else 0)
     else if name = ''nb_aborts'' then Some (aborts (stats tx))
     else if name = ''nb_aborts_1'' then Some (aborts_1 (stats tx))
     else if name = ''nb_aborts_2'' then Some (aborts_2 (stats tx))
     else if name = ''nb_aborts_ro'' then Some (aborts_ro (stats tx))
     else if name = ''nb_aborts_locked_read'' then Some 0
     else if name = ''nb_aborts_locked_write'' then Some (aborts_locked_write (stats tx))
     else if name = ''nb_aborts_validate_read'' then Some (aborts_validate_read (stats tx))
     else if name = ''nb_aborts_validate_write'' then Some (aborts_validate_write (stats tx))
     else if name = ''nb_aborts_validate_commit'' then Some (aborts_validate_commit (stats tx))
     else if name = ''nb_aborts_invalid_memory'' then Some invalid
     else if name = ''max_retries'' then Some (max_retries (stats tx))
     else None)"

section \<open>Parameters\<close>

datatype param = ParamName string | ParamSize nat

definition stm_get_parameter :: "string \<Rightarrow> string \<Rightarrow> param option" where
  "stm_get_parameter flags name =
    (if name = ''contention_manager'' then Some (ParamName ''SUICIDE'')
     else if name = ''design'' then Some (ParamName ''WRITE-BACK (CTL)'')
     else if name = ''initial_rw_set_size'' then Some (ParamSize RW_SET_SIZE)
     else if name = ''compile_flags'' then Some (ParamName flags)
     else None)"

text \<open>Setting the section in which ticks are delivered; the flag is the result.\<close>

definition stm_set_parameter :: "config \<Rightarrow> string \<Rightarrow> addr \<Rightarrow> control_buffer \<Rightarrow> bool \<times> control_buffer" where
  "stm_set_parameter c name val b =
    (if ea_extratick c \<and> name = ''et_sec_start'' then (True, b\<lparr>sec_addr_defined := True, sec_start_addr := val\<rparr>)
     else if ea_extratick c \<and> name = ''et_sec_end'' then (True, b\<lparr>sec_addr_defined := True, sec_end_addr := val\<rparr>)
     else (False, b))"

section \<open>Contention managers\<close>

definition KILL_SELF :: nat where "KILL_SELF = 0"
definition KILL_OTHER :: nat where "KILL_OTHER = 1"
definition DELAY_RESTART :: nat where "DELAY_RESTART = 4"

text \<open>What a contention manager looks at: the address of the descriptor, its timestamp and its sets.\<close>

record cm_tx =
  cm_self :: addr
  timestamp :: stm_word
  w_entries :: nat
  r_entries :: nat

definition cm_aggressive :: "cm_tx \<Rightarrow> cm_tx \<Rightarrow> nat" where
  "cm_aggressive me other = KILL_OTHER"

definition cm_suicide :: "cm_tx \<Rightarrow> cm_tx \<Rightarrow> nat" where
  "cm_suicide me other = KILL_SELF"

definition cm_delay :: "cm_tx \<Rightarrow> cm_tx \<Rightarrow> nat" where
  "cm_delay me other = (KILL_SELF OR DELAY_RESTART)"

definition cm_timestamp :: "cm_tx \<Rightarrow> cm_tx \<Rightarrow> nat" where
  "cm_timestamp me other =
    (if timestamp me < timestamp other then KILL_OTHER
     else if timestamp me = timestamp other \<and> cm_self me < cm_self other then KILL_OTHER
     else KILL_SELF OR DELAY_RESTART)"

definition cm_karma :: "cm_tx \<Rightarrow> cm_tx \<Rightarrow> nat" where
  "cm_karma me other =
    (if push_bit 1 (w_entries me) + r_entries me < push_bit 1 (w_entries other) + r_entries other then KILL_OTHER
     else if push_bit 1 (w_entries me) + r_entries me = push_bit 1 (w_entries other) + r_entries other \<and>
             cm_self me < cm_self other then KILL_OTHER
     else KILL_SELF)"

lemmas cm_defs = cm_timestamp_def cm_karma_def KILL_SELF_def KILL_OTHER_def DELAY_RESTART_def

text \<open>Two of the managers compare a weight, and the addresses of the descriptors in a tie.\<close>

definition outranks :: "'a::linorder \<times> 'b::linorder \<Rightarrow> 'a \<times> 'b \<Rightarrow> bool" where
  "outranks p q \<longleftrightarrow> fst p < fst q \<or> fst p = fst q \<and> snd p < snd q"

lemma outranks_total: "snd p \<noteq> snd q \<Longrightarrow> outranks p q \<noteq> outranks q p"
  unfolding outranks_def by (metis less_asym linorder_neqE)

lemma outranks_trans: "outranks p q \<Longrightarrow> outranks q r \<Longrightarrow> outranks p r"
  unfolding outranks_def by (metis less_trans)

lemma timestamp_kills:
  "cm_timestamp me other = KILL_OTHER \<longleftrightarrow> outranks (timestamp me, cm_self me) (timestamp other, cm_self other)"
  by (simp add: cm_defs outranks_def)

lemma karma_kills:
  "cm_karma me other = KILL_OTHER \<longleftrightarrow>
     outranks (push_bit 1 (w_entries me) + r_entries me, cm_self me) (push_bit 1 (w_entries other) + r_entries other, cm_self other)"
  by (simp add: cm_defs outranks_def)

section \<open>Properties\<close>

text \<open>
  Initialising the library and then every thread gives a start state of the protocol, whatever
  data memory and the memory of the new descriptors hold; every execution from there is covered by
  the theorems on the protocol.
\<close>

theorem initialisation_reaches_start:
  assumes "\<forall>t. pc (thr S t) = App \<and> \<not> tx_on (cbuf (thr S t)) \<and> desc (thr S t) = stm_init_thread None (raw t)"
    "sh S = stm_init False s0"
  shows "init_state S \<and> reach c ts (S, init_ghost (sh S)) \<and> mem (sh S) = mem s0"
proof -
  have "init_state S"
    using assms by (simp add: init_state_def stm_init_def stm_init_thread_def RW_SET_SIZE_def)
  moreover from this have "reach c ts (S, init_ghost (sh S))"
    by (rule reach.reach_init)
  moreover have "mem (sh S) = mem s0"
    using assms(2) by (simp add: stm_init_def)
  ultimately show ?thesis by blast
qed

definition state_api :: state where
  "state_api = \<lparr>sh = stm_init False (sh state0),
     thr = (\<lambda>t. thread0\<lparr>desc := stm_init_thread None ((desc thread0)\<lparr>tx_start := 77, ro := True\<rparr>)\<rparr>)\<rparr>"

theorem initialisation_reaches_start_witness:
  "init_state state_api \<and> reach cfg0 {0, 1} (state_api, init_ghost (sh state_api)) \<and> mem (sh state_api) = mem (sh state0)"
  using initialisation_reaches_start [of state_api "\<lambda>_. (desc thread0)\<lparr>tx_start := 77, ro := True\<rparr>" "sh state0" cfg0 "{0, 1}"]
  by (simp add: state_api_def thread0_def)

text \<open>
  A transaction that aborts and must not be retried stays \<^verbatim>\<open>TX_ACTIVE\<close>: \<^verbatim>\<open>stm_rollback\<close> prepares
  the descriptor for a restart before it looks at \<^verbatim>\<open>no_retry\<close>. Back in the application \<^verbatim>\<open>stm_aborted\<close>
  is false and \<^verbatim>\<open>stm_active\<close> is true, for a transaction that has been rolled back and is not running.
\<close>

theorem no_retry_abort_looks_active:
  assumes "pc th = P_clock (PrepRollback ctx reason)" "attr (desc th) = Some at" "no_retry at" "clock s < version_max"
    "run c t (s, th) = (s', th')"
  shows "\<not> stm_aborted (desc th') \<and> stm_active (desc th') \<and> nesting (desc th') = 0"
proof -
  have "th' = rollback_restart c ctx reason (prepare_reset c (th\<lparr>desc := (desc th)\<lparr>tx_start := clock s, tx_end := clock s, can_extend := True\<rparr>\<rparr>))"
    using assms(1,4,5) by (auto simp: run_def stm_prepare_def prepare_return_def)
  moreover have "status (desc (rb_return c ctx u)) = status (desc u)" "nesting (desc (rb_return c ctx u)) = nesting (desc u)" for u
    by (simp_all add: rb_return_def leave_stand_def split: rb_ctx.splits)
  ultimately show ?thesis
    using assms(2,3) by (simp add: rollback_restart_def prepare_reset_def stm_aborted_def stm_active_def IS_ACTIVE_def)
qed

theorem no_retry_abort_looks_active_witness:
  "\<exists>s' th'. run cfg0 0 (sh state0, thread0\<lparr>pc := P_clock (PrepRollback RbAbort STM_ABORT_EXPLICIT),
       desc := (desc thread0)\<lparr>attr := Some \<lparr>attr_id = 0, read_only = False, no_retry = True\<rparr>\<rparr>\<rparr>) = (s', th') \<and>
     \<not> stm_aborted (desc th') \<and> stm_active (desc th') \<and> nesting (desc th') = 0"
proof -
  let ?at = "\<lparr>attr_id = 0, read_only = False, no_retry = True\<rparr>"
  let ?th = "thread0\<lparr>pc := P_clock (PrepRollback RbAbort STM_ABORT_EXPLICIT), desc := (desc thread0)\<lparr>attr := Some ?at\<rparr>\<rparr>"
  obtain s' th' where r: "run cfg0 0 (sh state0, ?th) = (s', th')" by fastforce
  have "clock (sh state0) < version_max"
    by (simp add: state0_def version_max_value)
  then show ?thesis
    using no_retry_abort_looks_active [of ?th RbAbort STM_ABORT_EXPLICIT ?at "sh state0" cfg0 0 s' th'] r by simp
qed

text \<open>
  The timestamp and karma managers order transactions: of two transactions in conflict exactly
  one is told to kill the other, whichever of them asks, so they never kill each other nor both give
  way; and the winner relation is transitive, so that some transaction beats all others.
\<close>

theorem cm_total_priority:
  assumes "cm \<in> {cm_timestamp, cm_karma}" "cm_self me \<noteq> cm_self other"
  shows "(cm me other = KILL_OTHER) \<noteq> (cm other me = KILL_OTHER) \<and>
    (cm me other = KILL_OTHER \<longrightarrow> cm other third = KILL_OTHER \<longrightarrow> cm me third = KILL_OTHER)"
proof -
  have "cm = cm_timestamp \<or> cm = cm_karma"
    using assms(1) by simp
  then show ?thesis
  proof
    assume cm: "cm = cm_timestamp"
    show ?thesis
      unfolding cm timestamp_kills
      by (intro conjI impI, rule outranks_total, simp add: assms(2), erule outranks_trans, assumption)
  next
    assume cm: "cm = cm_karma"
    show ?thesis
      unfolding cm karma_kills
      by (intro conjI impI, rule outranks_total, simp add: assms(2), erule outranks_trans, assumption)
  qed
qed

theorem cm_total_priority_witness:
  "let a = \<lparr>cm_self = 64, timestamp = 5, w_entries = 1, r_entries = 2\<rparr>;
       b = \<lparr>cm_self = 128, timestamp = 5, w_entries = 3, r_entries = 0\<rparr>
   in (cm_timestamp a b = KILL_OTHER) \<noteq> (cm_timestamp b a = KILL_OTHER)"
  using cm_total_priority [of cm_timestamp "\<lparr>cm_self = 64, timestamp = 5, w_entries = 1, r_entries = 2\<rparr>"
      "\<lparr>cm_self = 128, timestamp = 5, w_entries = 3, r_entries = 0\<rparr>"]
  by simp

text \<open>
  The karma manager prefers the transaction that has done less: the one with the smaller weight
  kills the other, where the comment promises priority to the transaction with more work done.
\<close>

theorem karma_prefers_less_work:
  assumes "2 * w_entries me + r_entries me < 2 * w_entries other + r_entries other"
  shows "cm_karma me other = KILL_OTHER \<and> cm_karma other me = KILL_SELF"
  using assms by (simp add: cm_defs push_bit_eq_mult)

theorem karma_prefers_less_work_witness:
  "cm_karma \<lparr>cm_self = 128, timestamp = 0, w_entries = 0, r_entries = 1\<rparr> \<lparr>cm_self = 64, timestamp = 0, w_entries = 50, r_entries = 9\<rparr> = KILL_OTHER \<and>
   cm_karma \<lparr>cm_self = 64, timestamp = 0, w_entries = 50, r_entries = 9\<rparr> \<lparr>cm_self = 128, timestamp = 0, w_entries = 0, r_entries = 1\<rparr> = KILL_SELF"
  by (rule karma_prefers_less_work) simp

end
