(* ===== verification/Nbb_List.thy ===== *)
theory Nbb_List
  imports Stm_Prelude
begin

text \<open>
  The non-blocking bounded list of the TPC-C server (\<^verbatim>\<open>TPCC/Server/datatypes/nbblist.h\<close> and
  \<^verbatim>\<open>TPCC/Server/core/nbblist.c\<close>): a ring of 64-bit entries, each of them a version and a value packed
  into one word, with two counters that may lag behind. Any number of threads insert and remove;
  every shared access (a load of a counter or an entry, a compare-and-swap) is one step, and the steps
  of the threads interleave freely. The steps say when a call starts, takes effect and returns; the
  theorems show that the effects form a history of a bounded first-in first-out queue and that every
  call takes effect once, with the result it returns, between its start and its return.
\<close>

section \<open>Entries\<close>

record nbb_list =
  nbb_length :: "64 word"
  val_nbits :: nat
  ver_nbits :: nat
  val_mask :: "64 word"
  ver_mask :: "64 word"
  nbb_head :: "64 word"
  nbb_tail :: "64 word"
  entries :: "64 word list"

definition nbb_list_val :: "nbb_list \<Rightarrow> 64 word \<Rightarrow> 64 word" where
  "nbb_list_val l m = m AND val_mask l"

definition nbb_list_ver :: "nbb_list \<Rightarrow> 64 word \<Rightarrow> 64 word" where
  "nbb_list_ver l m = drop_bit (val_nbits l) (m AND ver_mask l)"

definition nbb_list_mask :: "nbb_list \<Rightarrow> 64 word \<Rightarrow> 64 word \<Rightarrow> 64 word" where
  "nbb_list_mask l ver val =
     push_bit (val_nbits l) ver OR drop_bit (ver_nbits l) (push_bit (ver_nbits l) val)"

text \<open>\<open>mem\<close> is what \<^verbatim>\<open>malloc\<close> returns for the entries: the code does not initialise them.\<close>

definition nbb_list_create :: "64 word \<Rightarrow> nat \<Rightarrow> 64 word list \<Rightarrow> nbb_list" where
  "nbb_list_create len vb mem =
    (let wb = 64 - vb in
     \<lparr>nbb_length = len, val_nbits = vb, ver_nbits = wb,
      val_mask = push_bit vb 1 - 1, ver_mask = push_bit vb (push_bit wb 1 - 1),
      nbb_head = 0, nbb_tail = 0, entries = mem\<rparr>)"

section \<open>Operations\<close>

datatype nbb_op = Insert "64 word" | Remove

text \<open>The values returned: \<open>1\<close>, \<^verbatim>\<open>NBB_LIST_FULL\<close>, \<open>1\<close> with the value removed, \<^verbatim>\<open>NBB_LIST_EMPTY\<close>.\<close>

datatype nbb_result = Inserted | NBB_LIST_FULL | Removed "64 word" | NBB_LIST_EMPTY

text \<open>
  Where a thread is in \<^verbatim>\<open>nbb_list_insert\<close> (\<open>I_\<close>) or \<^verbatim>\<open>nbb_list_remove\<close> (\<open>R_\<close>): about to load the counter,
  to load the entry at \<^verbatim>\<open>mytail\<close> (\<^verbatim>\<open>myhead\<close>), to swap the entry, to swap the counter, to load the
  counter again, or to return.
\<close>

datatype nbb_pc =
    Idle
  | I_tail "64 word" | I_entry "64 word" "64 word" "64 word" | I_cas "64 word" "64 word" "64 word"
  | I_pub "64 word" "64 word" | I_reload "64 word"
  | R_head | R_entry "64 word" "64 word" | R_cas "64 word" "64 word" "64 word"
  | R_pub "64 word" "64 word" "64 word" | R_reload "64 word" "64 word"
  | Return nbb_result

definition nbb_slot :: "nbb_list \<Rightarrow> 64 word \<Rightarrow> nat" where
  "nbb_slot l m = unat (m mod nbb_length l)"

definition nbb_round :: "nbb_list \<Rightarrow> 64 word \<Rightarrow> 64 word" where
  "nbb_round l m = m div nbb_length l"

definition insert_entry :: "nbb_list \<Rightarrow> 64 word \<Rightarrow> 64 word \<Rightarrow> 64 word \<Rightarrow> nbb_pc" where
  "insert_entry l v m b =
    (let tailmask = entries l ! nbb_slot l m in
     if nbb_list_val l tailmask \<noteq> 0 \<or> nbb_list_ver l tailmask \<noteq> nbb_round l m then
       (if nbb_list_val l tailmask \<noteq> 0 \<and> nbb_list_ver l tailmask = nbb_round l m
        then Return NBB_LIST_FULL else I_entry v (m + 1) b)
     else I_cas v m b)"

definition insert_cas :: "nbb_list \<Rightarrow> 64 word \<Rightarrow> 64 word \<Rightarrow> 64 word \<Rightarrow> nbb_list \<times> nbb_pc" where
  "insert_cas l v m b =
    (let oldmask = nbb_list_mask l (nbb_round l m) 0; newmask = nbb_list_mask l (nbb_round l m + 1) v in
     if entries l ! nbb_slot l m = oldmask
     then (l\<lparr>entries := (entries l)[nbb_slot l m := newmask]\<rparr>, I_pub m b)
     else (l, I_tail v))"

definition insert_pub :: "nbb_list \<Rightarrow> 64 word \<Rightarrow> 64 word \<Rightarrow> nbb_list \<times> nbb_pc" where
  "insert_pub l m b =
    (if m + 1 > b then
       (if nbb_tail l = b then (l\<lparr>nbb_tail := m + 1\<rparr>, Return Inserted) else (l, I_reload m))
     else (l, Return Inserted))"

definition remove_entry :: "nbb_list \<Rightarrow> 64 word \<Rightarrow> 64 word \<Rightarrow> nbb_pc" where
  "remove_entry l m b =
    (let headmask = entries l ! nbb_slot l m in
     if nbb_list_val l headmask = 0 \<or> nbb_list_ver l headmask \<noteq> nbb_round l m + 1 then
       (if nbb_list_val l headmask = 0 \<and> nbb_list_ver l headmask = nbb_round l m
        then Return NBB_LIST_EMPTY else R_entry (m + 1) b)
     else R_cas m b headmask)"

definition remove_cas :: "nbb_list \<Rightarrow> 64 word \<Rightarrow> 64 word \<Rightarrow> 64 word \<Rightarrow> nbb_list \<times> nbb_pc" where
  "remove_cas l m b headmask =
    (let oldmask = nbb_list_mask l (nbb_round l m + 1) (nbb_list_val l headmask);
         newmask = nbb_list_mask l (nbb_round l m + 1) 0 in
     if entries l ! nbb_slot l m = oldmask
     then (l\<lparr>entries := (entries l)[nbb_slot l m := newmask]\<rparr>, R_pub m b oldmask)
     else (l, R_head))"

definition remove_pub :: "nbb_list \<Rightarrow> 64 word \<Rightarrow> 64 word \<Rightarrow> 64 word \<Rightarrow> nbb_list \<times> nbb_pc" where
  "remove_pub l m b oldmask =
    (if m + 1 > b then
       (if nbb_head l = b then (l\<lparr>nbb_head := m + 1\<rparr>, Return (Removed (nbb_list_val l oldmask)))
        else (l, R_reload m oldmask))
     else (l, Return (Removed (nbb_list_val l oldmask))))"

text \<open>One step of a thread inside a call.\<close>

fun nbb_run :: "nbb_list \<Rightarrow> nbb_pc \<Rightarrow> nbb_list \<times> nbb_pc" where
  "nbb_run l (I_tail v) = (l, I_entry v (nbb_tail l) (nbb_tail l))"
| "nbb_run l (I_entry v m b) = (l, insert_entry l v m b)"
| "nbb_run l (I_cas v m b) = insert_cas l v m b"
| "nbb_run l (I_pub m b) = insert_pub l m b"
| "nbb_run l (I_reload m) = (l, I_pub m (nbb_tail l))"
| "nbb_run l R_head = (l, R_entry (nbb_head l) (nbb_head l))"
| "nbb_run l (R_entry m b) = (l, remove_entry l m b)"
| "nbb_run l (R_cas m b k) = remove_cas l m b k"
| "nbb_run l (R_pub m b k) = remove_pub l m b k"
| "nbb_run l (R_reload m k) = (l, R_pub m (nbb_head l) k)"
| "nbb_run l Idle = (l, Idle)"
| "nbb_run l (Return r) = (l, Return r)"

section \<open>Executions\<close>

definition nbb_start :: "nbb_op \<Rightarrow> nbb_pc" where
  "nbb_start c = (case c of Insert v \<Rightarrow> I_tail v | Remove \<Rightarrow> R_head)"

text \<open>
  The step at which a call takes effect: the swap of an entry, or the load of the entry that shows
  the ring full or empty.
\<close>

definition nbb_effect :: "nbb_list \<Rightarrow> nbb_pc \<Rightarrow> nbb_pc \<Rightarrow> (nbb_op \<times> nbb_result) option" where
  "nbb_effect l p p' = (case (p, p') of
     (I_cas v m b, I_pub _ _) \<Rightarrow> Some (Insert v, Inserted)
   | (I_entry v m b, Return _) \<Rightarrow> Some (Insert v, NBB_LIST_FULL)
   | (R_cas m b k, R_pub _ _ k') \<Rightarrow> Some (Remove, Removed (nbb_list_val l k'))
   | (R_entry m b, Return _) \<Rightarrow> Some (Remove, NBB_LIST_EMPTY)
   | _ \<Rightarrow> None)"

datatype nbb_event = Call tid nbb_op | Effect tid nbb_op nbb_result | Ret tid nbb_result

record nbb_sys =
  nlist :: nbb_list
  at :: "tid \<Rightarrow> nbb_pc"

definition nbb_init :: "64 word \<Rightarrow> nat \<Rightarrow> 64 word list \<Rightarrow> nbb_sys" where
  "nbb_init len vb mem = \<lparr>nlist = nbb_list_create len vb mem, at = (\<lambda>_. Idle)\<rparr>"

text \<open>The next step of thread \<open>t\<close>; \<open>c\<close> is the call it makes when it is outside the list.\<close>

definition nbb_step :: "nbb_sys \<Rightarrow> tid \<Rightarrow> nbb_op \<Rightarrow> nbb_event list \<times> nbb_sys" where
  "nbb_step s t c = (case at s t of
     Idle \<Rightarrow> ([Call t c], s\<lparr>at := (at s)(t := nbb_start c)\<rparr>)
   | Return r \<Rightarrow> ([Ret t r], s\<lparr>at := (at s)(t := Idle)\<rparr>)
   | p \<Rightarrow> (let (l, p') = nbb_run (nlist s) p in
       ((case nbb_effect l p p' of None \<Rightarrow> [] | Some (c, r) \<Rightarrow> [Effect t c r]),
        \<lparr>nlist = l, at = (at s)(t := p')\<rparr>)))"

text \<open>An execution: a schedule says which thread moves next.\<close>

fun nbb_trace :: "nbb_sys \<Rightarrow> (tid \<times> nbb_op) list \<Rightarrow> nbb_event list \<times> nbb_sys" where
  "nbb_trace s [] = ([], s)"
| "nbb_trace s ((t, c) # cs) =
    (let (es, s) = nbb_step s t c; (es', s) = nbb_trace s cs in (es @ es', s))"

text \<open>Zero marks a free entry, so the values inserted are positive; they fit their field.\<close>

definition nbb_op_ok :: "nat \<Rightarrow> nbb_op \<Rightarrow> bool" where
  "nbb_op_ok vb c = (case c of Insert v \<Rightarrow> v \<noteq> 0 \<and> unat v < 2 ^ vb | Remove \<Rightarrow> True)"

section \<open>Specification\<close>

text \<open>The bounded queue: what an operation with its result does, if the queue allows it.\<close>

fun bq_apply :: "nat \<Rightarrow> nbb_op \<times> nbb_result \<Rightarrow> 64 word list \<Rightarrow> 64 word list option" where
  "bq_apply cap (Insert v, Inserted) q = (if length q < cap then Some (q @ [v]) else None)"
| "bq_apply cap (Insert v, NBB_LIST_FULL) q = (if length q = cap then Some q else None)"
| "bq_apply cap (Remove, Removed v) q = (case q of x # xs \<Rightarrow> if x = v then Some xs else None | [] \<Rightarrow> None)"
| "bq_apply cap (Remove, NBB_LIST_EMPTY) q = (if q = [] then Some q else None)"
| "bq_apply cap _ q = None"

fun bq_history :: "nat \<Rightarrow> (nbb_op \<times> nbb_result) list \<Rightarrow> 64 word list \<Rightarrow> 64 word list option" where
  "bq_history cap [] q = Some q"
| "bq_history cap (e # es) q = Option.bind (bq_apply cap e q) (bq_history cap es)"

definition effects :: "nbb_event list \<Rightarrow> (nbb_op \<times> nbb_result) list" where
  "effects es = List.map_filter (\<lambda>e. case e of Effect t c r \<Rightarrow> Some (c, r) | _ \<Rightarrow> None) es"

definition inserted :: "nbb_event list \<Rightarrow> nat" where
  "inserted es = length (filter (\<lambda>(c, r). r = Inserted) (effects es))"

text \<open>The calls of one thread: a call, its effect, its return, and so on.\<close>

datatype call_phase = Ready | Called nbb_op | Done nbb_result

fun phase_step :: "tid \<Rightarrow> nbb_event \<Rightarrow> call_phase option \<Rightarrow> call_phase option" where
  "phase_step t (Call u c) p = (if u = t then (if p = Some Ready then Some (Called c) else None) else p)"
| "phase_step t (Effect u c r) p = (if u = t then (if p = Some (Called c) then Some (Done r) else None) else p)"
| "phase_step t (Ret u r) p = (if u = t then (if p = Some (Done r) then Some Ready else None) else p)"

definition call_phase :: "tid \<Rightarrow> nbb_event list \<Rightarrow> call_phase option" where
  "call_phase t es = fold (phase_step t) es (Some Ready)"

section \<open>Facts about entries\<close>

definition nbb_wf :: "nbb_list \<Rightarrow> bool" where
  "nbb_wf l \<longleftrightarrow> 0 < val_nbits l \<and> val_nbits l < 64 \<and> ver_nbits l = 64 - val_nbits l \<and>
     val_mask l = mask (val_nbits l) \<and> ver_mask l = push_bit (val_nbits l) (mask (ver_nbits l)) \<and>
     0 < nbb_length l \<and> unat (nbb_length l) \<le> 2 ^ val_nbits l \<and> length (entries l) = unat (nbb_length l)"

lemma nbb_wf_create:
  assumes "0 < vb" "vb < 64" "0 < len" "unat len \<le> 2 ^ vb" "length mem = unat len"
  shows "nbb_wf (nbb_list_create len vb mem)"
  using assms by (simp add: nbb_wf_def nbb_list_create_def Let_def mask_eq_exp_minus_1)

lemma low_bits: "unat (v :: 64 word) < 2 ^ n \<Longrightarrow> n \<le> k \<Longrightarrow> \<not> bit v k"
  by (rule not_bit_unat_less) (meson one_le_numeral order_less_le_trans power_increasing)

lemma val_of_mask [simp]:
  assumes "nbb_wf l" "unat v < 2 ^ val_nbits l"
  shows "nbb_list_val l (nbb_list_mask l r v) = v"
proof (rule bit_word_eqI)
  fix k assume k: "k < LENGTH(64)"
  show "bit (nbb_list_val l (nbb_list_mask l r v)) k = bit v k"
    using assms(1) k low_bits [OF assms(2), of k]
    by (cases "k < val_nbits l") (auto simp: nbb_wf_def nbb_list_val_def nbb_list_mask_def bit_simps)
qed

lemma ver_of_mask [simp]:
  assumes "nbb_wf l" "unat r < 2 ^ ver_nbits l" "unat v < 2 ^ val_nbits l"
  shows "nbb_list_ver l (nbb_list_mask l r v) = r"
proof (rule bit_word_eqI)
  fix k assume k: "k < LENGTH(64)"
  show "bit (nbb_list_ver l (nbb_list_mask l r v)) k = bit r k"
    using assms(1) k low_bits [OF assms(2), of k] low_bits [OF assms(3), of "val_nbits l + k"]
    by (cases "k < ver_nbits l") (auto simp: nbb_wf_def nbb_list_ver_def nbb_list_mask_def bit_simps)
qed

section \<open>The invariant\<close>

text \<open>
  \<open>h\<close> values have been removed and \<open>q\<close> are in the list, so \<open>h + length q\<close> have been inserted. The entry
  for the next insertion at position \<open>p\<close> carries the version \<open>p div n\<close>; it holds the value inserted at
  position \<open>p - n\<close> until this one is removed.
\<close>

definition nbb_ring :: "nbb_list \<Rightarrow> nat \<Rightarrow> 64 word list \<Rightarrow> bool" where
  "nbb_ring l h q \<longleftrightarrow> (let n = unat (nbb_length l); k = h + length q in
     length q \<le> n \<and> k < n * (2 ^ ver_nbits l - 1) \<and>
     (\<forall>v \<in> set q. v \<noteq> 0 \<and> unat v < 2 ^ val_nbits l) \<and>
     (\<forall>p. k \<le> p \<and> p < k + n \<longrightarrow> entries l ! (p mod n) =
        nbb_list_mask l (of_nat (p div n)) (if h + n \<le> p then q ! (p - n - h) else 0)) \<and>
     unat (nbb_tail l) \<le> k \<and> unat (nbb_head l) \<le> h)"

fun nbb_pc_ok :: "nbb_list \<Rightarrow> nat \<Rightarrow> nat \<Rightarrow> nbb_pc \<Rightarrow> bool" where
  "nbb_pc_ok l h k (I_tail v) = nbb_op_ok (val_nbits l) (Insert v)"
| "nbb_pc_ok l h k (I_entry v m b) = (nbb_op_ok (val_nbits l) (Insert v) \<and> unat m \<le> k)"
| "nbb_pc_ok l h k (I_cas v m b) = (nbb_op_ok (val_nbits l) (Insert v) \<and> unat m \<le> k)"
| "nbb_pc_ok l h k (I_pub m b) = (unat m < k)"
| "nbb_pc_ok l h k (I_reload m) = (unat m < k)"
| "nbb_pc_ok l h k (R_entry m b) = (unat m \<le> h)"
| "nbb_pc_ok l h k (R_cas m b x) = (unat m \<le> h \<and> nbb_list_val l x \<noteq> 0)"
| "nbb_pc_ok l h k (R_pub m b x) = (unat m < h)"
| "nbb_pc_ok l h k (R_reload m x) = (unat m < h)"
| "nbb_pc_ok l h k _ = True"

lemma nbb_ring_len_pos: "nbb_wf l \<Longrightarrow> 0 < unat (nbb_length l)"
  by (simp add: nbb_wf_def word_greater_zero_iff unat_gt_0)

lemma next_congruent:
  fixes m k n :: nat
  assumes "0 < n" "m \<le> k"
  obtains j where "k \<le> m + n * j" "m + n * j < k + n"
proof
  let ?j = "(k - m + n - 1) div n"
  have "k - m + n - 1 = n * ?j + (k - m + n - 1) mod n"
    by simp
  moreover have "(k - m + n - 1) mod n < n"
    using assms(1) by simp
  ultimately show "k \<le> m + n * ?j" "m + n * ?j < k + n"
    using assms by linarith+
qed

lemma nbb_positions_bound:
  assumes "nbb_wf l" "nbb_ring l h q" "p \<le> h + length q + unat (nbb_length l)"
  shows "p div unat (nbb_length l) < 2 ^ ver_nbits l"
proof -
  let ?n = "unat (nbb_length l)"
  have "h + length q < ?n * (2 ^ ver_nbits l - 1)"
    using assms(2) by (simp add: nbb_ring_def Let_def)
  then have "h + length q + ?n < ?n * 2 ^ ver_nbits l"
    by (simp add: diff_mult_distrib2 less_diff_conv)
  then show ?thesis
    using assms(3) by (simp add: less_mult_imp_div_less mult.commute)
qed

lemma nbb_position_word:
  assumes "nbb_wf l" "p < 2 ^ ver_nbits l"
  shows "unat (of_nat p :: 64 word) = p"
proof -
  have "(2 :: nat) ^ ver_nbits l \<le> 2 ^ 64"
    using assms(1) by (intro power_increasing) (auto simp: nbb_wf_def)
  then show ?thesis
    using assms(2) by (simp add: unat_of_nat)
qed

text \<open>What an entry shows to a thread that looks at a position not beyond the last insertion.\<close>

lemma nbb_entry:
  assumes wf: "nbb_wf l" and ring: "nbb_ring l h q" and m: "m \<le> h + length q"
  defines "n \<equiv> unat (nbb_length l)"
  obtains j where "h + length q \<le> m + n * j" "m + n * j < h + length q + n"
    "unat (nbb_list_ver l (entries l ! (m mod n))) = m div n + j"
    "nbb_list_val l (entries l ! (m mod n)) = (if h + n \<le> m + n * j then q ! (m + n * j - n - h) else 0)"
proof -
  have n: "0 < n"
    using wf by (simp add: n_def nbb_ring_len_pos)
  obtain j where j: "h + length q \<le> m + n * j" "m + n * j < h + length q + n"
    using next_congruent [OF n m] .
  let ?p = "m + n * j"
  let ?v = "if h + n \<le> ?p then q ! (?p - n - h) else 0"
  have e: "entries l ! (m mod n) = nbb_list_mask l (of_nat (?p div n)) ?v"
    using ring j unfolding nbb_ring_def Let_def n_def [symmetric] by (metis mod_mult_self2)
  have v: "unat ?v < 2 ^ val_nbits l"
    using ring j unfolding nbb_ring_def Let_def n_def [symmetric] by auto
  have d: "?p div n = m div n + j"
    using n by simp
  have b: "?p div n < 2 ^ ver_nbits l"
    using nbb_positions_bound [OF wf ring] j(2) unfolding n_def by (meson less_imp_le)
  have "unat (nbb_list_ver l (entries l ! (m mod n))) = m div n + j"
    unfolding e using wf v b nbb_position_word [OF wf b] d by (metis ver_of_mask)
  moreover have "nbb_list_val l (entries l ! (m mod n)) = ?v"
    unfolding e using wf v by (rule val_of_mask)
  ultimately show thesis
    using that [of j] j by blast
qed

text \<open>An entry free for insertion, full, ready for removal or empty, in terms of the queue.\<close>

lemma nbb_insert_position:
  assumes "nbb_wf l" "nbb_ring l h q" "m \<le> h + length q" "n = unat (nbb_length l)"
    "unat (nbb_list_ver l (entries l ! (m mod n))) = m div n"
  shows "m = h + length q" "nbb_list_val l (entries l ! (m mod n)) \<noteq> 0 \<longleftrightarrow> length q = n"
proof -
  obtain j where j: "h + length q \<le> m + n * j" "m + n * j < h + length q + n"
      "unat (nbb_list_ver l (entries l ! (m mod n))) = m div n + j"
      "nbb_list_val l (entries l ! (m mod n)) = (if h + n \<le> m + n * j then q ! (m + n * j - n - h) else 0)"
    using nbb_entry [OF assms(1-3)] unfolding assms(4) by blast
  have "j = 0"
    using j(3) assms(5) by simp
  with j(1) assms(3) show m: "m = h + length q" by simp
  have "length q \<le> n" "\<forall>v \<in> set q. v \<noteq> 0"
    using assms(2,4) by (simp_all add: nbb_ring_def Let_def)
  then show "nbb_list_val l (entries l ! (m mod n)) \<noteq> 0 \<longleftrightarrow> length q = n"
    using j(4) \<open>j = 0\<close> m nbb_ring_len_pos [OF assms(1)] assms(4) by (auto simp: in_set_conv_nth)
qed

lemma nbb_remove_position:
  assumes "nbb_wf l" "nbb_ring l h q" "m \<le> h" "n = unat (nbb_length l)"
    "unat (nbb_list_ver l (entries l ! (m mod n))) = m div n + 1"
    "nbb_list_val l (entries l ! (m mod n)) \<noteq> 0"
  shows "m = h \<and> q \<noteq> [] \<and> nbb_list_val l (entries l ! (m mod n)) = hd q"
proof -
  obtain j where j: "h + length q \<le> m + n * j" "m + n * j < h + length q + n"
      "unat (nbb_list_ver l (entries l ! (m mod n))) = m div n + j"
      "nbb_list_val l (entries l ! (m mod n)) = (if h + n \<le> m + n * j then q ! (m + n * j - n - h) else 0)"
    using nbb_entry [OF assms(1,2), of m] assms(3) unfolding assms(4) by auto
  have "j = 1"
    using j(3) assms(5) by simp
  then have "m = h" "q \<noteq> []"
    using j(2,4) assms(3,6) by (auto split: if_splits)
  then show ?thesis
    using j(4) \<open>j = 1\<close> by (simp add: hd_conv_nth)
qed

lemma nbb_empty_position:
  assumes "nbb_wf l" "nbb_ring l h q" "m \<le> h" "n = unat (nbb_length l)"
    "unat (nbb_list_ver l (entries l ! (m mod n))) = m div n"
  shows "m = h \<and> q = []"
  using nbb_insert_position(1) [OF assms(1,2) _ assms(4,5)] assms(3) by auto

text \<open>A position before the last insertion (removal) is passed over.\<close>

lemma nbb_word_pos:
  assumes "nbb_wf l"
  shows "nbb_slot l m = unat m mod unat (nbb_length l)" "unat (nbb_round l m) = unat m div unat (nbb_length l)"
  using nbb_ring_len_pos [OF assms] by (simp_all add: nbb_slot_def nbb_round_def unat_mod_distrib unat_div_distrib)

lemma nbb_no_wrap:
  assumes "nbb_wf l" "nbb_ring l h q" "unat m \<le> h + length q"
  shows "unat (m + 1) = unat m + 1" "unat (nbb_round l m + 1) = unat (nbb_round l m) + 1"
proof -
  let ?n = "unat (nbb_length l)"
  have "unat m \<le> ?n * (2 ^ ver_nbits l - 1)"
    using assms(2,3) by (simp add: nbb_ring_def Let_def)
  also have "\<dots> \<le> 2 ^ val_nbits l * (2 ^ ver_nbits l - 1)"
    using assms(1) by (intro mult_right_mono) (simp_all add: nbb_wf_def)
  also have "\<dots> = 2 ^ 64 - 2 ^ val_nbits l"
    using assms(1) by (simp add: nbb_wf_def power_add [symmetric] diff_mult_distrib2)
  also have "\<dots> \<le> 2 ^ 64 - 2 ^ 1"
    using assms(1) by (intro diff_le_mono2 power_increasing) (simp_all add: nbb_wf_def)
  finally have m: "unat m + 1 < 2 ^ 64"
    by simp
  then show "unat (m + 1) = unat m + 1"
    by (simp add: unat_word_ariths)
  have "unat (nbb_round l m) \<le> unat m"
    using assms(1) by (simp add: nbb_word_pos)
  with m show "unat (nbb_round l m + 1) = unat (nbb_round l m) + 1"
    by (simp add: unat_word_ariths)
qed

section \<open>Steps\<close>

text \<open>Swapping a free entry for the next value, and a value for a free entry.\<close>

lemma mod_inj_window:
  fixes p a n :: nat
  assumes "a \<le> p" "p < a + n" "p mod n = a mod n"
  shows "p = a"
proof -
  have "n dvd p - a"
    using assms(1,3) by (simp add: mod_eq_dvd_iff_nat)
  then show ?thesis
    using dvd_imp_le [of n "p - a"] assms(1,2) by linarith
qed

lemma nbb_ring_insert:
  assumes wf: "nbb_wf l" and ring: "nbb_ring l h q" and n: "n = unat (nbb_length l)"
    and k: "k = h + length q" "k + 1 < n * (2 ^ ver_nbits l - 1)"
    and q: "length q < n" and v: "v \<noteq> 0" "unat v < 2 ^ val_nbits l"
    and r: "unat r = k div n + 1"
  shows "nbb_ring (l\<lparr>entries := (entries l)[k mod n := nbb_list_mask l r v]\<rparr>) h (q @ [v])"
proof -
  have len: "length (entries l) = n" and pos: "0 < n"
    using wf nbb_ring_len_pos [OF wf] n by (simp_all add: nbb_wf_def)
  have "r = of_nat (unat r)" by simp
  then have r': "r = of_nat ((k + n) div n)"
    using pos by (simp only: r) (simp add: div_add_self2)
  have old: "entries l ! (p mod n) = nbb_list_mask l (of_nat (p div n)) (if h + n \<le> p then q ! (p - n - h) else 0)"
    if "k \<le> p" "p < k + n" for p
    using ring that unfolding nbb_ring_def Let_def n [symmetric] k(1) by blast
  have new: "(entries l)[k mod n := nbb_list_mask l r v] ! (p mod n) =
      nbb_list_mask l (of_nat (p div n)) (if h + n \<le> p then (q @ [v]) ! (p - n - h) else 0)"
    if "k + 1 \<le> p" "p < k + 1 + n" for p
  proof (cases "p = k + n")
    case True
    then show ?thesis using len pos r' k(1) by (simp add: nth_append)
  next
    case False
    with that have "p mod n \<noteq> k mod n"
      using mod_inj_window [of k p n] by auto
    with False that old [of p] show ?thesis by (auto simp: nth_append k(1))
  qed
  show ?thesis
    using ring k q v new by (auto simp: nbb_ring_def Let_def n [symmetric] nbb_list_mask_def)
qed

lemma nbb_ring_remove:
  assumes wf: "nbb_wf l" and ring: "nbb_ring l h (v # q)" and n: "n = unat (nbb_length l)"
    and r: "unat r = h div n + 1"
  shows "nbb_ring (l\<lparr>entries := (entries l)[h mod n := nbb_list_mask l r 0]\<rparr>) (h + 1) q"
proof -
  have len: "length (entries l) = n" and pos: "0 < n"
    using wf nbb_ring_len_pos [OF wf] n by (simp_all add: nbb_wf_def)
  have "r = of_nat (unat r)" by simp
  then have r': "r = of_nat ((h + n) div n)"
    using pos by (simp only: r) (simp add: div_add_self2)
  let ?k = "h + 1 + length q"
  have old: "entries l ! (p mod n) =
      nbb_list_mask l (of_nat (p div n)) (if h + n \<le> p then (v # q) ! (p - n - h) else 0)"
    if "?k \<le> p" "p < ?k + n" for p
    using ring that unfolding nbb_ring_def Let_def n [symmetric] by simp
  have new: "(entries l)[h mod n := nbb_list_mask l r 0] ! (p mod n) =
      nbb_list_mask l (of_nat (p div n)) (if h + 1 + n \<le> p then q ! (p - n - (h + 1)) else 0)"
    if "?k \<le> p" "p < ?k + n" for p
  proof (cases "p = h + n")
    case True
    then show ?thesis using len pos r' by simp
  next
    case False
    have "length q + 1 \<le> n"
      using ring by (simp add: nbb_ring_def Let_def n [symmetric])
    have "p mod n \<noteq> h mod n"
    proof
      assume m: "p mod n = h mod n"
      show False
      proof (cases "p < h + n")
        case True
        then show False using mod_inj_window [of h p n] that m by simp
      next
        case f: False
        then show False using mod_inj_window [of "h + n" p n] that m False \<open>length q + 1 \<le> n\<close> by simp
      qed
    qed
    with False that old [of p] show ?thesis by (auto simp: nth_Cons')
  qed
  show ?thesis
    using ring new by (auto simp: nbb_ring_def Let_def n [symmetric] nbb_list_mask_def)
qed

text \<open>The phase of the call that a thread is in.\<close>

fun pc_phase :: "nbb_list \<Rightarrow> nbb_pc \<Rightarrow> call_phase" where
  "pc_phase l Idle = Ready"
| "pc_phase l (I_tail v) = Called (Insert v)"
| "pc_phase l (I_entry v m b) = Called (Insert v)"
| "pc_phase l (I_cas v m b) = Called (Insert v)"
| "pc_phase l (I_pub m b) = Done Inserted"
| "pc_phase l (I_reload m) = Done Inserted"
| "pc_phase l R_head = Called Remove"
| "pc_phase l (R_entry m b) = Called Remove"
| "pc_phase l (R_cas m b k) = Called Remove"
| "pc_phase l (R_pub m b k) = Done (Removed (nbb_list_val l k))"
| "pc_phase l (R_reload m k) = Done (Removed (nbb_list_val l k))"
| "pc_phase l (Return r) = Done r"

definition same_params :: "nbb_list \<Rightarrow> nbb_list \<Rightarrow> bool" where
  "same_params l l' \<longleftrightarrow> nbb_length l' = nbb_length l \<and> val_nbits l' = val_nbits l \<and>
     ver_nbits l' = ver_nbits l \<and> val_mask l' = val_mask l \<and> ver_mask l' = ver_mask l \<and>
     length (entries l') = length (entries l)"

lemma same_params_val: "same_params l l' \<Longrightarrow> nbb_list_val l' = nbb_list_val l"
  by (rule ext) (simp add: nbb_list_val_def same_params_def)

lemma same_params_bits: "same_params l l' \<Longrightarrow> val_nbits l' = val_nbits l"
  by (simp add: same_params_def)

lemma same_params_wf: "same_params l l' \<Longrightarrow> nbb_wf l' = nbb_wf l"
  by (simp add: nbb_wf_def same_params_def)

lemma same_params_phase: "same_params l l' \<Longrightarrow> pc_phase l' p = pc_phase l p"
  by (cases p) (simp_all add: same_params_val [of l l'])

lemma nbb_pc_ok_mono:
  "nbb_pc_ok l h k p \<Longrightarrow> same_params l l' \<Longrightarrow> h \<le> h' \<Longrightarrow> k \<le> k' \<Longrightarrow> nbb_pc_ok l' h' k' p"
  by (cases p) (simp_all add: same_params_val [of l l'] same_params_bits [of l l'])

text \<open>
  What one step of a call does: without effect it leaves the queue alone; with an effect it does what
  the specification of the queue says. \<open>room\<close> keeps the versions within their field.
\<close>

definition nbb_simulated :: "nbb_list \<Rightarrow> nbb_pc \<Rightarrow> nat \<Rightarrow> 64 word list \<Rightarrow> nbb_list \<Rightarrow> nbb_pc \<Rightarrow> bool" where
  "nbb_simulated l p h q l' p' \<longleftrightarrow> (\<exists>h' q'. same_params l l' \<and> nbb_ring l' h' q' \<and> h \<le> h' \<and>
     h + length q \<le> h' + length q' \<and> nbb_pc_ok l' h' (h' + length q') p' \<and>
     (case nbb_effect l' p p' of
        None \<Rightarrow> h' = h \<and> q' = q \<and> pc_phase l p' = pc_phase l p
      | Some (c, r) \<Rightarrow> bq_apply (unat (nbb_length l)) (c, r) q = Some q' \<and>
          h' + length q' = h + length q + (if r = Inserted then 1 else 0) \<and>
          pc_phase l p = Called c \<and> pc_phase l p' = Done r))"

lemma simulated_quiet:
  assumes "nbb_ring l' h q" "same_params l l'" "nbb_pc_ok l' h (h + length q) p'"
    "nbb_effect l' p p' = None" "pc_phase l p' = pc_phase l p"
  shows "nbb_simulated l p h q l' p'"
  unfolding nbb_simulated_def using assms by (intro exI [of _ h] exI [of _ q]) simp

lemma same_params_refl [simp]: "same_params l l"
  by (simp add: same_params_def)

lemma nbb_tail_ok: "nbb_ring l h q \<Longrightarrow> unat (nbb_tail l) \<le> h + length q" "nbb_ring l h q \<Longrightarrow> unat (nbb_head l) \<le> h"
  by (simp_all add: nbb_ring_def Let_def)

lemma nbb_ring_publish:
  "nbb_ring l h q \<Longrightarrow> unat m \<le> h + length q \<Longrightarrow> nbb_ring (l\<lparr>nbb_tail := m\<rparr>) h q"
  "nbb_ring l h q \<Longrightarrow> unat m \<le> h \<Longrightarrow> nbb_ring (l\<lparr>nbb_head := m\<rparr>) h q"
  by (simp_all add: nbb_ring_def Let_def nbb_list_mask_def)

lemma word_eq_unat: "(a :: 64 word) = b \<longleftrightarrow> unat a = unat b"
  by (simp add: word_unat_eq_iff)

lemma step_insert_entry:
  assumes wf: "nbb_wf l" and ring: "nbb_ring l h q" and v: "nbb_op_ok (val_nbits l) (Insert v)"
    and m: "unat m \<le> h + length q"
  shows "nbb_simulated l (I_entry v m b) h q l (insert_entry l v m b)"
proof -
  let ?n = "unat (nbb_length l)"
  let ?e = "entries l ! (unat m mod ?n)"
  consider "nbb_list_ver l ?e = nbb_round l m" "nbb_list_val l ?e = 0"
    | "nbb_list_ver l ?e = nbb_round l m" "nbb_list_val l ?e \<noteq> 0"
    | "nbb_list_ver l ?e \<noteq> nbb_round l m" by blast
  then show ?thesis
  proof cases
    case 1
    then have "insert_entry l v m b = I_cas v m b"
      using wf by (simp add: insert_entry_def Let_def nbb_word_pos)
    then show ?thesis
      using ring v m by (auto intro!: simulated_quiet simp: nbb_effect_def)
  next
    case 2
    then have "insert_entry l v m b = Return NBB_LIST_FULL"
      using wf by (simp add: insert_entry_def Let_def nbb_word_pos)
    moreover have "length q = ?n"
      using nbb_insert_position(2) [OF wf ring m refl] 2 wf by (simp add: nbb_word_pos)
    ultimately show ?thesis
      using ring unfolding nbb_simulated_def
      by (intro exI [of _ h] exI [of _ q]) (simp add: nbb_effect_def)
  next
    case 3
    then have e: "insert_entry l v m b = I_entry v (m + 1) b"
      using wf by (simp add: insert_entry_def Let_def nbb_word_pos)
    have "unat m \<noteq> h + length q"
    proof
      assume "unat m = h + length q"
      with nbb_entry [OF wf ring m] obtain j where "h + length q + ?n * j < h + length q + ?n"
          "unat (nbb_list_ver l ?e) = unat m div ?n + j" by metis
      then show False
        using 3 wf by (simp add: word_eq_unat nbb_word_pos)
    qed
    with m v ring wf show ?thesis
      by (auto intro!: simulated_quiet simp: e nbb_effect_def nbb_no_wrap)
  qed
qed

lemma step_insert_cas:
  assumes wf: "nbb_wf l" and ring: "nbb_ring l h q" and v: "nbb_op_ok (val_nbits l) (Insert v)"
    and m: "unat m \<le> h + length q" and step: "insert_cas l v m b = (l', p')"
    and room: "p' = I_pub m b \<Longrightarrow> h + length q + 1 < unat (nbb_length l) * (2 ^ ver_nbits l - 1)"
  shows "nbb_simulated l (I_cas v m b) h q l' p'"
proof (cases "entries l ! nbb_slot l m = nbb_list_mask l (nbb_round l m) 0")
  case False
  with step have "l' = l" "p' = I_tail v" by (simp_all add: insert_cas_def)
  with ring v show ?thesis by (auto intro!: simulated_quiet simp: nbb_effect_def)
next
  case True
  let ?n = "unat (nbb_length l)"
  let ?e = "entries l ! (unat m mod ?n)"
  have p': "p' = I_pub m b"
    and l': "l' = l\<lparr>entries := (entries l)[unat m mod ?n := nbb_list_mask l (nbb_round l m + 1) v]\<rparr>"
    using step True wf by (simp_all add: insert_cas_def Let_def nbb_word_pos)
  have "unat m div ?n < 2 ^ ver_nbits l"
    using nbb_positions_bound [OF wf ring] m by (meson trans_le_add1)
  then have e: "nbb_list_ver l ?e = nbb_round l m" "nbb_list_val l ?e = 0"
    using True wf by (simp_all add: nbb_word_pos)
  have pos: "unat m = h + length q" and "length q \<noteq> ?n"
    using nbb_insert_position [OF wf ring m refl] e wf by (simp_all add: nbb_word_pos)
  then have q: "length q < ?n"
    using ring by (simp add: nbb_ring_def Let_def)
  have "nbb_ring l' h (q @ [v])"
    unfolding l' pos
    by (rule nbb_ring_insert [OF wf ring refl refl])
      (use room p' q v nbb_no_wrap(2) [OF wf ring m] wf pos in \<open>simp_all add: nbb_op_ok_def nbb_word_pos\<close>)
  then show ?thesis
    unfolding nbb_simulated_def p'
    by (intro exI [of _ h] exI [of _ "q @ [v]"]) (use pos q in \<open>simp add: l' nbb_effect_def same_params_def\<close>)
qed

lemma step_insert_pub:
  assumes wf: "nbb_wf l" and ring: "nbb_ring l h q" and m: "unat m < h + length q"
    and step: "insert_pub l m b = (l', p')"
  shows "nbb_simulated l (I_pub m b) h q l' p'"
proof -
  have "unat (m + 1) \<le> h + length q"
    using nbb_no_wrap(1) [OF wf ring] m by simp
  with ring have "nbb_ring (l\<lparr>nbb_tail := m + 1\<rparr>) h q"
    by (rule nbb_ring_publish)
  then show ?thesis
    using ring m step
    by (auto intro!: simulated_quiet simp: nbb_effect_def insert_pub_def same_params_def split: if_splits)
qed

lemma step_remove_entry:
  assumes wf: "nbb_wf l" and ring: "nbb_ring l h q" and m: "unat m \<le> h"
  shows "nbb_simulated l (R_entry m b) h q l (remove_entry l m b)"
proof -
  let ?n = "unat (nbb_length l)"
  let ?e = "entries l ! (unat m mod ?n)"
  have round: "unat (nbb_round l m + 1) = unat m div ?n + 1"
    using nbb_no_wrap(2) [OF wf ring] m wf by (simp add: nbb_word_pos)
  consider "nbb_list_ver l ?e = nbb_round l m + 1" "nbb_list_val l ?e \<noteq> 0"
    | "nbb_list_ver l ?e = nbb_round l m" "nbb_list_val l ?e = 0"
    | "nbb_list_ver l ?e \<noteq> nbb_round l m + 1 \<or> nbb_list_val l ?e = 0"
      "nbb_list_ver l ?e \<noteq> nbb_round l m \<or> nbb_list_val l ?e \<noteq> 0" by blast
  then show ?thesis
  proof cases
    case 1
    then have "remove_entry l m b = R_cas m b ?e"
      using wf by (simp add: remove_entry_def Let_def nbb_word_pos)
    then show ?thesis
      using ring m 1 by (auto intro!: simulated_quiet simp: nbb_effect_def)
  next
    case 2
    then have "remove_entry l m b = Return NBB_LIST_EMPTY"
      using wf by (simp add: remove_entry_def Let_def nbb_word_pos)
    moreover have "q = []"
      using nbb_empty_position [OF wf ring m refl] 2 wf by (simp add: nbb_word_pos)
    ultimately show ?thesis
      using ring unfolding nbb_simulated_def
      by (intro exI [of _ h] exI [of _ q]) (simp add: nbb_effect_def)
  next
    case 3
    then have e: "remove_entry l m b = R_entry (m + 1) b"
      using wf by (auto simp: remove_entry_def Let_def nbb_word_pos)
    have "unat m \<noteq> h"
    proof
      assume h: "unat m = h"
      obtain j where j: "h + length q \<le> h + ?n * j" "h + ?n * j < h + length q + ?n"
          "unat (nbb_list_ver l ?e) = unat m div ?n + j"
          "nbb_list_val l ?e = (if h + ?n \<le> h + ?n * j then q ! (h + ?n * j - ?n - h) else 0)"
        using nbb_entry [OF wf ring, of "unat m"] h by auto
      have ok: "length q \<le> ?n" "\<forall>v \<in> set q. v \<noteq> 0"
        using ring by (simp_all add: nbb_ring_def Let_def)
      have "?n * j < ?n * 2"
        using j(2) ok(1) by linarith
      then have "j < 2"
        by (metis mult_less_cancel1)
      then consider "j = 0" | "j = 1" by linarith
      then show False
      proof cases
        case 1
        then show False using j(1,3,4) nbb_ring_len_pos [OF wf] 3(2) wf by (simp add: word_eq_unat nbb_word_pos)
      next
        case 2
        then have "nbb_list_val l ?e \<noteq> 0"
          using j(2,4) ok(2) by simp
        then show False using 2 j(3) 3(1) round by (simp add: word_eq_unat)
      qed
    qed
    with m ring wf show ?thesis
      by (auto intro!: simulated_quiet simp: e nbb_effect_def nbb_no_wrap)
  qed
qed

lemma step_remove_cas:
  assumes wf: "nbb_wf l" and ring: "nbb_ring l h q"
    and m: "unat m \<le> h" "nbb_list_val l k \<noteq> 0" and step: "remove_cas l m b k = (l', p')"
  shows "nbb_simulated l (R_cas m b k) h q l' p'"
proof (cases "entries l ! nbb_slot l m = nbb_list_mask l (nbb_round l m + 1) (nbb_list_val l k)")
  case False
  with step have "l' = l" "p' = R_head" by (simp_all add: remove_cas_def Let_def)
  with ring show ?thesis by (auto intro!: simulated_quiet simp: nbb_effect_def)
next
  case True
  let ?n = "unat (nbb_length l)"
  let ?e = "entries l ! (unat m mod ?n)"
  have round: "unat (nbb_round l m + 1) = unat m div ?n + 1"
    using nbb_no_wrap(2) [OF wf ring] m wf by (simp add: nbb_word_pos)
  have p': "p' = R_pub m b ?e"
    and l': "l' = l\<lparr>entries := (entries l)[unat m mod ?n := nbb_list_mask l (nbb_round l m + 1) 0]\<rparr>"
    using step True wf by (simp_all add: remove_cas_def Let_def nbb_word_pos)
  have vk: "unat (nbb_list_val l k) < 2 ^ val_nbits l"
    using wf by (simp add: nbb_wf_def nbb_list_val_def unsigned_take_bit_eq flip: take_bit_eq_mask)
  have "(unat m + ?n) div ?n < 2 ^ ver_nbits l"
    using nbb_positions_bound [OF wf ring] m(1) by simp
  then have "unat (nbb_round l m + 1) < 2 ^ ver_nbits l"
    using nbb_ring_len_pos [OF wf] round by (simp add: div_add_self2)
  then have e: "nbb_list_ver l ?e = nbb_round l m + 1" "nbb_list_val l ?e = nbb_list_val l k"
    using True wf vk by (simp_all add: nbb_word_pos)
  have pos: "unat m = h" and "q \<noteq> []" and hd: "nbb_list_val l ?e = hd q"
    using nbb_remove_position [OF wf ring m(1) refl] e m(2) round by simp_all
  then obtain q' where q: "q = nbb_list_val l ?e # q'"
    by (metis list.collapse)
  have "nbb_ring l' (h + 1) q'"
    unfolding l' pos using round pos by (intro nbb_ring_remove [OF wf _ refl]) (use ring q in \<open>simp_all\<close>)
  moreover have s: "same_params l l'" by (simp add: same_params_def l')
  ultimately show ?thesis
    unfolding nbb_simulated_def p'
    by (intro exI [of _ "h + 1"] exI [of _ q'])
      (use pos in \<open>simp add: q nbb_effect_def same_params_val [OF s]\<close>)
qed

lemma step_remove_pub:
  assumes wf: "nbb_wf l" and ring: "nbb_ring l h q" and m: "unat m < h"
    and step: "remove_pub l m b k = (l', p')"
  shows "nbb_simulated l (R_pub m b k) h q l' p'"
proof -
  have "unat (m + 1) \<le> h"
    using nbb_no_wrap(1) [OF wf ring] m by simp
  with ring have "nbb_ring (l\<lparr>nbb_head := m + 1\<rparr>) h q"
    by (rule nbb_ring_publish)
  then show ?thesis
    using ring m step
    by (auto intro!: simulated_quiet simp: nbb_effect_def remove_pub_def same_params_def split: if_splits)
qed

lemma nbb_run_simulated:
  assumes "nbb_wf l" "nbb_ring l h q" "nbb_pc_ok l h (h + length q) p" "nbb_run l p = (l', p')"
    "\<And>c. nbb_effect l' p p' = Some (c, Inserted) \<Longrightarrow> h + length q + 1 < unat (nbb_length l) * (2 ^ ver_nbits l - 1)"
  shows "nbb_simulated l p h q l' p'"
proof (cases p)
  case (I_cas v m b)
  then show ?thesis
    using assms by (auto intro!: step_insert_cas simp: nbb_effect_def)
next
  case (I_tail v)
  then show ?thesis using assms nbb_tail_ok by (auto intro!: simulated_quiet simp: nbb_effect_def)
next
  case (I_reload m)
  then show ?thesis using assms by (auto intro!: simulated_quiet simp: nbb_effect_def)
next
  case R_head
  then show ?thesis using assms nbb_tail_ok by (auto intro!: simulated_quiet simp: nbb_effect_def)
next
  case (R_reload m k)
  then show ?thesis using assms by (auto intro!: simulated_quiet simp: nbb_effect_def)
next
  case Idle
  then show ?thesis using assms by (auto intro!: simulated_quiet simp: nbb_effect_def)
next
  case (Return r)
  then show ?thesis using assms by (auto intro!: simulated_quiet simp: nbb_effect_def)
qed (use assms in \<open>auto intro: step_insert_entry step_insert_pub step_remove_entry step_remove_cas step_remove_pub\<close>)

section \<open>Histories\<close>

lemma effects_append [simp]: "effects (es @ es') = effects es @ effects es'"
  by (simp add: effects_def map_filter_def)

lemma inserted_append [simp]: "inserted (es @ es') = inserted es + inserted es'"
  by (simp add: inserted_def)

lemma bq_history_append:
  "bq_history cap (es @ es') q = Option.bind (bq_history cap es q) (bq_history cap es')"
  by (induction es arbitrary: q) (simp_all split: bind_splits)

lemma call_phase_append: "call_phase t (es @ es') = fold (phase_step t) es' (call_phase t es)"
  by (simp add: call_phase_def)

text \<open>The state of the system after the events \<open>es\<close>.\<close>

definition nbb_inv :: "nat \<Rightarrow> nat \<Rightarrow> nat \<Rightarrow> nbb_event list \<Rightarrow> nbb_sys \<Rightarrow> bool" where
  "nbb_inv n vb wb es s \<longleftrightarrow> (\<exists>h q. nbb_wf (nlist s) \<and> unat (nbb_length (nlist s)) = n \<and>
     val_nbits (nlist s) = vb \<and> ver_nbits (nlist s) = wb \<and> nbb_ring (nlist s) h q \<and>
     (\<forall>t. nbb_pc_ok (nlist s) h (h + length q) (at s t)) \<and> h + length q = inserted es \<and>
     bq_history n (effects es) [] = Some q \<and> (\<forall>t. call_phase t es = Some (pc_phase (nlist s) (at s t))))"

lemma nbb_step_inv:
  assumes inv: "nbb_inv n vb wb es s" and c: "nbb_op_ok vb c" and step: "nbb_step s t c = (es', s')"
    and room: "inserted (es @ es') < n * (2 ^ wb - 1)"
  shows "nbb_inv n vb wb (es @ es') s'"
proof -
  obtain h q where wf: "nbb_wf (nlist s)" and n: "unat (nbb_length (nlist s)) = n"
    and vb: "val_nbits (nlist s) = vb" "ver_nbits (nlist s) = wb" and ring: "nbb_ring (nlist s) h q"
    and pcs: "\<And>u. nbb_pc_ok (nlist s) h (h + length q) (at s u)" and ins: "h + length q = inserted es"
    and hist: "bq_history n (effects es) [] = Some q"
    and ph: "\<And>u. call_phase u es = Some (pc_phase (nlist s) (at s u))"
    using inv unfolding nbb_inv_def by blast
  have phases: "call_phase u (es @ es') = fold (phase_step u) es' (Some (pc_phase (nlist s) (at s u)))" for u
    by (simp add: call_phase_append ph)
  consider "at s t = Idle" | r where "at s t = Return r" | "at s t \<noteq> Idle" "\<And>r. at s t \<noteq> Return r"
    by metis
  then show ?thesis
  proof cases
    case 1
    then have "es' = [Call t c]" "s' = s\<lparr>at := (at s)(t := nbb_start c)\<rparr>"
      using step by (simp_all add: nbb_step_def)
    then show ?thesis
      unfolding nbb_inv_def
      by (intro exI [of _ h] exI [of _ q])
        (use wf n vb ring pcs ins hist 1 c phases in \<open>auto simp: nbb_start_def effects_def inserted_def map_filter_def split: nbb_op.splits\<close>)
  next
    case 2
    then have "es' = [Ret t r]" "s' = s\<lparr>at := (at s)(t := Idle)\<rparr>"
      using step by (simp_all add: nbb_step_def)
    then show ?thesis
      unfolding nbb_inv_def
      by (intro exI [of _ h] exI [of _ q])
        (use wf n vb ring pcs ins hist 2 phases in \<open>auto simp: effects_def inserted_def map_filter_def\<close>)
  next
    case 3
    obtain l' p' where run: "nbb_run (nlist s) (at s t) = (l', p')" by fastforce
    have es': "es' = (case nbb_effect l' (at s t) p' of None \<Rightarrow> [] | Some (c, r) \<Rightarrow> [Effect t c r])"
      and s': "s' = \<lparr>nlist = l', at = (at s)(t := p')\<rparr>"
      using step 3 run by (auto simp: nbb_step_def split: nbb_pc.splits)
    have "nbb_simulated (nlist s) (at s t) h q l' p'"
    proof (rule nbb_run_simulated [OF wf ring pcs run])
      fix c assume "nbb_effect l' (at s t) p' = Some (c, Inserted)"
      then have "inserted es' = 1"
        by (simp add: es' inserted_def effects_def map_filter_def)
      then show "h + length q + 1 < unat (nbb_length (nlist s)) * (2 ^ ver_nbits (nlist s) - 1)"
        using room ins n vb by simp
    qed
    then obtain h' q' where sp: "same_params (nlist s) l'" and ring': "nbb_ring l' h' q'" and le: "h \<le> h'"
        "h + length q \<le> h' + length q'" and pc': "nbb_pc_ok l' h' (h' + length q') p'"
      and eff: "case nbb_effect l' (at s t) p' of
        None \<Rightarrow> h' = h \<and> q' = q \<and> pc_phase (nlist s) p' = pc_phase (nlist s) (at s t)
      | Some (c, r) \<Rightarrow> bq_apply (unat (nbb_length (nlist s))) (c, r) q = Some q' \<and>
          h' + length q' = h + length q + (if r = Inserted then 1 else 0) \<and>
          pc_phase (nlist s) (at s t) = Called c \<and> pc_phase (nlist s) p' = Done r"
      unfolding nbb_simulated_def by blast
    have "nbb_wf l'" "unat (nbb_length l') = n" "val_nbits l' = vb" "ver_nbits l' = wb"
      using sp wf n vb same_params_wf [OF sp] by (simp_all add: same_params_def)
    moreover have "\<forall>u. nbb_pc_ok l' h' (h' + length q') (at s' u)"
      using pc' nbb_pc_ok_mono [OF pcs sp le] by (simp add: s')
    moreover have "h' + length q' = inserted (es @ es')" "bq_history n (effects (es @ es')) [] = Some q'"
      "\<forall>u. call_phase u (es @ es') = Some (pc_phase l' (at s' u))"
      using eff hist ins n phases unfolding es' same_params_phase [OF sp]
      by (auto simp: s' bq_history_append effects_def inserted_def map_filter_def split: option.splits)
    ultimately show ?thesis
      unfolding nbb_inv_def by (intro exI [of _ h'] exI [of _ q']) (simp add: s' ring')
  qed
qed

lemma nbb_trace_inv:
  assumes "nbb_inv n vb wb es s" "\<forall>(t, c) \<in> set cs. nbb_op_ok vb c" "nbb_trace s cs = (es', s')"
    "inserted (es @ es') < n * (2 ^ wb - 1)"
  shows "nbb_inv n vb wb (es @ es') s'"
  using assms
proof (induction cs arbitrary: es s es')
  case Nil
  then show ?case by simp
next
  case (Cons c cs)
  obtain t op where c: "c = (t, op)" by fastforce
  obtain e1 s1 where s1: "nbb_step s t op = (e1, s1)" by fastforce
  obtain e2 where s2: "nbb_trace s1 cs = (e2, s')" "es' = e1 @ e2"
    using Cons.prems(3) by (auto simp: c s1 split: prod.splits)
  have "nbb_inv n vb wb (es @ e1) s1"
    using Cons.prems(4) s2(2) by (intro nbb_step_inv [OF Cons.prems(1) _ s1]) (use Cons.prems(2) c in auto)
  then show ?case
    using Cons.IH [of "es @ e1" s1 e2] Cons.prems(2,4) s2 by simp
qed

lemma nbb_init_inv:
  assumes "0 < vb" "vb < 64" "0 < len" "unat len \<le> 2 ^ vb"
  shows "nbb_inv (unat len) vb (64 - vb) [] (nbb_init len vb (replicate (unat len) 0))"
proof -
  let ?l = "nbb_list_create len vb (replicate (unat len) 0)"
  have wf: "nbb_wf ?l"
    using assms by (intro nbb_wf_create) simp_all
  have f: "nbb_length ?l = len" "val_nbits ?l = vb" "ver_nbits ?l = 64 - vb" "entries ?l = replicate (unat len) 0"
      "nbb_tail ?l = 0" "nbb_head ?l = 0"
    by (simp_all add: nbb_list_create_def Let_def)
  have "(2 :: nat) ^ 1 \<le> 2 ^ (64 - vb)"
    using assms(2) by (intro power_increasing) simp_all
  moreover have "0 < unat len"
    using nbb_ring_len_pos [OF wf] by (simp add: f)
  moreover have "nbb_list_mask ?l 0 0 = 0"
    by (simp add: nbb_list_mask_def)
  ultimately have "nbb_ring ?l 0 []"
    by (simp add: nbb_ring_def Let_def f)
  then show ?thesis
    unfolding nbb_inv_def nbb_init_def
    by (intro exI [of _ 0] exI [of _ "[]"])
      (simp add: wf f call_phase_def effects_def inserted_def map_filter_def)
qed

section \<open>Linearizability\<close>

text \<open>C28. The list is a linearizable bounded queue, as long as the versions do not run out: whatever the
  interleaving of the threads, the effects of the calls, in the order in which they happen, form a
  history of a first-in first-out queue of the given capacity (a value is removed once and in the order
  of insertion, \<^verbatim>\<open>NBB_LIST_FULL\<close> is answered only when the queue is full and \<^verbatim>\<open>NBB_LIST_EMPTY\<close> only when it
  is empty), and each call of each thread has exactly one effect between its start and its return, with
  the result that it returns.\<close>

theorem nbb_linearizable:
  assumes "0 < vb" "vb < 64" "0 < len" "unat len \<le> 2 ^ vb"
    and "\<forall>(t, c) \<in> set sched. nbb_op_ok vb c"
    and "nbb_trace (nbb_init len vb (replicate (unat len) 0)) sched = (es, s)"
    and "inserted es < unat len * (2 ^ (64 - vb) - 1)"
  shows "bq_history (unat len) (effects es) [] \<noteq> None \<and> (\<forall>t. call_phase t es \<noteq> None)"
  using nbb_trace_inv [OF nbb_init_inv [OF assms(1-4)] assms(5,6)] assms(7) unfolding nbb_inv_def by auto

text \<open>Two threads on a list of two entries: the inserts overlap and the second thread loses the first race.\<close>

definition nbb_demo :: "(tid \<times> nbb_op) list" where
  "nbb_demo = map (\<lambda>t. (t, Insert (of_nat (5 + t)))) [0, 1, 0, 1, 0, 1, 0, 1, 0, 1, 1, 1, 1, 1] @
     map (\<lambda>t. (t, Remove)) [0, 0, 0, 0, 0, 0, 0]"

lemmas nbb_eval = nbb_init_def nbb_list_create_def nbb_step_def nbb_start_def nbb_effect_def insert_entry_def
  insert_cas_def insert_pub_def remove_entry_def remove_cas_def remove_pub_def nbb_slot_def nbb_round_def
  nbb_list_val_def nbb_list_ver_def nbb_list_mask_def effects_def map_filter_def Let_def

theorem nbb_linearizable_witness:
  "effects (fst (nbb_trace (nbb_init 2 32 [0, 0]) nbb_demo)) =
     [(Insert 5, Inserted), (Insert 6, Inserted), (Remove, Removed 5)] \<and>
   bq_history 2 (effects (fst (nbb_trace (nbb_init 2 32 [0, 0]) nbb_demo))) [] \<noteq> None"
proof -
  have e: "effects (fst (nbb_trace (nbb_init 2 32 [0, 0]) nbb_demo)) =
      [(Insert 5, Inserted), (Insert 6, Inserted), (Remove, Removed 5)]"
    by (simp add: nbb_demo_def nbb_eval)
  have ok: "\<forall>(t, c) \<in> set nbb_demo. nbb_op_ok 32 c"
    by (simp add: nbb_demo_def nbb_op_ok_def)
  have "inserted (fst (nbb_trace (nbb_init 2 32 [0, 0]) nbb_demo)) = 2"
    by (simp add: inserted_def e)
  then show ?thesis
    using nbb_linearizable [of 32 2 nbb_demo "fst (nbb_trace (nbb_init 2 32 [0, 0]) nbb_demo)"
        "snd (nbb_trace (nbb_init 2 32 [0, 0]) nbb_demo)"] e ok by (simp add: numeral_2_eq_2)
qed

section \<open>Progress of a thread that runs alone\<close>

definition nbb_solo :: "nat \<Rightarrow> nbb_list \<times> nbb_pc \<Rightarrow> nbb_list \<times> nbb_pc" where
  "nbb_solo k = (\<lambda>(l, p). nbb_run l p) ^^ k"

text \<open>How many steps a thread needs at most, with \<open>h\<close> values removed and \<open>k\<close> inserted.\<close>

fun solo_rank :: "nbb_list \<Rightarrow> nat \<Rightarrow> nat \<Rightarrow> nbb_pc \<Rightarrow> nat" where
  "solo_rank l h k (I_tail v) = 6 + (k - unat (nbb_tail l))"
| "solo_rank l h k (I_entry v m b) = 5 + (k - unat m)"
| "solo_rank l h k (I_cas v m b) =
    (if entries l ! nbb_slot l m = nbb_list_mask l (nbb_round l m) 0 then 4 else 7 + (k - unat (nbb_tail l)))"
| "solo_rank l h k (I_pub m b) = (if \<not> m + 1 > b \<or> nbb_tail l = b then 1 else 3)"
| "solo_rank l h k (I_reload m) = 2"
| "solo_rank l h k R_head = 6 + (h - unat (nbb_head l))"
| "solo_rank l h k (R_entry m b) = 5 + (h - unat m)"
| "solo_rank l h k (R_cas m b x) =
    (if entries l ! nbb_slot l m = nbb_list_mask l (nbb_round l m + 1) (nbb_list_val l x) then 4
     else 7 + (h - unat (nbb_head l)))"
| "solo_rank l h k (R_pub m b x) = (if \<not> m + 1 > b \<or> nbb_head l = b then 1 else 3)"
| "solo_rank l h k (R_reload m x) = 2"
| "solo_rank l h k _ = 0"

lemma mask_of_parts:
  assumes "nbb_wf l"
  shows "nbb_list_mask l (nbb_list_ver l e) (nbb_list_val l e) = e"
proof (rule bit_word_eqI)
  fix i assume i: "i < LENGTH(64)"
  show "bit (nbb_list_mask l (nbb_list_ver l e) (nbb_list_val l e)) i = bit e i"
    using assms i by (cases "i < val_nbits l")
      (auto simp: nbb_wf_def nbb_list_mask_def nbb_list_ver_def nbb_list_val_def bit_simps)
qed

lemma rank_insert_entry:
  assumes "nbb_wf l" "nbb_ring l h q" "unat m \<le> h + length q"
    "nbb_pc_ok l h (h + length q) (insert_entry l v m b)"
  shows "solo_rank l h (h + length q) (insert_entry l v m b) < 5 + (h + length q - unat m)"
proof (cases "insert_entry l v m b")
  case (I_cas v' m' b')
  then have "m' = m" "nbb_list_ver l (entries l ! nbb_slot l m) = nbb_round l m"
      "nbb_list_val l (entries l ! nbb_slot l m) = 0"
    by (auto simp: insert_entry_def Let_def split: if_splits)
  then show ?thesis
    using I_cas mask_of_parts [OF assms(1), of "entries l ! nbb_slot l m"] by simp
next
  case (I_entry v' m' b')
  then have "m' = m + 1"
    by (auto simp: insert_entry_def Let_def split: if_splits)
  then show ?thesis
    using assms(3,4) I_entry nbb_no_wrap(1) [OF assms(1-3)] by auto
qed (auto simp: insert_entry_def Let_def split: if_splits)

lemma rank_remove_entry:
  assumes "nbb_wf l" "nbb_ring l h q" "unat m \<le> h"
    "nbb_pc_ok l h (h + length q) (remove_entry l m b)"
  shows "solo_rank l h (h + length q) (remove_entry l m b) < 5 + (h - unat m)"
proof (cases "remove_entry l m b")
  case (R_cas m' b' x)
  then have "m' = m" "x = entries l ! nbb_slot l m" "nbb_list_ver l (entries l ! nbb_slot l m) = nbb_round l m + 1"
    by (auto simp: remove_entry_def Let_def split: if_splits)
  then show ?thesis
    using R_cas mask_of_parts [OF assms(1), of "entries l ! nbb_slot l m"] by simp
next
  case (R_entry m' b')
  then have "m' = m + 1"
    by (auto simp: remove_entry_def Let_def split: if_splits)
  then show ?thesis
    using assms(3,4) R_entry nbb_no_wrap(1) [OF assms(1,2), of m] by auto
qed (auto simp: remove_entry_def Let_def split: if_splits)

lemma solo_decreases:
  assumes "nbb_wf l" "nbb_ring l h q" "nbb_pc_ok l h (h + length q) p" "p \<noteq> Idle" "\<And>r. p \<noteq> Return r"
    "nbb_run l p = (l', p')" "nbb_pc_ok l' h' (h' + length q') p'"
    "nbb_effect l' p p' = None \<Longrightarrow> h' = h \<and> q' = q"
  shows "solo_rank l' h' (h' + length q') p' < solo_rank l h (h + length q) p"
proof (cases p)
  case (I_entry v m b)
  with assms(6) have run: "l' = l" "p' = insert_entry l v m b" by auto
  show ?thesis
  proof (cases "nbb_effect l' p p'")
    case None
    with assms(8) have "h' = h" "q' = q" by simp_all
    then show ?thesis using rank_insert_entry [OF assms(1,2)] assms(3,7) I_entry run by simp
  next
    case (Some e)
    then show ?thesis using I_entry run
      by (auto simp: nbb_effect_def insert_entry_def Let_def split: if_splits nbb_pc.splits)
  qed
next
  case (R_entry m b)
  with assms(6) have run: "l' = l" "p' = remove_entry l m b" by auto
  show ?thesis
  proof (cases "nbb_effect l' p p'")
    case None
    with assms(8) have "h' = h" "q' = q" by simp_all
    then show ?thesis using rank_remove_entry [OF assms(1,2)] assms(3,7) R_entry run by simp
  next
    case (Some e)
    then show ?thesis using R_entry run
      by (auto simp: nbb_effect_def remove_entry_def Let_def split: if_splits nbb_pc.splits)
  qed
next
  case (I_cas v m b)
  with assms(6,8) show ?thesis
    by (auto simp: insert_cas_def Let_def nbb_effect_def split: if_splits)
next
  case (R_cas m b x)
  with assms(6,8) show ?thesis
    by (auto simp: remove_cas_def Let_def nbb_effect_def split: if_splits)
next
  case (I_tail v)
  with assms(6,8) show ?thesis by (auto simp: nbb_effect_def)
next
  case R_head
  with assms(6,8) show ?thesis by (auto simp: nbb_effect_def)
qed (use assms in \<open>auto simp: insert_pub_def remove_pub_def nbb_effect_def split: if_splits\<close>)

lemma solo_returns:
  assumes "nbb_wf l" "nbb_ring l h q" "nbb_pc_ok l h (h + length q) p" "p \<noteq> Idle"
    "(\<exists>c. pc_phase l p = Called c) \<Longrightarrow> h + length q + 1 < unat (nbb_length l) * (2 ^ ver_nbits l - 1)"
  shows "\<exists>k \<le> solo_rank l h (h + length q) p. \<exists>l' r. nbb_solo k (l, p) = (l', Return r)"
  using assms
proof (induction "solo_rank l h (h + length q) p" arbitrary: l h q p rule: less_induct)
  case less
  show ?case
  proof (cases "\<exists>r. p = Return r")
    case True
    then show ?thesis by (auto intro!: exI [of _ 0] simp: nbb_solo_def)
  next
    case False
    obtain l' p' where run: "nbb_run l p = (l', p')" by fastforce
    have "h + length q + 1 < unat (nbb_length l) * (2 ^ ver_nbits l - 1)"
      if "nbb_effect l' p p' = Some (c, Inserted)" for c
      using less.prems(5) that by (cases p) (auto simp: nbb_effect_def split: nbb_pc.splits)
    then have "nbb_simulated l p h q l' p'"
      using nbb_run_simulated [OF less.prems(1-3) run] by blast
    then obtain h' q' where sp: "same_params l l'" and ring': "nbb_ring l' h' q'" and pc': "nbb_pc_ok l' h' (h' + length q') p'"
      and eff: "case nbb_effect l' p p' of
          None \<Rightarrow> h' = h \<and> q' = q \<and> pc_phase l p' = pc_phase l p
        | Some (c, r) \<Rightarrow> bq_apply (unat (nbb_length l)) (c, r) q = Some q' \<and>
            h' + length q' = h + length q + (if r = Inserted then 1 else 0) \<and>
            pc_phase l p = Called c \<and> pc_phase l p' = Done r"
      unfolding nbb_simulated_def by blast
    have wf': "nbb_wf l'"
      using less.prems(1) same_params_wf [OF sp] by simp
    have dec: "solo_rank l' h' (h' + length q') p' < solo_rank l h (h + length q) p"
      using solo_decreases [OF less.prems(1-4) _ run pc'] False eff by (simp split: option.splits)
    have "p' \<noteq> Idle"
      using eff less.prems(4) by (cases p; cases p') (auto split: option.splits)
    moreover have "(\<exists>c. pc_phase l' p' = Called c) \<Longrightarrow>
        h' + length q' + 1 < unat (nbb_length l') * (2 ^ ver_nbits l' - 1)"
      using eff less.prems(5) sp same_params_phase [OF sp] by (auto simp: same_params_def split: option.splits)
    ultimately obtain k l'' r where k: "k \<le> solo_rank l' h' (h' + length q') p'" "nbb_solo k (l', p') = (l'', Return r)"
      using less.hyps [OF dec wf' ring' pc'] by blast
    have "nbb_solo (Suc k) (l, p) = (l'', Return r)"
      using k(2) run by (simp add: nbb_solo_def funpow_Suc_right del: funpow.simps)
    with k(1) dec show ?thesis by (intro exI [of _ "Suc k"]) auto
  qed
qed

lemma solo_rank_bound: "solo_rank l h k p \<le> 7 + k + h"
  by (cases p) auto

text \<open>C29. A call is never stuck: whatever the other threads have done and wherever they stopped, a thread
  inside a call that runs alone from there returns, within seven steps more than the values inserted
  and removed so far.\<close>

theorem nbb_obstruction_free:
  assumes "0 < vb" "vb < 64" "0 < len" "unat len \<le> 2 ^ vb"
    and "\<forall>(t, c) \<in> set sched. nbb_op_ok vb c"
    and "nbb_trace (nbb_init len vb (replicate (unat len) 0)) sched = (es, s)"
    and "inserted es + 1 < unat len * (2 ^ (64 - vb) - 1)" "at s t \<noteq> Idle"
  shows "\<exists>k \<le> 7 + 2 * inserted es. \<exists>l r. nbb_solo k (nlist s, at s t) = (l, Return r)"
proof -
  have "nbb_inv (unat len) vb (64 - vb) es s"
    using nbb_trace_inv [OF nbb_init_inv [OF assms(1-4)] assms(5,6)] assms(7) by simp
  then obtain h q where inv: "nbb_wf (nlist s)" "nbb_ring (nlist s) h q" "nbb_pc_ok (nlist s) h (h + length q) (at s t)"
      "unat (nbb_length (nlist s)) = unat len" "ver_nbits (nlist s) = 64 - vb" "h + length q = inserted es"
    unfolding nbb_inv_def by blast
  then obtain k l r where "k \<le> solo_rank (nlist s) h (h + length q) (at s t)" "nbb_solo k (nlist s, at s t) = (l, Return r)"
    using solo_returns [OF inv(1-3) assms(8)] assms(7) by auto
  then show ?thesis
    using solo_rank_bound [of "nlist s" h "h + length q" "at s t"] inv(6)
    by (intro exI [of _ k]) auto
qed

theorem nbb_obstruction_free_witness:
  "\<exists>k \<le> 9. \<exists>l r. nbb_solo k (nlist (snd (nbb_trace (nbb_init 2 32 [0, 0]) (take 7 nbb_demo))), I_cas 6 0 0) = (l, Return r)"
proof -
  let ?r = "nbb_trace (nbb_init 2 32 [0, 0]) (take 7 nbb_demo)"
  have "\<forall>(t, c) \<in> set (take 7 nbb_demo). nbb_op_ok 32 c"
    by (simp add: nbb_demo_def nbb_op_ok_def)
  moreover have "inserted (fst ?r) = 1"
    by (simp add: inserted_def nbb_demo_def nbb_eval)
  moreover have "at (snd ?r) 1 = I_cas 6 0 0"
    by (simp add: nbb_demo_def nbb_eval)
  moreover have "replicate (unat (2 :: 64 word)) 0 = [0, 0 :: 64 word]"
    by code_simp
  ultimately show ?thesis
    using nbb_obstruction_free [of 32 2 "take 7 nbb_demo" "fst ?r" "snd ?r" 1] by simp
qed

text \<open>The list relies on the memory that \<^verbatim>\<open>malloc\<close> returns being zero: with anything else in an entry the
  first insertion into the empty list can be refused.\<close>

theorem nbb_relies_on_zeroed_memory:
  "effects (fst (nbb_trace (nbb_init 1 32 [7]) [(0, Insert 5), (0, Insert 5), (0, Insert 5)])) =
     [(Insert 5, NBB_LIST_FULL)] \<and>
   bq_history 1 [(Insert 5, NBB_LIST_FULL)] [] = None"
  by (simp add: nbb_eval)

end
