(* ===== verification/Mt19937.thy ===== *)
theory Mt19937
  imports Stm_Prelude
begin

text \<open>
  The pseudo-random generator that fills the TPC-C tables and draws the orders:
  \<^verbatim>\<open>TPCC/lib/mt19937ar.c\<close> and the interface over it, \<^verbatim>\<open>TPCC/lib/random.c\<close>. The words are those of the
  code, \<^verbatim>\<open>unsigned long\<close> of 64 bits that hold 32-bit values; the loops that rewrite the array in place
  are recursions over the array.

  The generator keeps its shape (the array has its length, its entries and the numbers drawn stay below
  \<open>2 ^ 32\<close>), the numbers drawn are those of the recurrence that defines the generator, and tempering loses
  nothing.
\<close>

section \<open>State and operations\<close>

definition MT_N :: nat where "MT_N = 624"
definition MT_M :: nat where "MT_M = 397"
definition MATRIX_A :: "64 word" where "MATRIX_A = 0x9908b0df"
definition UPPER_MASK :: "64 word" where "UPPER_MASK = 0x80000000"
definition LOWER_MASK :: "64 word" where "LOWER_MASK = 0x7fffffff"
definition RANDOM_DEFAULT_SEED :: "64 word" where "RANDOM_DEFAULT_SEED = 0"

record random_t =
  mt :: "64 word list"
  mti :: nat

definition init_word :: "64 word \<Rightarrow> nat \<Rightarrow> 64 word" where
  "init_word w i = (1812433253 * (w XOR drop_bit 30 w) + of_nat i) AND 0xffffffff"

function init_loop :: "nat \<Rightarrow> 64 word list \<Rightarrow> 64 word list \<times> nat" where
  "init_loop i m = (if i < MT_N then init_loop (i + 1) (m[i := init_word (m ! (i - 1)) i]) else (m, i))"
  by auto
termination by (relation "measure (\<lambda>(i, m). MT_N - i)") auto

declare init_loop.simps [simp del]

definition init_genrand :: "64 word \<Rightarrow> random_t \<Rightarrow> random_t" where
  "init_genrand s r = (let (m, i) = init_loop 1 ((mt r)[0 := s AND 0xffffffff]) in \<lparr>mt = m, mti = i\<rparr>)"

text \<open>One step of the regeneration; \<open>mag01\<close> is the table of the two multiples of \<^verbatim>\<open>MATRIX_A\<close>.\<close>

definition mag01 :: "64 word \<Rightarrow> 64 word" where
  "mag01 y = (if y = 0 then 0 else MATRIX_A)"

definition twist :: "64 word \<Rightarrow> 64 word \<Rightarrow> 64 word \<Rightarrow> 64 word" where
  "twist a b c = (let y = (a AND UPPER_MASK) OR (b AND LOWER_MASK) in c XOR drop_bit 1 y XOR mag01 (y AND 1))"

function twist_low :: "nat \<Rightarrow> 64 word list \<Rightarrow> 64 word list \<times> nat" where
  "twist_low kk m = (if kk < MT_N - MT_M
     then twist_low (kk + 1) (m[kk := twist (m ! kk) (m ! (kk + 1)) (m ! (kk + MT_M))]) else (m, kk))"
  by auto
termination by (relation "measure (\<lambda>(kk, m). MT_N - kk)") auto

function twist_high :: "nat \<Rightarrow> 64 word list \<Rightarrow> 64 word list" where
  "twist_high kk m = (if kk < MT_N - 1
     then twist_high (kk + 1) (m[kk := twist (m ! kk) (m ! (kk + 1)) (m ! (kk + MT_M - MT_N))]) else m)"
  by auto
termination by (relation "measure (\<lambda>(kk, m). MT_N - kk)") auto

declare twist_low.simps [simp del] twist_high.simps [simp del]

definition regenerate :: "64 word list \<Rightarrow> 64 word list" where
  "regenerate m =
    (let (m, kk) = twist_low 0 m; m = twist_high kk m in
     m[MT_N - 1 := twist (m ! (MT_N - 1)) (m ! 0) (m ! (MT_M - 1))])"

definition temper :: "64 word \<Rightarrow> 64 word" where
  "temper y =
    (let y = y XOR drop_bit 11 y;
         y = y XOR (push_bit 7 y AND 0x9d2c5680);
         y = y XOR (push_bit 15 y AND 0xefc60000) in
     y XOR drop_bit 18 y)"

definition genrand_int32 :: "random_t \<Rightarrow> 64 word \<times> random_t" where
  "genrand_int32 r =
    (let r = (if MT_N \<le> mti r then
                (let r = (if mti r = MT_N + 1 then init_genrand 5489 r else r) in \<lparr>mt = regenerate (mt r), mti = 0\<rparr>)
              else r) in
     (temper (mt r ! mti r), r\<lparr>mti := mti r + 1\<rparr>))"

definition genrand_int31 :: "random_t \<Rightarrow> 64 word \<times> random_t" where
  "genrand_int31 r = (let (y, r) = genrand_int32 r in (drop_bit 1 y, r))"

text \<open>Seeding from an array of keys.\<close>

definition key_word :: "64 word list \<Rightarrow> nat \<Rightarrow> 64 word \<Rightarrow> 64 word" where
  "key_word m i f = m ! i XOR ((m ! (i - 1) XOR drop_bit 30 (m ! (i - 1))) * f)"

definition wrap_index :: "64 word list \<Rightarrow> nat \<Rightarrow> 64 word list \<times> nat" where
  "wrap_index m i = (if MT_N \<le> i then (m[0 := m ! (MT_N - 1)], 1) else (m, i))"

fun key_loop :: "nat \<Rightarrow> 64 word list \<Rightarrow> nat \<Rightarrow> nat \<Rightarrow> 64 word list \<Rightarrow> 64 word list \<times> nat" where
  "key_loop 0 key i j m = (m, i)"
| "key_loop (Suc k) key i j m =
    (let m = m[i := (key_word m i 1664525 + key ! j + of_nat j) AND 0xffffffff];
         (m, i) = wrap_index m (i + 1);
         j = (if length key \<le> j + 1 then 0 else j + 1) in
     key_loop k key i j m)"

fun mix_loop :: "nat \<Rightarrow> nat \<Rightarrow> 64 word list \<Rightarrow> 64 word list" where
  "mix_loop 0 i m = m"
| "mix_loop (Suc k) i m =
    (let m = m[i := (key_word m i 1566083941 - of_nat i) AND 0xffffffff];
         (m, i) = wrap_index m (i + 1) in
     mix_loop k i m)"

definition init_by_array :: "64 word list \<Rightarrow> random_t \<Rightarrow> random_t" where
  "init_by_array key r =
    (let r = init_genrand 19650218 r;
         (m, i) = key_loop (if length key < MT_N then MT_N else length key) key 1 0 (mt r);
         m = mix_loop (MT_N - 1) i m in
     \<lparr>mt = m[0 := 0x80000000], mti = MT_N + 1\<rparr>)"

text \<open>The interface: \<open>mem\<close> is what the fresh array holds.\<close>

definition random_alloc :: "64 word list \<Rightarrow> random_t" where
  "random_alloc mem = init_genrand RANDOM_DEFAULT_SEED \<lparr>mt = mem, mti = MT_N\<rparr>"

definition random_seed :: "64 word \<Rightarrow> random_t \<Rightarrow> random_t" where
  "random_seed s r = init_genrand s r"

definition random_generate :: "random_t \<Rightarrow> 64 word \<times> random_t" where
  "random_generate r = genrand_int32 r"

fun random_draws :: "nat \<Rightarrow> random_t \<Rightarrow> 64 word list \<times> random_t" where
  "random_draws 0 r = ([], r)"
| "random_draws (Suc n) r = (let (y, r) = random_generate r; (ys, r) = random_draws n r in (y # ys, r))"

section \<open>The recurrence\<close>

function mt_seq :: "64 word \<Rightarrow> nat \<Rightarrow> 64 word" where
  "mt_seq s k =
    (if k = 0 then s AND 0xffffffff
     else if k < MT_N then init_word (mt_seq s (k - 1)) k
     else twist (mt_seq s (k - MT_N)) (mt_seq s (k - MT_N + 1)) (mt_seq s (k - MT_N + MT_M)))"
  by auto
termination by (relation "measure snd") (auto simp: MT_N_def MT_M_def)

declare mt_seq.simps [simp del]

lemma mt_consts [simp]: "MT_N - MT_M = 227" "0 < MT_N" "MT_M < MT_N" "Suc 0 < MT_N" "Suc 0 \<le> MT_N" "MT_N \<noteq> 0"
  by (simp_all add: MT_N_def MT_M_def)

lemma mt_seq_twist:
  "mt_seq s (k + MT_N) = twist (mt_seq s k) (mt_seq s (k + 1)) (mt_seq s (k + MT_M))"
  by (subst mt_seq.simps) simp

lemma init_loop_seq:
  assumes "1 \<le> i" "i \<le> MT_N" "length m = MT_N" "\<forall>j < i. m ! j = mt_seq s j"
  shows "init_loop i m = (map (mt_seq s) [0..<MT_N], MT_N)"
  using assms
proof (induction "MT_N - i" arbitrary: i m)
  case 0
  then have "m = map (mt_seq s) [0..<MT_N]" by (intro nth_equalityI) simp_all
  with 0 show ?case by (subst init_loop.simps) simp
next
  case (Suc n)
  let ?m = "m[i := init_word (m ! (i - 1)) i]"
  have i: "i < MT_N"
    using Suc.hyps(2) by simp
  then have "mt_seq s i = init_word (mt_seq s (i - 1)) i"
    using Suc.prems(1) by (subst mt_seq.simps) simp
  then have "\<forall>j < i + 1. ?m ! j = mt_seq s j"
    using Suc.prems i by (auto simp: less_Suc_eq)
  then have "init_loop (i + 1) ?m = (map (mt_seq s) [0..<MT_N], MT_N)"
    using Suc.hyps(2) Suc.prems by (intro Suc.hyps(1)) simp_all
  with i show ?case by (subst init_loop.simps) simp
qed

lemma init_genrand_seq:
  assumes "length (mt r) = MT_N"
  shows "init_genrand s r = \<lparr>mt = map (mt_seq s) [0..<MT_N], mti = MT_N\<rparr>"
proof -
  have "init_loop 1 ((mt r)[0 := s AND 0xffffffff]) = (map (mt_seq s) [0..<MT_N], MT_N)"
    using assms by (intro init_loop_seq) (simp_all add: mt_seq.simps [of s 0])
  then show ?thesis by (simp add: init_genrand_def)
qed

text \<open>Halfway through the regeneration of the block that starts at \<open>b\<close>.\<close>

definition half_block :: "64 word \<Rightarrow> nat \<Rightarrow> nat \<Rightarrow> 64 word list" where
  "half_block s b kk = map (\<lambda>i. mt_seq s (b + i + (if i < kk then MT_N else 0))) [0..<MT_N]"

lemma half_block_nth [simp]:
  "i < MT_N \<Longrightarrow> half_block s b kk ! i = mt_seq s (b + i + (if i < kk then MT_N else 0))"
  by (simp add: half_block_def)

lemma length_half_block [simp]: "length (half_block s b kk) = MT_N"
  by (simp add: half_block_def)

lemma half_block_step:
  assumes "kk < MT_N"
  shows "(half_block s b kk)[kk := twist (mt_seq s (b + kk)) (mt_seq s (b + kk + 1)) (mt_seq s (b + kk + MT_M))] =
    half_block s b (kk + 1)"
proof (rule nth_equalityI)
  fix i assume i: "i < length ((half_block s b kk)[kk := twist (mt_seq s (b + kk)) (mt_seq s (b + kk + 1)) (mt_seq s (b + kk + MT_M))])"
  then show "(half_block s b kk)[kk := twist (mt_seq s (b + kk)) (mt_seq s (b + kk + 1)) (mt_seq s (b + kk + MT_M))] ! i =
      half_block s b (kk + 1) ! i"
    using assms mt_seq_twist [of s "b + kk"] by (cases "i = kk") (auto simp: add.assoc)
qed simp

lemma twist_low_block: "kk \<le> 227 \<Longrightarrow> twist_low kk (half_block s b kk) = (half_block s b 227, 227)"
proof (induction "227 - kk" arbitrary: kk)
  case 0
  then show ?case by (subst twist_low.simps) simp
next
  case (Suc n)
  let ?h = "half_block s b kk"
  have "kk + 1 < MT_N" "kk + MT_M < MT_N"
    using Suc.hyps(2) by (simp_all add: MT_N_def MT_M_def)
  then have "?h ! kk = mt_seq s (b + kk)" "?h ! (kk + 1) = mt_seq s (b + kk + 1)" "?h ! (kk + MT_M) = mt_seq s (b + kk + MT_M)"
    by (simp_all add: add.assoc)
  then have "?h[kk := twist (?h ! kk) (?h ! (kk + 1)) (?h ! (kk + MT_M))] = half_block s b (kk + 1)"
    using half_block_step [of kk s b] \<open>kk + 1 < MT_N\<close> by simp
  moreover have "twist_low (kk + 1) (half_block s b (kk + 1)) = (half_block s b 227, 227)"
    using Suc.hyps by (intro Suc.hyps(1)) simp_all
  moreover have "kk < 227"
    using Suc.hyps(2) by simp
  ultimately show ?case
    by (subst twist_low.simps) simp
qed

lemma twist_high_block:
  "227 \<le> kk \<Longrightarrow> kk \<le> MT_N - 1 \<Longrightarrow> twist_high kk (half_block s b kk) = half_block s b (MT_N - 1)"
proof (induction "MT_N - 1 - kk" arbitrary: kk)
  case 0
  then have "kk = MT_N - 1" by simp
  then show ?case by (subst twist_high.simps) simp
next
  case (Suc n)
  let ?h = "half_block s b kk"
  have "kk + 1 < MT_N" "kk + MT_M - MT_N < kk" "kk + MT_M - MT_N < MT_N" "kk + MT_M - MT_N + MT_N = kk + MT_M"
    using Suc.hyps(2) Suc.prems by (simp_all add: MT_N_def MT_M_def)
  then have "?h ! kk = mt_seq s (b + kk)" "?h ! (kk + 1) = mt_seq s (b + kk + 1)"
      "?h ! (kk + MT_M - MT_N) = mt_seq s (b + kk + MT_M)"
    by (simp_all add: add.assoc)
  then have "?h[kk := twist (?h ! kk) (?h ! (kk + 1)) (?h ! (kk + MT_M - MT_N))] = half_block s b (kk + 1)"
    using half_block_step [of kk s b] \<open>kk + 1 < MT_N\<close> by simp
  moreover have "twist_high (kk + 1) (half_block s b (kk + 1)) = half_block s b (MT_N - 1)"
    using Suc.hyps Suc.prems by (intro Suc.hyps(1)) simp_all
  moreover have "kk < MT_N - 1"
    using Suc.hyps(2) by simp
  ultimately show ?case
    by (subst twist_high.simps) simp
qed

lemma regenerate_block: "regenerate (half_block s b 0) = half_block s (b + MT_N) 0"
proof -
  let ?h = "half_block s b (MT_N - 1)"
  have e: "MT_N - 1 < MT_N" "0 < MT_N - 1" "MT_M - 1 < MT_N - 1" "MT_M - 1 < MT_N" "MT_M - 1 + MT_N = MT_N - 1 + MT_M"
    by (simp_all add: MT_N_def MT_M_def)
  have "?h ! (MT_N - 1) = mt_seq s (b + (MT_N - 1))" "?h ! 0 = mt_seq s (b + (MT_N - 1) + 1)"
    "?h ! (MT_M - 1) = mt_seq s (b + (MT_N - 1) + MT_M)"
    using e by (simp_all add: add.assoc add.commute [of MT_M])
  then have "regenerate (half_block s b 0) = half_block s b (MT_N - 1 + 1)"
    using half_block_step [OF e(1), of s b] twist_low_block [of 0 s b] twist_high_block [of 227 s b]
    by (simp add: regenerate_def MT_N_def)
  also have "\<dots> = half_block s (b + MT_N) 0"
    by (simp add: half_block_def add_ac)
  finally show ?thesis .
qed

text \<open>The generator after \<open>n\<close> numbers have been drawn from the seed \<open>s\<close>.\<close>

definition mt_at :: "64 word \<Rightarrow> nat \<Rightarrow> random_t \<Rightarrow> bool" where
  "mt_at s n r \<longleftrightarrow> (\<exists>b. mt r = half_block s b 0 \<and> mti r \<le> MT_N \<and> b + mti r = n + MT_N)"

lemma random_seed_at: "length (mt r) = MT_N \<Longrightarrow> mt_at s 0 (random_seed s r)"
  by (auto simp: mt_at_def random_seed_def init_genrand_seq half_block_def intro!: exI [of _ 0])

lemma random_generate_at:
  assumes "mt_at s n r"
  shows "fst (random_generate r) = temper (mt_seq s (n + MT_N)) \<and> mt_at s (Suc n) (snd (random_generate r))"
proof -
  obtain b where b: "mt r = half_block s b 0" "mti r \<le> MT_N" "b + mti r = n + MT_N"
    using assms by (auto simp: mt_at_def)
  show ?thesis
  proof (cases "mti r = MT_N")
    case True
    then show ?thesis
      using b regenerate_block [of s b]
      by (auto simp: random_generate_def genrand_int32_def mt_at_def intro!: exI [of _ "b + MT_N"])
  next
    case False
    then have "mti r < MT_N" using b(2) by simp
    then show ?thesis
      using b by (auto simp: random_generate_def genrand_int32_def mt_at_def intro!: exI [of _ b])
  qed
qed

text \<open>C39. The numbers drawn after seeding are exactly the tempered terms of the recurrence that defines
  the generator: regenerating the array in place, 624 words at a time, computes the same sequence. The
  functions that seed, twist and temper one word are those of the code in both; the theorem is about
  the indices, the loops and the regeneration.\<close>

theorem random_draws_recurrence:
  assumes "length (mt r) = MT_N"
  shows "fst (random_draws n (random_seed s r)) = map (\<lambda>i. temper (mt_seq s (MT_N + i))) [0..<n]"
proof -
  have "mt_at s k r \<Longrightarrow> fst (random_draws n r) = map (\<lambda>i. temper (mt_seq s (MT_N + k + i))) [0..<n]" for k r
  proof (induction n arbitrary: k r)
    case (Suc n)
    have "[0..<Suc n] = 0 # map Suc [0..<n]"
      by (simp add: map_Suc_upt upt_conv_Cons)
    then show ?case
      using random_generate_at [OF Suc.prems] Suc.IH [of "Suc k" "snd (random_generate r)"]
      by (cases "random_generate r") (simp add: add_ac comp_def split_beta)
  qed simp
  from this [OF random_seed_at [OF assms]] show ?thesis by simp
qed

theorem random_draws_recurrence_witness:
  "fst (random_draws 1000 (random_seed 42 \<lparr>mt = replicate MT_N 0, mti = 0\<rparr>)) =
     map (\<lambda>i. temper (mt_seq 42 (MT_N + i))) [0..<1000]"
  using random_draws_recurrence [of "\<lparr>mt = replicate MT_N 0, mti = 0\<rparr>" 1000 42] by simp

section \<open>The shape of the state\<close>

definition fits32 :: "64 word \<Rightarrow> bool" where
  "fits32 w \<longleftrightarrow> take_bit 32 w = w"

definition mt_ok :: "random_t \<Rightarrow> bool" where
  "mt_ok r \<longleftrightarrow> length (mt r) = MT_N \<and> (\<forall>w \<in> set (mt r). fits32 w) \<and> mti r \<le> MT_N + 1"

lemma fits32_bits: "fits32 w \<longleftrightarrow> (\<forall>k \<ge> 32. \<not> bit w k)"
proof
  assume "fits32 w"
  then show "\<forall>k \<ge> 32. \<not> bit w k"
    unfolding fits32_def by (metis bit_take_bit_iff linorder_not_less)
next
  assume "\<forall>k \<ge> 32. \<not> bit w k"
  then show "fits32 w"
    unfolding fits32_def by (intro bit_word_eqI) (metis bit_take_bit_iff linorder_not_less)
qed

lemma fits32_bit_ops [intro]:
  "fits32 a \<Longrightarrow> fits32 b \<Longrightarrow> fits32 (a XOR b)" "fits32 a \<Longrightarrow> fits32 b \<Longrightarrow> fits32 (a OR b)"
  "fits32 b \<Longrightarrow> fits32 (a AND b)" "fits32 a \<Longrightarrow> fits32 (drop_bit n a)"
  by (auto simp: fits32_bits bit_simps)

lemma fits32_consts [simp]:
  "fits32 0" "fits32 0xffffffff" "fits32 UPPER_MASK" "fits32 LOWER_MASK" "fits32 MATRIX_A"
  "fits32 0x9d2c5680" "fits32 0xefc60000" "fits32 0x80000000"
  by (simp_all add: fits32_def UPPER_MASK_def LOWER_MASK_def MATRIX_A_def)

lemma fits32_less: "fits32 w \<Longrightarrow> unat w < 4294967296"
  unfolding fits32_def using take_bit_nat_less_exp [of 32 "unat w"] by (simp add: unsigned_take_bit_eq [symmetric])

lemma twist_fits: "fits32 c \<Longrightarrow> fits32 (twist a b c)"
  unfolding twist_def Let_def mag01_def by (intro fits32_bit_ops) simp_all

lemma temper_fits: "fits32 y \<Longrightarrow> fits32 (temper y)"
  unfolding temper_def Let_def by (intro fits32_bit_ops) simp_all

lemma init_word_fits: "fits32 (init_word w i)"
  unfolding init_word_def by (intro fits32_bit_ops) simp

definition words_ok :: "64 word list \<Rightarrow> bool" where
  "words_ok m \<longleftrightarrow> length m = MT_N \<and> (\<forall>w \<in> set m. fits32 w)"

lemma words_ok_update: "words_ok m \<Longrightarrow> fits32 w \<Longrightarrow> words_ok (m[i := w])"
  by (auto simp: words_ok_def dest!: set_update_subset_insert [THEN subsetD])

lemma words_ok_nth: "words_ok m \<Longrightarrow> i < MT_N \<Longrightarrow> fits32 (m ! i)"
  by (simp add: words_ok_def)

lemma twist_low_ok: "words_ok m \<Longrightarrow> kk \<le> 227 \<Longrightarrow> words_ok (fst (twist_low kk m)) \<and> snd (twist_low kk m) = 227"
proof (induction kk m rule: twist_low.induct)
  case (1 kk m)
  show ?case
  proof (cases "kk < 227")
    case True
    then have "kk + MT_M < MT_N" by (simp add: MT_N_def MT_M_def)
    then show ?thesis
      using 1 True by (subst (1 2) twist_low.simps) (simp add: words_ok_update twist_fits words_ok_nth)
  next
    case False
    with 1 show ?thesis by (subst (1 2) twist_low.simps) simp
  qed
qed

lemma twist_high_ok: "words_ok m \<Longrightarrow> words_ok (twist_high kk m)"
proof (induction kk m rule: twist_high.induct)
  case (1 kk m)
  show ?case
  proof (cases "kk < MT_N - 1")
    case True
    then have "kk + MT_M - MT_N < MT_N" by (simp add: MT_N_def MT_M_def)
    then show ?thesis
      using 1 True by (subst twist_high.simps) (simp add: words_ok_update twist_fits words_ok_nth)
  next
    case False
    with 1 show ?thesis by (subst twist_high.simps) simp
  qed
qed

lemma regenerate_ok: "words_ok m \<Longrightarrow> words_ok (regenerate m)"
  unfolding regenerate_def Let_def split_beta
  by (intro words_ok_update twist_high_ok twist_fits words_ok_nth conjunct1 [OF twist_low_ok])
    (simp_all add: MT_N_def MT_M_def)

lemma wrap_index_ok: "words_ok m \<Longrightarrow> words_ok (fst (wrap_index m i))"
  by (simp add: wrap_index_def words_ok_update words_ok_nth)

lemma key_loop_ok: "words_ok m \<Longrightarrow> words_ok (fst (key_loop k key i j m))"
proof (induction k arbitrary: i j m)
  case (Suc k)
  then show ?case
    by (simp add: Let_def split_beta wrap_index_ok words_ok_update fits32_bit_ops(3))
qed simp

lemma mix_loop_ok: "words_ok m \<Longrightarrow> words_ok (mix_loop k i m)"
proof (induction k arbitrary: i m)
  case (Suc k)
  then show ?case
    by (simp add: Let_def split_beta wrap_index_ok words_ok_update fits32_bit_ops(3))
qed simp

lemma init_genrand_ok:
  assumes "length (mt r) = MT_N"
  shows "mt_ok (init_genrand s r)" "words_ok (mt (init_genrand s r))"
proof -
  have "fits32 (mt_seq s k)" if "k < MT_N" for k
    using that by (subst mt_seq.simps) (simp add: init_word_fits fits32_bit_ops(3))
  then show "mt_ok (init_genrand s r)" "words_ok (mt (init_genrand s r))"
    by (simp_all add: mt_ok_def words_ok_def init_genrand_seq [OF assms])
qed

lemma generator_ok:
  assumes "length mem = MT_N" "mt_ok r"
  shows "mt_ok (random_alloc mem) \<and> mt_ok (random_seed s r) \<and> mt_ok (init_by_array key r) \<and>
     mt_ok (snd (random_generate r)) \<and> unat (fst (random_generate r)) < 2 ^ 32"
proof (intro conjI)
  have len: "length (mt r) = MT_N" and ok: "words_ok (mt r)"
    using assms(2) by (simp_all add: mt_ok_def words_ok_def)
  show "mt_ok (random_alloc mem)" "mt_ok (random_seed s r)"
    using assms(1) len by (simp_all add: random_alloc_def random_seed_def init_genrand_ok)
  have "words_ok (mix_loop (MT_N - 1) i (fst (key_loop n key 1 0 (mt (init_genrand 19650218 r)))))" for i n
    by (intro mix_loop_ok key_loop_ok init_genrand_ok len)
  then have "words_ok ((mix_loop (MT_N - 1) i (fst (key_loop n key 1 0 (mt (init_genrand 19650218 r)))))[0 := 0x80000000])" for i n
    by (rule words_ok_update) simp
  then show "mt_ok (init_by_array key r)"
    by (simp add: init_by_array_def Let_def split_beta mt_ok_def words_ok_def)
  have "words_ok (regenerate (mt r))" "words_ok (regenerate (mt (init_genrand 5489 r)))"
    by (intro regenerate_ok ok init_genrand_ok len)+
  then show "mt_ok (snd (random_generate r))" "unat (fst (random_generate r)) < 2 ^ 32"
    using assms(2) ok by (auto simp: random_generate_def genrand_int32_def Let_def mt_ok_def words_ok_def
        intro!: fits32_less temper_fits words_ok_nth)
qed

text \<open>C40. The generator is well formed from its allocation on: the array keeps its 624 words, each below
  \<open>2 ^ 32\<close>, the index stays at most 625 (624 when the words are used up, 625 is
  the code's mark of a generator that was never seeded), and every number drawn is below \<open>2 ^ 32\<close>, whatever the seed, the
  key array and the contents of the fresh memory.\<close>

theorem generator_well_formed:
  assumes "length mem = MT_N" "mt_ok r"
  shows "mt_ok (random_alloc mem) \<and> mt_ok (random_seed s r) \<and> mt_ok (init_by_array key r) \<and>
     mt_ok (snd (random_generate r)) \<and> unat (fst (random_generate r)) < 2 ^ 32"
  using generator_ok [OF assms] .

theorem generator_well_formed_witness:
  "mt_ok (random_alloc (replicate MT_N 0)) \<and> mt_ok (snd (random_generate (random_alloc (replicate MT_N 0))))"
proof -
  have ok: "mt_ok \<lparr>mt = replicate MT_N 0, mti = 0\<rparr>"
    by (simp add: mt_ok_def)
  have "mt_ok (random_alloc (replicate MT_N 0))"
    using generator_well_formed [OF _ ok, of "replicate MT_N 0" 0 "[]"] by simp
  with generator_well_formed [OF _ this, of "replicate MT_N 0" 0 "[]"] show ?thesis by simp
qed

lemma xor_push_inj:
  fixes a b :: "64 word"
  assumes "a XOR (push_bit n a AND c) = b XOR (push_bit n b AND c)" "0 < n"
  shows "a = b"
proof -
  have "bit a k = bit b k" if "k < 64" for k
    using that
  proof (induction k rule: less_induct)
    case (less k)
    have "bit (a XOR (push_bit n a AND c)) k = bit (b XOR (push_bit n b AND c)) k"
      using assms(1) by simp
    with less assms(2) show ?case by (cases "n \<le> k") (auto simp: bit_simps)
  qed
  then show ?thesis by (intro bit_word_eqI) simp
qed

lemma xor_drop_inj:
  fixes a b :: "64 word"
  assumes "a XOR drop_bit n a = b XOR drop_bit n b" "0 < n"
  shows "a = b"
proof -
  have "bit a (63 - k) = bit b (63 - k)" if "k < 64" for k
    using that
  proof (induction k rule: less_induct)
    case (less k)
    have e: "bit (a XOR drop_bit n a) (63 - k) = bit (b XOR drop_bit n b) (63 - k)"
      using assms(1) by simp
    show ?case
    proof (cases "n \<le> k")
      case True
      then have "63 - k + n = 63 - (k - n)" using less.prems by simp
      then show ?thesis
        using e less.IH [of "k - n"] True assms(2) less.prems by (auto simp: bit_simps add.commute)
    next
      case False
      then have "64 \<le> 63 - k + n" using less.prems by simp
      then show ?thesis using e by (auto simp: bit_simps add.commute dest: bit_imp_le_length)
    qed
  qed
  then have "bit a k = bit b k" if "k < 64" for k
    using that \<open>\<And>k. k < 64 \<Longrightarrow> bit a (63 - k) = bit b (63 - k)\<close> [of "63 - k"] by simp
  then show ?thesis by (intro bit_word_eqI) simp
qed

text \<open>Tempering loses nothing: two different words of the recurrence give two different numbers.\<close>

theorem temper_injective: "inj temper"
proof (rule injI)
  fix x y assume e: "temper x = temper y"
  define f where "f = (\<lambda>w :: 64 word. w XOR drop_bit 11 w)"
  define g where "g = (\<lambda>w :: 64 word. w XOR (push_bit 7 w AND 0x9d2c5680))"
  define h where "h = (\<lambda>w :: 64 word. w XOR (push_bit 15 w AND 0xefc60000))"
  define k where "k = (\<lambda>w :: 64 word. w XOR drop_bit 18 w)"
  have "k (h (g (f x))) = k (h (g (f y)))"
    using e by (simp add: temper_def Let_def f_def g_def h_def k_def)
  then have "h (g (f x)) = h (g (f y))"
    unfolding k_def by (rule xor_drop_inj) simp
  then have "g (f x) = g (f y)"
    unfolding h_def by (rule xor_push_inj) simp
  then have "f x = f y"
    unfolding g_def by (rule xor_push_inj) simp
  then show "x = y"
    unfolding f_def by (rule xor_drop_inj) simp
qed

text \<open>
  \<^verbatim>\<open>init_by_array\<close> leaves the index at \<open>N + 1\<close>, which \<^verbatim>\<open>genrand_int32\<close> takes for a generator that was never seeded:
  whatever the keys were, the numbers drawn are those of the default seed 5489.
\<close>

theorem init_by_array_seed_lost:
  assumes "mt_ok r"
  shows "random_generate (init_by_array key r) = random_generate (init_genrand 5489 r)"
proof -
  have "length (mt (init_by_array key r)) = MT_N" "length (mt r) = MT_N"
    using generator_ok [of "mt r" r 0 key] assms by (simp_all add: mt_ok_def words_ok_def)
  moreover have "mti (init_by_array key r) = MT_N + 1"
    by (simp add: init_by_array_def Let_def split_beta)
  ultimately show ?thesis
    by (simp add: random_generate_def genrand_int32_def init_genrand_seq)
qed

end
