(* ===== verification/Float32.thy ===== *)
theory Float32
  imports Complex_Main "HOL-Library.Log_Nat"
begin

text \<open>
  Single-precision arithmetic of the TPC-C tables (amounts, balances and year-to-date totals are \<^verbatim>\<open>float\<close>):
  the finite numbers as rationals, each operation rounded to 24 binary digits, to the nearest and in a tie
  to the even neighbour. Overflow, subnormal numbers, infinities and not-a-number are left out: the amounts
  of the program stay far inside the range of the format.

  \<open>f32_exact\<close> says where the arithmetic is exact, \<open>f32_at\<close> computes it where it is not.
\<close>

section \<open>Rounding\<close>

text \<open>The \<open>e\<close> with \<open>2 ^ e \<le> x < 2 ^ (e + 1)\<close>, for a positive \<open>x\<close>.\<close>

definition expo :: "rat \<Rightarrow> int" where
  "expo x = (if 1 \<le> x then int (floorlog 2 (nat \<lfloor>x\<rfloor>)) - 1 else - int (floorlog 2 (nat (\<lceil>1 / x\<rceil> - 1))))"

definition round_even :: "rat \<Rightarrow> int" where
  "round_even x = (let d = x - of_int \<lfloor>x\<rfloor> in
     if d < 1 / 2 then \<lfloor>x\<rfloor> else if 1 / 2 < d then \<lfloor>x\<rfloor> + 1 else if even \<lfloor>x\<rfloor> then \<lfloor>x\<rfloor> else \<lfloor>x\<rfloor> + 1)"

definition f32 :: "rat \<Rightarrow> rat" where
  "f32 x = (if x = 0 then 0 else
     let u = 2 powi (expo \<bar>x\<bar> - 23) in of_int (round_even (x / u)) * u)"

definition fadd :: "rat \<Rightarrow> rat \<Rightarrow> rat" where "fadd x y = f32 (x + y)"
definition fsub :: "rat \<Rightarrow> rat \<Rightarrow> rat" where "fsub x y = f32 (x - y)"
definition fmul :: "rat \<Rightarrow> rat \<Rightarrow> rat" where "fmul x y = f32 (x * y)"
definition fdiv :: "rat \<Rightarrow> rat \<Rightarrow> rat" where "fdiv x y = f32 (x / y)"

section \<open>The exponent\<close>

lemma expo_bounds:
  assumes "0 < x"
  shows "2 powi expo x \<le> x" "x < 2 powi (expo x + 1)"
proof -
  have "2 powi expo x \<le> x \<and> x < 2 powi (expo x + 1)"
  proof (cases "1 \<le> x")
    case True
    let ?n = "nat \<lfloor>x\<rfloor>"
    have n: "0 < ?n" "of_nat ?n \<le> x" "x < of_nat ?n + 1"
      using True by (simp_all add: of_nat_nat) linarith
    let ?f = "floorlog 2 ?n"
    have b: "2 ^ (?f - 1) \<le> ?n" "?n < 2 ^ ?f"
      using floorlog_bounds [of ?n 2] n(1) by simp_all
    have f: "0 < ?f"
      using floorlog_ge_SucI [of 2 0 ?n] n(1) by (simp only: power_0 Suc_le_eq One_nat_def)
    have e: "expo x = int (?f - 1)" "expo x + 1 = int ?f"
      using True f by (simp_all add: expo_def)
    have "(2 :: rat) ^ (?f - 1) \<le> of_nat ?n"
      using b(1) by (metis of_nat_le_iff of_nat_numeral of_nat_power)
    moreover have "(of_nat ?n :: rat) + 1 \<le> 2 ^ ?f"
      using b(2) by (metis Suc_leI of_nat_Suc of_nat_le_iff of_nat_numeral of_nat_power add.commute)
    ultimately show ?thesis
      using n e by (simp only: power_int_of_nat) linarith
  next
    case False
    let ?y = "1 / x"
    let ?n = "nat (\<lceil>?y\<rceil> - 1)"
    have y: "1 < ?y"
      using False assms by simp
    then have "1 < \<lceil>?y\<rceil>" by linarith
    then have n: "0 < ?n" "of_nat ?n < ?y" "?y \<le> of_nat ?n + 1"
      by (simp_all add: of_nat_nat) linarith+
    let ?f = "floorlog 2 ?n"
    have b: "2 ^ (?f - 1) \<le> ?n" "?n < 2 ^ ?f"
      using floorlog_bounds [of ?n 2] n(1) by simp_all
    have f: "0 < ?f"
      using floorlog_ge_SucI [of 2 0 ?n] n(1) by (simp add: Suc_le_eq)
    have e: "expo x = - int ?f" "expo x + 1 = - int (?f - 1)"
      using False f by (simp_all add: expo_def)
    have "(2 :: rat) ^ (?f - 1) \<le> of_nat ?n"
      using b(1) by (metis of_nat_le_iff of_nat_numeral of_nat_power)
    moreover have "(of_nat ?n :: rat) + 1 \<le> 2 ^ ?f"
      using b(2) by (metis Suc_leI of_nat_Suc of_nat_le_iff of_nat_numeral of_nat_power add.commute)
    ultimately have "?y \<le> 2 ^ ?f" "2 ^ (?f - 1) < ?y"
      using n by linarith+
    then have "inverse (2 ^ ?f) \<le> x" "x < inverse (2 ^ (?f - 1))"
      using assms by (simp_all add: field_simps)
    moreover have "(2 :: rat) powi expo x = inverse (2 ^ ?f)"
      by (simp only: e(1) power_int_minus power_int_of_nat)
    moreover have "(2 :: rat) powi (expo x + 1) = inverse (2 ^ (?f - 1))"
      by (simp only: e(2) power_int_minus power_int_of_nat)
    ultimately show ?thesis
      by simp
  qed
  then show "2 powi expo x \<le> x" "x < 2 powi (expo x + 1)" by simp_all
qed

lemma powi_less_iff: "(2 :: rat) powi a < 2 powi b \<longleftrightarrow> a < b"
  by (meson linorder_not_less one_le_numeral one_less_numeral_iff power_int_increasing power_int_strict_increasing semiring_norm(76))

lemma expo_unique:
  assumes "2 powi e \<le> x" "x < 2 powi (e + 1)"
  shows "expo x = e"
proof -
  have "0 < x"
    using assms(1) by (meson less_le_trans zero_less_numeral zero_less_power_int)
  then have "2 powi expo x \<le> x" "x < 2 powi (expo x + 1)"
    by (rule expo_bounds)+
  then have "expo x < e + 1" "e < expo x + 1"
    using assms powi_less_iff by (meson le_less_trans)+
  then show ?thesis by simp
qed

section \<open>Where the arithmetic is exact\<close>

lemma round_even_int [simp]: "round_even (of_int m) = m"
  by (simp add: round_even_def)

text \<open>The multiples of \<open>2 ^ k\<close> that have at most 24 binary digits.\<close>

definition on_grid :: "int \<Rightarrow> rat \<Rightarrow> bool" where
  "on_grid k x \<longleftrightarrow> (\<exists>m :: int. x = of_int m * 2 powi k \<and> \<bar>m\<bar> \<le> 2 ^ 24)"

lemma f32_exact:
  assumes "on_grid k x"
  shows "f32 x = x"
proof (cases "x = 0")
  case True
  then show ?thesis by (simp add: f32_def)
next
  case False
  obtain m where x: "x = of_int m * 2 powi k" and m: "\<bar>m\<bar> \<le> 2 ^ 24"
    using assms by (auto simp: on_grid_def)
  define e where "e = expo \<bar>x\<bar>"
  let ?u = "2 powi (e - 23) :: rat"
  have b: "2 powi e \<le> \<bar>x\<bar>" "\<bar>x\<bar> < 2 powi (e + 1)"
    unfolding e_def using expo_bounds [of "\<bar>x\<bar>"] False by simp_all
  have u: "0 < ?u" by simp
  have "\<exists>n. x / ?u = of_int n"
  proof (cases "e - 23 \<le> k")
    case True
    then have "(2 :: rat) powi k = 2 ^ nat (k - (e - 23)) * ?u"
      by (simp add: power_int_add [symmetric] flip: power_int_of_nat)
    then have "x / ?u = of_int (m * 2 ^ nat (k - (e - 23)))"
      using u by (simp add: x)
    then show ?thesis by blast
  next
    case False
    then have k: "k \<le> e - 24" by simp
    have "\<bar>x\<bar> = of_int \<bar>m\<bar> * 2 powi k"
      by (simp add: x abs_mult)
    also have "\<dots> \<le> 2 ^ 24 * 2 powi k"
      using m of_int_le_iff [of "\<bar>m\<bar>" "2 ^ 24", where ?'a = rat] by (intro mult_right_mono) simp_all
    also have "\<dots> \<le> 2 ^ 24 * 2 powi (e - 24)"
      using k by (intro mult_left_mono power_int_increasing) simp_all
    also have "\<dots> = 2 powi e"
      using power_int_add [of "2 :: rat" 24 "e - 24"] by simp
    finally have "\<bar>x\<bar> = 2 powi e"
      using b(1) by simp
    also have "\<dots> = 2 ^ 23 * ?u"
      using power_int_add [of "2 :: rat" 23 "e - 23"] by simp
    finally have "x = of_int (2 ^ 23) * ?u \<or> x = of_int (- (2 ^ 23)) * ?u"
      by (auto simp: abs_if split: if_splits)
    then have "x / ?u = of_int (2 ^ 23) \<or> x / ?u = of_int (- (2 ^ 23))"
      using u by (auto simp: field_simps)
    then show ?thesis by blast
  qed
  then obtain n where n: "x / ?u = of_int n" by blast
  then have "f32 x = of_int n * ?u"
    using False by (simp add: f32_def e_def)
  also have "\<dots> = x"
    using n u by (metis less_irrefl nonzero_eq_divide_eq)
  finally show ?thesis .
qed

lemma on_grid_add:
  assumes "on_grid k x" "on_grid k y" "\<bar>x + y\<bar> \<le> 2 powi (24 + k)"
  shows "on_grid k (x + y)" "fadd x y = x + y"
proof -
  obtain m n where x: "x = of_int m * 2 powi k" and y: "y = of_int n * 2 powi k"
    using assms(1,2) by (auto simp: on_grid_def)
  have s: "x + y = of_int (m + n) * 2 powi k"
    by (simp add: x y distrib_right)
  then have "of_int \<bar>m + n\<bar> * 2 powi k \<le> 2 ^ 24 * (2 :: rat) powi k"
    using assms(3) by (simp add: abs_mult power_int_add)
  then have "of_int \<bar>m + n\<bar> \<le> (2 ^ 24 :: rat)"
    by (simp add: mult_le_cancel_right not_less)
  then have "\<bar>m + n\<bar> \<le> 2 ^ 24"
    using of_int_le_iff [of "\<bar>m + n\<bar>" "2 ^ 24", where ?'a = rat] by simp
  with s show "on_grid k (x + y)" unfolding on_grid_def by blast
  then show "fadd x y = x + y" unfolding fadd_def by (rule f32_exact)
qed

lemma on_grid_uminus: "on_grid k x \<Longrightarrow> on_grid k (- x)"
  unfolding on_grid_def by (metis abs_minus_cancel minus_mult_left of_int_minus)

lemma on_grid_sub:
  assumes "on_grid k x" "on_grid k y" "\<bar>x - y\<bar> \<le> 2 powi (24 + k)"
  shows "on_grid k (x - y)" "fsub x y = x - y"
  using on_grid_add [OF assms(1) on_grid_uminus [OF assms(2)]] assms(3) by (simp_all add: fadd_def fsub_def)

section \<open>Where it is not\<close>

lemma f32_at:
  assumes "2 powi e \<le> \<bar>x\<bar>" "\<bar>x\<bar> < 2 powi (e + 1)"
  shows "f32 x = of_int (round_even (x / 2 powi (e - 23))) * 2 powi (e - 23)"
proof -
  have "x \<noteq> 0"
    using assms(1) by (metis abs_0 not_less zero_less_numeral zero_less_power_int)
  then show ?thesis
    by (simp add: f32_def Let_def expo_unique [OF assms])
qed

text \<open>Beyond \<open>2 ^ 24\<close> the odd integers are missing.\<close>

lemma fadd_loses_one: "fadd 16777216 1 = 16777216"
proof -
  have "f32 16777217 = of_int (round_even (16777217 / 2 powi (24 - 23))) * 2 powi (24 - 23)"
    by (rule f32_at) simp_all
  also have "\<dots> = 16777216"
    using floor_unique [of 8388608 "16777217 / 2 :: rat"] by (simp add: round_even_def)
  finally show ?thesis by (simp add: fadd_def)
qed

end
