(* ===== verification/Tpcc_Tables.thy ===== *)
theory Tpcc_Tables
  imports Mt19937 Float32
begin

text \<open>
  The tables of the TPC-C server and the code that fills them: \<^verbatim>\<open>TPCC/Server/dataTable\<close> and
  \<^verbatim>\<open>manager_allocation\<close> of \<^verbatim>\<open>TPCC/Server/manager.c\<close>.

  A row is a record with the fields that the code sets or reads. A table is a finite map: \<^verbatim>\<open>map.h\<close> is built
  with \<^verbatim>\<open>MAP_USE_RBTREE\<close>, and of the red-black tree the code uses the map operations only. Orders are
  reached both from the table of their district and from the \<^verbatim>\<open>lastOrder\<close> of a customer, so they live in a
  store of their own and are named by their address; every other row belongs to one table. A field that
  the code leaves uninitialised keeps what the fresh memory held (\<open>env\<close>); memory is never exhausted.
  \<^verbatim>\<open>long\<close> fields are unbounded integers. Identifiers and quantities stay far below \<open>2 ^ 63\<close>; \<^verbatim>\<open>S_YTD\<close> and
  \<^verbatim>\<open>S_ORDER_CNT\<close> are counted from the uninitialised value that \<^verbatim>\<open>stocktable.c\<close> leaves in them, so the sums
  are those of the code up to a multiple of \<open>2 ^ 64\<close> only.

  The theorems: the names of the customers are unambiguous, and the filled database satisfies the
  consistency conditions that the transactions rely on.
\<close>

section \<open>Rows\<close>

record orderline =
  OL_O_ID :: int
  OL_D_ID :: int
  OL_W_ID :: int
  OL_NUMBER :: int
  OL_I_ID :: int
  OL_SUPPLY_W_ID :: int
  OL_DELIVERY_D :: int
  OL_QUANTITY :: int
  OL_AMOUNT :: rat

record order =
  O_ID :: int
  O_D_ID :: int
  O_W_ID :: int
  O_C_ID :: int
  O_ENTRY_D :: int
  O_CARRIER_ID :: int
  O_OL_CNT :: int
  O_ALL_LOCAL :: int
  order_lines :: "int \<rightharpoonup> orderline"

record customer =
  C_ID :: int
  C_D_ID :: int
  C_W_ID :: int
  C_LAST :: string
  C_SINCE :: int
  C_DISCOUNT :: rat
  C_BALANCE :: rat
  C_YTD_PAYMENT :: rat
  C_PAYMENT_CNT :: int
  C_DELIVERY_CNT :: int
  lastOrder :: "nat option"

record district =
  D_ID :: int
  D_W_ID :: int
  D_TAX :: rat
  D_YTD :: rat
  D_NEXT_O_ID :: int
  customerMap :: "int \<rightharpoonup> customer"
  orderMap :: "int \<rightharpoonup> nat"

record warehouse =
  W_ID :: int
  W_TAX :: rat
  W_YTD :: rat
  districtMap :: "int \<rightharpoonup> district"

record item =
  I_ID :: int
  I_IM_ID :: int
  I_PRICE :: rat

record stocktable =
  S_I_ID :: int
  S_W_ID :: int
  S_QUANTITY :: int
  S_YTD :: int
  S_ORDER_CNT :: int

record neworder =
  NO_O_ID :: int
  NO_D_ID :: int
  NO_W_ID :: int

record history =
  H_C_ID :: int
  H_C_D_ID :: int
  H_C_W_ID :: int
  H_DATE :: int
  H_AMOUNT :: rat

text \<open>The store of orders; \<open>o_next\<close> is the next address that \<^verbatim>\<open>malloc\<close> returns.\<close>

record order_store =
  o_cells :: "nat \<Rightarrow> order"
  o_next :: nat

record manager =
  warehouseMap :: "int \<rightharpoonup> warehouse"
  historyMap :: "int \<rightharpoonup> history"
  itemMap :: "int \<rightharpoonup> item"
  neworderMap :: "(nat \<times> neworder) list"
  stockMap :: "int \<rightharpoonup> stocktable"
  next_key_history :: int
  rng :: random_t
  order_store :: order_store

text \<open>What the code finds in its surroundings: the contents of fresh memory, the time, the address of a
  string constant, the addresses of the rows of the new-order table.\<close>

record env =
  fresh_customer :: "int \<Rightarrow> int \<Rightarrow> customer"
  fresh_stock :: "int \<Rightarrow> stocktable"
  now :: int
  since_text :: int
  neworder_addr :: "int \<Rightarrow> int \<Rightarrow> nat"

section \<open>Tables, loops and random numbers\<close>

definition map_insert :: "('k \<rightharpoonup> 'v) \<Rightarrow> 'k \<Rightarrow> 'v \<Rightarrow> 'k \<rightharpoonup> 'v" where
  "map_insert m k v = (case m k of None \<Rightarrow> m(k \<mapsto> v) | Some _ \<Rightarrow> m)"

definition for_to :: "int \<Rightarrow> int \<Rightarrow> (int \<Rightarrow> 's \<Rightarrow> 's) \<Rightarrow> 's \<Rightarrow> 's" where
  "for_to a b f s = fold f [a..b] s"

text \<open>A loop whose body may dereference a null pointer or fail an assertion.\<close>

definition try_to :: "int \<Rightarrow> int \<Rightarrow> (int \<Rightarrow> 's \<Rightarrow> 's option) \<Rightarrow> 's \<Rightarrow> 's option" where
  "try_to a b f s = fold (\<lambda>i s. Option.bind s (f i)) [a..b] (Some s)"

text \<open>\<^verbatim>\<open>random_generate(randomPtr) % n\<close>\<close>

definition random_mod :: "64 word \<Rightarrow> random_t \<Rightarrow> int \<times> random_t" where
  "random_mod n r = (let (y, r) = random_generate r in (uint (y mod n), r))"

section \<open>Filling the tables\<close>

definition syllable :: "int \<Rightarrow> string" where
  "syllable n = (if n = 0 then ''BAR'' else if n = 1 then ''OUGHT'' else if n = 2 then ''ABLE''
     else if n = 3 then ''PRI'' else if n = 4 then ''PRES'' else if n = 5 then ''ESE''
     else if n = 6 then ''ANTI'' else if n = 7 then ''CALLY'' else if n = 8 then ''ACTION'' else ''EING'')"

definition generate_CLAST :: "int \<Rightarrow> string" where
  "generate_CLAST seed =
    (let module3 = seed mod 10; app = seed div 10; module2 = app mod 10; module1 = app div 10 in
     syllable module1 @ syllable module2 @ syllable module3)"

definition customer_alloc :: "customer \<Rightarrow> int \<Rightarrow> int \<Rightarrow> int \<Rightarrow> string \<Rightarrow> int \<Rightarrow> customer" where
  "customer_alloc mem c_id d_id w_id c_last since =
    mem\<lparr>C_ID := c_id, C_D_ID := d_id, C_W_ID := w_id, C_LAST := c_last, C_SINCE := since,
       C_BALANCE := -10, C_YTD_PAYMENT := 10, C_PAYMENT_CNT := 1\<rparr>"

definition fill_customer2_row :: "env \<Rightarrow> int \<Rightarrow> int \<Rightarrow> (int \<rightharpoonup> customer) \<times> random_t \<Rightarrow> (int \<rightharpoonup> customer) \<times> random_t" where
  "fill_customer2_row e id_d id_c s =
    (let (m, r) = s;
         (seed, r) = random_mod 999 r; c_last = generate_CLAST seed;
         (chkCredit, r) = random_mod 100 r;
         (disc, r) = random_mod 5000 r in
     (map_insert m id_c (customer_alloc (fresh_customer e id_d id_c) id_c id_d 1 c_last (since_text e)), r))"

definition fill_customer2 :: "env \<Rightarrow> int \<Rightarrow> random_t \<Rightarrow> (int \<rightharpoonup> customer) \<times> random_t" where
  "fill_customer2 e id_d r = for_to 1 3000 (fill_customer2_row e id_d) (Map.empty, r)"

definition orderline_alloc :: "int \<Rightarrow> int \<Rightarrow> int \<Rightarrow> int \<Rightarrow> int \<Rightarrow> int \<Rightarrow> int \<Rightarrow> int \<Rightarrow> rat \<Rightarrow> orderline" where
  "orderline_alloc o_id d_id w_id nr i_id supply deliv quantity amount =
    \<lparr>OL_O_ID = o_id, OL_D_ID = d_id, OL_W_ID = w_id, OL_NUMBER = nr, OL_I_ID = i_id, OL_SUPPLY_W_ID = supply,
     OL_DELIVERY_D = deliv, OL_QUANTITY = quantity, OL_AMOUNT = amount\<rparr>"

definition fill_orderline_row :: "int \<Rightarrow> int \<Rightarrow> int \<Rightarrow> int \<Rightarrow> (int \<rightharpoonup> orderline) \<times> random_t \<Rightarrow> (int \<rightharpoonup> orderline) \<times> random_t" where
  "fill_orderline_row id_o id_d id_w i s =
    (let (m, r) = s;
         (ol_deliv, ol_amount, r) =
           (if id_o < 2101 then (let (y, r) = random_mod 10 r in (y + 1, 0, r))
            else (let (y, r) = random_mod 999999 r in (-1, f32 (of_int ((y + 1) div 100)), r)));
         (y, r) = random_mod 100000 r; id_item = y + 1 in
     (map_insert m i (orderline_alloc id_o id_d id_w i id_item id_w ol_deliv 5 ol_amount), r))"

definition fill_orderline :: "int \<Rightarrow> int \<Rightarrow> int \<Rightarrow> int \<Rightarrow> random_t \<Rightarrow> (int \<rightharpoonup> orderline) \<times> random_t" where
  "fill_orderline id_o id_d id_w cnt r = for_to 1 cnt (fill_orderline_row id_o id_d id_w) (Map.empty, r)"

definition new_order_row :: "int \<Rightarrow> int \<Rightarrow> int \<Rightarrow> int \<Rightarrow> int \<Rightarrow> int \<Rightarrow> int \<Rightarrow> int \<Rightarrow> (int \<rightharpoonup> orderline) \<Rightarrow> order" where
  "new_order_row id_o id_d id_c id_w entry carrier cnt all_local lines =
    \<lparr>O_ID = id_o, O_D_ID = id_d, O_W_ID = id_w, O_C_ID = id_c, O_ENTRY_D = entry, O_CARRIER_ID = carrier,
     O_OL_CNT = cnt, O_ALL_LOCAL = all_local, order_lines = lines\<rparr>"

definition store_new :: "order \<Rightarrow> order_store \<Rightarrow> nat \<times> order_store" where
  "store_new ord h = (o_next h, h\<lparr>o_cells := (o_cells h)(o_next h := ord), o_next := o_next h + 1\<rparr>)"

definition order_alloc :: "int \<Rightarrow> int \<Rightarrow> int \<Rightarrow> int \<Rightarrow> int \<Rightarrow> int \<Rightarrow> int \<Rightarrow> int \<Rightarrow>
    order_store \<Rightarrow> random_t \<Rightarrow> nat \<times> order_store \<times> random_t" where
  "order_alloc id_o id_d id_c id_w entry carrier cnt all_local h r =
    (let (lines, r) = fill_orderline id_o id_d id_w cnt r;
         (p, h) = store_new (new_order_row id_o id_d id_c id_w entry carrier cnt all_local lines) h in
     (p, h, r))"

text \<open>The state of the loop of \<^verbatim>\<open>fill_order2\<close>: both tables, the store, the next customer, the generator.\<close>

type_synonym order_fill = "(int \<rightharpoonup> nat) \<times> (int \<rightharpoonup> customer) \<times> order_store \<times> int \<times> random_t"

definition next_customer :: "int \<Rightarrow> int" where
  "next_customer id_c = (let c = (id_c + 1) mod 3000 in if c = 0 then 3000 else c)"

definition fill_order2_row :: "env \<Rightarrow> int \<Rightarrow> int \<Rightarrow> int \<Rightarrow> order_fill \<Rightarrow> order_fill option" where
  "fill_order2_row e id_w id_d id_o s =
    (let (om, cm, h, id_c, r) = s;
         (o_carr, r) = (if id_o < 2101 then (let (y, r) = random_mod 10 r in (y + 1, r)) else (-1, r));
         (y, r) = random_mod 10 r; o_ol_cnt = y + 5 in
     if \<not> (id_c < 3001 \<and> id_c > 0) then None
     else
       (let (p, h, r) = order_alloc id_o id_d id_c id_w (now e) o_carr o_ol_cnt 1 h r;
            om = map_insert om id_o p in
        case cm id_c of
          None \<Rightarrow> None
        | Some c \<Rightarrow> Some (om, cm(id_c \<mapsto> c\<lparr>lastOrder := Some p\<rparr>), h, next_customer id_c, r)))"

definition fill_order2 :: "env \<Rightarrow> int \<Rightarrow> int \<Rightarrow> (int \<rightharpoonup> customer) \<Rightarrow> order_store \<Rightarrow> random_t \<Rightarrow> order_fill option" where
  "fill_order2 e id_w id_d cm h r =
    (let (y, r) = random_mod 3000 r in try_to 1 3000 (fill_order2_row e id_w id_d) (Map.empty, cm, h, y + 1, r))"

definition district_alloc :: "env \<Rightarrow> int \<Rightarrow> int \<Rightarrow> rat \<Rightarrow> order_store \<Rightarrow> random_t \<Rightarrow> (district \<times> order_store \<times> random_t) option" where
  "district_alloc e d_id w_id d_tax h r =
    (let (cm, r) = fill_customer2 e d_id r in
     case fill_order2 e w_id d_id cm h r of
       None \<Rightarrow> None
     | Some (om, cm, h, id_c, r) \<Rightarrow> Some (\<lparr>D_ID = d_id, D_W_ID = w_id, D_TAX = d_tax, D_YTD = 30000,
         D_NEXT_O_ID = 3001, customerMap = cm, orderMap = om\<rparr>, h, r))"

definition fill_district_row :: "env \<Rightarrow> int \<Rightarrow> (int \<rightharpoonup> district) \<times> order_store \<times> random_t \<Rightarrow>
    ((int \<rightharpoonup> district) \<times> order_store \<times> random_t) option" where
  "fill_district_row e i s =
    (let (m, h, r) = s; (y, r) = random_mod 2000 r; d_tax = fdiv (f32 (of_int y)) 10000 in
     case district_alloc e i 1 d_tax h r of
       None \<Rightarrow> None | Some (d, h, r) \<Rightarrow> Some (map_insert m i d, h, r))"

definition fill_district :: "env \<Rightarrow> order_store \<Rightarrow> random_t \<Rightarrow> ((int \<rightharpoonup> district) \<times> order_store \<times> random_t) option" where
  "fill_district e h r = try_to 1 10 (fill_district_row e) (Map.empty, h, r)"

definition warehouse_alloc :: "env \<Rightarrow> int \<Rightarrow> rat \<Rightarrow> order_store \<Rightarrow> random_t \<Rightarrow> (warehouse \<times> order_store \<times> random_t) option" where
  "warehouse_alloc e i w_tax h r =
    map_option (\<lambda>(m, h, r). (\<lparr>W_ID = i, W_TAX = w_tax, W_YTD = 300000, districtMap = m\<rparr>, h, r)) (fill_district e h r)"

definition fill_warehouse :: "env \<Rightarrow> order_store \<Rightarrow> random_t \<Rightarrow> ((int \<rightharpoonup> warehouse) \<times> order_store \<times> random_t) option" where
  "fill_warehouse e h r =
    (let (y, r) = random_mod 2000 r; w_tax = fdiv (f32 (of_int y)) 10000 in
     map_option (\<lambda>(w, h, r). (map_insert Map.empty 1 w, h, r)) (warehouse_alloc e 1 w_tax h r))"

definition history_alloc :: "int \<Rightarrow> int \<Rightarrow> int \<Rightarrow> int \<Rightarrow> rat \<Rightarrow> history" where
  "history_alloc c_id d_id w_id date amount =
    \<lparr>H_C_ID = c_id, H_C_D_ID = d_id, H_C_W_ID = w_id, H_DATE = date, H_AMOUNT = amount\<rparr>"

definition fill_history :: "env \<Rightarrow> (int \<rightharpoonup> history) \<times> int" where
  "fill_history e = for_to 1 10 (\<lambda>id_d. for_to 1 3000 (\<lambda>id_c s.
     let (m, id_h) = s; id_h = id_h + 1 in (map_insert m id_h (history_alloc id_c id_d 0 (now e) 10), id_h)))
     (Map.empty, 1)"

definition item_alloc :: "int \<Rightarrow> int \<Rightarrow> rat \<Rightarrow> item" where
  "item_alloc i_id im_id price = \<lparr>I_ID = i_id, I_IM_ID = im_id, I_PRICE = price\<rparr>"

text \<open>The buffers \<^verbatim>\<open>iName\<close> and \<^verbatim>\<open>iData\<close> of 24 and 50 bytes are cut at random lengths.\<close>

definition fill_item_row :: "int \<Rightarrow> (int \<rightharpoonup> item) \<times> random_t \<Rightarrow> ((int \<rightharpoonup> item) \<times> random_t) option" where
  "fill_item_row i s =
    (let (m, r) = s;
         (imID, r) = random_mod 10000 r;
         (y, r) = random_mod 10 r; leniname = y + 14;
         (y, r) = random_mod 24 r; lenidata = y + 26;
         (y, r) = random_mod 9900 r; iPrice = fdiv (fadd (f32 (of_int y)) 100) 100 in
     if leniname \<ge> 24 \<or> lenidata \<ge> 50 then None
     else Some (map_insert m i (item_alloc i imID iPrice), r))"

definition fill_item :: "random_t \<Rightarrow> ((int \<rightharpoonup> item) \<times> random_t) option" where
  "fill_item r = try_to 1 100000 fill_item_row (Map.empty, r)"

definition neworder_alloc :: "int \<Rightarrow> int \<Rightarrow> int \<Rightarrow> neworder" where
  "neworder_alloc o_id d_id w_id = \<lparr>NO_O_ID = o_id, NO_D_ID = d_id, NO_W_ID = w_id\<rparr>"

text \<open>\<^verbatim>\<open>list_insert\<close> with \<^verbatim>\<open>LIST_NO_DUPLICATES\<close>: the rows are sorted by their addresses.\<close>

fun list_insert :: "nat \<times> 'a \<Rightarrow> (nat \<times> 'a) list \<Rightarrow> (nat \<times> 'a) list" where
  "list_insert x [] = [x]"
| "list_insert x (y # ys) =
    (if fst y \<ge> fst x then (if fst y = fst x then y # ys else x # y # ys) else y # list_insert x ys)"

definition fill_neworder :: "env \<Rightarrow> (nat \<times> neworder) list" where
  "fill_neworder e = for_to 1 10 (\<lambda>id_d. for_to 2101 3000 (\<lambda>id_o.
     list_insert (neworder_addr e id_d id_o, neworder_alloc id_o id_d 0))) []"

definition stocktable_alloc :: "stocktable \<Rightarrow> int \<Rightarrow> int \<Rightarrow> int \<Rightarrow> stocktable" where
  "stocktable_alloc mem i_id w_id quantity = mem\<lparr>S_I_ID := i_id, S_W_ID := w_id, S_QUANTITY := quantity\<rparr>"

definition fill_stock_row :: "env \<Rightarrow> int \<Rightarrow> (int \<rightharpoonup> stocktable) \<times> random_t \<Rightarrow> (int \<rightharpoonup> stocktable) \<times> random_t" where
  "fill_stock_row e i s =
    (let (m, r) = s; (y, r) = random_mod 90 r in
     (map_insert m i (stocktable_alloc (fresh_stock e i) i 0 (y + 10)), r))"

definition fill_stock :: "env \<Rightarrow> random_t \<Rightarrow> ((int \<rightharpoonup> stocktable) \<times> random_t) option" where
  "fill_stock e r =
    (let (m, r) = for_to 1 100000 (fill_stock_row e) (Map.empty, r) in
     if (\<forall>i \<in> set [1..100000]. m i \<noteq> None) then Some (m, r) else None)"

text \<open>The consistency check that runs after the tables are filled.\<close>

fun district_sum :: "(int \<rightharpoonup> district) \<Rightarrow> int list \<Rightarrow> rat \<Rightarrow> rat" where
  "district_sum dm [] acc = acc"
| "district_sum dm (j # js) acc = (case dm j of None \<Rightarrow> acc | Some d \<Rightarrow> district_sum dm js (fadd acc (D_YTD d)))"

partial_function (option) checkConsistency1 :: "(int \<rightharpoonup> warehouse) \<Rightarrow> int \<Rightarrow> bool option" where
  "checkConsistency1 wm i = (case wm i of
     None \<Rightarrow> Some True
   | Some w \<Rightarrow> if W_YTD w \<noteq> district_sum (districtMap w) [0..9] 0 then checkConsistency1 wm (i + 1) else Some False)"

definition checkConsistency :: "manager \<Rightarrow> bool option" where
  "checkConsistency m = checkConsistency1 (warehouseMap m) 0"

definition manager_allocation :: "env \<Rightarrow> 64 word list \<Rightarrow> order_store \<Rightarrow> manager option" where
  "manager_allocation e mem h =
    (let r = random_seed 42 (random_alloc mem) in
     Option.bind (fill_warehouse e h r) (\<lambda>(wm, h, r).
       let (hm, next) = fill_history e in
       Option.bind (fill_item r) (\<lambda>(im, r).
         let nl = fill_neworder e in
         Option.bind (fill_stock e r) (\<lambda>(sm, r).
           let m = \<lparr>warehouseMap = wm, historyMap = hm, itemMap = im, neworderMap = nl, stockMap = sm,
                next_key_history = next, rng = r, order_store = h\<rparr> in
           if checkConsistency m = Some True then Some m else None))))"

section \<open>Loops\<close>

lemma for_to_inv:
  assumes "a \<le> b + 1" "P a s" "\<And>i s. a \<le> i \<Longrightarrow> i \<le> b \<Longrightarrow> P i s \<Longrightarrow> P (i + 1) (f i s)"
  shows "P (b + 1) (for_to a b f s)"
  using assms
proof (induction "nat (b + 1 - a)" arbitrary: a s)
  case 0
  then have "a = b + 1" by simp
  with 0 show ?case by (simp add: for_to_def)
next
  case (Suc n)
  then have "a \<le> b" by simp
  with Suc show ?case
    by (simp add: for_to_def upto_rec1)
qed

lemma try_to_inv:
  assumes "a \<le> b + 1" "P a s" "\<And>i s. a \<le> i \<Longrightarrow> i \<le> b \<Longrightarrow> P i s \<Longrightarrow> \<exists>s'. f i s = Some s' \<and> P (i + 1) s'"
  shows "\<exists>s'. try_to a b f s = Some s' \<and> P (b + 1) s'"
  using assms
proof (induction "nat (b + 1 - a)" arbitrary: a s)
  case 0
  then have "a = b + 1" by simp
  with 0 show ?case by (simp add: try_to_def)
next
  case (Suc n)
  then have ab: "a \<le> b" by simp
  obtain s' where s': "f a s = Some s'" "P (a + 1) s'"
    using Suc.prems(3) [of a s] Suc.prems(2) ab by auto
  have "\<exists>s''. try_to (a + 1) b f s' = Some s'' \<and> P (b + 1) s''"
    using Suc.hyps Suc.prems(3) s'(2) ab by (intro Suc.hyps(1)) simp_all
  with ab s'(1) show ?case
    by (simp add: try_to_def upto_rec1)
qed

lemma dom_map_insert [simp]: "dom (map_insert m k v) = insert k (dom m)"
  by (auto simp: map_insert_def split: option.splits)

lemma map_insert_fresh: "k \<notin> dom m \<Longrightarrow> map_insert m k v = m(k \<mapsto> v)"
  by (auto simp: map_insert_def split: option.splits)

lemma random_generate_ok: "mt_ok r \<Longrightarrow> mt_ok (snd (random_generate r))"
  using generator_ok [of "replicate MT_N 0" r] by simp

lemma random_mod_ok:
  assumes "random_mod n r = (y, r')" "0 < n" "mt_ok r"
  shows "0 \<le> y \<and> y < uint n \<and> mt_ok r'"
proof -
  have "uint (z mod n) < uint n" for z
    using assms(2) by (simp add: uint_mod_distrib word_less_def)
  then show ?thesis
    using assms random_generate_ok [OF assms(3)] by (auto simp: random_mod_def split: prod.splits)
qed

section \<open>Consistency of the tables\<close>

text \<open>An order has the lines that it counts, each for an item that exists.\<close>

definition order_ok :: "order \<Rightarrow> bool" where
  "order_ok ord \<longleftrightarrow> 5 \<le> O_OL_CNT ord \<and> O_OL_CNT ord \<le> 14 \<and> O_C_ID ord \<in> {1..3000} \<and>
     dom (order_lines ord) = {1..O_OL_CNT ord} \<and> (\<forall>l \<in> ran (order_lines ord). OL_I_ID l \<in> {1..100000})"

text \<open>A pointer to an order of the table.\<close>

definition order_in :: "order_store \<Rightarrow> (int \<rightharpoonup> nat) \<Rightarrow> nat \<Rightarrow> bool" where
  "order_in h om p \<longleftrightarrow> p < o_next h \<and> order_ok (o_cells h p) \<and> om (O_ID (o_cells h p)) = Some p"

text \<open>
  The orders of a district are numbered from one without a gap, up to the next number to be given out;
  every customer has a last order, which is an order of this customer and of this district.
\<close>

definition district_ok :: "order_store \<Rightarrow> district \<Rightarrow> bool" where
  "district_ok h d \<longleftrightarrow> 3001 \<le> D_NEXT_O_ID d \<and> dom (orderMap d) = {1..<D_NEXT_O_ID d} \<and>
     (\<forall>k p. orderMap d k = Some p \<longrightarrow> order_in h (orderMap d) p \<and> O_ID (o_cells h p) = k) \<and>
     dom (customerMap d) = {1..3000} \<and>
     (\<forall>k c. customerMap d k = Some c \<longrightarrow>
        (\<exists>p. lastOrder c = Some p \<and> order_in h (orderMap d) p \<and> O_C_ID (o_cells h p) = k))"

definition stock_ok :: "(int \<rightharpoonup> stocktable) \<Rightarrow> bool" where
  "stock_ok sm \<longleftrightarrow> dom sm = {1..100000} \<and> (\<forall>t \<in> ran sm. 10 \<le> S_QUANTITY t \<and> S_QUANTITY t \<le> 101)"

definition db_ok :: "manager \<Rightarrow> bool" where
  "db_ok m \<longleftrightarrow> dom (warehouseMap m) = {1} \<and>
     (\<forall>w \<in> ran (warehouseMap m). dom (districtMap w) = {1..10} \<and>
        (\<forall>d \<in> ran (districtMap w). district_ok (order_store m) d)) \<and>
     dom (itemMap m) = {1..100000} \<and> stock_ok (stockMap m) \<and>
     (\<forall>x \<in> set (neworderMap m). NO_W_ID (snd x) = 0) \<and> mt_ok (rng m)"

text \<open>Allocation leaves the orders in the store alone.\<close>

definition extends :: "order_store \<Rightarrow> order_store \<Rightarrow> bool" where
  "extends h h' \<longleftrightarrow> o_next h \<le> o_next h' \<and> (\<forall>p < o_next h. o_cells h' p = o_cells h p)"

lemma extends_refl [simp]: "extends h h"
  by (simp add: extends_def)

lemma extends_trans: "extends h h' \<Longrightarrow> extends h' h'' \<Longrightarrow> extends h h''"
  by (auto simp: extends_def)

lemma order_in_extends: "order_in h om p \<Longrightarrow> extends h h' \<Longrightarrow> order_in h' om p"
  by (auto simp: order_in_def extends_def)

lemma district_ok_extends: "district_ok h d \<Longrightarrow> extends h h' \<Longrightarrow> district_ok h' d"
proof -
  assume ok: "district_ok h d" and x: "extends h h'"
  have eq: "o_cells h' p = o_cells h p" if "order_in h om p" for om p
    using that x by (simp add: order_in_def extends_def)
  have "order_in h' (orderMap d) p \<and> O_ID (o_cells h' p) = k" if "orderMap d k = Some p" for k p
    using that ok eq order_in_extends [OF _ x] unfolding district_ok_def by metis
  moreover have "\<exists>p. lastOrder c = Some p \<and> order_in h' (orderMap d) p \<and> O_C_ID (o_cells h' p) = k"
    if c: "customerMap d k = Some c" for k c
  proof -
    obtain p where "lastOrder c = Some p" "order_in h (orderMap d) p" "O_C_ID (o_cells h p) = k"
      using c ok unfolding district_ok_def by blast
    then show ?thesis using eq order_in_extends [OF _ x] by auto
  qed
  ultimately show ?thesis
    using ok unfolding district_ok_def by blast
qed

lemma store_new_spec:
  assumes "store_new x h = (p, h')"
  shows "p = o_next h" "o_cells h' p = x" "p < o_next h'" "extends h h'"
  using assms by (auto simp: store_new_def extends_def)

section \<open>The filled tables\<close>

lemma table_insert:
  fixes i :: int
  assumes "dom m = {1..<i}" "1 \<le> i"
  shows "map_insert m i v = m(i \<mapsto> v)" "dom (map_insert m i v) = {1..<i + 1}" "ran (map_insert m i v) = insert v (ran m)"
proof -
  show e: "map_insert m i v = m(i \<mapsto> v)"
    using assms(1) by (intro map_insert_fresh) simp
  show "dom (map_insert m i v) = {1..<i + 1}"
    using assms by auto
  have "m i = None"
    using assms(1) by auto
  then show "ran (map_insert m i v) = insert v (ran m)"
    by (simp add: e)
qed

lemma fill_orderline_ok:
  assumes "fill_orderline id_o id_d id_w cnt r = (lines, r')" "0 \<le> cnt" "mt_ok r"
  shows "dom lines = {1..cnt} \<and> (\<forall>l \<in> ran lines. OL_I_ID l \<in> {1..100000}) \<and> mt_ok r'"
proof -
  let ?P = "\<lambda>i s. dom (fst s) = {1..<i} \<and> (\<forall>l \<in> ran (fst s). OL_I_ID l \<in> {1..100000}) \<and> mt_ok (snd s)"
  have step: "?P (i + 1) (fill_orderline_row id_o id_d id_w i s)" if "1 \<le> i" and inv: "?P i s" for i s
  proof -
    obtain m r where s: "s = (m, r)" by fastforce
    obtain d a r1 where r1: "(if id_o < 2101 then (let (y, r) = random_mod 10 r in (y + 1, 0, r))
        else (let (y, r) = random_mod 999999 r in (-1, f32 (of_int ((y + 1) div 100)), r))) = (d, a :: rat, r1)"
      by (metis prod_cases3)
    have ok1: "mt_ok r1"
      using r1 inv random_mod_ok [of 10 r] random_mod_ok [of 999999 r] by (auto simp: s split: prod.splits if_splits)
    obtain y r2 where y: "random_mod 100000 r1 = (y, r2)" by fastforce
    have ok2: "0 \<le> y \<and> y < 100000 \<and> mt_ok r2"
      using random_mod_ok [OF y _ ok1] by simp
    have row: "fill_orderline_row id_o id_d id_w i s =
        (map_insert m i (orderline_alloc id_o id_d id_w i (y + 1) id_w d 5 a), r2)"
      by (simp add: fill_orderline_row_def s r1 y)
    show ?thesis
      unfolding row using inv ok2 \<open>1 \<le> i\<close> table_insert [of m i]
      by (simp add: s orderline_alloc_def del: dom_map_insert)
  qed
  have "?P (cnt + 1) (for_to 1 cnt (fill_orderline_row id_o id_d id_w) (Map.empty, r))"
  proof (rule for_to_inv [where P = ?P])
    show "?P (i + 1) (fill_orderline_row id_o id_d id_w i s)" if "1 \<le> i" "i \<le> cnt" "?P i s" for i s
      using that(1,3) by (rule step)
  qed (use assms(2,3) in simp_all)
  then show ?thesis
    using assms(1) by (simp add: fill_orderline_def atLeastLessThanPlusOne_atLeastAtMost_int)
qed

lemma fill_customer2_ok:
  assumes "fill_customer2 e id_d r = (cm, r')" "mt_ok r"
  shows "dom cm = {1..3000} \<and> mt_ok r'"
proof -
  let ?P = "\<lambda>i s. dom (fst s) = {1..<i} \<and> mt_ok (snd s)"
  have step: "?P (i + 1) (fill_customer2_row e id_d i s)" if "1 \<le> i" and inv: "?P i s" for i s
  proof -
    obtain m r where s: "s = (m, r)" by fastforce
    obtain y1 r1 y2 r2 y3 r3 where d: "random_mod 999 r = (y1, r1)" "random_mod 100 r1 = (y2, r2)" "random_mod 5000 r2 = (y3, r3)"
      by fastforce
    have "mt_ok r3"
      using random_mod_ok [OF d(1)] random_mod_ok [OF d(2)] random_mod_ok [OF d(3)] inv by (simp add: s)
    then show ?thesis
      using inv \<open>1 \<le> i\<close> by (auto simp: fill_customer2_row_def s d)
  qed
  have "?P (3000 + 1) (for_to 1 3000 (fill_customer2_row e id_d) (Map.empty, r))"
  proof (rule for_to_inv [where P = ?P])
    show "?P (i + 1) (fill_customer2_row e id_d i s)" if "1 \<le> i" "i \<le> 3000" "?P i s" for i s
      using that(1,3) by (rule step)
  qed (use assms(2) in simp_all)
  moreover have "{1..<3000 + 1} = {1..3000 :: int}"
    by (rule atLeastLessThanPlusOne_atLeastAtMost_int)
  ultimately show ?thesis
    using assms(1) by (simp add: fill_customer2_def)
qed

text \<open>The customer that gets the order number \<open>j + 1\<close>, when \<open>c\<close> gets the first one.\<close>

definition circular :: "int \<Rightarrow> int \<Rightarrow> int" where
  "circular c j = (c - 1 + j) mod 3000 + 1"

lemma circular_range: "circular c j \<in> {1..3000}"
  by (simp add: circular_def)

lemma next_customer_succ:
  assumes "0 \<le> x" "x < 3000"
  shows "next_customer (x + 1) = (x + 1) mod 3000 + 1"
proof -
  consider "x < 2998" | "x = 2998" | "x = 2999" using assms by linarith
  then show ?thesis
    by cases (use assms in \<open>simp_all add: next_customer_def\<close>)
qed

lemma next_circular: "next_customer (circular c j) = circular c (j + 1)"
proof -
  let ?x = "(c - 1 + j) mod 3000"
  have "0 \<le> ?x" "?x < 3000" by simp_all
  moreover have "(c - 1 + (j + 1)) mod 3000 = (?x + 1) mod 3000"
    by (metis (no_types, opaque_lifting) add.assoc mod_add_left_eq)
  ultimately show ?thesis
    unfolding circular_def by (simp only: next_customer_succ)
qed

lemma circular_onto:
  assumes "k \<in> {1..3000}"
  shows "\<exists>j. 0 \<le> j \<and> j < 3000 \<and> circular c j = k"
proof (intro exI conjI)
  show "circular c ((k - c) mod 3000) = k"
    using assms by (simp add: circular_def mod_add_right_eq)
qed simp_all

definition fill_order_inv :: "order_store \<Rightarrow> int \<Rightarrow> int \<Rightarrow> order_fill \<Rightarrow> bool" where
  "fill_order_inv h c0 i s \<longleftrightarrow> (case s of (om, cm, h', id_c, r) \<Rightarrow>
     id_c = circular c0 (i - 1) \<and> dom om = {1..<i} \<and>
     (\<forall>k p. om k = Some p \<longrightarrow> order_in h' om p \<and> O_ID (o_cells h' p) = k) \<and> dom cm = {1..3000} \<and>
     (\<forall>j. 0 \<le> j \<and> j < i - 1 \<longrightarrow> (\<exists>c p. cm (circular c0 j) = Some c \<and> lastOrder c = Some p \<and>
        order_in h' om p \<and> O_C_ID (o_cells h' p) = circular c0 j)) \<and>
     extends h h' \<and> mt_ok r)"

lemma order_alloc_ok:
  assumes "order_alloc id_o id_d id_c id_w entry carrier cnt al h r = (p, h', r')"
    "5 \<le> cnt" "cnt \<le> 14" "id_c \<in> {1..3000}" "mt_ok r"
  shows "p = o_next h" "p < o_next h'" "extends h h'" "order_ok (o_cells h' p)" "mt_ok r'"
    "O_ID (o_cells h' p) = id_o" "O_C_ID (o_cells h' p) = id_c"
proof -
  obtain lines r1 where l: "fill_orderline id_o id_d id_w cnt r = (lines, r1)" by fastforce
  have ok: "dom lines = {1..cnt} \<and> (\<forall>l \<in> ran lines. OL_I_ID l \<in> {1..100000}) \<and> mt_ok r1"
    using fill_orderline_ok [OF l] assms(2,5) by simp
  have st: "store_new (new_order_row id_o id_d id_c id_w entry carrier cnt al lines) h = (p, h')" "r' = r1"
    using assms(1) by (auto simp: order_alloc_def l split: prod.splits)
  note new = store_new_spec [OF st(1)]
  show "p = o_next h" "p < o_next h'" "extends h h'" "O_ID (o_cells h' p) = id_o" "O_C_ID (o_cells h' p) = id_c"
    using new by (simp_all add: new_order_row_def)
  show "order_ok (o_cells h' p)"
    using new(2) ok assms(2-4) by (simp add: order_ok_def new_order_row_def)
  show "mt_ok r'"
    using st(2) ok by simp
qed

lemma order_in_insert:
  assumes "order_in h om p" "extends h h'" "om k = None"
  shows "order_in h' (om(k \<mapsto> q)) p" "o_cells h' p = o_cells h p"
  using assms by (auto simp: order_in_def extends_def)

lemma fill_order2_step:
  assumes inv: "fill_order_inv h c0 i s" and i: "1 \<le> i"
  shows "\<exists>s'. fill_order2_row e id_w id_d i s = Some s' \<and> fill_order_inv h c0 (i + 1) s'"
proof -
  obtain om cm h1 id_c r where s: "s = (om, cm, h1, id_c, r)" by (metis prod_cases5)
  have id: "id_c = circular c0 (i - 1)" and dom: "dom om = {1..<i}" and cust: "dom cm = {1..3000}"
    and ords: "\<And>k p. om k = Some p \<Longrightarrow> order_in h1 om p \<and> O_ID (o_cells h1 p) = k"
    and last: "\<And>j. 0 \<le> j \<Longrightarrow> j < i - 1 \<Longrightarrow> \<exists>c p. cm (circular c0 j) = Some c \<and> lastOrder c = Some p \<and>
        order_in h1 om p \<and> O_C_ID (o_cells h1 p) = circular c0 j"
    and ext: "extends h h1" and mt: "mt_ok r"
    using inv unfolding fill_order_inv_def s by auto
  obtain carr r1 where r1: "(if i < 2101 then (let (y, r) = random_mod 10 r in (y + 1, r)) else (-1, r)) = (carr, r1)"
    by fastforce
  have ok1: "mt_ok r1"
    using r1 mt random_mod_ok [of 10 r] by (auto split: prod.splits if_splits)
  obtain y r2 where y: "random_mod 10 r1 = (y, r2)" by fastforce
  have ok2: "0 \<le> y" "y < 10" "mt_ok r2"
    using random_mod_ok [OF y _ ok1] by simp_all
  obtain p h2 r3 where al: "order_alloc i id_d id_c id_w (now e) carr (y + 5) 1 h1 r2 = (p, h2, r3)"
    by (metis prod_cases3)
  have idr: "id_c \<in> {1..3000}"
    using id circular_range by simp
  note al_ok = order_alloc_ok [OF al _ _ idr ok2(3)]
  have new: "p = o_next h1" "p < o_next h2" "extends h1 h2" "order_ok (o_cells h2 p)" "mt_ok r3"
      "O_ID (o_cells h2 p) = i" "O_C_ID (o_cells h2 p) = id_c"
    using al_ok ok2(1,2) by simp_all
  obtain c where c: "cm id_c = Some c"
    using idr cust by blast
  have fresh: "om i = None"
    using dom by auto
  have row: "fill_order2_row e id_w id_d i s =
      Some (om(i \<mapsto> p), cm(id_c \<mapsto> c\<lparr>lastOrder := Some p\<rparr>), h2, next_customer id_c, r3)"
    using idr by (simp add: fill_order2_row_def s r1 y al c table_insert(1) [OF dom i])
  have here: "order_in h2 (om(i \<mapsto> p)) p"
    using new by (simp add: order_in_def)
  have "\<exists>c' p'. (cm(id_c \<mapsto> c\<lparr>lastOrder := Some p\<rparr>)) (circular c0 j) = Some c' \<and> lastOrder c' = Some p' \<and>
      order_in h2 (om(i \<mapsto> p)) p' \<and> O_C_ID (o_cells h2 p') = circular c0 j" if j: "0 \<le> j" "j < i" for j
  proof (cases "circular c0 j = id_c")
    case True
    then show ?thesis using here new(7) by simp
  next
    case False
    then have "j < i - 1" using j id by (cases "j = i - 1") simp_all
    then show ?thesis
      using last [OF j(1)] order_in_insert [where om = om and k = i, OF _ new(3) fresh] False by (auto 4 3)
  qed
  moreover have "order_in h2 (om(i \<mapsto> p)) q \<and> O_ID (o_cells h2 q) = k" if "(om(i \<mapsto> p)) k = Some q" for k q
    using that here new(6) ords order_in_insert [where om = om and k = i, OF _ new(3) fresh] by (auto split: if_splits)
  moreover have "dom (om(i \<mapsto> p)) = {1..<i + 1}"
    using table_insert(1,2) [OF dom i] by metis
  moreover have "dom (cm(id_c \<mapsto> c\<lparr>lastOrder := Some p\<rparr>)) = {1..3000}"
    using cust idr by auto
  ultimately have "fill_order_inv h c0 (i + 1) (om(i \<mapsto> p), cm(id_c \<mapsto> c\<lparr>lastOrder := Some p\<rparr>), h2, next_customer id_c, r3)"
    unfolding fill_order_inv_def using id next_circular [of c0 "i - 1"] extends_trans [OF ext new(3)] new(5) by simp
  with row show ?thesis by blast
qed

lemma district_alloc_ok:
  assumes "mt_ok r"
  shows "\<exists>d h' r'. district_alloc e d_id w_id d_tax h r = Some (d, h', r') \<and> district_ok h' d \<and>
    D_YTD d = 30000 \<and> D_ID d = d_id \<and> extends h h' \<and> mt_ok r'"
proof -
  obtain cm r1 where cm: "fill_customer2 e d_id r = (cm, r1)" by fastforce
  have ok1: "dom cm = {1..3000}" "mt_ok r1"
    using fill_customer2_ok [OF cm assms] by simp_all
  obtain y r2 where y: "random_mod 3000 r1 = (y, r2)" by fastforce
  have ok2: "0 \<le> y" "y < 3000" "mt_ok r2"
    using random_mod_ok [OF y _ ok1(2)] by simp_all
  let ?P = "fill_order_inv h (y + 1)"
  have "?P 1 (Map.empty, cm, h, y + 1, r2)"
    using ok1(1) ok2 by (auto simp: fill_order_inv_def circular_def)
  then have "\<exists>s'. try_to 1 3000 (fill_order2_row e w_id d_id) (Map.empty, cm, h, y + 1, r2) = Some s' \<and> ?P (3000 + 1) s'"
    by (intro try_to_inv [where P = ?P] fill_order2_step) simp_all
  then obtain om cm' h' id_c r' where fill: "fill_order2 e w_id d_id cm h r1 = Some (om, cm', h', id_c, r')"
    and inv: "?P 3001 (om, cm', h', id_c, r')"
    by (auto simp: fill_order2_def y)
  have last: "\<exists>p. lastOrder c = Some p \<and> order_in h' om p \<and> O_C_ID (o_cells h' p) = k" if "cm' k = Some c" for k c
  proof -
    have "k \<in> {1..3000}"
      using inv that by (auto simp: fill_order_inv_def)
    then obtain j where j: "0 \<le> j" "j < 3000" "circular (y + 1) j = k"
      using circular_onto by blast
    have "\<forall>j. 0 \<le> j \<and> j < 3000 \<longrightarrow> (\<exists>c p. cm' (circular (y + 1) j) = Some c \<and> lastOrder c = Some p \<and>
        order_in h' om p \<and> O_C_ID (o_cells h' p) = circular (y + 1) j)"
      using inv by (simp add: fill_order_inv_def)
    with j that show ?thesis by auto
  qed
  let ?d = "\<lparr>D_ID = d_id, D_W_ID = w_id, D_TAX = d_tax, D_YTD = 30000, D_NEXT_O_ID = 3001, customerMap = cm', orderMap = om\<rparr>"
  have "district_ok h' ?d" "extends h h'" "mt_ok r'"
    using inv last by (simp_all add: fill_order_inv_def district_ok_def)
  moreover have "district_alloc e d_id w_id d_tax h r = Some (?d, h', r')"
    by (simp add: district_alloc_def cm fill)
  ultimately show ?thesis by simp
qed

definition fill_district_inv :: "order_store \<Rightarrow> int \<Rightarrow> (int \<rightharpoonup> district) \<times> order_store \<times> random_t \<Rightarrow> bool" where
  "fill_district_inv h i s \<longleftrightarrow> (case s of (dm, h', r) \<Rightarrow> dom dm = {1..<i} \<and>
     (\<forall>d \<in> ran dm. district_ok h' d \<and> D_YTD d = 30000) \<and> extends h h' \<and> mt_ok r)"

lemma fill_district_step:
  assumes "fill_district_inv h i s" "1 \<le> i"
  shows "\<exists>s'. fill_district_row e i s = Some s' \<and> fill_district_inv h (i + 1) s'"
proof -
  obtain dm h1 r where s: "s = (dm, h1, r)" by (metis prod_cases3)
  have inv: "dom dm = {1..<i}" "\<And>d. d \<in> ran dm \<Longrightarrow> district_ok h1 d \<and> D_YTD d = 30000" "extends h h1" "mt_ok r"
    using assms(1) by (auto simp: fill_district_inv_def s)
  obtain y r1 where y: "random_mod 2000 r = (y, r1)" by fastforce
  have "mt_ok r1"
    using random_mod_ok [OF y _ inv(4)] by simp
  then obtain d h2 r2 where d: "district_alloc e i 1 (fdiv (f32 (of_int y)) 10000) h1 r1 = Some (d, h2, r2)"
      "district_ok h2 d" "D_YTD d = 30000" "extends h1 h2" "mt_ok r2"
    using district_alloc_ok by blast
  have "\<forall>d' \<in> insert d (ran dm). district_ok h2 d' \<and> D_YTD d' = 30000"
    using d inv(2) district_ok_extends [OF _ d(4)] by blast
  then show ?thesis
    using d table_insert [OF inv(1) assms(2)] extends_trans [OF inv(3) d(4)]
    by (simp add: fill_district_row_def s y fill_district_inv_def)
qed

lemma fill_warehouse_ok:
  assumes "mt_ok r"
  shows "\<exists>w h' r'. fill_warehouse e h r = Some ([1 \<mapsto> w], h', r') \<and> W_YTD w = 300000 \<and> dom (districtMap w) = {1..10} \<and>
    (\<forall>d \<in> ran (districtMap w). district_ok h' d \<and> D_YTD d = 30000) \<and> mt_ok r'"
proof -
  obtain y r1 where y: "random_mod 2000 r = (y, r1)" by fastforce
  have "mt_ok r1"
    using random_mod_ok [OF y _ assms] by simp
  then have "fill_district_inv h 1 (Map.empty, h, r1)"
    by (simp add: fill_district_inv_def)
  then have "\<exists>s'. try_to 1 10 (fill_district_row e) (Map.empty, h, r1) = Some s' \<and> fill_district_inv h (10 + 1) s'"
    by (intro try_to_inv [where P = "fill_district_inv h"] fill_district_step) simp_all
  then obtain dm h' r' where "fill_district e h r1 = Some (dm, h', r')" "fill_district_inv h 11 (dm, h', r')"
    by (auto simp: fill_district_def)
  moreover have "{1..<11} = {1..10 :: int}"
    using atLeastLessThanPlusOne_atLeastAtMost_int [of 1 10] by simp
  ultimately show ?thesis
    by (intro exI [of _ "\<lparr>W_ID = 1, W_TAX = fdiv (f32 (of_int y)) 10000, W_YTD = 300000, districtMap = dm\<rparr>"])
      (simp add: fill_warehouse_def y warehouse_alloc_def fill_district_inv_def map_insert_def)
qed

lemma fill_item_ok:
  assumes "mt_ok r"
  shows "\<exists>im r'. fill_item r = Some (im, r') \<and> dom im = {1..100000} \<and> mt_ok r'"
proof -
  let ?P = "\<lambda>i s. dom (fst s) = {1..<i} \<and> mt_ok (snd s)"
  have step: "\<exists>s'. fill_item_row i s = Some s' \<and> ?P (i + 1) s'" if i: "1 \<le> i" and inv: "?P i s" for i s
  proof -
    obtain m r where s: "s = (m, r)" by fastforce
    obtain y1 r1 y2 r2 y3 r3 y4 r4 where d: "random_mod 10000 r = (y1, r1)" "random_mod 10 r1 = (y2, r2)"
        "random_mod 24 r2 = (y3, r3)" "random_mod 9900 r3 = (y4, r4)" by fastforce
    have "mt_ok r4" "y2 < 10" "y3 < 24"
      using random_mod_ok [OF d(1)] random_mod_ok [OF d(2)] random_mod_ok [OF d(3)] random_mod_ok [OF d(4)] inv
      by (simp_all add: s)
    moreover have "dom m = {1..<i}"
      using inv by (simp add: s)
    note table_insert(2) [OF this i]
    ultimately show ?thesis
      by (simp add: fill_item_row_def s d del: dom_map_insert)
  qed
  have "\<exists>s'. try_to 1 100000 fill_item_row (Map.empty, r) = Some s' \<and> ?P (100000 + 1) s'"
    by (intro try_to_inv [where P = ?P] step) (use assms in simp_all)
  moreover have "{1..<100000 + 1} = {1..100000 :: int}"
    by (rule atLeastLessThanPlusOne_atLeastAtMost_int)
  ultimately show ?thesis
    by (auto simp: fill_item_def)
qed

lemma fill_stock_ok:
  assumes "mt_ok r"
  shows "\<exists>sm r'. fill_stock e r = Some (sm, r') \<and> stock_ok sm \<and> mt_ok r'"
proof -
  let ?P = "\<lambda>i s. dom (fst s) = {1..<i} \<and> (\<forall>t \<in> ran (fst s). 10 \<le> S_QUANTITY t \<and> S_QUANTITY t \<le> 101) \<and> mt_ok (snd s)"
  have step: "?P (i + 1) (fill_stock_row e i s)" if i: "1 \<le> i" and inv: "?P i s" for i s
  proof -
    obtain m r where s: "s = (m, r)" by fastforce
    obtain y r1 where y: "random_mod 90 r = (y, r1)" by fastforce
    have "mt_ok r1" "0 \<le> y" "y < 90"
      using random_mod_ok [OF y] inv by (simp_all add: s)
    moreover have "dom m = {1..<i}"
      using inv by (simp add: s)
    note table_insert(2,3) [OF this i]
    ultimately show ?thesis
      using inv by (simp add: fill_stock_row_def s y stocktable_alloc_def del: dom_map_insert)
  qed
  have "?P (100000 + 1) (for_to 1 100000 (fill_stock_row e) (Map.empty, r))"
  proof (rule for_to_inv [where P = ?P])
    show "?P (i + 1) (fill_stock_row e i s)" if "1 \<le> i" "i \<le> 100000" "?P i s" for i s
      using that(1,3) by (rule step)
  qed (use assms in simp_all)
  moreover obtain sm r' where e: "for_to 1 100000 (fill_stock_row e) (Map.empty, r) = (sm, r')" by fastforce
  ultimately have ok: "stock_ok sm" "mt_ok r'"
    unfolding stock_ok_def atLeastLessThanPlusOne_atLeastAtMost_int by simp_all
  have "sm i \<noteq> None" if "i \<in> {1..100000}" for i
    using ok(1) that unfolding stock_ok_def by blast
  then have "fill_stock e r = Some (sm, r')"
    by (simp add: fill_stock_def e del: upto.simps)
  with ok show ?thesis by blast
qed

lemma set_list_insert: "set (list_insert x xs) \<subseteq> insert x (set xs)"
  by (induction xs) auto

lemma fill_neworder_warehouse: "x \<in> set (fill_neworder e) \<Longrightarrow> NO_W_ID (snd x) = 0"
proof -
  let ?P = "\<lambda>(i :: int) xs. \<forall>x \<in> set xs. NO_W_ID (snd x) = 0"
  have row: "?P (i + 1) (list_insert (neworder_addr e d i, neworder_alloc i d 0) xs)" if "?P i xs" for i d xs
    using set_list_insert [of "(neworder_addr e d i, neworder_alloc i d 0)" xs] that by (auto simp: neworder_alloc_def)
  have "?P (3000 + 1) (for_to 2101 3000 (\<lambda>id_o. list_insert (neworder_addr e d id_o, neworder_alloc id_o d 0)) xs)"
    if "?P 2101 xs" for d xs
    by (rule for_to_inv [where P = ?P]) (simp, rule that, rule row)
  then have "?P (10 + 1) (fill_neworder e)"
    unfolding fill_neworder_def by (rule for_to_inv [where P = ?P, rotated 2]) simp_all
  then show "x \<in> set (fill_neworder e) \<Longrightarrow> NO_W_ID (snd x) = 0" by blast
qed

lemma no_warehouse_zero: "wm 0 = None \<Longrightarrow> checkConsistency1 wm 0 = Some True"
  by (subst checkConsistency1.simps) simp

text \<open>
  The year-to-date totals agree: the total of a warehouse is the sum of the totals of its districts.
\<close>

definition ytd_ok :: "warehouse \<Rightarrow> bool" where
  "ytd_ok w \<longleftrightarrow> W_YTD w = (\<Sum>k \<in> dom (districtMap w). D_YTD (the (districtMap w k)))"

lemma filled_database:
  assumes "length mem = MT_N"
  shows "\<exists>m. manager_allocation e mem h = Some m \<and> db_ok m \<and> (\<forall>w \<in> ran (warehouseMap m). ytd_ok w \<and>
    W_YTD w = 300000 \<and> (\<forall>d \<in> ran (districtMap w). D_YTD d = 30000))"
proof -
  have "mt_ok (random_alloc mem)"
    using generator_ok [of mem "\<lparr>mt = replicate MT_N 0, mti = 0\<rparr>"] assms by (simp add: mt_ok_def)
  then have "mt_ok (random_seed 42 (random_alloc mem))"
    using generator_ok [of mem "random_alloc mem"] assms by simp
  then obtain w h1 r1 where w: "fill_warehouse e h (random_seed 42 (random_alloc mem)) = Some ([1 \<mapsto> w], h1, r1)"
      "W_YTD w = 300000" "dom (districtMap w) = {1..10}"
      "\<forall>d \<in> ran (districtMap w). district_ok h1 d \<and> D_YTD d = 30000" "mt_ok r1"
    using fill_warehouse_ok by blast
  obtain im r2 where im: "fill_item r1 = Some (im, r2)" "dom im = {1..100000}" "mt_ok r2"
    using fill_item_ok [OF w(5)] by blast
  obtain sm r3 where sm: "fill_stock e r2 = Some (sm, r3)" "stock_ok sm" "mt_ok r3"
    using fill_stock_ok [OF im(3)] by blast
  obtain hm nx where hm: "fill_history e = (hm, nx)" by fastforce
  let ?m = "\<lparr>warehouseMap = [1 \<mapsto> w], historyMap = hm, itemMap = im, neworderMap = fill_neworder e, stockMap = sm,
     next_key_history = nx, rng = r3, order_store = h1\<rparr>"
  have "D_YTD (the (districtMap w k)) = 30000" if "k \<in> {1..10}" for k
  proof -
    have "k \<in> dom (districtMap w)"
      using that by (simp only: w(3))
    then obtain d where d: "districtMap w k = Some d" by (auto simp: domIff)
    from bspec [OF w(4) ranI [of "districtMap w", OF d]] d show ?thesis by simp
  qed
  then have "(\<Sum>k \<in> dom (districtMap w). D_YTD (the (districtMap w k))) = (\<Sum>k \<in> {1..10 :: int}. 30000)"
    using w(3) by (intro sum.cong) simp_all
  then have "ytd_ok w"
    using w(2) by (simp add: ytd_ok_def)
  moreover have "db_ok ?m"
    using w im sm fill_neworder_warehouse [of _ e] by (simp add: db_ok_def)
  moreover have "checkConsistency ?m = Some True"
    by (simp add: checkConsistency_def no_warehouse_zero)
  then have "manager_allocation e mem h = Some ?m"
    using w(1) im(1) sm(1) hm by (simp add: manager_allocation_def)
  ultimately show ?thesis
    using w(2,4) by simp
qed

section \<open>Properties\<close>

text \<open>\<^verbatim>\<open>manager_allocation\<close> succeeds and builds a consistent database, whatever the random numbers, the
  contents of fresh memory and the addresses are: no null pointer is followed and no assertion fails while
  the tables are filled, each district has the orders \<open>1..3000\<close> with all their lines, every customer has a
  last order that is an order of this customer in this district, the stock covers every item with a
  quantity in range, and the total of the warehouse is the sum of the totals of its districts.\<close>

theorem filled_database_consistent:
  assumes "length mem = MT_N"
  shows "\<exists>m. manager_allocation e mem h = Some m \<and> db_ok m \<and> (\<forall>w \<in> ran (warehouseMap m). ytd_ok w)"
  using filled_database [OF assms] by blast

text \<open>The customers without the rows that the code leaves as they are.\<close>

definition demo_env :: env where
  "demo_env = \<lparr>fresh_customer = (\<lambda>d c. \<lparr>C_ID = 0, C_D_ID = 0, C_W_ID = 0, C_LAST = [], C_SINCE = 0, C_DISCOUNT = 0,
       C_BALANCE = 0, C_YTD_PAYMENT = 0, C_PAYMENT_CNT = 0, C_DELIVERY_CNT = 0, lastOrder = None\<rparr>),
     fresh_stock = (\<lambda>i. \<lparr>S_I_ID = 0, S_W_ID = 0, S_QUANTITY = 0, S_YTD = 0, S_ORDER_CNT = 0\<rparr>),
     now = 0, since_text = 0, neworder_addr = (\<lambda>d k. nat (3000 * d + k))\<rparr>"

definition demo_store :: order_store where
  "demo_store = \<lparr>o_cells = (\<lambda>_. new_order_row 0 0 0 0 0 0 0 0 Map.empty), o_next = 1\<rparr>"

theorem filled_database_consistent_witness:
  "\<exists>m. manager_allocation demo_env (replicate MT_N 0) demo_store = Some m \<and> db_ok m"
  using filled_database_consistent [of "replicate MT_N 0" demo_env demo_store] by auto

text \<open>No syllable begins another one, so a name can be split in one way only.\<close>

lemma syllable_split:
  assumes "0 \<le> a" "a < 10" "0 \<le> b" "b < 10" "syllable a @ s = syllable b @ t"
  shows "a = b \<and> s = t"
proof -
  have "{0..9 :: int} = set [0..9]"
    by (simp only: set_upto)
  then have digits: "{0..9 :: int} = {0, 1, 2, 3, 4, 5, 6, 7, 8, 9}"
    by (simp add: upto.simps)
  have A: "a \<in> {0, 1, 2, 3, 4, 5, 6, 7, 8, 9}" and B: "b \<in> {0, 1, 2, 3, 4, 5, 6, 7, 8, 9}"
    using assms(1-4) by (simp_all flip: digits)
  from A B assms(5) show ?thesis
    by (elim insertE emptyE) (simp_all add: syllable_def)
qed

lemma syllable_inj: "0 \<le> a \<Longrightarrow> a < 10 \<Longrightarrow> 0 \<le> b \<Longrightarrow> b < 10 \<Longrightarrow> syllable a = syllable b \<Longrightarrow> a = b"
  using syllable_split [of a b "[]" "[]"] by simp

text \<open>The name made from a number below a thousand determines the number: \<^verbatim>\<open>generate_CLAST\<close> is injective
  there, so a customer found by name has the number that the name was made from.\<close>

theorem generate_CLAST_injective: "inj_on generate_CLAST {0..999}"
proof (rule inj_onI)
  fix x y :: int assume x: "x \<in> {0..999}" and y: "y \<in> {0..999}" and e: "generate_CLAST x = generate_CLAST y"
  have d: "0 \<le> n div 10 div 10 \<and> n div 10 div 10 < 10" if "n \<in> {0..999}" for n :: int
    using that by auto
  have s: "syllable (x div 10 div 10) @ syllable (x div 10 mod 10) @ syllable (x mod 10) =
      syllable (y div 10 div 10) @ syllable (y div 10 mod 10) @ syllable (y mod 10)"
    using e by (simp add: generate_CLAST_def Let_def)
  have h: "x div 10 div 10 = y div 10 div 10"
    and s2: "syllable (x div 10 mod 10) @ syllable (x mod 10) = syllable (y div 10 mod 10) @ syllable (y mod 10)"
    using syllable_split [OF _ _ _ _ s] d [OF x] d [OF y] by simp_all
  have t: "x div 10 mod 10 = y div 10 mod 10" and s3: "syllable (x mod 10) = syllable (y mod 10)"
    using syllable_split [OF _ _ _ _ s2] by simp_all
  have u: "x mod 10 = y mod 10"
    using syllable_inj [OF _ _ _ _ s3] by simp
  have "x div 10 = y div 10"
    using h t by (metis div_mult_mod_eq)
  with u show "x = y"
    by (metis div_mult_mod_eq)
qed

text \<open>The check that the server runs on the filled tables starts at the warehouse zero, which does not exist,
  and compares nothing; had it started at one, it would look for a district zero and then demand that the
  total and the sum differ.\<close>

theorem consistency_check_vacuous:
  assumes "warehouseMap m 0 = None"
  shows "checkConsistency m = Some True"
  using no_warehouse_zero [of "warehouseMap m", OF assms] by (simp add: checkConsistency_def)

theorem consistency_check_inverted:
  "checkConsistency1 [0 \<mapsto> \<lparr>W_ID = 0, W_TAX = 0, W_YTD = 0, districtMap = Map.empty\<rparr>] 0 = Some False"
  by (subst checkConsistency1.simps) (simp add: upto_rec1)

end
