(* ===== verification/Tpcc_Manager.thy ===== *)
theory Tpcc_Manager
  imports Tpcc_Tables "HOL-Library.Signed_Division"
begin

text \<open>
  The TPC-C transactions (\<^verbatim>\<open>TPCC/Server/manager.c\<close>). A transaction of the server runs between
  \<^verbatim>\<open>TM_BEGIN\<close> and \<^verbatim>\<open>TM_END\<close>, so by the serializability of \<open>Stm_Theorems\<close> it acts on the tables as one step;
  here each is a function on the database. It returns a value, asks for a restart (\<^verbatim>\<open>TM_RESTART\<close>, after
  which the tables are as before and only the random generator, which is not transactional, has moved),
  or faults: it follows a null pointer, leaves an array or waits forever. What a transaction computes into
  local variables without returning it is an extra result of the function; the total of a new order, which
  nothing uses, is left out.

  The theorems: the consistency conditions of the tables are kept by every sequence of transactions, none
  of them faults on a consistent database except for the array of the stock-level transaction, and the
  totals agree as long as the amounts fit the precision of a \<^verbatim>\<open>float\<close>.
\<close>

section \<open>Operations on the tables\<close>

datatype fault = NullPointer | OutOfBounds | Endless

datatype tx_result = Returned int | Restarted | Fault fault

definition TM_orderline_alloc :: "int \<Rightarrow> int \<Rightarrow> int \<Rightarrow> int \<Rightarrow> int \<Rightarrow> int \<Rightarrow> int \<Rightarrow> int \<Rightarrow> rat \<Rightarrow> orderline" where
  "TM_orderline_alloc o_id d_id w_id nr i_id supply deliv quantity amount =
    \<lparr>OL_O_ID = o_id, OL_D_ID = d_id, OL_W_ID = w_id, OL_NUMBER = nr, OL_I_ID = i_id, OL_SUPPLY_W_ID = supply,
     OL_DELIVERY_D = deliv, OL_QUANTITY = quantity, OL_AMOUNT = amount\<rparr>"

definition TM_order_alloc :: "int \<Rightarrow> int \<Rightarrow> int \<Rightarrow> int \<Rightarrow> int \<Rightarrow> int \<Rightarrow> int \<Rightarrow> int \<Rightarrow> order_store \<Rightarrow> nat \<times> order_store" where
  "TM_order_alloc id_o id_d id_c id_w entry carrier cnt all_local h =
    store_new (new_order_row id_o id_d id_c id_w entry carrier cnt all_local Map.empty) h"

definition TM_add_order :: "(int \<rightharpoonup> nat) \<Rightarrow> int \<Rightarrow> int \<Rightarrow> int \<Rightarrow> int \<Rightarrow> int \<Rightarrow> int \<Rightarrow> int \<Rightarrow> int \<Rightarrow> int \<Rightarrow> order_store \<Rightarrow>
    nat \<times> (int \<rightharpoonup> nat) \<times> order_store" where
  "TM_add_order om id_o id_d id_c id_w entry carrier cnt all_local key h =
    (let (p, h) = TM_order_alloc id_o id_d id_c id_w entry carrier cnt all_local h in (p, map_insert om key p, h))"

definition put_order :: "nat \<Rightarrow> order \<Rightarrow> order_store \<Rightarrow> order_store" where
  "put_order p ord h = h\<lparr>o_cells := (o_cells h)(p := ord)\<rparr>"

definition TM_add_orderline :: "nat \<Rightarrow> int \<Rightarrow> int \<Rightarrow> int \<Rightarrow> int \<Rightarrow> int \<Rightarrow> int \<Rightarrow> int \<Rightarrow> int \<Rightarrow> rat \<Rightarrow> int \<Rightarrow> order_store \<Rightarrow> order_store" where
  "TM_add_orderline p o_id d_id w_id nr i_id supply deliv quantity amount key h =
    put_order p ((o_cells h p)\<lparr>order_lines := map_insert (order_lines (o_cells h p)) key
      (TM_orderline_alloc o_id d_id w_id nr i_id supply deliv quantity amount)\<rparr>) h"

definition put_district :: "int \<Rightarrow> int \<Rightarrow> warehouse \<Rightarrow> district \<Rightarrow> manager \<Rightarrow> manager" where
  "put_district w_id d_id w d m =
    m\<lparr>warehouseMap := (warehouseMap m)(w_id \<mapsto> w\<lparr>districtMap := (districtMap w)(d_id \<mapsto> d)\<rparr>)\<rparr>"

text \<open>\<^verbatim>\<open>TM_getdistrict\<close>: the loop leaves the last district looked at, found or not.\<close>

fun getdistrict_loop :: "(int \<rightharpoonup> district) \<Rightarrow> int \<Rightarrow> int \<Rightarrow> int list \<Rightarrow> district option \<Rightarrow> district option" where
  "getdistrict_loop dm w_id d_id [] prev = prev"
| "getdistrict_loop dm w_id d_id (k # ks) prev = (case dm k of
     None \<Rightarrow> getdistrict_loop dm w_id d_id ks None
   | Some d \<Rightarrow> if D_ID d = d_id \<and> D_W_ID d = w_id then Some d else getdistrict_loop dm w_id d_id ks (Some d))"

definition TM_getdistrict :: "(int \<rightharpoonup> district) \<Rightarrow> int \<Rightarrow> int \<Rightarrow> district option" where
  "TM_getdistrict dm w_id d_id = getdistrict_loop dm w_id d_id [1..10] None"

section \<open>New order\<close>

text \<open>One pass of the loop over the lines: item, stock and order line.\<close>

type_synonym line_state = "(int \<rightharpoonup> stocktable) \<times> order_store \<times> random_t"

definition restock :: "int \<Rightarrow> int \<Rightarrow> int" where
  "restock s_quantity quantity = (let s = s_quantity - quantity in if s \<le> 10 then s + 91 else s)"

definition neworder_line :: "(int \<rightharpoonup> item) \<Rightarrow> nat \<Rightarrow> int \<Rightarrow> int \<Rightarrow> int \<Rightarrow> int \<Rightarrow> line_state \<Rightarrow> line_state option" where
  "neworder_line im p d_next d_id w_id i s =
    (let (sm, h, r) = s; (y, r) = random_mod 100000 r; i_id = y + 1 in
     case im i_id of
       None \<Rightarrow> None
     | Some it \<Rightarrow>
         (case sm i_id of
            None \<Rightarrow> None
          | Some st \<Rightarrow>
              (let (y, r) = random_mod 10 r; quantity = y + 1;
                   st = st\<lparr>S_QUANTITY := restock (S_QUANTITY st) quantity, S_YTD := S_YTD st + quantity,
                     S_ORDER_CNT := S_ORDER_CNT st + 1\<rparr>;
                   ol_amount = fmul (f32 (of_int quantity)) (I_PRICE it);
                   h = TM_add_orderline p d_next d_id w_id i i_id w_id (-1) quantity ol_amount i h in
               Some (sm(i_id \<mapsto> st), h, r))))"

definition manager_newordertransaction :: "int \<Rightarrow> int \<Rightarrow> int \<Rightarrow> int \<Rightarrow> manager \<Rightarrow> tx_result \<times> manager" where
  "manager_newordertransaction sec w_id d_id c_id m =
    (case warehouseMap m w_id of
       None \<Rightarrow> (Returned (-1), m)
     | Some w \<Rightarrow>
        (case districtMap w d_id of
           None \<Rightarrow> (Returned (-1), m)
         | Some d \<Rightarrow>
            (case customerMap d c_id of
               None \<Rightarrow> (Returned (-1), m)
             | Some c \<Rightarrow>
                (let d_next = D_NEXT_O_ID d; r = rng m;
                     (y, r) = random_mod 10 r; o_ol_cnt = y + 5;
                     (p, om, h) = TM_add_order (orderMap d) d_next d_id c_id w_id sec (-1) o_ol_cnt 1 d_next (order_store m);
                     d = d\<lparr>D_NEXT_O_ID := d_next + 1, orderMap := om,
                       customerMap := (customerMap d)(c_id \<mapsto> c\<lparr>lastOrder := Some p\<rparr>)\<rparr>;
                     (rbk, r) = random_mod 100 r in
                 case try_to 1 o_ol_cnt (neworder_line (itemMap m) p d_next d_id w_id) (stockMap m, h, r) of
                   None \<Rightarrow> (Fault NullPointer, m)
                 | Some (sm, h, r) \<Rightarrow>
                     (Returned 1, put_district w_id d_id w d (m\<lparr>stockMap := sm, order_store := h, rng := r\<rparr>))))))"

section \<open>Payment\<close>

text \<open>\<^verbatim>\<open>abs((int)random_generate(randomPtr)%999)\<close>\<close>

definition clast_seed :: "random_t \<Rightarrow> int \<times> random_t" where
  "clast_seed r = (let (y, r) = random_generate r in (\<bar>sint (ucast y :: 32 word) smod 999\<bar>, r))"

fun find_by_name :: "(int \<rightharpoonup> customer) \<Rightarrow> string \<Rightarrow> int list \<Rightarrow> (int \<times> customer) option option" where
  "find_by_name cm name [] = Some None"
| "find_by_name cm name (k # ks) = (case cm k of
     None \<Rightarrow> None
   | Some c \<Rightarrow> if C_LAST c = name then Some (Some (k, c)) else find_by_name cm name ks)"

text \<open>The customer of a payment: by number, or by a name drawn at random. \<open>None\<close> is a null pointer followed.\<close>

definition payment_customer :: "(int \<rightharpoonup> customer) \<Rightarrow> int \<Rightarrow> random_t \<Rightarrow> (int \<times> customer) option option \<times> random_t" where
  "payment_customer cm c_id r =
    (if c_id \<noteq> -1 then (Some (map_option (Pair c_id) (cm c_id)), r)
     else (let (seed, r) = clast_seed r in (find_by_name cm (generate_CLAST seed) [1..3000], r)))"

definition pay_customer :: "rat \<Rightarrow> customer \<Rightarrow> customer" where
  "pay_customer amount c = c\<lparr>C_BALANCE := fsub (C_BALANCE c) amount,
     C_YTD_PAYMENT := fadd (C_YTD_PAYMENT c) amount, C_PAYMENT_CNT := C_PAYMENT_CNT c + 1\<rparr>"

definition manager_paymenttransaction :: "int \<Rightarrow> int \<Rightarrow> int \<Rightarrow> rat \<Rightarrow> manager \<Rightarrow> tx_result \<times> manager" where
  "manager_paymenttransaction w_id d_id c_id amount m =
    (case warehouseMap m w_id of
       None \<Rightarrow> (Returned (-1), m)
     | Some w \<Rightarrow>
        (case districtMap w d_id of
           None \<Rightarrow> (Returned (-1), m)
         | Some d \<Rightarrow>
            (case payment_customer (customerMap d) c_id (rng m) of
               (None, r) \<Rightarrow> (Fault NullPointer, m)
             | (Some None, r) \<Rightarrow> (Restarted, m\<lparr>rng := r\<rparr>)
             | (Some (Some (k, c)), r) \<Rightarrow>
                 (let w = w\<lparr>W_YTD := fadd (W_YTD w) amount\<rparr>;
                      d = d\<lparr>D_YTD := fadd (D_YTD d) amount,
                        customerMap := (customerMap d)(k \<mapsto> pay_customer amount c)\<rparr> in
                  (Returned 1, put_district w_id d_id w d (m\<lparr>rng := r\<rparr>))))))"

section \<open>Order status\<close>

text \<open>The loop over the lines of the last order; \<open>out\<close> is what it has stored in \<^verbatim>\<open>result[50]\<close>.\<close>

fun status_lines :: "(int \<rightharpoonup> orderline) \<Rightarrow> int list \<Rightarrow> int list \<Rightarrow> tx_result \<times> int list" where
  "status_lines lines [] out = (Returned 1, out)"
| "status_lines lines (count # cs) out = (case lines count of
     None \<Rightarrow> (Restarted, out)
   | Some l \<Rightarrow>
       if length out + 1 \<ge> 50 then (Fault OutOfBounds, out)
       else status_lines lines cs (out @ [OL_I_ID l, if OL_DELIVERY_D l < 0 then 1 else 0]))"

definition manager_orderstatustransaction :: "int \<Rightarrow> int \<Rightarrow> int \<Rightarrow> manager \<Rightarrow> tx_result \<times> int list" where
  "manager_orderstatustransaction w_id d_id c_id m =
    (case warehouseMap m w_id of
       None \<Rightarrow> (Returned (-1), [])
     | Some w \<Rightarrow>
        (case districtMap w d_id of
           None \<Rightarrow> (Returned (-1), [])
         | Some d \<Rightarrow>
            (case customerMap d c_id of
               None \<Rightarrow> (Returned (-1), [])
             | Some c \<Rightarrow>
                (case lastOrder c of
                   None \<Rightarrow> (Returned 1, [])
                 | Some p \<Rightarrow>
                     let ord = o_cells (order_store m) p in
                     status_lines (order_lines ord) [1..O_OL_CNT ord] [O_OL_CNT ord]))))"

section \<open>Stock level\<close>

text \<open>\<open>seen\<close> is the array \<^verbatim>\<open>item[100000]\<close>: the items already looked at.\<close>

fun stock_lines :: "(int \<rightharpoonup> stocktable) \<Rightarrow> int \<Rightarrow> (int \<rightharpoonup> orderline) \<Rightarrow> int list \<Rightarrow> int set \<times> int \<Rightarrow> fault + (int set \<times> int)" where
  "stock_lines sm treshold lines [] s = Inr s"
| "stock_lines sm treshold lines (count # cs) (seen, n) = (case lines count of
     None \<Rightarrow> stock_lines sm treshold lines cs (seen, n)
   | Some l \<Rightarrow>
       if OL_I_ID l < 0 \<or> OL_I_ID l \<ge> 100000 then Inl OutOfBounds
       else if OL_I_ID l \<in> seen then stock_lines sm treshold lines cs (seen, n)
       else (case sm (OL_I_ID l) of
           None \<Rightarrow> Inl NullPointer
         | Some st \<Rightarrow> stock_lines sm treshold lines cs
             (insert (OL_I_ID l) seen, if S_QUANTITY st < treshold then n + 1 else n)))"

fun stock_orders :: "manager \<Rightarrow> district \<Rightarrow> int \<Rightarrow> int list \<Rightarrow> int set \<times> int \<Rightarrow> fault + (int set \<times> int)" where
  "stock_orders m d treshold [] s = Inr s"
| "stock_orders m d treshold (key # ks) s = (case orderMap d key of
     None \<Rightarrow> Inl Endless
   | Some p \<Rightarrow>
       (let ord = o_cells (order_store m) p in
        case stock_lines (stockMap m) treshold (order_lines ord) [1..O_OL_CNT ord] s of
          Inl f \<Rightarrow> Inl f | Inr s \<Rightarrow> stock_orders m d treshold ks s))"

definition manager_stockleveltransaction :: "int \<Rightarrow> int \<Rightarrow> int \<Rightarrow> manager \<Rightarrow> tx_result \<times> int" where
  "manager_stockleveltransaction w_id d_id treshold m =
    (case warehouseMap m w_id of
       None \<Rightarrow> (Returned (-1), 0)
     | Some w \<Rightarrow>
        (case districtMap w d_id of
           None \<Rightarrow> (Returned (-1), 0)
         | Some d \<Rightarrow>
            (case stock_orders m d treshold [D_NEXT_O_ID d - 20..D_NEXT_O_ID d - 1] ({}, 0) of
               Inl f \<Rightarrow> (Fault f, 0) | Inr (seen, n) \<Rightarrow> (Returned 1, n))))"

section \<open>Delivery\<close>

text \<open>\<open>sec\<close> is what \<^verbatim>\<open>time\<close> returns when a line is delivered.\<close>

definition deliver_line :: "(int \<Rightarrow> int) \<Rightarrow> int \<Rightarrow> (int \<rightharpoonup> orderline) \<times> rat \<Rightarrow> (int \<rightharpoonup> orderline) \<times> rat" where
  "deliver_line sec count s =
    (let (lines, total) = s in
     case lines count of
       None \<Rightarrow> (lines, total)
     | Some l \<Rightarrow> (lines(count \<mapsto> l\<lparr>OL_DELIVERY_D := sec count\<rparr>), fadd total (OL_AMOUNT l)))"

definition deliver_order :: "(int \<Rightarrow> int) \<Rightarrow> int \<Rightarrow> nat \<Rightarrow> district \<Rightarrow> order_store \<Rightarrow> district \<times> order_store" where
  "deliver_order sec carrier p d h =
    (let ord = o_cells h p;
         (lines, total) = for_to 1 (O_OL_CNT ord) (deliver_line sec) (order_lines ord, 0);
         h = put_order p (ord\<lparr>O_CARRIER_ID := carrier, order_lines := lines\<rparr>) h in
     case customerMap d (O_C_ID ord) of
       None \<Rightarrow> (d, h)
     | Some c \<Rightarrow> (d\<lparr>customerMap := (customerMap d)(O_C_ID ord \<mapsto>
           c\<lparr>C_BALANCE := fadd (C_BALANCE c) total, C_DELIVERY_CNT := C_DELIVERY_CNT c + 1\<rparr>)\<rparr>, h))"

definition deliver_district :: "(int \<Rightarrow> int) \<Rightarrow> int \<Rightarrow> int \<Rightarrow> int \<Rightarrow> manager \<Rightarrow> tx_result \<times> manager" where
  "deliver_district sec w_id carrier d_id m =
    (case warehouseMap m w_id of
       None \<Rightarrow> (Returned (-1), m)
     | Some w \<Rightarrow>
        (case find (\<lambda>x. NO_D_ID (snd x) = d_id \<and> NO_W_ID (snd x) = w_id) (neworderMap m) of
           None \<Rightarrow> (Returned 1, m)
         | Some x \<Rightarrow>
            (case districtMap w d_id of
               None \<Rightarrow> (Fault NullPointer, m)
             | Some d \<Rightarrow>
                (let (d, h) = (case orderMap d (NO_O_ID (snd x)) of
                       None \<Rightarrow> (d, order_store m) | Some p \<Rightarrow> deliver_order sec carrier p d (order_store m)) in
                 (Returned 1, put_district w_id d_id w d
                    (m\<lparr>neworderMap := filter (\<lambda>y. fst y \<noteq> fst x) (neworderMap m), order_store := h\<rparr>))))))"

text \<open>One transaction per district; the first that does not return one ends the loop.\<close>

fun delivery_loop :: "(int \<Rightarrow> int \<Rightarrow> int) \<Rightarrow> int \<Rightarrow> int \<Rightarrow> int list \<Rightarrow> manager \<Rightarrow> tx_result \<times> manager" where
  "delivery_loop sec w_id carrier [] m = (Returned 1, m)"
| "delivery_loop sec w_id carrier (d_id # ds) m = (let (res, m) = deliver_district (sec d_id) w_id carrier d_id m in
     if res = Returned 1 then delivery_loop sec w_id carrier ds m else (res, m))"

definition manager_deliverytransaction :: "(int \<Rightarrow> int \<Rightarrow> int) \<Rightarrow> int \<Rightarrow> int \<Rightarrow> manager \<Rightarrow> tx_result \<times> manager" where
  "manager_deliverytransaction sec w_id carrier m = delivery_loop sec w_id carrier [1..10] m"

section \<open>Runs\<close>

datatype tpcc_call =
    NewOrder int int int int
  | Payment int int int rat
  | OrderStatus int int int
  | StockLevel int int int
  | Delivery "int \<Rightarrow> int \<Rightarrow> int" int int

fun tpcc_step :: "tpcc_call \<Rightarrow> manager \<Rightarrow> tx_result \<times> manager" where
  "tpcc_step (NewOrder sec w d c) m = manager_newordertransaction sec w d c m"
| "tpcc_step (Payment w d c amount) m = manager_paymenttransaction w d c amount m"
| "tpcc_step (OrderStatus w d c) m = (fst (manager_orderstatustransaction w d c m), m)"
| "tpcc_step (StockLevel w d t) m = (fst (manager_stockleveltransaction w d t m), m)"
| "tpcc_step (Delivery sec w carrier) m = manager_deliverytransaction sec w carrier m"

definition tpcc_run :: "tpcc_call list \<Rightarrow> manager \<Rightarrow> manager" where
  "tpcc_run cs m = fold (\<lambda>c m. snd (tpcc_step c m)) cs m"

section \<open>Every transaction keeps the tables consistent\<close>

lemma restock_range:
  assumes "10 \<le> s" "s \<le> 101" "1 \<le> q" "q \<le> 10"
  shows "10 \<le> restock s q \<and> restock s q \<le> 101"
  using assms by (simp add: restock_def Let_def)

text \<open>What the lines of an order add up to for one item, and stock that keeps track of it.\<close>

definition line_sum :: "(orderline \<Rightarrow> int) \<Rightarrow> int \<Rightarrow> (int \<rightharpoonup> orderline) \<Rightarrow> int" where
  "line_sum f i lines = (\<Sum>k \<in> dom lines. if OL_I_ID (the (lines k)) = i then f (the (lines k)) else 0)"

definition tracked :: "(int \<rightharpoonup> stocktable) \<Rightarrow> (int \<rightharpoonup> stocktable) \<Rightarrow> (int \<rightharpoonup> orderline) \<Rightarrow> bool" where
  "tracked sm0 sm lines \<longleftrightarrow> (\<forall>i st. sm i = Some st \<longrightarrow> (\<exists>st0. sm0 i = Some st0 \<and>
     S_YTD st = S_YTD st0 + line_sum OL_QUANTITY i lines \<and>
     S_ORDER_CNT st = S_ORDER_CNT st0 + line_sum (\<lambda>_. 1) i lines \<and>
     91 dvd S_QUANTITY st + line_sum OL_QUANTITY i lines - S_QUANTITY st0 \<and>
     (if line_sum (\<lambda>_. 1) i lines = 0 then S_QUANTITY st = S_QUANTITY st0 else S_QUANTITY st \<in> {11..101})))"

lemma line_count_nonneg: "0 \<le> line_sum (\<lambda>_. 1) i lines"
  by (auto simp: line_sum_def intro: sum_nonneg)

lemma line_sum_insert:
  assumes "k \<notin> dom lines" "finite (dom lines)"
  shows "line_sum f i (lines(k \<mapsto> l)) = line_sum f i lines + (if OL_I_ID l = i then f l else 0)"
proof -
  have "(\<Sum>j \<in> dom lines. if OL_I_ID (the ((lines(k \<mapsto> l)) j)) = i then f (the ((lines(k \<mapsto> l)) j)) else 0) =
      line_sum f i lines"
    unfolding line_sum_def using assms(1) by (intro sum.cong) auto
  then show ?thesis
    using assms by (simp add: line_sum_def)
qed

text \<open>
  One more line of \<open>q\<close> pieces keeps track. The quantity in stock is known exactly: it is the one in
  \<open>{11..101}\<close> that differs from the old one less the pieces ordered by a multiple of 91.
\<close>

lemma tracked_step:
  assumes tr: "tracked sm0 sm lines" and st: "sm i_id = Some st"
    and lines': "lines' = lines(k \<mapsto> l)" and fin: "finite (dom lines)" "k \<notin> dom lines"
    and l: "OL_I_ID l = i_id" "OL_QUANTITY l = q"
    and st': "S_YTD st' = S_YTD st + q" "S_ORDER_CNT st' = S_ORDER_CNT st + 1" "S_QUANTITY st' = restock (S_QUANTITY st) q"
    and range: "10 \<le> S_QUANTITY st" "S_QUANTITY st \<le> 101" "1 \<le> q" "q \<le> 10"
  shows "tracked sm0 (sm(i_id \<mapsto> st')) lines'"
  unfolding tracked_def
proof (intro allI impI)
  fix j t assume t: "(sm(i_id \<mapsto> st')) j = Some t"
  have sums: "line_sum f j lines' = line_sum f j lines + (if i_id = j then f l else 0)" for f
    using fin by (simp add: lines' line_sum_insert l)
  have r: "restock (S_QUANTITY st) q \<in> {11..101}" "91 dvd restock (S_QUANTITY st) q + q - S_QUANTITY st"
    using range by (auto simp: restock_def Let_def)
  have dvd: "91 dvd restock (S_QUANTITY st) q + (n + q) - a" if "91 dvd S_QUANTITY st + n - a" for n a
    using dvd_add [OF that r(2)] by (simp add: algebra_simps)
  show "\<exists>st0. sm0 j = Some st0 \<and> S_YTD t = S_YTD st0 + line_sum OL_QUANTITY j lines' \<and>
      S_ORDER_CNT t = S_ORDER_CNT st0 + line_sum (\<lambda>_. 1) j lines' \<and>
      91 dvd S_QUANTITY t + line_sum OL_QUANTITY j lines' - S_QUANTITY st0 \<and>
      (if line_sum (\<lambda>_. 1) j lines' = 0 then S_QUANTITY t = S_QUANTITY st0 else S_QUANTITY t \<in> {11..101})"
  proof (cases "j = i_id")
    case True
    then have [simp]: "t = st'" using t by simp
    obtain st0 where st0: "sm0 i_id = Some st0" "S_YTD st = S_YTD st0 + line_sum OL_QUANTITY i_id lines"
        "S_ORDER_CNT st = S_ORDER_CNT st0 + line_sum (\<lambda>_. 1) i_id lines"
        "91 dvd S_QUANTITY st + line_sum OL_QUANTITY i_id lines - S_QUANTITY st0"
      using tr st unfolding tracked_def by blast
    have "line_sum (\<lambda>_. 1) i_id lines + 1 \<noteq> 0"
      using line_count_nonneg [of i_id lines] by linarith
    then show ?thesis
      using st0 r(1) dvd [OF st0(4)] unfolding sums by (simp add: True l st')
  next
    case False
    then have sj: "sm j = Some t" "line_sum f j lines' = line_sum f j lines" for f
      using t sums by simp_all
    show ?thesis
      using tr sj(1) unfolding tracked_def sj(2) by blast
  qed
qed

text \<open>The order that is being entered, after the lines below \<open>i\<close>.\<close>

definition entering :: "int \<Rightarrow> int \<Rightarrow> int \<Rightarrow> int \<Rightarrow> order \<Rightarrow> bool" where
  "entering i d_next c_id cnt ord \<longleftrightarrow> O_ID ord = d_next \<and> O_C_ID ord = c_id \<and> O_OL_CNT ord = cnt \<and>
     dom (order_lines ord) = {1..<i} \<and> O_CARRIER_ID ord = -1 \<and>
     (\<forall>l \<in> ran (order_lines ord). OL_I_ID l \<in> {1..100000} \<and> OL_QUANTITY l \<in> {1..10} \<and> OL_DELIVERY_D l = -1)"

definition line_inv :: "(int \<rightharpoonup> stocktable) \<Rightarrow> order_store \<Rightarrow> nat \<Rightarrow> int \<Rightarrow> int \<Rightarrow> int \<Rightarrow> int \<Rightarrow> line_state \<Rightarrow> bool" where
  "line_inv sm0 h0 p d_next c_id cnt i s \<longleftrightarrow> (case s of (sm, h, r) \<Rightarrow>
     stock_ok sm \<and> extends h0 h \<and> p < o_next h \<and> entering i d_next c_id cnt (o_cells h p) \<and>
     tracked sm0 sm (order_lines (o_cells h p)) \<and> mt_ok r)"

lemma neworder_line_step:
  assumes im: "dom im = {1..100000}" and p: "p = o_next h0" and inv: "line_inv sm0 h0 p d_next c_id cnt i s" and i: "1 \<le> i"
  shows "\<exists>s'. neworder_line im p d_next d_id w_id i s = Some s' \<and> line_inv sm0 h0 p d_next c_id cnt (i + 1) s'"
proof -
  obtain sm h r where s: "s = (sm, h, r)" by (metis prod_cases3)
  have stock: "stock_ok sm" and ext: "extends h0 h" and ph: "p < o_next h" and mt: "mt_ok r"
    and ent: "entering i d_next c_id cnt (o_cells h p)" and tr: "tracked sm0 sm (order_lines (o_cells h p))"
    using inv by (auto simp: line_inv_def s)
  obtain y r1 where y: "random_mod 100000 r = (y, r1)" by fastforce
  have y_ok: "0 \<le> y" "y < 100000" "mt_ok r1"
    using random_mod_ok [OF y _ mt] by simp_all
  obtain z r2 where z: "random_mod 10 r1 = (z, r2)" by fastforce
  have z_ok: "0 \<le> z" "z < 10" "mt_ok r2"
    using random_mod_ok [OF z _ y_ok(3)] by simp_all
  have dom: "y + 1 \<in> dom im" "y + 1 \<in> dom sm"
    using y_ok im stock by (simp_all add: stock_ok_def)
  then obtain it st where it: "im (y + 1) = Some it" and st: "sm (y + 1) = Some st" by blast
  have q: "10 \<le> S_QUANTITY st \<and> S_QUANTITY st \<le> 101"
    using stock st by (auto simp: stock_ok_def intro: ranI)
  define st' where "st' = st\<lparr>S_QUANTITY := restock (S_QUANTITY st) (z + 1), S_YTD := S_YTD st + (z + 1), S_ORDER_CNT := S_ORDER_CNT st + 1\<rparr>"
  define l where "l = TM_orderline_alloc d_next d_id w_id i (y + 1) w_id (-1) (z + 1) (fmul (f32 (of_int (z + 1))) (I_PRICE it))"
  let ?lines = "order_lines (o_cells h p)"
  define h' where "h' = put_order p ((o_cells h p)\<lparr>order_lines := map_insert ?lines i l\<rparr>) h"
  have run: "neworder_line im p d_next d_id w_id i s = Some (sm(y + 1 \<mapsto> st'), h', r2)"
    unfolding h'_def l_def st'_def by (simp add: neworder_line_def s y z it st TM_add_orderline_def Let_def)
  have dl: "dom ?lines = {1..<i}"
    using ent by (simp add: entering_def)
  note ins = table_insert [OF dl i]
  have cell: "o_cells h' p = (o_cells h p)\<lparr>order_lines := ?lines(i \<mapsto> l)\<rparr>"
    by (simp add: h'_def put_order_def ins(1))
  have "dom (sm(y + 1 \<mapsto> st')) = {1..100000}"
    using dom(2) stock by (simp add: stock_ok_def insert_absorb)
  moreover have "10 \<le> S_QUANTITY st' \<and> S_QUANTITY st' \<le> 101"
    using restock_range [of "S_QUANTITY st" "z + 1"] q z_ok(1,2) by (simp add: st'_def)
  moreover have "ran (sm(y + 1 \<mapsto> st')) \<subseteq> insert st' (ran sm)"
    by (auto simp: ran_def)
  ultimately have "stock_ok (sm(y + 1 \<mapsto> st'))"
    using stock unfolding stock_ok_def by blast
  moreover have "extends h0 h'" "p < o_next h'"
    using ext ph p by (simp_all add: extends_def put_order_def h'_def)
  moreover have "entering (i + 1) d_next c_id cnt (o_cells h' p)"
    using ent ins y_ok(1,2) z_ok(1,2) by (simp add: entering_def cell l_def TM_orderline_alloc_def)
  moreover have "tracked sm0 (sm(y + 1 \<mapsto> st')) (order_lines (o_cells h' p))"
  proof (rule tracked_step [OF tr st])
    show "order_lines (o_cells h' p) = ?lines(i \<mapsto> l)" by (simp add: cell)
    show "finite (dom ?lines)" "i \<notin> dom ?lines" using dl by simp_all
    show "OL_I_ID l = y + 1" "OL_QUANTITY l = z + 1"
      by (simp_all add: l_def TM_orderline_alloc_def)
  qed (use q z_ok in \<open>simp_all add: st'_def\<close>)
  ultimately show ?thesis
    using run z_ok(3) by (simp add: line_inv_def)
qed


lemma order_ok_entered:
  assumes "entering (cnt + 1) d_next c_id cnt ord" "5 \<le> cnt" "cnt \<le> 14" "c_id \<in> {1..3000}"
  shows "order_ok ord"
  using assms by (simp add: entering_def order_ok_def atLeastLessThanPlusOne_atLeastAtMost_int)

text \<open>A row found on the way down to a customer.\<close>

lemma db_ok_district:
  assumes "db_ok m" "warehouseMap m w_id = Some w" "districtMap w d_id = Some d"
  shows "district_ok (order_store m) d" "w_id = 1" "d_id \<in> {1..10}" "dom (districtMap w) = {1..10}"
proof -
  have w: "w \<in> ran (warehouseMap m)" "w_id \<in> dom (warehouseMap m)"
    using assms(2) by (auto intro: ranI)
  have d: "d \<in> ran (districtMap w)" "d_id \<in> dom (districtMap w)"
    using assms(3) by (auto intro: ranI)
  show dom: "dom (districtMap w) = {1..10}"
    using assms(1) w(1) by (simp add: db_ok_def)
  show "district_ok (order_store m) d"
    using assms(1) w(1) d(1) by (simp add: db_ok_def)
  show "w_id = 1"
    using assms(1) w(2) by (simp add: db_ok_def)
  show "d_id \<in> {1..10}"
    using d(2) by (simp only: dom)
qed

lemma ran_upd_subset: "ran (m(k \<mapsto> v)) \<subseteq> insert v (ran m)"
  by (auto simp: ran_def)

text \<open>A district is replaced, orders are allocated and the stock changes: what has to be shown for this.\<close>

lemma db_ok_put:
  assumes ok: "db_ok m" and w: "warehouseMap m w_id = Some w" and d: "districtMap w d_id = Some d"
    and same: "warehouseMap m' = warehouseMap m" "itemMap m' = itemMap m" "neworderMap m' = neworderMap m"
      "districtMap w' = districtMap w"
    and new: "stock_ok (stockMap m')" "mt_ok (rng m')" "extends (order_store m) (order_store m')"
      "district_ok (order_store m') d'"
  shows "db_ok (put_district w_id d_id w' d' m')"
proof -
  let ?w = "w'\<lparr>districtMap := (districtMap w)(d_id \<mapsto> d')\<rparr>"
  let ?h = "order_store m'"
  note at = db_ok_district [of m, OF ok w d]
  have old: "dom (districtMap x) = {1..10} \<and> (\<forall>y \<in> ran (districtMap x). district_ok ?h y)" if "x \<in> ran (warehouseMap m)" for x
    using that ok district_ok_extends [OF _ new(3)] by (simp add: db_ok_def)
  have "w \<in> ran (warehouseMap m)"
    using w by (rule ranI)
  note old_w = old [OF this]
  have "dom (districtMap ?w) = {1..10}"
    using at(3,4) by (simp add: insert_absorb)
  moreover have "\<forall>y \<in> ran (districtMap ?w). district_ok ?h y"
    using old_w new(4) ran_upd_subset [of "districtMap w" d_id d'] by auto
  ultimately have "\<forall>x \<in> insert ?w (ran (warehouseMap m)). dom (districtMap x) = {1..10} \<and> (\<forall>y \<in> ran (districtMap x). district_ok ?h y)"
    using old by blast
  moreover have "ran (warehouseMap (put_district w_id d_id w' d' m')) \<subseteq> insert ?w (ran (warehouseMap m))"
    using ran_upd_subset [of "warehouseMap m" w_id ?w] by (simp add: put_district_def same)
  moreover have "dom (warehouseMap (put_district w_id d_id w' d' m')) = {1}"
    using ok at(2) by (simp add: put_district_def same db_ok_def)
  ultimately have "dom (warehouseMap (put_district w_id d_id w' d' m')) = {1} \<and>
      (\<forall>x \<in> ran (warehouseMap (put_district w_id d_id w' d' m')). dom (districtMap x) = {1..10} \<and>
         (\<forall>y \<in> ran (districtMap x). district_ok ?h y))"
    by blast
  then show ?thesis
    using ok new(1,2) unfolding db_ok_def by (simp add: put_district_def same)
qed

text \<open>A customer's row changes without its last order.\<close>

lemma district_ok_customer:
  assumes "district_ok h d" "customerMap d k = Some c" "lastOrder c' = lastOrder c"
  shows "district_ok h (d\<lparr>D_YTD := y, customerMap := (customerMap d)(k \<mapsto> c')\<rparr>)"
  using assms unfolding district_ok_def by (auto simp: insert_absorb domI)

text \<open>The next order is entered.\<close>

lemma district_ok_new_order:
  assumes ok: "district_ok h d" and ext: "extends h h'" and p: "p < o_next h'"
    and ord: "order_ok (o_cells h' p)" "O_ID (o_cells h' p) = D_NEXT_O_ID d" "O_C_ID (o_cells h' p) = k"
    and c: "customerMap d k = Some c"
  shows "district_ok h' (d\<lparr>D_NEXT_O_ID := D_NEXT_O_ID d + 1, orderMap := (orderMap d)(D_NEXT_O_ID d \<mapsto> p),
    customerMap := (customerMap d)(k \<mapsto> c\<lparr>lastOrder := Some p\<rparr>)\<rparr>)"
proof -
  let ?n = "D_NEXT_O_ID d"
  let ?om = "(orderMap d)(?n \<mapsto> p)"
  let ?cm = "(customerMap d)(k \<mapsto> c\<lparr>lastOrder := Some p\<rparr>)"
  have dom: "dom (orderMap d) = {1..<?n}" "3001 \<le> ?n" and cdom: "dom (customerMap d) = {1..3000}"
    using ok by (simp_all add: district_ok_def)
  have fresh: "orderMap d ?n = None"
    using dom(1) by auto
  note keep = order_in_insert [where om = "orderMap d" and k = ?n, OF _ ext fresh]
  have here: "order_in h' ?om p"
    using p ord by (simp add: order_in_def)
  have 1: "order_in h' ?om q \<and> O_ID (o_cells h' q) = j" if "?om j = Some q" for j q
    using that here ord(2) ok keep by (auto simp: district_ok_def split: if_splits)
  have 2: "\<exists>q. lastOrder c' = Some q \<and> order_in h' ?om q \<and> O_C_ID (o_cells h' q) = j" if j: "?cm j = Some c'" for j c'
  proof (cases "j = k")
    case True
    then show ?thesis using j here ord(3) by auto
  next
    case False
    then have "customerMap d j = Some c'"
      using j by simp
    then obtain q where "lastOrder c' = Some q" "order_in h (orderMap d) q" "O_C_ID (o_cells h q) = j"
      using ok unfolding district_ok_def by blast
    then show ?thesis using keep by auto
  qed
  have "dom ?om = {1..<?n + 1}"
    using dom by auto
  moreover have "dom ?cm = {1..3000}"
    using cdom c by (auto simp: insert_absorb)
  ultimately show ?thesis
    using 1 2 dom(2) unfolding district_ok_def by simp
qed


text \<open>
  The effect of a new order: the order gets the next number of the district, it is a complete order of the
  customer and his last one, nothing else of the orders changes, and the stock of each item is charged with
  what the lines of this order say.
\<close>

definition new_order_effect :: "int \<Rightarrow> int \<Rightarrow> int \<Rightarrow> manager \<Rightarrow> manager \<Rightarrow> bool" where
  "new_order_effect w_id d_id c_id m m' \<longleftrightarrow>
    (\<exists>w d c p. warehouseMap m w_id = Some w \<and> districtMap w d_id = Some d \<and> customerMap d c_id = Some c \<and>
       p = o_next (order_store m) \<and> extends (order_store m) (order_store m') \<and>
       warehouseMap m' = (warehouseMap m)(w_id \<mapsto> w\<lparr>districtMap := (districtMap w)(d_id \<mapsto>
         d\<lparr>D_NEXT_O_ID := D_NEXT_O_ID d + 1, orderMap := (orderMap d)(D_NEXT_O_ID d \<mapsto> p),
           customerMap := (customerMap d)(c_id \<mapsto> c\<lparr>lastOrder := Some p\<rparr>)\<rparr>)\<rparr>) \<and>
       (let ord = o_cells (order_store m') p in
        order_ok ord \<and> O_ID ord = D_NEXT_O_ID d \<and> O_C_ID ord = c_id \<and> O_CARRIER_ID ord = -1 \<and>
        (\<forall>l \<in> ran (order_lines ord). OL_QUANTITY l \<in> {1..10} \<and> OL_DELIVERY_D l = -1) \<and> tracked (stockMap m) (stockMap m') (order_lines ord)))"

lemma new_order_runs:
  assumes ok: "db_ok m" and w: "warehouseMap m w_id = Some w" and d: "districtMap w d_id = Some d"
    and c: "customerMap d c_id = Some c"
  shows "\<exists>m'. manager_newordertransaction sec w_id d_id c_id m = (Returned 1, m') \<and> db_ok m' \<and>
    new_order_effect w_id d_id c_id m m'"
proof -
  let ?h0 = "order_store m" and ?n = "D_NEXT_O_ID d"
  note at = db_ok_district [of m, OF ok w d]
  have tabs: "dom (itemMap m) = {1..100000}" "stock_ok (stockMap m)" "mt_ok (rng m)"
    using ok by (simp_all add: db_ok_def)
  have c_id: "c_id \<in> {1..3000}" and om: "dom (orderMap d) = {1..<?n}" "1 \<le> ?n"
    using at(1) c by (auto simp: district_ok_def)
  obtain y r1 where y: "random_mod 10 (rng m) = (y, r1)" by fastforce
  have y_ok: "0 \<le> y" "y < 10" "mt_ok r1"
    using random_mod_ok [OF y _ tabs(3)] by simp_all
  obtain rbk r2 where rbk: "random_mod 100 r1 = (rbk, r2)" by fastforce
  have r2: "mt_ok r2"
    using random_mod_ok [OF rbk _ y_ok(3)] by simp
  define row where "row = new_order_row ?n d_id c_id w_id sec (-1) (y + 5) 1 Map.empty"
  obtain p h1 where new: "store_new row ?h0 = (p, h1)" by fastforce
  note st = store_new_spec [OF new]
  let ?P = "line_inv (stockMap m) ?h0 p ?n c_id (y + 5)"
  have "entering 1 ?n c_id (y + 5) (o_cells h1 p)"
    by (simp add: st(2) row_def new_order_row_def entering_def)
  moreover have "tracked (stockMap m) (stockMap m) (order_lines (o_cells h1 p))"
    by (simp add: st(2) row_def new_order_row_def tracked_def line_sum_def)
  ultimately have "?P 1 (stockMap m, h1, r2)"
    using tabs st(3,4) r2 by (simp add: line_inv_def)
  then have "\<exists>s'. try_to 1 (y + 5) (neworder_line (itemMap m) p ?n d_id w_id) (stockMap m, h1, r2) = Some s' \<and> ?P (y + 5 + 1) s'"
    using y_ok(1) by (intro try_to_inv [where P = ?P] neworder_line_step [OF tabs(1) st(1)]) simp_all
  then obtain sm h r where loop: "try_to 1 (y + 5) (neworder_line (itemMap m) p ?n d_id w_id) (stockMap m, h1, r2) = Some (sm, h, r)"
    and inv: "stock_ok sm" "extends ?h0 h" "p < o_next h" "entering (y + 5 + 1) ?n c_id (y + 5) (o_cells h p)"
      "tracked (stockMap m) sm (order_lines (o_cells h p))" "mt_ok r"
    by (auto simp: line_inv_def)
  let ?d = "d\<lparr>D_NEXT_O_ID := ?n + 1, orderMap := (orderMap d)(?n \<mapsto> p), customerMap := (customerMap d)(c_id \<mapsto> c\<lparr>lastOrder := Some p\<rparr>)\<rparr>"
  let ?m = "put_district w_id d_id w ?d (m\<lparr>stockMap := sm, order_store := h, rng := r\<rparr>)"
  have run: "manager_newordertransaction sec w_id d_id c_id m = (Returned 1, ?m)"
    using new loop
    by (simp add: manager_newordertransaction_def w d c y rbk TM_add_order_def TM_order_alloc_def row_def
        table_insert(1) [OF om] Let_def)
  have ord: "order_ok (o_cells h p)"
    using order_ok_entered [OF inv(4)] y_ok c_id by simp
  have ids: "O_ID (o_cells h p) = ?n" "O_C_ID (o_cells h p) = c_id"
    using inv(4) by (simp_all add: entering_def)
  have "district_ok h ?d"
    using district_ok_new_order [OF at(1) inv(2,3) ord ids c] .
  then have "db_ok ?m"
    using inv by (intro db_ok_put [OF ok w d]) simp_all
  moreover have "new_order_effect w_id d_id c_id m ?m"
    using w d c inv(2,4,5) ord st(1) by (simp add: new_order_effect_def put_district_def entering_def)
  ultimately show ?thesis
    using run by blast
qed

lemma payment_customer_some:
  assumes "payment_customer cm c_id r = (res, r')" "dom cm = {1..3000}" "mt_ok r"
  shows "mt_ok r'" "res \<noteq> None" "res = Some (Some (k, c)) \<Longrightarrow> cm k = Some c"
proof -
  have name: "find_by_name cm name ks \<noteq> None \<and> (find_by_name cm name ks = Some (Some (k, c)) \<longrightarrow> cm k = Some c)"
    if "set ks \<subseteq> dom cm" for name ks
    using that by (induction ks) (auto split: option.splits)
  have range: "set [1..3000] \<subseteq> dom cm"
    using assms(2) by (simp only: set_upto)
  have seed: "mt_ok (snd (clast_seed r))"
    using random_generate_ok [OF assms(3)] by (cases "random_generate r") (simp add: clast_seed_def)
  from assms(1,3) seed show "mt_ok r'"
    unfolding payment_customer_def by (auto simp del: upto.simps split: if_splits prod.splits)
  from assms(1) name [OF range] show "res \<noteq> None"
    unfolding payment_customer_def by (auto simp del: upto.simps split: if_splits prod.splits)
  from assms(1) name [OF range] show "res = Some (Some (k, c)) \<Longrightarrow> cm k = Some c"
    unfolding payment_customer_def by (auto simp del: upto.simps split: if_splits prod.splits)
qed

lemma payment_runs:
  assumes ok: "db_ok m" and w: "warehouseMap m w_id = Some w" and d: "districtMap w d_id = Some d"
  shows "\<exists>r. mt_ok r \<and> (manager_paymenttransaction w_id d_id c_id amount m = (Restarted, m\<lparr>rng := r\<rparr>) \<or>
    (\<exists>k c. customerMap d k = Some c \<and> (c_id \<noteq> -1 \<longrightarrow> k = c_id) \<and>
      manager_paymenttransaction w_id d_id c_id amount m = (Returned 1,
        put_district w_id d_id (w\<lparr>W_YTD := fadd (W_YTD w) amount\<rparr>)
          (d\<lparr>D_YTD := fadd (D_YTD d) amount, customerMap := (customerMap d)(k \<mapsto> pay_customer amount c)\<rparr>)
          (m\<lparr>rng := r\<rparr>))))"
proof -
  have cm: "dom (customerMap d) = {1..3000}" and mt: "mt_ok (rng m)"
    using db_ok_district(1) [of m, OF ok w d] ok by (simp_all add: district_ok_def db_ok_def)
  obtain res r where res: "payment_customer (customerMap d) c_id (rng m) = (res, r)" by fastforce
  note facts = payment_customer_some [OF res cm mt]
  consider "res = Some None" | k c where "res = Some (Some (k, c))"
    using facts(2) by (metis not_None_eq surj_pair)
  then show ?thesis
  proof cases
    case 1
    then show ?thesis
      using facts(1) by (intro exI [of _ r]) (simp add: manager_paymenttransaction_def w d res)
  next
    case (2 k c)
    have "c_id \<noteq> -1 \<longrightarrow> k = c_id"
      using res 2 by (auto simp: payment_customer_def)
    moreover have "customerMap d k = Some c"
      using facts(3) 2 .
    ultimately show ?thesis
      using facts(1) 2 by (intro exI [of _ r]) (auto simp: manager_paymenttransaction_def w d res)
  qed
qed


lemma delivery_idle:
  assumes "db_ok m"
  shows "manager_deliverytransaction sec w_id carrier m = (Returned (if w_id = 1 then 1 else -1), m)"
proof -
  have no: "find (\<lambda>x. NO_D_ID (snd x) = d \<and> NO_W_ID (snd x) = 1) (neworderMap m) = None" for d
    using assms by (auto simp: find_None_iff db_ok_def)
  have "dom (warehouseMap m) = {1}"
    using assms by (simp add: db_ok_def)
  then have w: "(\<exists>w. warehouseMap m w_id = Some w) \<longleftrightarrow> w_id = 1"
    by (metis domD domI singletonD singletonI)
  have step: "deliver_district s w_id carrier d m = (Returned (if w_id = 1 then 1 else -1), m)" for s d
    using w no by (auto simp: deliver_district_def split: option.splits)
  have "delivery_loop sec w_id carrier ds m = (Returned (if w_id = 1 \<or> ds = [] then 1 else -1), m)" for ds
    by (induction ds) (simp_all add: step)
  moreover have "[1..10 :: int] \<noteq> []"
    by (simp add: upto_rec1)
  ultimately show ?thesis
    by (simp only: manager_deliverytransaction_def simp_thms)
qed

lemma payment_ok:
  assumes ok: "db_ok m"
  shows "db_ok (snd (manager_paymenttransaction w_id d_id c_id amount m))"
proof (cases "\<exists>w d. warehouseMap m w_id = Some w \<and> districtMap w d_id = Some d")
  case False
  then show ?thesis
    using ok by (auto simp: manager_paymenttransaction_def split: option.splits)
next
  case True
  then obtain w d where w: "warehouseMap m w_id = Some w" and d: "districtMap w d_id = Some d" by blast
  have m: "stock_ok (stockMap m)" "district_ok (order_store m) d"
    using ok db_ok_district(1) [of m, OF ok w d] by (simp_all add: db_ok_def)
  obtain r where r: "mt_ok r" and res: "manager_paymenttransaction w_id d_id c_id amount m = (Restarted, m\<lparr>rng := r\<rparr>) \<or>
    (\<exists>k c. customerMap d k = Some c \<and> (c_id \<noteq> -1 \<longrightarrow> k = c_id) \<and>
      manager_paymenttransaction w_id d_id c_id amount m = (Returned 1,
        put_district w_id d_id (w\<lparr>W_YTD := fadd (W_YTD w) amount\<rparr>)
          (d\<lparr>D_YTD := fadd (D_YTD d) amount, customerMap := (customerMap d)(k \<mapsto> pay_customer amount c)\<rparr>)
          (m\<lparr>rng := r\<rparr>)))"
    using payment_runs [of m, OF ok w d] by blast
  from res show ?thesis
  proof (elim disjE exE conjE)
    assume "manager_paymenttransaction w_id d_id c_id amount m = (Restarted, m\<lparr>rng := r\<rparr>)"
    then show ?thesis
      using ok r by (simp add: db_ok_def)
  next
    fix k c
    assume c: "customerMap d k = Some c" and run: "manager_paymenttransaction w_id d_id c_id amount m = (Returned 1,
        put_district w_id d_id (w\<lparr>W_YTD := fadd (W_YTD w) amount\<rparr>)
          (d\<lparr>D_YTD := fadd (D_YTD d) amount, customerMap := (customerMap d)(k \<mapsto> pay_customer amount c)\<rparr>)
          (m\<lparr>rng := r\<rparr>))"
    have "district_ok (order_store m) (d\<lparr>D_YTD := fadd (D_YTD d) amount, customerMap := (customerMap d)(k \<mapsto> pay_customer amount c)\<rparr>)"
      using district_ok_customer [OF m(2) c, of "pay_customer amount c"] by (simp add: pay_customer_def)
    then show ?thesis
      unfolding run snd_conv using m(1) r by (intro db_ok_put [OF ok w d]) simp_all
  qed
qed

lemma new_order_ok:
  assumes ok: "db_ok m"
  shows "db_ok (snd (manager_newordertransaction sec w_id d_id c_id m))"
proof (cases "\<exists>w d c. warehouseMap m w_id = Some w \<and> districtMap w d_id = Some d \<and> customerMap d c_id = Some c")
  case True
  then obtain w d c where "warehouseMap m w_id = Some w" "districtMap w d_id = Some d" "customerMap d c_id = Some c" by blast
  from new_order_runs [of m, OF ok this, of sec] show ?thesis by auto
next
  case False
  then show ?thesis
    using ok by (auto simp: manager_newordertransaction_def split: option.splits)
qed

lemma tpcc_step_ok: "db_ok m \<Longrightarrow> db_ok (snd (tpcc_step c m))"
  by (cases c) (simp_all add: new_order_ok payment_ok delivery_idle)

lemma tpcc_run_ok: "db_ok m \<Longrightarrow> db_ok (tpcc_run cs m)"
  unfolding tpcc_run_def by (induction cs arbitrary: m) (simp_all add: tpcc_step_ok)

section \<open>Order status and stock level\<close>

definition status_pair :: "orderline \<Rightarrow> int list" where
  "status_pair l = [OL_I_ID l, if OL_DELIVERY_D l < 0 then 1 else 0]"

lemma status_lines_all:
  assumes "\<forall>k \<in> set ks. lines k \<noteq> None" "length out + 2 * length ks < 50"
  shows "status_lines lines ks out = (Returned 1, out @ concat (map (\<lambda>k. status_pair (the (lines k))) ks))"
  using assms by (induction ks arbitrary: out) (auto simp: status_pair_def)

lemma status_order:
  assumes "order_ok ord"
  shows "status_lines (order_lines ord) [1..O_OL_CNT ord] [O_OL_CNT ord] =
    (Returned 1, O_OL_CNT ord # concat (map (\<lambda>k. status_pair (the (order_lines ord k))) [1..O_OL_CNT ord]))"
proof -
  have "set [1..O_OL_CNT ord] = dom (order_lines ord)"
    using assms by (simp only: order_ok_def set_upto)
  then have "\<forall>k \<in> set [1..O_OL_CNT ord]. order_lines ord k \<noteq> None"
    by blast
  moreover have "nat (O_OL_CNT ord) \<le> 14"
    using assms by (auto simp: order_ok_def nat_le_iff)
  ultimately show ?thesis
    by (subst status_lines_all) simp_all
qed

text \<open>The items that the lines with these numbers name, and how many of a set of items are low.\<close>

definition items_of :: "(int \<rightharpoonup> orderline) \<Rightarrow> int set \<Rightarrow> int set" where
  "items_of lines ks = {OL_I_ID l |k l. k \<in> ks \<and> lines k = Some l}"

definition low_count :: "(int \<rightharpoonup> stocktable) \<Rightarrow> int \<Rightarrow> int set \<Rightarrow> int" where
  "low_count sm treshold s = int (card {i \<in> s. S_QUANTITY (the (sm i)) < treshold})"

lemma low_count_insert:
  assumes "finite s" "i \<notin> s" "sm i = Some st"
  shows "low_count sm t (insert i s) = (if S_QUANTITY st < t then low_count sm t s + 1 else low_count sm t s)"
proof -
  have "{j \<in> insert i s. S_QUANTITY (the (sm j)) < t} =
      (if S_QUANTITY st < t then insert i {j \<in> s. S_QUANTITY (the (sm j)) < t} else {j \<in> s. S_QUANTITY (the (sm j)) < t})"
    using assms(3) by auto
  then show ?thesis
    using assms(1,2) by (simp add: low_count_def)
qed

lemma items_of_insert: "items_of lines (insert k ks) =
    (case lines k of None \<Rightarrow> items_of lines ks | Some l \<Rightarrow> insert (OL_I_ID l) (items_of lines ks))"
  by (auto simp: items_of_def split: option.splits)

lemma stock_lines_count:
  assumes "dom sm = {1..100000}" "finite seen" "100000 \<notin> seen" "n = low_count sm t seen"
    "items_of lines (set ks) \<subseteq> {1..100000}"
  shows "stock_lines sm t lines ks (seen, n) = (if 100000 \<in> items_of lines (set ks) then Inl OutOfBounds
     else Inr (seen \<union> items_of lines (set ks), low_count sm t (seen \<union> items_of lines (set ks))))"
  using assms(2-)
proof (induction ks arbitrary: seen n)
  case Nil
  then show ?case by (simp add: items_of_def)
next
  case (Cons k ks)
  show ?case
  proof (cases "lines k")
    case None
    then show ?thesis using Cons by (simp add: items_of_insert)
  next
    case (Some l)
    let ?i = "OL_I_ID l"
    have i: "?i \<in> {1..100000}" "items_of lines (set ks) \<subseteq> {1..100000}"
      using Cons.prems(4) Some by (simp_all add: items_of_insert)
    consider "?i = 100000" | "?i \<in> seen" "?i \<noteq> 100000" | "?i \<notin> seen" "?i \<noteq> 100000" by blast
    then show ?thesis
    proof cases
      case 1
      then show ?thesis using Some by (simp add: items_of_insert)
    next
      case 2
      then show ?thesis
        using Cons.IH [OF Cons.prems(1-3) i(2)] Some i(1) by (simp add: items_of_insert insert_absorb)
    next
      case 3
      have "?i \<in> dom sm"
        using i(1) assms(1) by simp
      then obtain st where st: "sm ?i = Some st" by blast
      have n: "low_count sm t (insert ?i seen) = (if S_QUANTITY st < t then n + 1 else n)"
        using low_count_insert [of seen ?i sm st t, OF Cons.prems(1) 3(1) st] Cons.prems(3) by simp
      have "stock_lines sm t lines (k # ks) (seen, n) = stock_lines sm t lines ks (insert ?i seen, low_count sm t (insert ?i seen))"
        using Some st 3 i(1) by (simp add: n)
      also have "\<dots> = (if 100000 \<in> items_of lines (set ks) then Inl OutOfBounds
          else Inr (insert ?i seen \<union> items_of lines (set ks), low_count sm t (insert ?i seen \<union> items_of lines (set ks))))"
        using Cons.prems(1,2) 3 i(2) by (intro Cons.IH) simp_all
      finally show ?thesis
        using Some 3(2) by (simp add: items_of_insert)
    qed
  qed
qed


text \<open>The items of the twenty latest orders.\<close>

definition recent_items :: "manager \<Rightarrow> district \<Rightarrow> int set \<Rightarrow> int set" where
  "recent_items m d ks = (\<Union>p \<in> {p. \<exists>k \<in> ks. orderMap d k = Some p}. OL_I_ID ` ran (order_lines (o_cells (order_store m) p)))"

lemma items_of_order:
  assumes "order_ok ord"
  shows "items_of (order_lines ord) (set [1..O_OL_CNT ord]) = OL_I_ID ` ran (order_lines ord)"
proof -
  have dom: "set [1..O_OL_CNT ord] = dom (order_lines ord)"
    using assms by (simp only: order_ok_def set_upto)
  show ?thesis
    unfolding items_of_def dom by (auto simp: ran_def)
qed

lemma recent_items_insert:
  "orderMap d k = Some p \<Longrightarrow> recent_items m d (insert k ks) = OL_I_ID ` ran (order_lines (o_cells (order_store m) p)) \<union> recent_items m d ks"
  by (auto simp: recent_items_def)

lemma stock_orders_count:
  assumes "dom (stockMap m) = {1..100000}" "\<And>k. k \<in> set ks \<Longrightarrow> \<exists>p. orderMap d k = Some p \<and> order_ok (o_cells (order_store m) p)"
    "finite seen" "100000 \<notin> seen" "n = low_count (stockMap m) t seen"
  shows "stock_orders m d t ks (seen, n) = (if 100000 \<in> recent_items m d (set ks) then Inl OutOfBounds
    else Inr (seen \<union> recent_items m d (set ks), low_count (stockMap m) t (seen \<union> recent_items m d (set ks))))"
  using assms(2-)
proof (induction ks arbitrary: seen n)
  case Nil
  then show ?case by (simp add: recent_items_def)
next
  case (Cons k ks)
  obtain p where p: "orderMap d k = Some p" and ok: "order_ok (o_cells (order_store m) p)"
    using Cons.prems(1) [of k] by auto
  let ?ord = "o_cells (order_store m) p"
  let ?its = "OL_I_ID ` ran (order_lines ?ord)"
  have range: "?its \<subseteq> {1..100000}"
    using ok by (auto simp: order_ok_def)
  have lines: "stock_lines (stockMap m) t (order_lines ?ord) [1..O_OL_CNT ?ord] (seen, n) =
      (if 100000 \<in> ?its then Inl OutOfBounds else Inr (seen \<union> ?its, low_count (stockMap m) t (seen \<union> ?its)))"
    using stock_lines_count [OF assms(1) Cons.prems(2-4), of "order_lines ?ord" "[1..O_OL_CNT ?ord]"] range
    by (simp only: items_of_order [OF ok])
  show ?case
  proof (cases "100000 \<in> ?its")
    case True
    then show ?thesis by (simp add: p lines recent_items_insert)
  next
    case False
    have fin: "finite ?its"
      using finite_subset [OF range] by simp
    have "stock_orders m d t ks (seen \<union> ?its, low_count (stockMap m) t (seen \<union> ?its)) =
        (if 100000 \<in> recent_items m d (set ks) then Inl OutOfBounds
         else Inr (seen \<union> ?its \<union> recent_items m d (set ks), low_count (stockMap m) t (seen \<union> ?its \<union> recent_items m d (set ks))))"
      using Cons.prems(1-3) False fin by (intro Cons.IH) simp_all
    then show ?thesis
      using False by (simp add: p lines recent_items_insert Un_assoc Let_def)
  qed
qed

section \<open>Totals\<close>

text \<open>
  The totals agree and are multiples of \<open>2 ^ k\<close>, no greater than \<open>t\<close>.
\<close>

definition ytd_exact :: "int \<Rightarrow> rat \<Rightarrow> (int \<rightharpoonup> warehouse) \<Rightarrow> bool" where
  "ytd_exact k t wm \<longleftrightarrow> (\<forall>w \<in> ran wm. ytd_ok w \<and> on_grid k (W_YTD w) \<and> W_YTD w \<le> t \<and>
     (\<forall>d \<in> ran (districtMap w). on_grid k (D_YTD d) \<and> 0 \<le> D_YTD d))"

lemma ytd_ok_put:
  assumes "ytd_ok w" "finite (dom (districtMap w))" "districtMap w d_id = Some d" "D_YTD d' = D_YTD d + a"
  shows "ytd_ok (w\<lparr>W_YTD := W_YTD w + a, districtMap := (districtMap w)(d_id \<mapsto> d')\<rparr>)"
proof -
  let ?D = "dom (districtMap w)"
  have d: "d_id \<in> ?D"
    using assms(3) by blast
  have "(\<Sum>k \<in> ?D - {d_id}. D_YTD (the (((districtMap w)(d_id \<mapsto> d')) k))) = (\<Sum>k \<in> ?D - {d_id}. D_YTD (the (districtMap w k)))"
    by (intro sum.cong) simp_all
  moreover have "(\<Sum>k \<in> ?D. D_YTD (the (districtMap w k))) = D_YTD d + (\<Sum>k \<in> ?D - {d_id}. D_YTD (the (districtMap w k)))"
    using sum.remove [OF assms(2) d, of "\<lambda>k. D_YTD (the (districtMap w k))"] assms(3) by simp
  moreover have "(\<Sum>k \<in> ?D. D_YTD (the (((districtMap w)(d_id \<mapsto> d')) k))) =
      D_YTD d' + (\<Sum>k \<in> ?D - {d_id}. D_YTD (the (((districtMap w)(d_id \<mapsto> d')) k)))"
    using sum.remove [OF assms(2) d, of "\<lambda>k. D_YTD (the (((districtMap w)(d_id \<mapsto> d')) k))"] by simp
  ultimately show ?thesis
    using assms(1,4) d by (simp add: ytd_ok_def insert_absorb)
qed

lemma ytd_district_le:
  assumes "ytd_exact k t wm" "wm w_id = Some w" "finite (dom (districtMap w))" "districtMap w d_id = Some d"
  shows "0 \<le> D_YTD d" "D_YTD d \<le> W_YTD w" "on_grid k (D_YTD d)" "on_grid k (W_YTD w)" "W_YTD w \<le> t" "ytd_ok w"
proof -
  have w: "w \<in> ran wm"
    using assms(2) by (rule ranI)
  have pos: "0 \<le> D_YTD (the (districtMap w j))" if j: "j \<in> dom (districtMap w)" for j
  proof -
    obtain y where y: "districtMap w j = Some y"
      using j by blast
    then show ?thesis
      using assms(1) w ranI [of "districtMap w", OF y] by (simp add: ytd_exact_def)
  qed
  have "d \<in> ran (districtMap w)"
    using assms(4) by (rule ranI)
  then show "0 \<le> D_YTD d" "on_grid k (D_YTD d)" "on_grid k (W_YTD w)" "W_YTD w \<le> t" "ytd_ok w"
    using assms(1) w by (simp_all add: ytd_exact_def)
  have "D_YTD (the (districtMap w d_id)) \<le> (\<Sum>j \<in> dom (districtMap w). D_YTD (the (districtMap w j)))"
    using assms(3,4) pos by (intro member_le_sum) auto
  then show "D_YTD d \<le> W_YTD w"
    using \<open>ytd_ok w\<close> assms(4) by (simp add: ytd_ok_def)
qed

lemma ytd_exact_put:
  assumes ex: "ytd_exact k t wm" and w: "wm w_id = Some w" and fin: "finite (dom (districtMap w))"
    and d: "districtMap w d_id = Some d"
    and a: "on_grid k a" "0 \<le> a" "t + a \<le> 2 powi (24 + k)" and d': "D_YTD d' = fadd (D_YTD d) a"
  shows "ytd_exact k (t + a) (wm(w_id \<mapsto> w\<lparr>W_YTD := fadd (W_YTD w) a, districtMap := (districtMap w)(d_id \<mapsto> d')\<rparr>))"
proof -
  note f = ytd_district_le [of k t wm, OF ex w fin d]
  have W: "on_grid k (W_YTD w + a)" "fadd (W_YTD w) a = W_YTD w + a"
    using on_grid_add [OF f(4) a(1)] f(1,2,5) a(2,3) by (simp_all add: abs_le_iff)
  have D: "on_grid k (D_YTD d + a)" "fadd (D_YTD d) a = D_YTD d + a"
    using on_grid_add [OF f(3) a(1)] f(1,2,5) a(2,3) by (simp_all add: abs_le_iff)
  let ?w = "w\<lparr>W_YTD := W_YTD w + a, districtMap := (districtMap w)(d_id \<mapsto> d')\<rparr>"
  have "ytd_ok ?w"
    using ytd_ok_put [OF f(6) fin d] d' D(2) by simp
  moreover have "on_grid k (D_YTD x) \<and> 0 \<le> D_YTD x" if "x \<in> ran (districtMap ?w)" for x
  proof -
    have "x = d' \<or> x \<in> ran (districtMap w)"
      using that ran_upd_subset [of "districtMap w" d_id d'] by auto
    moreover have "w \<in> ran wm"
      using w by (rule ranI)
    ultimately show ?thesis
      using ex d' D f(1) a(2) by (auto simp: ytd_exact_def)
  qed
  ultimately have "ytd_exact k (t + a) [w_id \<mapsto> ?w]"
    using W f(5) by (simp add: ytd_exact_def)
  moreover have "ran (wm(w_id \<mapsto> ?w)) \<subseteq> insert ?w (ran wm)"
    by (rule ran_upd_subset)
  moreover have "W_YTD x \<le> t + a" if "x \<in> ran wm" for x
    using ex that a(2) by (auto simp: ytd_exact_def)
  ultimately show ?thesis
    using ex unfolding W(2) ytd_exact_def by auto
qed


text \<open>The amount that a call pays.\<close>

fun paid :: "tpcc_call \<Rightarrow> rat" where
  "paid (Payment w d c amount) = amount"
| "paid _ = 0"

lemma ytd_exact_mono: "ytd_exact k t wm \<Longrightarrow> t \<le> t' \<Longrightarrow> ytd_exact k t' wm"
  unfolding ytd_exact_def by (meson order_trans)

lemma new_order_ytd:
  assumes ok: "db_ok m" and ex: "ytd_exact k t (warehouseMap m)" and t: "t \<le> 2 powi (24 + k)"
  shows "ytd_exact k t (warehouseMap (snd (manager_newordertransaction sec w_id d_id c_id m)))"
proof (cases "\<exists>w d c. warehouseMap m w_id = Some w \<and> districtMap w d_id = Some d \<and> customerMap d c_id = Some c")
  case False
  then show ?thesis
    using ex by (auto simp: manager_newordertransaction_def split: option.splits)
next
  case True
  then obtain w d c where w: "warehouseMap m w_id = Some w" and d: "districtMap w d_id = Some d"
    and c: "customerMap d c_id = Some c" by blast
  obtain m' d' where run: "manager_newordertransaction sec w_id d_id c_id m = (Returned 1, m')"
    and m': "warehouseMap m' = (warehouseMap m)(w_id \<mapsto> w\<lparr>districtMap := (districtMap w)(d_id \<mapsto> d')\<rparr>)" "D_YTD d' = D_YTD d"
    using new_order_runs [of m, OF ok w d c, of sec] w d c by (auto simp: new_order_effect_def)
  have fin: "finite (dom (districtMap w))"
    using db_ok_district(4) [of m, OF ok w d] by simp
  note f = ytd_district_le [of k t "warehouseMap m", OF ex w fin d]
  have zero: "on_grid k 0"
    unfolding on_grid_def by (intro exI [of _ 0]) simp
  have same: "fadd (W_YTD w) 0 = W_YTD w" "fadd (D_YTD d) 0 = D_YTD d"
    using f32_exact [OF f(4)] f32_exact [OF f(3)] by (simp_all add: fadd_def)
  have "ytd_exact k (t + 0) ((warehouseMap m)(w_id \<mapsto> w\<lparr>W_YTD := fadd (W_YTD w) 0, districtMap := (districtMap w)(d_id \<mapsto> d')\<rparr>))"
    using ytd_exact_put [of k t "warehouseMap m" w_id w d_id d 0 d'] ex w fin d zero t m'(2) same by simp
  then show ?thesis
    by (simp add: run m'(1) same)
qed

lemma payment_ytd:
  assumes ok: "db_ok m" and ex: "ytd_exact k t (warehouseMap m)"
    and a: "on_grid k a" "0 \<le> a" "t + a \<le> 2 powi (24 + k)"
  shows "ytd_exact k (t + a) (warehouseMap (snd (manager_paymenttransaction w_id d_id c_id a m)))"
proof (cases "\<exists>w d. warehouseMap m w_id = Some w \<and> districtMap w d_id = Some d")
  case False
  then have "snd (manager_paymenttransaction w_id d_id c_id a m) = m"
    by (auto simp: manager_paymenttransaction_def split: option.splits)
  then show ?thesis
    using ytd_exact_mono [OF ex] a(2) by simp
next
  case True
  then obtain w d where w: "warehouseMap m w_id = Some w" and d: "districtMap w d_id = Some d" by blast
  have fin: "finite (dom (districtMap w))"
    using db_ok_district(4) [of m, OF ok w d] by simp
  note put = ytd_exact_put [of k t "warehouseMap m", OF ex w fin d a]
  from payment_runs [of m, OF ok w d, of c_id a] show ?thesis
  proof (elim exE conjE disjE)
    fix r assume "manager_paymenttransaction w_id d_id c_id a m = (Restarted, m\<lparr>rng := r\<rparr>)"
    then show ?thesis
      using ytd_exact_mono [OF ex] a(2) by simp
  next
    fix r k' c
    assume "manager_paymenttransaction w_id d_id c_id a m = (Returned 1,
        put_district w_id d_id (w\<lparr>W_YTD := fadd (W_YTD w) a\<rparr>)
          (d\<lparr>D_YTD := fadd (D_YTD d) a, customerMap := (customerMap d)(k' \<mapsto> pay_customer a c)\<rparr>)
          (m\<lparr>rng := r\<rparr>))"
    then show ?thesis
      using put [of "d\<lparr>D_YTD := fadd (D_YTD d) a, customerMap := (customerMap d)(k' \<mapsto> pay_customer a c)\<rparr>"]
      by (simp add: put_district_def)
  qed
qed

lemma tpcc_step_ytd:
  assumes "db_ok m" "ytd_exact k t (warehouseMap m)" "on_grid k (paid c)" "0 \<le> paid c" "t + paid c \<le> 2 powi (24 + k)"
  shows "ytd_exact k (t + paid c) (warehouseMap (snd (tpcc_step c m)))"
proof (cases c)
  case (NewOrder sec w d cu)
  then show ?thesis using new_order_ytd [OF assms(1,2)] assms(5) by simp
next
  case (Payment w d cu a)
  then show ?thesis using payment_ytd [OF assms(1,2)] assms(3-5) by simp
qed (use assms(1,2) in \<open>simp_all add: delivery_idle\<close>)

lemma tpcc_run_ytd:
  assumes "db_ok m" "ytd_exact k t (warehouseMap m)" "\<And>c. c \<in> set cs \<Longrightarrow> on_grid k (paid c) \<and> 0 \<le> paid c"
    "t + sum_list (map paid cs) \<le> 2 powi (24 + k)"
  shows "ytd_exact k (t + sum_list (map paid cs)) (warehouseMap (tpcc_run cs m))"
  using assms
proof (induction cs arbitrary: m t)
  case Nil
  then show ?case by (simp add: tpcc_run_def)
next
  case (Cons c cs)
  have rest: "0 \<le> sum_list (map paid cs)"
    using Cons.prems(3) by (intro sum_list_nonneg) auto
  have "ytd_exact k (t + paid c) (warehouseMap (snd (tpcc_step c m)))"
    using Cons.prems rest by (intro tpcc_step_ytd) simp_all
  moreover have "db_ok (snd (tpcc_step c m))"
    using Cons.prems(1) by (rule tpcc_step_ok)
  ultimately have "ytd_exact k (t + paid c + sum_list (map paid cs)) (warehouseMap (tpcc_run cs (snd (tpcc_step c m))))"
    using Cons.prems(3,4) by (intro Cons.IH) (simp_all add: add.assoc)
  then show ?case
    by (simp add: tpcc_run_def add.assoc)
qed


lemma db_ok_path:
  assumes "db_ok m" "w_id = 1" "d_id \<in> {1..10}" "c_id \<in> {1..3000}"
  obtains w d c where "warehouseMap m w_id = Some w" "districtMap w d_id = Some d" "customerMap d c_id = Some c"
proof -
  have "w_id \<in> dom (warehouseMap m)"
    using assms(1,2) by (simp add: db_ok_def)
  then obtain w where w: "warehouseMap m w_id = Some w" by blast
  have "d_id \<in> dom (districtMap w)"
    using assms(1,3) ranI [of "warehouseMap m", OF w] by (simp add: db_ok_def)
  then obtain d where d: "districtMap w d_id = Some d" by blast
  have "c_id \<in> dom (customerMap d)"
    using db_ok_district(1) [of m, OF assms(1) w d] assms(4) by (simp add: district_ok_def)
  then obtain c where "customerMap d c_id = Some c" by blast
  with w d show thesis by (rule that)
qed

lemma new_order_in_range:
  assumes "db_ok m" "w_id = 1" "d_id \<in> {1..10}" "c_id \<in> {1..3000}"
  shows "\<exists>m'. manager_newordertransaction sec w_id d_id c_id m = (Returned 1, m') \<and> db_ok m' \<and> new_order_effect w_id d_id c_id m m'"
  using db_ok_path [OF assms] new_order_runs [of m, OF assms(1)] by metis

lemma status_of_new_order:
  assumes "new_order_effect w_id d_id c_id m m'"
  shows "let ord = o_cells (order_store m') (o_next (order_store m)) in
    manager_orderstatustransaction w_id d_id c_id m' =
      (Returned 1, O_OL_CNT ord # concat (map (\<lambda>k. [OL_I_ID (the (order_lines ord k)), 1]) [1..O_OL_CNT ord]))"
proof -
  let ?ord = "o_cells (order_store m') (o_next (order_store m))"
  obtain w d c where path: "warehouseMap m' w_id = Some (w\<lparr>districtMap := (districtMap w)(d_id \<mapsto>
         d\<lparr>D_NEXT_O_ID := D_NEXT_O_ID d + 1, orderMap := (orderMap d)(D_NEXT_O_ID d \<mapsto> o_next (order_store m)),
           customerMap := (customerMap d)(c_id \<mapsto> c\<lparr>lastOrder := Some (o_next (order_store m))\<rparr>)\<rparr>)\<rparr>)"
    and ok: "order_ok ?ord" and lines: "\<And>l. l \<in> ran (order_lines ?ord) \<Longrightarrow> OL_DELIVERY_D l = -1"
    using assms(1) by (auto simp: new_order_effect_def Let_def)
  have dom: "set [1..O_OL_CNT ?ord] = dom (order_lines ?ord)"
    using ok by (simp only: order_ok_def set_upto)
  have "status_pair (the (order_lines ?ord k)) = [OL_I_ID (the (order_lines ?ord k)), 1]" if k: "k \<in> set [1..O_OL_CNT ?ord]" for k
  proof -
    obtain l where l: "order_lines ?ord k = Some l"
      using k unfolding dom by blast
    then show ?thesis
      using lines [OF ranI [of "order_lines ?ord", OF l]] by (simp add: status_pair_def)
  qed
  then have "map (\<lambda>k. status_pair (the (order_lines ?ord k))) [1..O_OL_CNT ?ord] =
      map (\<lambda>k. [OL_I_ID (the (order_lines ?ord k)), 1]) [1..O_OL_CNT ?ord]"
    by (intro map_cong refl)
  with status_order [OF ok] have "status_lines (order_lines ?ord) [1..O_OL_CNT ?ord] [O_OL_CNT ?ord] =
      (Returned 1, O_OL_CNT ?ord # concat (map (\<lambda>k. [OL_I_ID (the (order_lines ?ord k)), 1]) [1..O_OL_CNT ?ord]))"
    by (simp only:)
  then show ?thesis
    by (simp add: manager_orderstatustransaction_def path Let_def)
qed

lemma start_on_grid:
  assumes "-5 \<le> k" "k \<le> 4"
  shows "on_grid k 300000" "on_grid k 30000"
proof -
  have p: "(2 :: rat) ^ nat (4 - k) * 2 powi k = 16"
    using power_int_add [of "2 :: rat" "4 - k" k] assms(2) by (simp add: power_int_def)
  have "nat (4 - k) \<le> 9"
    using assms(1) by simp
  then have "(2 :: int) ^ nat (4 - k) \<le> 2 ^ 9"
    by (rule power_increasing) simp
  then have b: "\<bar>18750 * 2 ^ nat (4 - k) :: int\<bar> \<le> 2 ^ 24" "\<bar>1875 * 2 ^ nat (4 - k) :: int\<bar> \<le> 2 ^ 24"
    by (simp_all add: abs_mult)
  have "300000 = of_int (18750 * 2 ^ nat (4 - k)) * (2 :: rat) powi k" "30000 = of_int (1875 * 2 ^ nat (4 - k)) * (2 :: rat) powi k"
    using p by (simp_all add: mult.assoc)
  with b show "on_grid k 300000" "on_grid k 30000"
    unfolding on_grid_def by blast+
qed

section \<open>Properties\<close>

text \<open>C34. Every sequence of TPC-C transactions keeps the tables consistent, from the filled database on: the
  orders of each district stay numbered without a gap up to the next number, each is complete, every customer's
  last order is an order of his, and the quantities in stock stay between 10 and 101. The rows of the
  new-order table keep \<^verbatim>\<open>NO_W_ID\<close> = 0, as the code fills them, so that delivery finds none of warehouse 1 and
  changes nothing; \<^verbatim>\<open>W_YTD\<close> = sum of \<^verbatim>\<open>D_YTD\<close> is not part of this invariant but of \<open>totals_agree\<close>, which
  needs hypotheses on the amounts.\<close>

theorem transactions_keep_consistency:
  assumes "length mem = MT_N"
  shows "\<exists>m. manager_allocation e mem h = Some m \<and> db_ok (tpcc_run cs m)"
  using filled_database [OF assms, of e h] tpcc_run_ok by blast

theorem transactions_keep_consistency_witness:
  "\<exists>m. manager_allocation demo_env (replicate MT_N 0) demo_store = Some m \<and>
     db_ok (tpcc_run [NewOrder 0 1 1 1, Payment 1 1 1 5, StockLevel 1 1 15] m)"
  using transactions_keep_consistency [of "replicate MT_N 0" demo_env demo_store] by simp

text \<open>C35. On a consistent database the new-order transaction never follows a null pointer and returns one. The order gets
  the district's next number, has between 5 and 14 lines, none delivered, and becomes the customer's last
  order; the year-to-date quantity and the order count of each item in stock grow by exactly what the lines of
  this order say; its quantity falls by the pieces ordered, with 91 added as often as it takes to stay in
  11 to 101, and is unchanged if no line names it; no other order, customer or district changes.\<close>

theorem new_order_exact:
  assumes "db_ok m" "w_id = 1" "d_id \<in> {1..10}" "c_id \<in> {1..3000}"
  shows "\<exists>m'. manager_newordertransaction sec w_id d_id c_id m = (Returned 1, m') \<and> db_ok m' \<and> new_order_effect w_id d_id c_id m m'"
  using new_order_in_range [OF assms] .

theorem new_order_exact_witness:
  "\<exists>m m'. manager_allocation demo_env (replicate MT_N 0) demo_store = Some m \<and>
     manager_newordertransaction 0 1 10 3000 m = (Returned 1, m') \<and> new_order_effect 1 10 3000 m m'"
  using filled_database [of "replicate MT_N 0" demo_env demo_store] new_order_exact [of _ 1 10 3000 0] by fastforce

text \<open>C36. After a new order of a customer the order-status transaction reports the order just entered, the one that
  the district's table has under the number given to it and that became the customer's last order
  (\<open>new_order_effect\<close>): what it puts into its buffer \<^verbatim>\<open>result\<close> is the number of the lines and then for each line, in
  order, its item and that it is not delivered. The buffer of fifty entries is large enough. (The comment above
  the function says that the array is returned, or \<^verbatim>\<open>NULL\<close> on error; it is a local variable, and the code returns 1 or
  -1.)\<close>

theorem order_status_after_new_order:
  assumes "db_ok m" "w_id = 1" "d_id \<in> {1..10}" "c_id \<in> {1..3000}"
  shows "\<exists>m' d d'. manager_newordertransaction sec w_id d_id c_id m = (Returned 1, m') \<and>
    districtMap (the (warehouseMap m w_id)) d_id = Some d \<and> districtMap (the (warehouseMap m' w_id)) d_id = Some d' \<and>
    (let ord = o_cells (order_store m') (the (orderMap d' (D_NEXT_O_ID d))) in
     orderMap d (D_NEXT_O_ID d) = None \<and> O_ID ord = D_NEXT_O_ID d \<and> O_C_ID ord = c_id \<and> new_order_effect w_id d_id c_id m m' \<and>
     manager_orderstatustransaction w_id d_id c_id m' =
       (Returned 1, O_OL_CNT ord # concat (map (\<lambda>k. [OL_I_ID (the (order_lines ord k)), 1]) [1..O_OL_CNT ord])))"
proof -
  obtain m' where run: "manager_newordertransaction sec w_id d_id c_id m = (Returned 1, m')" and eff: "new_order_effect w_id d_id c_id m m'"
    using new_order_in_range [OF assms] by blast
  then obtain w d c where w: "warehouseMap m w_id = Some w" and d: "districtMap w d_id = Some d"
    and w': "warehouseMap m' w_id = Some (w\<lparr>districtMap := (districtMap w)(d_id \<mapsto>
         d\<lparr>D_NEXT_O_ID := D_NEXT_O_ID d + 1, orderMap := (orderMap d)(D_NEXT_O_ID d \<mapsto> o_next (order_store m)),
           customerMap := (customerMap d)(c_id \<mapsto> c\<lparr>lastOrder := Some (o_next (order_store m))\<rparr>)\<rparr>)\<rparr>)"
    and ord: "O_ID (o_cells (order_store m') (o_next (order_store m))) = D_NEXT_O_ID d"
      "O_C_ID (o_cells (order_store m') (o_next (order_store m))) = c_id"
    by (auto simp: new_order_effect_def Let_def)
  have "dom (orderMap d) = {1..<D_NEXT_O_ID d}"
    using db_ok_district(1) [of m, OF assms(1) w d] by (simp add: district_ok_def)
  then have "orderMap d (D_NEXT_O_ID d) = None"
    by auto
  then show ?thesis
    using run eff d ord status_of_new_order [OF eff] by (simp add: w w' Let_def)
qed

theorem order_status_after_new_order_witness:
  "\<exists>m m' d d'. manager_allocation demo_env (replicate MT_N 0) demo_store = Some m \<and>
     manager_newordertransaction 0 1 1 7 m = (Returned 1, m') \<and>
     districtMap (the (warehouseMap m 1)) 1 = Some d \<and> districtMap (the (warehouseMap m' 1)) 1 = Some d' \<and>
     (let ord = o_cells (order_store m') (the (orderMap d' (D_NEXT_O_ID d))) in
      O_ID ord = D_NEXT_O_ID d \<and> O_C_ID ord = 7 \<and>
      manager_orderstatustransaction 1 1 7 m' =
        (Returned 1, O_OL_CNT ord # concat (map (\<lambda>k. [OL_I_ID (the (order_lines ord k)), 1]) [1..O_OL_CNT ord])))"
proof -
  obtain m where m: "manager_allocation demo_env (replicate MT_N 0) demo_store = Some m" "db_ok m"
    using filled_database [of "replicate MT_N 0" demo_env demo_store] by auto
  show ?thesis
    using order_status_after_new_order [OF m(2), of 1 1 7 0] m(1) by (auto simp: Let_def)
qed

text \<open>C37. The stock-level transaction is exact: it ends, it never waits for an order that is missing, and it
  counts each of the distinct items of the last twenty orders whose quantity is below the threshold once.
  The only exception is the item 100000, for which it leaves its array: the model stops there with a fault
  and unchanged tables, where the code reads and writes one word past the array. The comment
  above the function announces a failure with rollback in one percent of the calls; the code has none.\<close>

theorem stock_level_exact:
  assumes ok: "db_ok m" and w: "warehouseMap m w_id = Some w" and d: "districtMap w d_id = Some d"
  shows "manager_stockleveltransaction w_id d_id treshold m =
    (let items = recent_items m d {D_NEXT_O_ID d - 20..D_NEXT_O_ID d - 1} in
     if 100000 \<in> items then (Fault OutOfBounds, 0)
     else (Returned 1, int (card {i \<in> items. S_QUANTITY (the (stockMap m i)) < treshold})))"
proof -
  let ?n = "D_NEXT_O_ID d"
  have dok: "district_ok (order_store m) d"
    using db_ok_district(1) [of m, OF ok w d] .
  have "\<exists>p. orderMap d k = Some p \<and> order_ok (o_cells (order_store m) p)" if k: "k \<in> set [?n - 20..?n - 1]" for k
  proof -
    have "k \<in> dom (orderMap d)"
      using k dok by (simp add: district_ok_def)
    then obtain p where "orderMap d k = Some p" by blast
    then show ?thesis
      using dok unfolding district_ok_def order_in_def by blast
  qed
  moreover have "dom (stockMap m) = {1..100000}"
    using ok by (simp add: db_ok_def stock_ok_def)
  ultimately have "stock_orders m d treshold [?n - 20..?n - 1] ({}, 0) =
      (if 100000 \<in> recent_items m d (set [?n - 20..?n - 1]) then Inl OutOfBounds
       else Inr ({} \<union> recent_items m d (set [?n - 20..?n - 1]), low_count (stockMap m) treshold ({} \<union> recent_items m d (set [?n - 20..?n - 1]))))"
    by (intro stock_orders_count) (simp_all add: low_count_def)
  then show ?thesis
    by (simp add: manager_stockleveltransaction_def w d low_count_def Let_def)
qed


theorem stock_level_exact_witness:
  "\<exists>m w d. manager_allocation demo_env (replicate MT_N 0) demo_store = Some m \<and> warehouseMap m 1 = Some w \<and>
     districtMap w 1 = Some d \<and> manager_stockleveltransaction 1 1 15 m =
       (let items = recent_items m d {D_NEXT_O_ID d - 20..D_NEXT_O_ID d - 1} in
        if 100000 \<in> items then (Fault OutOfBounds, 0)
        else (Returned 1, int (card {i \<in> items. S_QUANTITY (the (stockMap m i)) < 15})))"
proof -
  obtain m where m: "manager_allocation demo_env (replicate MT_N 0) demo_store = Some m" "db_ok m"
    using filled_database [of "replicate MT_N 0" demo_env demo_store] by auto
  obtain w d c where p: "warehouseMap m 1 = Some w" "districtMap w 1 = Some d" "customerMap d 1 = Some c"
    by (rule db_ok_path [OF m(2), of 1 1 1]) simp_all
  from stock_level_exact [of m, OF m(2) p(1,2), of 15] m(1) p(1,2) show ?thesis
    by blast
qed

text \<open>C38. The totals stay equal: as long as all amounts are multiples of a power of two \<open>2 ^ k\<close> and everything paid
  fits 24 binary digits of this unit, after any sequence of transactions on the filled database the
  year-to-date total of the warehouse is exactly the sum of the totals of its districts. For amounts in
  whole currency units this holds up to \<open>2 ^ 24\<close>.\<close>

theorem totals_agree:
  assumes "length mem = MT_N" "-5 \<le> k" "k \<le> 4"
    and "\<forall>c \<in> set cs. on_grid k (paid c) \<and> 0 \<le> paid c" "300000 + sum_list (map paid cs) \<le> 2 powi (24 + k)"
  shows "\<exists>m. manager_allocation e mem h = Some m \<and> (\<forall>w \<in> ran (warehouseMap (tpcc_run cs m)). ytd_ok w)"
proof -
  obtain m where m: "manager_allocation e mem h = Some m" "db_ok m" "\<forall>w \<in> ran (warehouseMap m). ytd_ok w \<and>
    W_YTD w = 300000 \<and> (\<forall>d \<in> ran (districtMap w). D_YTD d = 30000)"
    using filled_database [OF assms(1), of e h] by blast
  have grid: "on_grid k 300000" "on_grid k 30000"
    using start_on_grid [OF assms(2,3)] .
  then have "ytd_exact k 300000 (warehouseMap m)"
    using m(3) by (simp add: ytd_exact_def)
  then have "ytd_exact k (300000 + sum_list (map paid cs)) (warehouseMap (tpcc_run cs m))"
    using assms(4,5) by (intro tpcc_run_ytd [OF m(2)]) simp_all
  then show ?thesis
    using m(1) by (auto simp: ytd_exact_def)
qed

theorem totals_agree_witness:
  "\<exists>m. manager_allocation demo_env (replicate MT_N 0) demo_store = Some m \<and>
     (\<forall>w \<in> ran (warehouseMap (tpcc_run [Payment 1 3 5 12, NewOrder 0 1 3 5, Payment 1 4 (-1) 7] m)). ytd_ok w)"
proof -
  have "on_grid 0 12" "on_grid 0 0" "on_grid 0 7"
    unfolding on_grid_def by (rule exI [of _ 12], simp, rule exI [of _ 0], simp, rule exI [of _ 7], simp)
  then show ?thesis
    by (intro totals_agree [where k = 0]) simp_all
qed

section \<open>Where the transactions do not do what they mean to do\<close>

text \<open>Beyond 24 digits a payment is lost on the warehouse and still counted on the district.\<close>

theorem payment_lost_on_warehouse:
  assumes "W_YTD w = 16777216" "districtMap w d_id = Some d" "D_YTD d = 30000" "warehouseMap m w_id = Some w"
    "customerMap d c_id = Some c" "c_id \<noteq> -1"
  shows "\<exists>m' w' d'. manager_paymenttransaction w_id d_id c_id 1 m = (Returned 1, m') \<and> warehouseMap m' w_id = Some w' \<and>
    districtMap w' d_id = Some d' \<and> W_YTD w' = W_YTD w \<and> D_YTD d' = D_YTD d + 1"
proof -
  have "on_grid 0 30000" "on_grid 0 1"
    unfolding on_grid_def by (rule exI [of _ 30000], simp, rule exI [of _ 1], simp)
  then have "fadd 30000 1 = 30001"
    using on_grid_add(2) [of 0 30000 1] by simp
  then show ?thesis
    using assms by (simp add: manager_paymenttransaction_def payment_customer_def put_district_def fadd_loses_one)
qed

text \<open>A payment for a customer number that does not exist asks for a restart and finds the same tables again.\<close>

theorem payment_unknown_customer_restarts:
  assumes "warehouseMap m w_id = Some w" "districtMap w d_id = Some d" "customerMap d c_id = None" "c_id \<noteq> -1"
  shows "manager_paymenttransaction w_id d_id c_id amount m = (Restarted, m)"
  using assms by (simp add: manager_paymenttransaction_def payment_customer_def)

text \<open>No order is ever delivered: the rows of the new-order table name the warehouse zero.\<close>

theorem delivery_delivers_nothing:
  assumes "length mem = MT_N"
  shows "\<exists>m. manager_allocation e mem h = Some m \<and> manager_deliverytransaction sec 1 carrier (tpcc_run cs m) = (Returned 1, tpcc_run cs m)"
  using filled_database [OF assms, of e h] tpcc_run_ok delivery_idle by fastforce

text \<open>A district that does not exist: the lookup returns the last one.\<close>

theorem getdistrict_returns_last:
  assumes "\<And>k. k \<in> {1..10} \<Longrightarrow> \<exists>d. dm k = Some d \<and> D_ID d = k"
  shows "TM_getdistrict dm w_id 11 = dm 10"
proof -
  have "getdistrict_loop dm w_id 11 (ks @ [j]) prev = dm j" if "set (ks @ [j]) \<subseteq> {1..10}" for ks j prev
    using that
  proof (induction ks arbitrary: prev)
    case Nil
    then show ?case using assms [of j] by auto
  next
    case (Cons k ks)
    then show ?case using assms [of k] by auto
  qed
  from this [of "[1..9]" 10] show ?thesis
    by (simp add: TM_getdistrict_def upto_rec1)
qed

end
