(* ===== verification/Rbtree.thy ===== *)
theory Rbtree
  imports Stm_Prelude "HOL-Library.Monad_Syntax" "HOL-Library.Word"
begin

text \<open>
  The red-black tree of the TPC-C server (\<^verbatim>\<open>TPCC/lib/rbtree.c\<close>), which implements its tables through
  \<^verbatim>\<open>map.h\<close>: the operations on nodes linked by pointers to the parent and to both children.

  A node is a cell of the memory \<open>mem\<close>, named by its address; the address zero is the null pointer. Following a
  null pointer gives \<open>None\<close>, and so does a loop that does not end: that an operation returns \<open>Some\<close> says that it
  ends without such a fault. Keys are \<^verbatim>\<open>long\<close>s and values are pointers. \<open>live\<close> is the set of the nodes that
  are allocated. Each function of the file exists twice, with plain and with transactional accesses; as a
  transaction acts as one step, both are modelled by one definition.
\<close>

datatype color = RED | BLACK

abbreviation NULL :: nat where "NULL \<equiv> 0"

record node =
  n_k :: int
  n_v :: nat
  n_p :: nat
  n_l :: nat
  n_r :: nat
  n_c :: color

record rbtree =
  root :: nat
  compare :: "int \<Rightarrow> int \<Rightarrow> int"
  mem :: "nat \<Rightarrow> node"
  live :: "nat set"

text \<open>\<^verbatim>\<open>LDF\<close> and \<^verbatim>\<open>STF\<close>\<close>

definition ldf :: "(node \<Rightarrow> 'a) \<Rightarrow> rbtree \<Rightarrow> nat \<Rightarrow> 'a option" where
  "ldf f s n = (if n = NULL then None else Some (f (mem s n)))"

definition upd_at :: "nat \<Rightarrow> (node \<Rightarrow> node) \<Rightarrow> (nat \<Rightarrow> node) \<Rightarrow> nat \<Rightarrow> node" where
  "upd_at n f m = m(n := f (m n))"

definition stf :: "nat \<Rightarrow> (node \<Rightarrow> node) \<Rightarrow> rbtree \<Rightarrow> rbtree option" where
  "stf n f s = (if n = NULL then None else Some (s\<lparr>mem := upd_at n f (mem s)\<rparr>))"

section \<open>Lookup\<close>

partial_function (option) lookup_loop :: "rbtree \<Rightarrow> int \<Rightarrow> nat \<Rightarrow> nat option" where
  "lookup_loop s k p =
    (if p = NULL then Some NULL
     else do {
       pk \<leftarrow> ldf n_k s p;
       let cmp = compare s k pk;
       if cmp = 0 then Some p
       else do {
         p \<leftarrow> (if cmp < 0 then ldf n_l s p else ldf n_r s p);
         lookup_loop s k p
       }
     })"

definition lookup :: "rbtree \<Rightarrow> int \<Rightarrow> nat option" where
  "lookup s k = lookup_loop s k (root s)"

section \<open>Rotations\<close>

definition rotateLeft :: "rbtree \<Rightarrow> nat \<Rightarrow> rbtree option" where
  "rotateLeft s x = do {
     r \<leftarrow> ldf n_r s x;
     rl \<leftarrow> ldf n_l s r;
     s \<leftarrow> stf x (n_r_update (\<lambda>_. rl)) s;
     s \<leftarrow> (if rl \<noteq> NULL then stf rl (n_p_update (\<lambda>_. x)) s else Some s);
     xp \<leftarrow> ldf n_p s x;
     s \<leftarrow> stf r (n_p_update (\<lambda>_. xp)) s;
     s \<leftarrow> (if xp = NULL then Some (s\<lparr>root := r\<rparr>)
          else do {
            xpl \<leftarrow> ldf n_l s xp;
            if xpl = x then stf xp (n_l_update (\<lambda>_. r)) s else stf xp (n_r_update (\<lambda>_. r)) s
          });
     s \<leftarrow> stf r (n_l_update (\<lambda>_. x)) s;
     stf x (n_p_update (\<lambda>_. r)) s
   }"

definition rotateRight :: "rbtree \<Rightarrow> nat \<Rightarrow> rbtree option" where
  "rotateRight s x = do {
     l \<leftarrow> ldf n_l s x;
     lr \<leftarrow> ldf n_r s l;
     s \<leftarrow> stf x (n_l_update (\<lambda>_. lr)) s;
     s \<leftarrow> (if lr \<noteq> NULL then stf lr (n_p_update (\<lambda>_. x)) s else Some s);
     xp \<leftarrow> ldf n_p s x;
     s \<leftarrow> stf l (n_p_update (\<lambda>_. xp)) s;
     s \<leftarrow> (if xp = NULL then Some (s\<lparr>root := l\<rparr>)
          else do {
            xpr \<leftarrow> ldf n_r s xp;
            if xpr = x then stf xp (n_r_update (\<lambda>_. l)) s else stf xp (n_l_update (\<lambda>_. l)) s
          });
     s \<leftarrow> stf l (n_r_update (\<lambda>_. x)) s;
     stf x (n_p_update (\<lambda>_. l)) s
   }"

section \<open>Accessors that take a null pointer\<close>

definition parentOf :: "rbtree \<Rightarrow> nat \<Rightarrow> nat" where
  "parentOf s n = (if n \<noteq> NULL then n_p (mem s n) else NULL)"

definition leftOf :: "rbtree \<Rightarrow> nat \<Rightarrow> nat" where
  "leftOf s n = (if n \<noteq> NULL then n_l (mem s n) else NULL)"

definition rightOf :: "rbtree \<Rightarrow> nat \<Rightarrow> nat" where
  "rightOf s n = (if n \<noteq> NULL then n_r (mem s n) else NULL)"

definition colorOf :: "rbtree \<Rightarrow> nat \<Rightarrow> color" where
  "colorOf s n = (if n \<noteq> NULL then n_c (mem s n) else BLACK)"

definition setColor :: "nat \<Rightarrow> color \<Rightarrow> rbtree \<Rightarrow> rbtree" where
  "setColor n c s = (if n \<noteq> NULL then s\<lparr>mem := upd_at n (n_c_update (\<lambda>_. c)) (mem s)\<rparr> else s)"

section \<open>Insertion\<close>

definition fix_insertion_left :: "rbtree \<Rightarrow> nat \<Rightarrow> (rbtree \<times> nat) option" where
  "fix_insertion_left s x =
    (let y = rightOf s (parentOf s (parentOf s x)) in
     if colorOf s y = RED then
       (let s = setColor (parentOf s x) BLACK s;
            s = setColor y BLACK s;
            s = setColor (parentOf s (parentOf s x)) RED s in
        Some (s, parentOf s (parentOf s x)))
     else do {
       (s, x) \<leftarrow> (if x = rightOf s (parentOf s x)
                  then do { s' \<leftarrow> rotateLeft s (parentOf s x); Some (s', parentOf s x) }
                  else Some (s, x));
       let s = setColor (parentOf s x) BLACK s;
       let s = setColor (parentOf s (parentOf s x)) RED s;
       s \<leftarrow> (if parentOf s (parentOf s x) \<noteq> NULL then rotateRight s (parentOf s (parentOf s x)) else Some s);
       Some (s, x)
     })"

definition fix_insertion_right :: "rbtree \<Rightarrow> nat \<Rightarrow> (rbtree \<times> nat) option" where
  "fix_insertion_right s x =
    (let y = leftOf s (parentOf s (parentOf s x)) in
     if colorOf s y = RED then
       (let s = setColor (parentOf s x) BLACK s;
            s = setColor y BLACK s;
            s = setColor (parentOf s (parentOf s x)) RED s in
        Some (s, parentOf s (parentOf s x)))
     else do {
       (s, x) \<leftarrow> (if x = leftOf s (parentOf s x)
                  then do { s' \<leftarrow> rotateRight s (parentOf s x); Some (s', parentOf s x) }
                  else Some (s, x));
       let s = setColor (parentOf s x) BLACK s;
       let s = setColor (parentOf s (parentOf s x)) RED s;
       s \<leftarrow> (if parentOf s (parentOf s x) \<noteq> NULL then rotateLeft s (parentOf s (parentOf s x)) else Some s);
       Some (s, x)
     })"

partial_function (option) fix_insertion_loop :: "rbtree \<Rightarrow> nat \<Rightarrow> rbtree option" where
  "fix_insertion_loop s x =
    (if x \<noteq> NULL \<and> x \<noteq> root s then do {
       xp \<leftarrow> ldf n_p s x;
       cp \<leftarrow> ldf n_c s xp;
       if cp \<noteq> RED then Some s
       else do {
         (s, x) \<leftarrow> (if parentOf s x = leftOf s (parentOf s (parentOf s x))
                    then fix_insertion_left s x else fix_insertion_right s x);
         fix_insertion_loop s x
       }
     } else Some s)"

definition fixAfterInsertion :: "rbtree \<Rightarrow> nat \<Rightarrow> rbtree option" where
  "fixAfterInsertion s x = do {
     s \<leftarrow> stf x (n_c_update (\<lambda>_. RED)) s;
     s \<leftarrow> fix_insertion_loop s x;
     c \<leftarrow> ldf n_c s (root s);
     if c \<noteq> BLACK then stf (root s) (n_c_update (\<lambda>_. BLACK)) s else Some s
   }"

text \<open>The node \<open>n\<close> is filled in and hung under \<open>t\<close> by \<open>link\<close>.\<close>

definition insert_at :: "rbtree \<Rightarrow> int \<Rightarrow> nat \<Rightarrow> nat \<Rightarrow> nat \<Rightarrow> (node \<Rightarrow> node) \<Rightarrow> rbtree option" where
  "insert_at s k v n t link = do {
     s \<leftarrow> stf n (n_l_update (\<lambda>_. NULL)) s;
     s \<leftarrow> stf n (n_r_update (\<lambda>_. NULL)) s;
     s \<leftarrow> stf n (n_k_update (\<lambda>_. k)) s;
     s \<leftarrow> stf n (n_v_update (\<lambda>_. v)) s;
     s \<leftarrow> stf n (n_p_update (\<lambda>_. t)) s;
     s \<leftarrow> stf t link s;
     fixAfterInsertion s n
   }"

partial_function (option) insert_loop :: "rbtree \<Rightarrow> int \<Rightarrow> nat \<Rightarrow> nat \<Rightarrow> nat \<Rightarrow> (nat \<times> rbtree) option" where
  "insert_loop s k v n t = do {
     tk \<leftarrow> ldf n_k s t;
     let cmp = compare s k tk;
     if cmp = 0 then Some (t, s)
     else if cmp < 0 then do {
       tl \<leftarrow> ldf n_l s t;
       if tl \<noteq> NULL then insert_loop s k v n tl
       else do { s \<leftarrow> insert_at s k v n t (n_l_update (\<lambda>_. n)); Some (NULL, s) }
     }
     else do {
       tr \<leftarrow> ldf n_r s t;
       if tr \<noteq> NULL then insert_loop s k v n tr
       else do { s \<leftarrow> insert_at s k v n t (n_r_update (\<lambda>_. n)); Some (NULL, s) }
     }
   }"

definition insert_node :: "rbtree \<Rightarrow> int \<Rightarrow> nat \<Rightarrow> nat \<Rightarrow> (nat \<times> rbtree) option" where
  "insert_node s k v n =
    (if root s = NULL then
       (if n = NULL then Some (NULL, s)
        else do {
          s \<leftarrow> stf n (n_l_update (\<lambda>_. NULL)) s;
          s \<leftarrow> stf n (n_r_update (\<lambda>_. NULL)) s;
          s \<leftarrow> stf n (n_p_update (\<lambda>_. NULL)) s;
          s \<leftarrow> stf n (n_k_update (\<lambda>_. k)) s;
          s \<leftarrow> stf n (n_v_update (\<lambda>_. v)) s;
          s \<leftarrow> stf n (n_c_update (\<lambda>_. BLACK)) s;
          Some (NULL, s\<lparr>root := n\<rparr>)
        })
     else insert_loop s k v n (root s))"

section \<open>Deletion\<close>

partial_function (option) leftmost :: "rbtree \<Rightarrow> nat \<Rightarrow> nat option" where
  "leftmost s p = do { pl \<leftarrow> ldf n_l s p; if pl \<noteq> NULL then leftmost s pl else Some p }"

partial_function (option) climb :: "rbtree \<Rightarrow> nat \<Rightarrow> nat \<Rightarrow> nat option" where
  "climb s ch p =
    (if p = NULL then Some p
     else do { pr \<leftarrow> ldf n_r s p; if ch = pr then do { pp \<leftarrow> ldf n_p s p; climb s p pp } else Some p })"

definition successor :: "rbtree \<Rightarrow> nat \<Rightarrow> nat option" where
  "successor s t =
    (if t = NULL then Some NULL
     else do {
       tr \<leftarrow> ldf n_r s t;
       if tr \<noteq> NULL then leftmost s tr else do { tp \<leftarrow> ldf n_p s t; climb s t tp }
     })"

text \<open>One pass of the loop of \<^verbatim>\<open>fixAfterDeletion\<close> for a left child, and for a right child.\<close>

definition fix_deletion_left :: "rbtree \<Rightarrow> nat \<Rightarrow> (rbtree \<times> nat) option" where
  "fix_deletion_left s x = do {
     let sib = rightOf s (parentOf s x);
     (s, sib) \<leftarrow> (if colorOf s sib = RED then do {
         let s = setColor sib BLACK s;
         let s = setColor (parentOf s x) RED s;
         s \<leftarrow> rotateLeft s (parentOf s x);
         Some (s, rightOf s (parentOf s x))
       } else Some (s, sib));
     if colorOf s (leftOf s sib) = BLACK \<and> colorOf s (rightOf s sib) = BLACK then
       (let s = setColor sib RED s in Some (s, parentOf s x))
     else do {
       (s, sib) \<leftarrow> (if colorOf s (rightOf s sib) = BLACK then do {
           let s = setColor (leftOf s sib) BLACK s;
           let s = setColor sib RED s;
           s \<leftarrow> rotateRight s sib;
           Some (s, rightOf s (parentOf s x))
         } else Some (s, sib));
       let s = setColor sib (colorOf s (parentOf s x)) s;
       let s = setColor (parentOf s x) BLACK s;
       let s = setColor (rightOf s sib) BLACK s;
       s \<leftarrow> rotateLeft s (parentOf s x);
       Some (s, root s)
     }
   }"

definition fix_deletion_right :: "rbtree \<Rightarrow> nat \<Rightarrow> (rbtree \<times> nat) option" where
  "fix_deletion_right s x = do {
     let sib = leftOf s (parentOf s x);
     (s, sib) \<leftarrow> (if colorOf s sib = RED then do {
         let s = setColor sib BLACK s;
         let s = setColor (parentOf s x) RED s;
         s \<leftarrow> rotateRight s (parentOf s x);
         Some (s, leftOf s (parentOf s x))
       } else Some (s, sib));
     if colorOf s (rightOf s sib) = BLACK \<and> colorOf s (leftOf s sib) = BLACK then
       (let s = setColor sib RED s in Some (s, parentOf s x))
     else do {
       (s, sib) \<leftarrow> (if colorOf s (leftOf s sib) = BLACK then do {
           let s = setColor (rightOf s sib) BLACK s;
           let s = setColor sib RED s;
           s \<leftarrow> rotateLeft s sib;
           Some (s, leftOf s (parentOf s x))
         } else Some (s, sib));
       let s = setColor sib (colorOf s (parentOf s x)) s;
       let s = setColor (parentOf s x) BLACK s;
       let s = setColor (leftOf s sib) BLACK s;
       s \<leftarrow> rotateRight s (parentOf s x);
       Some (s, root s)
     }
   }"

partial_function (option) fix_deletion_loop :: "rbtree \<Rightarrow> nat \<Rightarrow> (rbtree \<times> nat) option" where
  "fix_deletion_loop s x =
    (if x \<noteq> root s \<and> colorOf s x = BLACK then do {
       (s, x) \<leftarrow> (if x = leftOf s (parentOf s x) then fix_deletion_left s x else fix_deletion_right s x);
       fix_deletion_loop s x
     } else Some (s, x))"

definition fixAfterDeletion :: "rbtree \<Rightarrow> nat \<Rightarrow> rbtree option" where
  "fixAfterDeletion s x = do {
     (s, x) \<leftarrow> fix_deletion_loop s x;
     if x \<noteq> NULL \<and> n_c (mem s x) \<noteq> BLACK then stf x (n_c_update (\<lambda>_. BLACK)) s else Some s
   }"

definition delete_node :: "rbtree \<Rightarrow> nat \<Rightarrow> (nat \<times> rbtree) option" where
  "delete_node s p = do {
     pl \<leftarrow> ldf n_l s p;
     pr \<leftarrow> ldf n_r s p;
     (s, p) \<leftarrow> (if pl \<noteq> NULL \<and> pr \<noteq> NULL then do {
         q \<leftarrow> successor s p;
         qk \<leftarrow> ldf n_k s q;
         s \<leftarrow> stf p (n_k_update (\<lambda>_. qk)) s;
         qv \<leftarrow> ldf n_v s q;
         s \<leftarrow> stf p (n_v_update (\<lambda>_. qv)) s;
         Some (s, q)
       } else Some (s, p));
     pl \<leftarrow> ldf n_l s p;
     replacement \<leftarrow> (if pl \<noteq> NULL then Some pl else ldf n_r s p);
     pp \<leftarrow> ldf n_p s p;
     if replacement \<noteq> NULL then do {
       s \<leftarrow> stf replacement (n_p_update (\<lambda>_. pp)) s;
       pp \<leftarrow> ldf n_p s p;
       s \<leftarrow> (if pp = NULL then Some (s\<lparr>root := replacement\<rparr>)
            else do {
              ppl \<leftarrow> ldf n_l s pp;
              if p = ppl then stf pp (n_l_update (\<lambda>_. replacement)) s else stf pp (n_r_update (\<lambda>_. replacement)) s
            });
       s \<leftarrow> stf p (n_l_update (\<lambda>_. NULL)) s;
       s \<leftarrow> stf p (n_r_update (\<lambda>_. NULL)) s;
       s \<leftarrow> stf p (n_p_update (\<lambda>_. NULL)) s;
       c \<leftarrow> ldf n_c s p;
       s \<leftarrow> (if c = BLACK then fixAfterDeletion s replacement else Some s);
       Some (p, s)
     }
     else if pp = NULL then Some (p, s\<lparr>root := NULL\<rparr>)
     else do {
       c \<leftarrow> ldf n_c s p;
       s \<leftarrow> (if c = BLACK then fixAfterDeletion s p else Some s);
       pp \<leftarrow> ldf n_p s p;
       s \<leftarrow> (if pp \<noteq> NULL then do {
           ppl \<leftarrow> ldf n_l s pp;
           ppr \<leftarrow> ldf n_r s pp;
           s \<leftarrow> (if p = ppl then stf pp (n_l_update (\<lambda>_. NULL)) s
                else if p = ppr then stf pp (n_r_update (\<lambda>_. NULL)) s else Some s);
           stf p (n_p_update (\<lambda>_. NULL)) s
         } else Some s);
       Some (p, s)
     }
   }"

section \<open>The operations of the interface\<close>

text \<open>\<^verbatim>\<open>(long)a - (long)b\<close>, which wraps around for keys that are far apart.\<close>

definition compareKeysDefault :: "int \<Rightarrow> int \<Rightarrow> int" where
  "compareKeysDefault a b = sint (word_of_int (a - b) :: 64 word)"

definition rbtree_alloc :: "(int \<Rightarrow> int \<Rightarrow> int) option \<Rightarrow> (nat \<Rightarrow> node) \<Rightarrow> nat set \<Rightarrow> rbtree" where
  "rbtree_alloc cmp m lv =
    \<lparr>root = NULL, compare = (case cmp of Some f \<Rightarrow> f | None \<Rightarrow> compareKeysDefault), mem = m, live = lv\<rparr>"

text \<open>
  \<open>getNode n\<close> is the call of \<^verbatim>\<open>malloc\<close> that returns \<open>n\<close>. \<open>releaseNode\<close> takes a node out of the set of
  allocated ones; releasing a node twice, or reading one after its release, is not an error of the
  model.
\<close>

definition getNode :: "nat \<Rightarrow> rbtree \<Rightarrow> rbtree" where
  "getNode n s = (if n = NULL then s else s\<lparr>live := insert n (live s)\<rparr>)"

definition releaseNode :: "nat \<Rightarrow> rbtree \<Rightarrow> rbtree" where
  "releaseNode n s = s\<lparr>live := live s - {n}\<rparr>"

definition rbtree_insert :: "nat \<Rightarrow> rbtree \<Rightarrow> int \<Rightarrow> nat \<Rightarrow> (bool \<times> rbtree) option" where
  "rbtree_insert n s key val = do {
     (ex, s) \<leftarrow> insert_node (getNode n s) key val n;
     Some (ex = NULL, if ex \<noteq> NULL then releaseNode n s else s)
   }"

definition rbtree_delete :: "rbtree \<Rightarrow> int \<Rightarrow> (bool \<times> rbtree) option" where
  "rbtree_delete s key = do {
     n \<leftarrow> lookup s key;
     (n, s) \<leftarrow> (if n \<noteq> NULL then delete_node s n else Some (n, s));
     Some (n \<noteq> NULL, if n \<noteq> NULL then releaseNode n s else s)
   }"

definition rbtree_update :: "nat \<Rightarrow> rbtree \<Rightarrow> int \<Rightarrow> nat \<Rightarrow> (bool \<times> rbtree) option" where
  "rbtree_update n s key val = do {
     (ex, s) \<leftarrow> insert_node (getNode n s) key val n;
     if ex \<noteq> NULL then do { s \<leftarrow> stf ex (n_v_update (\<lambda>_. val)) s; Some (True, releaseNode n s) }
     else Some (False, s)
   }"

definition rbtree_get :: "rbtree \<Rightarrow> int \<Rightarrow> nat option" where
  "rbtree_get s key = do { n \<leftarrow> lookup s key; if n \<noteq> NULL then ldf n_v s n else Some NULL }"

definition rbtree_contains :: "rbtree \<Rightarrow> int \<Rightarrow> bool option" where
  "rbtree_contains s key = do { n \<leftarrow> lookup s key; Some (n \<noteq> NULL) }"

partial_function (option) freeNode :: "nat \<Rightarrow> rbtree \<Rightarrow> rbtree option" where
  "freeNode n s =
    (if n \<noteq> NULL then do {
       s \<leftarrow> freeNode (n_l (mem s n)) s;
       s \<leftarrow> freeNode (n_r (mem s n)) s;
       Some (releaseNode n s)
     } else Some s)"

definition rbtree_free :: "rbtree \<Rightarrow> rbtree option" where
  "rbtree_free s = freeNode (root s) s"

section \<open>The integrity check\<close>

text \<open>\<^verbatim>\<open>verifyRedBlack\<close> returns the black height, or zero, with the messages it prints, without their arguments.\<close>

definition complain :: "bool \<Rightarrow> string \<Rightarrow> string list" where
  "complain b msg = (if b then [msg] else [])"

definition wrong_parent :: "rbtree \<Rightarrow> nat \<Rightarrow> nat \<Rightarrow> bool" where
  "wrong_parent s n child \<longleftrightarrow> child \<noteq> NULL \<and> n_p (mem s child) \<noteq> n"

partial_function (option) verifyRedBlack :: "rbtree \<Rightarrow> nat \<Rightarrow> (int \<times> string list) option" where
  "verifyRedBlack s n =
    (if n = NULL then Some (1, [])
     else do {
       let nd = mem s n;
       (height_left, out_left) \<leftarrow> verifyRedBlack s (n_l nd);
       (height_right, out_right) \<leftarrow> verifyRedBlack s (n_r nd);
       if height_left = 0 \<or> height_right = 0 then Some (0, out_left @ out_right)
       else do {
         let out = out_left @ out_right @ complain (height_left \<noteq> height_right) ''Imbalance'' @
           complain (wrong_parent s n (n_l nd)) ''lineage'' @ complain (wrong_parent s n (n_r nd)) ''lineage'';
         if n_c nd = RED then
           (if n_l nd \<noteq> NULL \<and> n_c (mem s (n_l nd)) \<noteq> BLACK then Some (0, out @ [''VERIFY''])
            else if n_r nd \<noteq> NULL \<and> n_c (mem s (n_r nd)) \<noteq> BLACK then Some (0, out @ [''VERIFY''])
            else Some (height_left, out))
         else Some (height_left + 1, out)
       }
     })"

definition firstEntry :: "rbtree \<Rightarrow> nat option" where
  "firstEntry s = (if root s \<noteq> NULL then leftmost s (root s) else Some NULL)"

partial_function (option) verify_order :: "rbtree \<Rightarrow> nat \<Rightarrow> string list \<Rightarrow> (bool \<times> string list) option" where
  "verify_order s its out =
    (if its = NULL then Some (True, out)
     else do {
       let out = out @ complain (wrong_parent s its (n_l (mem s its))) ''Bad parent'' @
         complain (wrong_parent s its (n_r (mem s its))) ''Bad parent'';
       nxt \<leftarrow> successor s its;
       if nxt = NULL then Some (True, out)
       else if compare s (n_k (mem s its)) (n_k (mem s nxt)) \<ge> 0 then Some (False, out @ [''Key order''])
       else verify_order s nxt out
     })"

text \<open>\<^verbatim>\<open>rbtree_verify\<close> with \<^verbatim>\<open>verbose\<close> off.\<close>

definition rbtree_verify :: "rbtree \<Rightarrow> (int \<times> string list) option" where
  "rbtree_verify s =
    (if root s = NULL then Some (1, [])
     else if n_p (mem s (root s)) \<noteq> NULL then Some (-1, [''WARNING parent''])
     else do {
       let out = complain (n_c (mem s (root s)) \<noteq> BLACK) ''WARNING color'';
       its \<leftarrow> firstEntry s;
       (ordered, out) \<leftarrow> verify_order s its out;
       if \<not> ordered then Some (-3, out)
       else do {
         (vfy, out') \<leftarrow> verifyRedBlack s (root s);
         Some (vfy, out @ out')
       }
     })"

end
