(* ===== verification/Rb_Shape.thy ===== *)
theory Rb_Shape
  imports Rbtree
begin

text \<open>
  The red-black tree as a value: a tree whose nodes carry the address, the key and the value of a cell, and a
  path from a node up to the root. The two repair procedures of \<^verbatim>\<open>rbtree.c\<close> are written here once
  more as functions on such paths; \<open>Rb_Refine\<close> shows that the pointer operations compute them. This theory
  shows that the functions keep the order of the entries and restore the colour and height conditions.
\<close>

section \<open>Trees and paths\<close>

type_synonym entry = "nat \<times> int \<times> nat"

datatype rbt = Lf | Nd rbt color entry rbt

text \<open>\<open>CL c col e r\<close> is the path to the left child of \<open>e\<close>, whose right child is \<open>r\<close> and whose own path is \<open>c\<close>.\<close>

datatype path = Top | CL path color entry rbt | CR rbt color entry path

fun plug :: "path \<Rightarrow> rbt \<Rightarrow> rbt" where
  "plug Top t = t"
| "plug (CL c col e r) t = plug c (Nd t col e r)"
| "plug (CR l col e c) t = plug c (Nd l col e t)"

fun color_of :: "rbt \<Rightarrow> color" where
  "color_of Lf = BLACK"
| "color_of (Nd l c e r) = c"

fun paint :: "color \<Rightarrow> rbt \<Rightarrow> rbt" where
  "paint c Lf = Lf"
| "paint c (Nd l _ e r) = Nd l c e r"

fun ents :: "rbt \<Rightarrow> entry list" where
  "ents Lf = []"
| "ents (Nd l c e r) = ents l @ e # ents r"

fun before :: "path \<Rightarrow> entry list" where
  "before Top = []"
| "before (CL c col e r) = before c"
| "before (CR l col e c) = before c @ ents l @ [e]"

fun after :: "path \<Rightarrow> entry list" where
  "after Top = []"
| "after (CL c col e r) = e # ents r @ after c"
| "after (CR l col e c) = after c"

lemma ents_plug [simp]: "ents (plug c t) = before c @ ents t @ after c"
  by (induction c t rule: plug.induct) simp_all

lemma ents_paint [simp]: "ents (paint c t) = ents t"
  by (cases t) simp_all

lemma color_paint [simp]: "t \<noteq> Lf \<Longrightarrow> color_of (paint c t) = c"
  by (cases t) simp_all

lemma color_paint_BLACK [simp]: "color_of (paint BLACK t) = BLACK"
  by (cases t) simp_all

lemma color_neq [simp]: "c \<noteq> RED \<longleftrightarrow> c = BLACK" "c \<noteq> BLACK \<longleftrightarrow> c = RED"
  by (cases c; simp)+

text \<open>One path put on top of another.\<close>

fun join_path :: "path \<Rightarrow> path \<Rightarrow> path" where
  "join_path Top c = c"
| "join_path (CL d col e r) c = CL (join_path d c) col e r"
| "join_path (CR l col e d) c = CR l col e (join_path d c)"

lemma plug_join: "plug (join_path d c) t = plug c (plug d t)"
  by (induction d arbitrary: t) simp_all

section \<open>Left and right exchanged\<close>

fun mir :: "rbt \<Rightarrow> rbt" where
  "mir Lf = Lf"
| "mir (Nd l c e r) = Nd (mir r) c e (mir l)"

fun mirp :: "path \<Rightarrow> path" where
  "mirp Top = Top"
| "mirp (CL c col e r) = CR (mir r) col e (mirp c)"
| "mirp (CR l col e c) = CL (mirp c) col e (mir l)"

lemma mir_mir [simp]: "mir (mir t) = t"
  by (induction t) simp_all

lemma mirp_mirp [simp]: "mirp (mirp c) = c"
  by (induction c) simp_all

lemma mir_plug: "mir (plug c t) = plug (mirp c) (mir t)"
  by (induction c t rule: plug.induct) simp_all

lemma color_mir [simp]: "color_of (mir t) = color_of t"
  by (cases t) simp_all

lemma mir_paint: "mir (paint c t) = paint c (mir t)"
  by (cases t) simp_all

section \<open>Colours and heights\<close>

fun bheight :: "rbt \<Rightarrow> nat" where
  "bheight Lf = 0"
| "bheight (Nd l c e r) = bheight l + (if c = BLACK then 1 else 0)"

text \<open>Equal black heights and no red node with a red child, below a node of the colour \<open>p\<close>.\<close>

fun valid :: "color \<Rightarrow> rbt \<Rightarrow> bool" where
  "valid p Lf = True"
| "valid p (Nd l c e r) = ((p = RED \<longrightarrow> c = BLACK) \<and> bheight l = bheight r \<and> valid c l \<and> valid c r)"

text \<open>The same for a path, into whose hole a tree of black height \<open>n\<close> fits. Above the root is red: the root
  is black.\<close>

fun top_color :: "path \<Rightarrow> color" where
  "top_color Top = RED"
| "top_color (CL c col e r) = col"
| "top_color (CR l col e c) = col"

fun fits :: "nat \<Rightarrow> path \<Rightarrow> bool" where
  "fits n Top = True"
| "fits n (CL c col e r) = ((top_color c = RED \<longrightarrow> col = BLACK) \<and> bheight r = n \<and> valid col r \<and>
     fits (n + (if col = BLACK then 1 else 0)) c)"
| "fits n (CR l col e c) = ((top_color c = RED \<longrightarrow> col = BLACK) \<and> bheight l = n \<and> valid col l \<and>
     fits (n + (if col = BLACK then 1 else 0)) c)"

definition rb_ok :: "rbt \<Rightarrow> bool" where
  "rb_ok t \<longleftrightarrow> valid RED t"

lemma valid_plug: "valid RED (plug c t) \<longleftrightarrow> valid (top_color c) t \<and> fits (bheight t) c"
  by (induction c t rule: plug.induct) auto

lemma valid_black: "valid p t \<Longrightarrow> valid BLACK t"
  by (cases t) simp_all

lemma valid_red: "valid p t \<Longrightarrow> color_of t = BLACK \<Longrightarrow> valid q t"
  by (cases t) simp_all

lemma valid_RED_iff: "valid RED t \<longleftrightarrow> valid BLACK t \<and> color_of t = BLACK"
  by (cases t) auto

lemma bheight_mir [simp]: "valid p t \<Longrightarrow> bheight (mir t) = bheight t"
  by (induction t arbitrary: p) auto

lemma valid_mir [simp]: "valid p (mir t) = valid p t"
proof -
  have "valid p t \<Longrightarrow> valid p (mir t)" for p t
    by (induction t arbitrary: p) auto
  then show ?thesis by (metis mir_mir)
qed

lemma top_color_mirp [simp]: "top_color (mirp c) = top_color c"
  by (cases c) simp_all

lemma fits_mirp: "fits n c \<Longrightarrow> fits n (mirp c)"
  by (induction c arbitrary: n) auto

section \<open>The repair after an insertion\<close>

text \<open>\<open>t\<close> is a red node at the end of the path.\<close>

fun insfix :: "path \<Rightarrow> rbt \<Rightarrow> rbt" where
  "insfix (CL (CL c gc g u) RED p s) t =
    (if color_of u = RED then insfix c (Nd (Nd t BLACK p s) RED g (paint BLACK u))
     else plug c (Nd t BLACK p (Nd s RED g u)))"
| "insfix (CR s RED p (CL c gc g u)) t =
    (if color_of u = RED then insfix c (Nd (Nd s BLACK p t) RED g (paint BLACK u))
     else (case t of Lf \<Rightarrow> Lf | Nd t1 tc x t2 \<Rightarrow> plug c (Nd (Nd s RED p t1) BLACK x (Nd t2 RED g u))))"
| "insfix (CR s RED p (CR u gc g c)) t =
    (if color_of u = RED then insfix c (Nd (paint BLACK u) RED g (Nd s BLACK p t))
     else plug c (Nd (Nd u RED g s) BLACK p t))"
| "insfix (CL (CR u gc g c) RED p s) t =
    (if color_of u = RED then insfix c (Nd (paint BLACK u) RED g (Nd t BLACK p s))
     else (case t of Lf \<Rightarrow> Lf | Nd t1 tc x t2 \<Rightarrow> plug c (Nd (Nd u RED g t1) BLACK x (Nd t2 RED p s))))"
| "insfix c t = plug c t"

lemma bheight_paint_RED: "color_of u = RED \<Longrightarrow> bheight (paint BLACK u) = bheight u + 1"
  by (cases u) simp_all

lemma valid_paint_BLACK: "valid p u \<Longrightarrow> valid q (paint BLACK u)"
  by (cases u) (auto intro: valid_black)

lemma rb_ok_plug: "valid (top_color c) t \<Longrightarrow> fits (bheight t) c \<Longrightarrow> rb_ok (paint BLACK (plug c t))"
  using valid_plug [of c t] valid_paint_BLACK by (simp add: rb_ok_def)

lemma rb_ok_plug': "valid (top_color c) t \<Longrightarrow> fits (bheight t) c \<Longrightarrow> rb_ok (plug c t)"
  using valid_plug [of c t] by (simp add: rb_ok_def)

lemma rb_ok_paint: "valid BLACK t \<Longrightarrow> rb_ok (paint BLACK t)"
  using valid_paint_BLACK by (simp add: rb_ok_def)

lemma rb_ok_mir [simp]: "rb_ok (mir t) = rb_ok t"
  by (simp add: rb_ok_def)

lemma rb_ok_Nd: "rb_ok (Nd l c e r) \<longleftrightarrow> c = BLACK \<and> bheight l = bheight r \<and> valid BLACK l \<and> valid BLACK r"
  by (auto simp: rb_ok_def)

lemmas valid_simps = bheight_paint_RED valid_paint_BLACK valid_RED_iff

text \<open>After the repair and the painting of the root, the tree is in order again.\<close>

lemma insfix_valid:
  assumes "valid BLACK t" "color_of t = RED" "fits (bheight t) c"
  shows "rb_ok (paint BLACK (insfix c t))"
  using assms
proof (induction c t rule: insfix.induct)
  case (1 c gc g u p s t)
  then show ?case
    by (cases "color_of u = RED") (auto intro!: rb_ok_plug "1.IH" simp: valid_simps dest: valid_black)
next
  case (2 s p c gc g u t)
  then show ?case
    by (cases t; cases "color_of u = RED") (auto intro!: rb_ok_plug "2.IH" simp: valid_simps dest: valid_black)
next
  case (3 s p u gc g c t)
  then show ?case
    by (cases "color_of u = RED") (auto intro!: rb_ok_plug "3.IH" simp: valid_simps dest: valid_black)
next
  case (4 u gc g c p s t)
  then show ?case
    by (cases t; cases "color_of u = RED") (auto intro!: rb_ok_plug "4.IH" simp: valid_simps dest: valid_black)
qed (auto intro!: rb_ok_plug simp: rb_ok_paint rb_ok_Nd)

lemma ents_insfix:
  assumes "t \<noteq> Lf"
  shows "ents (insfix c t) = before c @ ents t @ after c"
  using assms by (induction c t rule: insfix.induct) (auto split: rbt.splits)

section \<open>The repair after a deletion\<close>

text \<open>\<open>t\<close> is one black node short. The right sibling of a left child is black in \<open>delfixL\<close>.\<close>

fun nephews_black :: "rbt \<Rightarrow> bool" where
  "nephews_black Lf = True"
| "nephews_black (Nd a c e b) = (color_of a = BLACK \<and> color_of b = BLACK)"

text \<open>The rotations at the end, for a sibling with a red child.\<close>

fun turnL :: "rbt \<Rightarrow> color \<Rightarrow> entry \<Rightarrow> rbt \<Rightarrow> rbt" where
  "turnL t pc p (Nd a sc e b) =
    (if color_of b = BLACK
     then (case a of Lf \<Rightarrow> Lf | Nd a1 ac n a2 \<Rightarrow> Nd (Nd t BLACK p a1) pc n (Nd a2 BLACK e b))
     else Nd (Nd t BLACK p a) pc e (paint BLACK b))"
| "turnL t pc p Lf = Lf"

fun turnR :: "rbt \<Rightarrow> color \<Rightarrow> entry \<Rightarrow> rbt \<Rightarrow> rbt" where
  "turnR t pc p (Nd b sc e a) =
    (if color_of b = BLACK
     then (case a of Lf \<Rightarrow> Lf | Nd a2 ac n a1 \<Rightarrow> Nd (Nd b BLACK e a2) pc n (Nd a1 BLACK p t))
     else Nd (paint BLACK b) pc e (Nd a BLACK p t))"
| "turnR t pc p Lf = Lf"

fun delfix :: "path \<Rightarrow> rbt \<Rightarrow> rbt" where
  "delfix Top t = paint BLACK t"
| "delfix (CL c pc p sib) t =
    (if color_of t = RED then plug (CL c pc p sib) (paint BLACK t)
     else if color_of sib = RED
     then (case sib of Lf \<Rightarrow> Lf | Nd a sc e b \<Rightarrow>
       if nephews_black a then plug (CL c BLACK e b) (Nd t BLACK p (paint RED a))
       else plug (CL c BLACK e b) (turnL t RED p a))
     else if nephews_black sib then delfix c (Nd t pc p (paint RED sib))
     else plug c (turnL t pc p sib))"
| "delfix (CR sib pc p c) t =
    (if color_of t = RED then plug (CR sib pc p c) (paint BLACK t)
     else if color_of sib = RED
     then (case sib of Lf \<Rightarrow> Lf | Nd b sc e a \<Rightarrow>
       if nephews_black a then plug (CR b BLACK e c) (Nd (paint RED a) BLACK p t)
       else plug (CR b BLACK e c) (turnR t RED p a))
     else if nephews_black sib then delfix c (Nd (paint RED sib) pc p t)
     else plug c (turnR t pc p sib))"


lemma bheight_paint_BLACK: "color_of u = BLACK \<Longrightarrow> paint BLACK u = u"
  by (cases u) simp_all

lemma turnL_valid:
  assumes "valid BLACK t" "color_of t = BLACK" "bheight sib = bheight t + 1" "valid pc sib" "color_of sib = BLACK"
    "\<not> nephews_black sib"
  shows "valid BLACK (turnL t pc p sib) \<and> color_of (turnL t pc p sib) = pc \<and>
    bheight (turnL t pc p sib) = bheight t + 1 + (if pc = BLACK then 1 else 0)"
proof (cases sib)
  case (Nd a sc e b)
  then show ?thesis
    using assms by (cases a; cases "color_of b = BLACK"; cases pc) (auto simp: valid_simps dest: valid_black)
qed (use assms in simp)

lemma nephews_mir [simp]: "nephews_black (mir t) = nephews_black t"
  by (cases t) auto

lemma turn_mir: "turnR (mir t) pc p (mir sib) = mir (turnL t pc p sib)"
  by (cases sib) (auto simp: mir_paint split: rbt.splits)

lemma turn_mir': "turnL (mir t) pc p (mir sib) = mir (turnR t pc p sib)"
  using turn_mir [of "mir t" pc p "mir sib"] by simp

lemma delfix_mir: "delfix (mirp c) (mir t) = mir (delfix c t)"
  by (induction c t rule: delfix.induct)
    (auto simp: mir_paint mir_plug turn_mir turn_mir' split: rbt.splits)

lemma delfix_CR: "delfix (CR sib pc p c) t = mir (delfix (CL (mirp c) pc p (mir sib)) (mir t))"
  using delfix_mir [of "CL (mirp c) pc p (mir sib)" "mir t"] by simp

lemma delfix_valid_CL:
  assumes IH: "\<And>t. valid BLACK (paint BLACK t) \<Longrightarrow> fits (bheight t + 1) c \<Longrightarrow> rb_ok (delfix c t)"
    and t: "valid BLACK (paint BLACK t)" and c: "fits (bheight t + 1) (CL c pc p sib)"
  shows "rb_ok (delfix (CL c pc p sib) t)"
proof -
  have par: "top_color c = RED \<longrightarrow> pc = BLACK" and sib: "bheight sib = bheight t + 1" "valid pc sib"
    and up: "fits (bheight t + 1 + (if pc = BLACK then 1 else 0)) c"
    using c by simp_all
  consider "color_of t = RED" | "color_of t = BLACK" "color_of sib = RED" | "color_of t = BLACK" "color_of sib = BLACK" "nephews_black sib"
    | "color_of t = BLACK" "color_of sib = BLACK" "\<not> nephews_black sib" by (metis color_neq(1))
  then show ?thesis
  proof cases
    case 1
    then show ?thesis
      using t par sib up by (cases pc) (auto intro!: rb_ok_plug' simp: valid_simps)
  next
    case 2
    then obtain a e b where s: "sib = Nd a RED e b" by (cases sib) auto
    have pc: "pc = BLACK" and ab: "valid RED a" "valid RED b" "bheight a = bheight t + 1" "bheight b = bheight t + 1"
      using sib s by auto
    have vt: "valid BLACK t"
      using t 2(1) by (simp add: bheight_paint_BLACK)
    show ?thesis
    proof (cases "nephews_black a")
      case True
      then show ?thesis
        using 2 s ab vt up pc by (cases a) (auto intro!: rb_ok_plug' simp: valid_simps)
    next
      case False
      then show ?thesis
        using 2 s ab vt up pc turnL_valid [of t a RED p] by (auto intro!: rb_ok_plug' simp: valid_simps)
    qed
  next
    case 3
    have "valid BLACK t" "valid BLACK (Nd t BLACK p (paint RED sib))" "bheight (paint RED sib) = bheight t"
      using t 3 sib by (cases sib; auto simp: bheight_paint_BLACK valid_RED_iff dest: valid_black)+
    then show ?thesis
      using 3 up IH [of "Nd t pc p (paint RED sib)"] by simp
  next
    case 4
    then show ?thesis
      using t par sib up turnL_valid [of t sib pc p]
      by (cases pc) (auto intro!: rb_ok_plug' intro: valid_red simp: bheight_paint_BLACK valid_RED_iff)
  qed
qed

lemma delfix_valid: "valid BLACK (paint BLACK t) \<Longrightarrow> fits (bheight t + 1) c \<Longrightarrow> rb_ok (delfix c t)"
proof (induction c arbitrary: t)
  case Top
  then show ?case by (simp add: rb_ok_def valid_RED_iff)
next
  case (CL c pc p sib)
  then show ?case using delfix_valid_CL by blast
next
  case (CR sib pc p c)
  have IH: "rb_ok (delfix (mirp c) t')" if "valid BLACK (paint BLACK t')" "fits (bheight t' + 1) (mirp c)" for t'
  proof -
    have v: "valid BLACK (paint BLACK (mir t'))"
      using that(1) by (simp flip: mir_paint)
    have "bheight (mir t') = bheight t'"
      using that(1) by (cases t') (auto dest: bheight_mir)
    then have "rb_ok (delfix c (mir t'))"
      using CR.IH [OF v] fits_mirp [OF that(2)] by simp
    then show ?thesis
      using delfix_mir [of c "mir t'"] by simp
  qed
  have "valid BLACK (paint BLACK (mir t))"
    using CR.prems(1) by (simp flip: mir_paint)
  moreover have "bheight (mir t) = bheight t"
    using CR.prems(1) by (cases t) (auto dest: bheight_mir)
  moreover have "fits (bheight t + 1) (mirp (CR sib pc p c))"
    using CR.prems(2) by (rule fits_mirp)
  ultimately show ?case
    unfolding delfix_CR rb_ok_mir by (intro delfix_valid_CL IH) simp_all
qed

lemma ents_turnL: "\<not> nephews_black sib \<Longrightarrow> ents (turnL t pc p sib) = ents t @ p # ents sib"
  by (cases sib) (auto split: rbt.splits)

lemma ents_turnR: "\<not> nephews_black sib \<Longrightarrow> ents (turnR t pc p sib) = ents sib @ p # ents t"
  by (cases sib) (auto split: rbt.splits)

lemma ents_delfix: "ents (delfix c t) = before c @ ents t @ after c"
  by (induction c t rule: delfix.induct) (auto simp: ents_turnL ents_turnR split: rbt.splits)

text \<open>The repair treats the subtree that it starts from as a block: the node to be deleted can stay there
  until the end.\<close>

lemma delfix_red: "color_of t = RED \<Longrightarrow> delfix c t = plug c (paint BLACK t)"
  by (cases c) simp_all

lemma turnL_frame: "\<not> nephews_black sib \<Longrightarrow> \<exists>d. d \<noteq> Top \<and> (\<forall>t. turnL t pc p sib = plug d t)"
proof (cases sib)
  case (Nd a sc e b)
  assume n: "\<not> nephews_black sib"
  show ?thesis
  proof (cases "color_of b = BLACK")
    case True
    then obtain a1 ac m a2 where "a = Nd a1 ac m a2"
      using n Nd by (cases a) auto
    then show ?thesis
      using True Nd by (intro exI [of _ "CL (CL Top pc m (Nd a2 BLACK e b)) BLACK p a1"]) simp
  next
    case False
    then show ?thesis
      using Nd by (intro exI [of _ "CL (CL Top pc e (paint BLACK b)) BLACK p a"]) simp
  qed
qed simp

definition framed :: "path \<Rightarrow> bool" where
  "framed c \<longleftrightarrow> (\<exists>d. (d = Top \<longleftrightarrow> c = Top) \<and> (\<forall>t. color_of t = BLACK \<longrightarrow> delfix c t = plug d t))"

lemma framed_CL:
  assumes "framed c"
  shows "framed (CL c pc p sib)"
proof -
  obtain d where d: "\<And>t. color_of t = BLACK \<Longrightarrow> delfix c t = plug d t"
    using assms by (auto simp: framed_def)
  have "\<exists>d'. d' \<noteq> Top \<and> (\<forall>t. color_of t = BLACK \<longrightarrow> delfix (CL c pc p sib) t = plug d' t)"
  proof (cases "color_of sib = RED")
    case True
    then obtain a e b where s: "sib = Nd a RED e b" by (cases sib) auto
    show ?thesis
    proof (cases "nephews_black a")
      case True
      then show ?thesis
        using s by (intro exI [of _ "CL (CL c BLACK e b) BLACK p (paint RED a)"]) simp
    next
      case False
      then obtain f where "f \<noteq> Top" "\<And>t. turnL t RED p a = plug f t" using turnL_frame by blast
      then show ?thesis
        using s False by (intro exI [of _ "join_path f (CL c BLACK e b)"]) (cases f; simp add: plug_join)
    qed
  next
    case False
    show ?thesis
    proof (cases "nephews_black sib")
      case True
      show ?thesis
      proof (cases pc)
        case RED
        then show ?thesis
          using False True by (intro exI [of _ "CL c BLACK p (paint RED sib)"]) (simp add: delfix_red)
      next
        case BLACK
        then show ?thesis
          using False True d by (intro exI [of _ "CL d BLACK p (paint RED sib)"]) simp
      qed
    next
      case nb: False
      then obtain f where "f \<noteq> Top" "\<And>t. turnL t pc p sib = plug f t" using turnL_frame by blast
      then show ?thesis
        using False nb by (intro exI [of _ "join_path f c"]) (cases f; simp add: plug_join)
    qed
  qed
  then show ?thesis by (auto simp: framed_def)
qed

lemma framed_mir: "framed c \<Longrightarrow> framed (mirp c)"
proof -
  assume "framed c"
  then obtain d where d: "d = Top \<longleftrightarrow> c = Top" "\<And>t. color_of t = BLACK \<Longrightarrow> delfix c t = plug d t"
    by (auto simp: framed_def)
  have "delfix (mirp c) t = plug (mirp d) t" if "color_of t = BLACK" for t
    using d(2) [of "mir t"] delfix_mir [of c "mir t"] mir_plug [of d "mir t"] that by simp
  moreover have "mirp d = Top \<longleftrightarrow> mirp c = Top"
    using d(1) by (cases d; cases c) simp_all
  ultimately show ?thesis by (auto simp: framed_def)
qed

lemma framed_all: "framed c"
proof (induction c)
  case Top
  then show ?case
    by (auto simp: framed_def bheight_paint_BLACK intro!: exI [of _ Top])
next
  case (CL c pc p sib)
  then show ?case by (rule framed_CL)
next
  case (CR sib pc p c)
  then have "framed (CL (mirp c) pc p (mir sib))"
    by (intro framed_CL framed_mir)
  then have "framed (mirp (CL (mirp c) pc p (mir sib)))"
    by (rule framed_mir)
  then show ?case by simp
qed

end
