(* ===== verification/Rb_Refine.thy ===== *)
theory Rb_Refine
  imports Rb_Shape
begin

text \<open>
  The pointer operations of \<^verbatim>\<open>rbtree.c\<close> compute the functions of \<open>Rb_Shape\<close>: \<open>rb_at s t\<close> says that the
  memory holds the tree \<open>t\<close>, and each operation takes such a memory to one that holds the tree the function
  gives. The operations for left and right differ by an exchange of the children only, so each is proved once
  and transferred with \<open>mirror\<close>.
\<close>

section \<open>The tree in memory\<close>

fun addr_of :: "rbt \<Rightarrow> nat" where
  "addr_of Lf = NULL"
| "addr_of (Nd l c e r) = fst e"

fun adrs :: "rbt \<Rightarrow> nat set" where
  "adrs Lf = {}"
| "adrs (Nd l c e r) = insert (fst e) (adrs l \<union> adrs r)"

fun path_adrs :: "path \<Rightarrow> nat set" where
  "path_adrs Top = {}"
| "path_adrs (CL c col e r) = insert (fst e) (adrs r \<union> path_adrs c)"
| "path_adrs (CR l col e c) = insert (fst e) (adrs l \<union> path_adrs c)"

text \<open>No address occurs twice.\<close>

fun apart :: "rbt \<Rightarrow> bool" where
  "apart Lf = True"
| "apart (Nd l c e r) = (fst e \<notin> adrs l \<and> fst e \<notin> adrs r \<and> adrs l \<inter> adrs r = {} \<and> apart l \<and> apart r)"

fun path_apart :: "path \<Rightarrow> bool" where
  "path_apart Top = True"
| "path_apart (CL c col e r) = (fst e \<notin> adrs r \<and> fst e \<notin> path_adrs c \<and> adrs r \<inter> path_adrs c = {} \<and> apart r \<and> path_apart c)"
| "path_apart (CR l col e c) = (fst e \<notin> adrs l \<and> fst e \<notin> path_adrs c \<and> adrs l \<inter> path_adrs c = {} \<and> apart l \<and> path_apart c)"

lemma adrs_ents: "adrs t = fst ` set (ents t)"
  by (induction t) auto

lemma apart_ents: "apart t \<longleftrightarrow> distinct (map fst (ents t))"
  by (induction t) (auto simp: adrs_ents)

lemma adrs_plug [simp]: "adrs (plug c t) = adrs t \<union> path_adrs c"
  by (induction c t rule: plug.induct) auto

lemma apart_plug: "apart (plug c t) \<longleftrightarrow> apart t \<and> path_apart c \<and> adrs t \<inter> path_adrs c = {}"
  by (induction c t rule: plug.induct) auto

definition cell :: "nat \<Rightarrow> nat \<Rightarrow> color \<Rightarrow> entry \<Rightarrow> nat \<Rightarrow> node" where
  "cell par l c e r = \<lparr>n_k = fst (snd e), n_v = snd (snd e), n_p = par, n_l = l, n_r = r, n_c = c\<rparr>"

lemma cell_sel [simp]:
  "n_k (cell par l c e r) = fst (snd e)" "n_v (cell par l c e r) = snd (snd e)" "n_p (cell par l c e r) = par"
  "n_l (cell par l c e r) = l" "n_r (cell par l c e r) = r" "n_c (cell par l c e r) = c"
  by (simp_all add: cell_def)

lemma cell_upd [simp]:
  "n_p_update (\<lambda>_. p) (cell par l c e r) = cell p l c e r" "n_l_update (\<lambda>_. q) (cell par l c e r) = cell par q c e r"
  "n_r_update (\<lambda>_. q) (cell par l c e r) = cell par l c e q" "n_c_update (\<lambda>_. d) (cell par l c e r) = cell par l d e r"
  by (simp_all add: cell_def)

fun tree_at :: "(nat \<Rightarrow> node) \<Rightarrow> nat \<Rightarrow> rbt \<Rightarrow> bool" where
  "tree_at m par Lf = True"
| "tree_at m par (Nd l c e r) = (fst e \<noteq> NULL \<and> m (fst e) = cell par (addr_of l) c e (addr_of r) \<and>
     tree_at m (fst e) l \<and> tree_at m (fst e) r)"

fun up_addr :: "path \<Rightarrow> nat" where
  "up_addr Top = NULL"
| "up_addr (CL c col e r) = fst e"
| "up_addr (CR l col e c) = fst e"

fun path_at :: "(nat \<Rightarrow> node) \<Rightarrow> nat \<Rightarrow> path \<Rightarrow> bool" where
  "path_at m q Top = True"
| "path_at m q (CL c col e r) = (fst e \<noteq> NULL \<and> m (fst e) = cell (up_addr c) q col e (addr_of r) \<and>
     tree_at m (fst e) r \<and> path_at m (fst e) c)"
| "path_at m q (CR l col e c) = (fst e \<noteq> NULL \<and> m (fst e) = cell (up_addr c) (addr_of l) col e q \<and>
     tree_at m (fst e) l \<and> path_at m (fst e) c)"

definition rb_at :: "rbtree \<Rightarrow> rbt \<Rightarrow> bool" where
  "rb_at s t \<longleftrightarrow> root s = addr_of t \<and> tree_at (mem s) NULL t \<and> apart t"

fun root_of :: "path \<Rightarrow> nat \<Rightarrow> nat" where
  "root_of Top q = q"
| "root_of (CL c col e r) q = root_of c (fst e)"
| "root_of (CR l col e c) q = root_of c (fst e)"

lemma addr_plug: "addr_of (plug c t) = root_of c (addr_of t)"
  by (induction c t rule: plug.induct) simp_all

lemma tree_at_plug: "tree_at m NULL (plug c t) \<longleftrightarrow> path_at m (addr_of t) c \<and> tree_at m (up_addr c) t"
  by (induction c t rule: plug.induct) auto

text \<open>The representation of a focused tree, taken apart.\<close>

lemma rb_at_plug: "rb_at s (plug c t) \<longleftrightarrow> root s = root_of c (addr_of t) \<and> path_at (mem s) (addr_of t) c \<and>
    tree_at (mem s) (up_addr c) t \<and> apart t \<and> path_apart c \<and> adrs t \<inter> path_adrs c = {}"
  by (auto simp: rb_at_def addr_plug tree_at_plug apart_plug)

lemma addr_in: "addr_of t = NULL \<or> addr_of t \<in> adrs t"
  by (cases t) auto

lemma root_of_in: "c \<noteq> Top \<Longrightarrow> root_of c q \<in> path_adrs c"
proof (induction c arbitrary: q)
  case (CL c col e r)
  then show ?case by (cases "c = Top") auto
next
  case (CR l col e c)
  then show ?case by (cases "c = Top") auto
qed simp

lemma root_of_other: "c \<noteq> Top \<Longrightarrow> root_of c q = root_of c q'"
  by (cases c) simp_all

lemma up_in: "up_addr c = NULL \<or> up_addr c \<in> path_adrs c"
  by (cases c) auto

lemma upd_at_same [simp]: "upd_at a f m a = f (m a)"
  by (simp add: upd_at_def)

lemma upd_at_other [simp]: "b \<noteq> a \<Longrightarrow> upd_at a f m b = m b"
  by (simp add: upd_at_def)

lemma tree_at_upd [simp]: "a \<notin> adrs t \<Longrightarrow> tree_at (upd_at a f m) par t = tree_at m par t"
  by (induction t arbitrary: par) (auto simp: upd_at_def)

lemma path_at_upd [simp]: "a \<notin> path_adrs c \<Longrightarrow> path_at (upd_at a f m) q c = path_at m q c"
  by (induction c arbitrary: q) auto

lemma tree_at_nonnull: "tree_at m par t \<Longrightarrow> NULL \<notin> adrs t"
  by (induction t arbitrary: par) auto

lemma path_at_nonnull: "path_at m q c \<Longrightarrow> NULL \<notin> path_adrs c"
  by (induction c arbitrary: q) (auto dest: tree_at_nonnull)

text \<open>A subtree gets another parent; the hole of a path gets another tree.\<close>

lemma tree_at_reparent:
  assumes "tree_at m par t" "apart t" "t \<noteq> Lf"
  shows "tree_at (upd_at (addr_of t) (n_p_update (\<lambda>_. par')) m) par' t"
  using assms by (cases t) auto

definition relink :: "path \<Rightarrow> nat \<Rightarrow> (nat \<Rightarrow> node) \<Rightarrow> nat \<Rightarrow> node" where
  "relink c q m = (case c of Top \<Rightarrow> m
     | CL _ _ e _ \<Rightarrow> upd_at (fst e) (n_l_update (\<lambda>_. q)) m | CR _ _ e _ \<Rightarrow> upd_at (fst e) (n_r_update (\<lambda>_. q)) m)"

lemma path_at_relink:
  assumes "path_at m q c" "path_apart c"
  shows "path_at (relink c q' m) q' c"
  using assms by (cases c) (auto simp: relink_def)

section \<open>Exchange of left and right\<close>

definition mirror_node :: "node \<Rightarrow> node" where
  "mirror_node n = n\<lparr>n_l := n_r n, n_r := n_l n\<rparr>"

definition mirror :: "rbtree \<Rightarrow> rbtree" where
  "mirror s = s\<lparr>mem := mirror_node \<circ> mem s\<rparr>"

lemma mirror_node_simps [simp]:
  "n_k (mirror_node n) = n_k n" "n_v (mirror_node n) = n_v n" "n_p (mirror_node n) = n_p n"
  "n_l (mirror_node n) = n_r n" "n_r (mirror_node n) = n_l n" "n_c (mirror_node n) = n_c n"
  "mirror_node (mirror_node n) = n"
  by (simp_all add: mirror_node_def)

lemma mirror_simps [simp]:
  "root (mirror s) = root s" "compare (mirror s) = compare s" "live (mirror s) = live s" "mirror (mirror s) = s"
  by (simp_all add: mirror_def comp_def)

lemma mem_mirror [simp]: "mem (mirror s) a = mirror_node (mem s a)"
  by (simp add: mirror_def)

lemma mirror_root [simp]: "mirror (s\<lparr>root := q\<rparr>) = (mirror s)\<lparr>root := q\<rparr>"
  by (simp add: mirror_def)

lemma ldf_mirror:
  "ldf n_k (mirror s) a = ldf n_k s a" "ldf n_v (mirror s) a = ldf n_v s a" "ldf n_p (mirror s) a = ldf n_p s a"
  "ldf n_l (mirror s) a = ldf n_r s a" "ldf n_r (mirror s) a = ldf n_l s a" "ldf n_c (mirror s) a = ldf n_c s a"
  by (simp_all add: ldf_def)

lemma stf_mirror:
  "stf a (n_k_update fk) (mirror s) = map_option mirror (stf a (n_k_update fk) s)"
  "stf a (n_v_update f) (mirror s) = map_option mirror (stf a (n_v_update f) s)"
  "stf a (n_p_update f) (mirror s) = map_option mirror (stf a (n_p_update f) s)"
  "stf a (n_l_update f) (mirror s) = map_option mirror (stf a (n_r_update f) s)"
  "stf a (n_r_update f) (mirror s) = map_option mirror (stf a (n_l_update f) s)"
  "stf a (n_c_update fc) (mirror s) = map_option mirror (stf a (n_c_update fc) s)"
  by (auto simp: stf_def upd_at_def mirror_def mirror_node_def fun_eq_iff)

lemma access_mirror [simp]:
  "parentOf (mirror s) a = parentOf s a" "leftOf (mirror s) a = rightOf s a" "rightOf (mirror s) a = leftOf s a"
  "colorOf (mirror s) a = colorOf s a"
  by (simp_all add: parentOf_def leftOf_def rightOf_def colorOf_def)

lemma setColor_mirror: "setColor a c (mirror s) = mirror (setColor a c s)"
  by (auto simp: setColor_def upd_at_def mirror_def mirror_node_def fun_eq_iff)

lemma bind_mirror: "Option.bind (map_option f x) g = Option.bind x (\<lambda>y. g (f y))"
  by (cases x) simp_all

lemma map_bind: "map_option f (Option.bind x g) = Option.bind x (\<lambda>y. map_option f (g y))"
  by (cases x) simp_all

lemmas mirror_ops = ldf_mirror stf_mirror setColor_mirror bind_mirror map_bind [symmetric]

lemma if_mirror:
  "(if b then map_option f x else map_option f y) = map_option f (if b then x else y)"
  "Some (mirror s) = map_option mirror (Some s)" "(mirror s)\<lparr>root := q\<rparr> = mirror (s\<lparr>root := q\<rparr>)"
  by simp_all

lemma rotate_mirror: "rotateLeft (mirror s) x = map_option mirror (rotateRight s x)"
  by (simp only: rotateLeft_def rotateRight_def mirror_ops if_mirror)

lemma rotate_mirror': "rotateRight (mirror s) x = map_option mirror (rotateLeft s x)"
  using rotate_mirror [of "mirror s" x] by (simp add: option.map_comp comp_def option.map_ident)

lemma addr_mir [simp]: "addr_of (mir t) = addr_of t"
  by (cases t) simp_all

lemma ents_mir: "ents (mir t) = rev (ents t)"
  by (induction t) simp_all

lemma mirror_cell [simp]: "mirror_node (cell par l c e r) = cell par r c e l"
  by (simp add: mirror_node_def)

lemma mirror_node_eq: "mirror_node n = cell par l c e r \<longleftrightarrow> n = cell par r c e l"
  by (metis mirror_cell mirror_node_simps(7))

lemma tree_at_mirror: "tree_at (mem (mirror s)) par (mir t) \<longleftrightarrow> tree_at (mem s) par t"
  by (induction t arbitrary: par) (auto simp: mirror_node_eq)

lemma adrs_mir [simp]: "adrs (mir t) = adrs t"
  by (induction t) auto

lemma apart_mir [simp]: "apart (mir t) = apart t"
  by (induction t) auto

lemma rb_at_mirror: "rb_at (mirror s) (mir t) \<longleftrightarrow> rb_at s t"
  by (simp add: rb_at_def tree_at_mirror)

section \<open>Rotations\<close>

lemma ldf_ok: "n \<noteq> NULL \<Longrightarrow> ldf f s n = Some (f (mem s n))"
  by (simp add: ldf_def)

lemma stf_ok: "n \<noteq> NULL \<Longrightarrow> stf n f s = Some (s\<lparr>mem := upd_at n f (mem s)\<rparr>)"
  by (simp add: stf_def)

text \<open>What an operation on the nodes of the tree leaves alone.\<close>

definition others_same :: "rbtree \<Rightarrow> rbtree \<Rightarrow> nat set \<Rightarrow> bool" where
  "others_same s s' A \<longleftrightarrow> compare s' = compare s \<and> live s' = live s \<and> (\<forall>a. a \<notin> A \<longrightarrow> mem s' a = mem s a)"

lemma others_same_refl [simp]: "others_same s s A"
  by (simp add: others_same_def)

lemma others_same_trans: "others_same s s' A \<Longrightarrow> others_same s' s'' A \<Longrightarrow> others_same s s'' A"
  by (simp add: others_same_def)

lemma others_same_mirror: "others_same (mirror s) (mirror s') A \<longleftrightarrow> others_same s s' A"
  unfolding others_same_def by (simp, metis mirror_node_simps(7))

lemma tree_at_relink [simp]: "up_addr c \<notin> adrs t \<Longrightarrow> tree_at (relink c q m) par t = tree_at m par t"
  by (cases c) (auto simp: relink_def)



definition rotated :: "path \<Rightarrow> nat \<Rightarrow> nat \<Rightarrow> nat \<Rightarrow> (nat \<Rightarrow> node) \<Rightarrow> nat \<Rightarrow> node" where
  "rotated c xa ra ba m = upd_at xa (n_p_update (\<lambda>_. ra)) (upd_at ra (n_l_update (\<lambda>_. xa)) (relink c ra
    (upd_at ra (n_p_update (\<lambda>_. up_addr c)) ((if ba \<noteq> NULL then upd_at ba (n_p_update (\<lambda>_. xa)) else id)
      (upd_at xa (n_r_update (\<lambda>_. ba)) m)))))"

lemma rotateLeft_run:
  assumes "xa \<noteq> NULL" "ra \<noteq> NULL" "xa \<noteq> ra" "n_r (mem s xa) = ra" "n_l (mem s ra) = ba" "n_p (mem s xa) = up_addr c"
    "ba \<noteq> xa" "ba \<noteq> ra" "ba \<noteq> up_addr c \<or> ba = NULL" "up_addr c \<noteq> xa" "up_addr c \<noteq> ra" "c \<noteq> Top \<longrightarrow> up_addr c \<noteq> NULL"
    "case c of Top \<Rightarrow> True | CL _ _ _ _ \<Rightarrow> n_l (mem s (up_addr c)) = xa | CR _ _ _ _ \<Rightarrow> n_l (mem s (up_addr c)) \<noteq> xa"
  shows "rotateLeft s xa = Some (s\<lparr>root := (if c = Top then ra else root s), mem := rotated c xa ra ba (mem s)\<rparr>)"
proof -
  note ne = assms(1-3,7-12) not_sym [OF assms(3)] not_sym [OF assms(7)] not_sym [OF assms(8)]
  show ?thesis
    using ne assms(4-6,13)
    by (cases c; cases "ba = NULL") (simp_all add: ldf_ok stf_ok rotateLeft_def rotated_def relink_def)
qed


lemma up_apart:
  assumes "path_at m q c" "tree_at m par t" "adrs t \<inter> path_adrs c = {}"
  shows "up_addr c \<notin> adrs t" "c \<noteq> Top \<longrightarrow> up_addr c \<noteq> NULL"
proof -
  show "c \<noteq> Top \<longrightarrow> up_addr c \<noteq> NULL"
    using assms(1) by (cases c) auto
  show "up_addr c \<notin> adrs t"
    using up_in [of c] tree_at_nonnull [OF assms(2)] assms(3) by auto
qed

text \<open>The cells around a left rotation.\<close>

lemma focus_right:
  assumes "rb_at s (plug c (Nd a xc x (Nd b rc r d)))"
  shows "mem s (fst x) = cell (up_addr c) (addr_of a) xc x (fst r)" "mem s (fst r) = cell (fst x) (addr_of b) rc r (addr_of d)"
    "fst x \<noteq> NULL" "fst r \<noteq> NULL" "tree_at (mem s) (fst x) a" "tree_at (mem s) (fst r) b" "tree_at (mem s) (fst r) d"
    "path_at (mem s) (fst x) c" "root s = root_of c (fst x)" "fst x \<noteq> fst r"
    "fst x \<notin> adrs a" "fst x \<notin> adrs b" "fst x \<notin> adrs d" "fst x \<notin> path_adrs c"
    "fst r \<notin> adrs a" "fst r \<notin> adrs b" "fst r \<notin> adrs d" "fst r \<notin> path_adrs c"
    "adrs a \<inter> adrs b = {}" "adrs a \<inter> adrs d = {}" "adrs b \<inter> adrs d = {}"
    "adrs a \<inter> path_adrs c = {}" "adrs b \<inter> path_adrs c = {}" "adrs d \<inter> path_adrs c = {}"
    "apart a" "apart b" "apart d" "path_apart c"
  using assms unfolding rb_at_plug by (simp_all add: Int_Un_distrib Int_Un_distrib2)

lemma path_child:
  assumes "path_at m q c" "q \<notin> path_adrs c" "q \<noteq> NULL"
  shows "case c of Top \<Rightarrow> True | CL _ _ _ _ \<Rightarrow> n_l (m (up_addr c)) = q | CR _ _ _ _ \<Rightarrow> n_l (m (up_addr c)) \<noteq> q"
proof (cases c)
  case (CR l col e d)
  then show ?thesis
    using assms addr_in [of l] by auto
qed (use assms in simp_all)

lemma rotateLeft_sim:
  assumes "rb_at s (plug c (Nd a xc x (Nd b rc r d)))"
  shows "\<exists>s'. rotateLeft s (fst x) = Some s' \<and> rb_at s' (plug c (Nd (Nd a xc x b) rc r d)) \<and>
    others_same s s' (adrs (plug c (Nd a xc x (Nd b rc r d))))"
proof -
  let ?m = "mem s" and ?xa = "fst x" and ?ra = "fst r" and ?ba = "addr_of b"
  note f = focus_right [OF assms]
  have up: "up_addr c = NULL \<or> up_addr c \<in> path_adrs c"
    by (rule up_in)
  have upt: "c \<noteq> Top \<longrightarrow> up_addr c \<noteq> NULL"
    using f(8) by (cases c) simp_all
  have upx: "up_addr c \<noteq> ?xa" "up_addr c \<noteq> ?ra"
    using up f(3,4,14,18) by metis+
  have up_out: "up_addr c \<notin> adrs a" "up_addr c \<notin> adrs b" "up_addr c \<notin> adrs d"
    using up f(5-7,22-24) tree_at_nonnull by (metis disjoint_iff)+
  have bin: "?ba = NULL \<or> ?ba \<in> adrs b"
    by (rule addr_in)
  have ba: "?ba \<noteq> ?xa" "?ba \<noteq> ?ra" "?ba \<noteq> up_addr c \<or> ?ba = NULL"
    using bin f(3,4,12,16) up_out(2) by metis+
  have b_out: "?ba \<noteq> NULL \<Longrightarrow> ?ba \<notin> adrs a \<and> ?ba \<notin> adrs d \<and> ?ba \<notin> path_adrs c"
    using bin f(19,21,23) unfolding disjoint_iff by metis
  have run: "rotateLeft s ?xa = Some (s\<lparr>root := (if c = Top then ?ra else root s), mem := rotated c ?xa ?ra ?ba ?m\<rparr>)"
    by (rule rotateLeft_run [OF f(3,4,10) _ _ _ ba upx upt path_child [OF f(8,14,3)]]) (simp_all add: f(1,2))
  let ?b = "(if ?ba \<noteq> NULL then upd_at ?ba (n_p_update (\<lambda>_. ?xa)) else id) (upd_at ?xa (n_r_update (\<lambda>_. ?ba)) ?m)"
  let ?m' = "rotated c ?xa ?ra ?ba ?m"
  have "path_at ?b ?xa c"
    using f(8,14) b_out by simp
  then have "path_at ?m' ?ra c"
    using f(14,18,28) by (simp add: rotated_def path_at_relink)
  moreover have "tree_at ?m' ?xa a" "tree_at ?m' ?ra d"
    using f(5,7,11,13,15,17) up_out b_out by (simp_all add: rotated_def)
  moreover have "tree_at ?b ?xa b"
    using f(6,12,26) tree_at_reparent [of "upd_at ?xa (n_r_update (\<lambda>_. ?ba)) ?m" ?ra b ?xa] by (cases b) simp_all
  then have "tree_at ?m' ?xa b"
    using f(12,16) up_out by (simp add: rotated_def)
  moreover have "?m' ?xa = cell ?ra (addr_of a) xc x ?ba" "?m' ?ra = cell (up_addr c) ?xa rc r (addr_of d)"
    using f(1,2,10) upx ba by (cases c; simp add: rotated_def relink_def)+
  ultimately have "rb_at (s\<lparr>root := (if c = Top then ?ra else root s), mem := ?m'\<rparr>) (plug c (Nd (Nd a xc x b) rc r d))"
    using f(3,4,9-28) root_of_other [of c ?xa ?ra] unfolding rb_at_plug by (simp add: Int_Un_distrib Int_Un_distrib2)
  moreover have "others_same s (s\<lparr>root := (if c = Top then ?ra else root s), mem := ?m'\<rparr>) (adrs (plug c (Nd a xc x (Nd b rc r d))))"
  proof -
    have "?m' q = ?m q" if "q \<notin> adrs (plug c (Nd a xc x (Nd b rc r d)))" for q
    proof -
      have "q \<noteq> ?xa" "q \<noteq> ?ra" "?ba = NULL \<or> q \<noteq> ?ba" "c = Top \<or> q \<noteq> up_addr c"
        using that bin up upt by auto
      then show ?thesis
        by (cases c) (auto simp: rotated_def relink_def)
    qed
    then show ?thesis by (simp add: others_same_def)
  qed
  ultimately show ?thesis
    using run by blast
qed


lemma path_adrs_mirp [simp]: "path_adrs (mirp c) = path_adrs c"
  by (induction c) simp_all

lemma rotateRight_sim:
  assumes "rb_at s (plug c (Nd (Nd d lc l b) xc x a))"
  shows "\<exists>s'. rotateRight s (fst x) = Some s' \<and> rb_at s' (plug c (Nd d lc l (Nd b xc x a))) \<and>
    others_same s s' (adrs (plug c (Nd (Nd d lc l b) xc x a)))"
proof -
  have "rb_at (mirror s) (plug (mirp c) (Nd (mir a) xc x (Nd (mir b) lc l (mir d))))"
    using assms rb_at_mirror [of s "plug c (Nd (Nd d lc l b) xc x a)"] by (simp add: mir_plug)
  then obtain s' where s': "rotateLeft (mirror s) (fst x) = Some s'"
      "rb_at s' (plug (mirp c) (Nd (Nd (mir a) xc x (mir b)) lc l (mir d)))"
      "others_same (mirror s) s' (adrs (plug (mirp c) (Nd (mir a) xc x (Nd (mir b) lc l (mir d)))))"
    using rotateLeft_sim by blast
  have "adrs (plug (mirp c) (Nd (mir a) xc x (Nd (mir b) lc l (mir d)))) = adrs (plug c (Nd (Nd d lc l b) xc x a))"
    by auto
  moreover have "rotateRight s (fst x) = Some (mirror s')"
    using s'(1) rotate_mirror' [of "mirror s" "fst x"] by simp
  moreover have "rb_at (mirror s') (plug c (Nd d lc l (Nd b xc x a)))"
    using s'(2) rb_at_mirror [of "mirror s'" "plug c (Nd d lc l (Nd b xc x a))"] by (simp add: mir_plug)
  ultimately show ?thesis
    using s'(3) others_same_mirror [of s "mirror s'"] by auto
qed

section \<open>Accessors and colours\<close>

lemma focus:
  assumes "rb_at s (plug c (Nd l col e r))"
  shows "fst e \<noteq> NULL" "parentOf s (fst e) = up_addr c" "leftOf s (fst e) = addr_of l" "rightOf s (fst e) = addr_of r"
    "colorOf s (fst e) = col" "mem s (fst e) = cell (up_addr c) (addr_of l) col e (addr_of r)"
  using assms by (auto simp: rb_at_plug parentOf_def leftOf_def rightOf_def colorOf_def)

lemma focus_color: "rb_at s (plug c t) \<Longrightarrow> colorOf s (addr_of t) = color_of t"
  using focus(5) [of s c] by (cases t) (auto simp: colorOf_def)

lemma focus_parent: "rb_at s (plug c t) \<Longrightarrow> t \<noteq> Lf \<Longrightarrow> parentOf s (addr_of t) = up_addr c"
  using focus(2) [of s c] by (cases t) auto

lemma focus_root: "rb_at s (plug c t) \<Longrightarrow> t \<noteq> Lf \<Longrightarrow> addr_of t = root s \<longleftrightarrow> c = Top"
proof (cases "c = Top")
  case False
  assume "rb_at s (plug c t)" "t \<noteq> Lf"
  then have "root s = root_of c (addr_of t)" "adrs t \<inter> path_adrs c = {}" "addr_of t \<in> adrs t"
    by (auto simp: rb_at_plug) (cases t; simp)
  with root_of_in [OF False, of "addr_of t"] False show ?thesis by auto
qed (simp add: rb_at_def)

lemma focus_neq:
  assumes "rb_at s (plug c (Nd l col e r))"
  shows "l \<noteq> Lf \<Longrightarrow> addr_of l \<noteq> addr_of r"
  using assms addr_in [of l] addr_in [of r] tree_at_nonnull [of "mem s" "fst e" l] by (cases l) (auto simp: rb_at_plug)

lemma setColor_sim:
  assumes "rb_at s (plug c t)"
  shows "rb_at (setColor (addr_of t) col s) (plug c (paint col t))" "others_same s (setColor (addr_of t) col s) (adrs (plug c t))"
proof -
  show "rb_at (setColor (addr_of t) col s) (plug c (paint col t))"
    using assms by (cases t) (auto simp: rb_at_plug setColor_def)
  show "others_same s (setColor (addr_of t) col s) (adrs (plug c t))"
    by (cases t) (auto simp: others_same_def setColor_def)
qed


lemma setColor_keeps [simp]:
  "parentOf (setColor a c s) q = parentOf s q" "leftOf (setColor a c s) q = leftOf s q"
  "rightOf (setColor a c s) q = rightOf s q" "root (setColor a c s) = root s"
  by (auto simp: parentOf_def leftOf_def rightOf_def setColor_def upd_at_def)

lemma others_same_step: "others_same s s' A \<Longrightarrow> others_same s' s'' B \<Longrightarrow> B \<subseteq> A \<Longrightarrow> others_same s s'' A"
  by (auto simp: others_same_def)

section \<open>Insertion\<close>

text \<open>\<open>steps A s s' t\<close>: the operation led from \<open>s\<close> to a memory \<open>s'\<close> that holds \<open>t\<close>, within the nodes \<open>A\<close>.\<close>

definition steps :: "nat set \<Rightarrow> rbtree \<Rightarrow> rbtree \<Rightarrow> rbt \<Rightarrow> bool" where
  "steps A s s' t \<longleftrightarrow> rb_at s' t \<and> others_same s s' A \<and> adrs t \<subseteq> A"

lemma steps_trans: "steps A s s' t \<Longrightarrow> steps A s' s'' t' \<Longrightarrow> steps A s s'' t'"
  by (auto simp: steps_def intro: others_same_trans)

lemma steps_setColor:
  assumes "steps A s s' (plug c t)"
  shows "steps A s (setColor (addr_of t) col s') (plug c (paint col t))"
proof -
  have "adrs (paint col t) = adrs t"
    by (cases t) simp_all
  then show ?thesis
    using assms setColor_sim [of s' c t col] others_same_step [of s s' A] by (simp add: steps_def)
qed

lemma steps_rotateLeft:
  assumes "steps A s s' (plug c (Nd a xc x (Nd b rc r d)))"
  shows "\<exists>s''. rotateLeft s' (fst x) = Some s'' \<and> steps A s s'' (plug c (Nd (Nd a xc x b) rc r d))"
  using assms rotateLeft_sim [of s' c a xc x b rc r d] others_same_step [of s s' A] unfolding steps_def by fastforce

lemma steps_rotateRight:
  assumes "steps A s s' (plug c (Nd (Nd d lc l b) xc x a))"
  shows "\<exists>s''. rotateRight s' (fst x) = Some s'' \<and> steps A s s'' (plug c (Nd d lc l (Nd b xc x a)))"
  using assms rotateRight_sim [of s' c d lc l b xc x a] others_same_step [of s s' A] unfolding steps_def by fastforce

lemma steps_rb: "steps A s s' t \<Longrightarrow> rb_at s' t"
  by (simp add: steps_def)

text \<open>The three cases of the left branch: red uncle, outer and inner grandchild.\<close>

lemma insertion_left_red:
  assumes st: "steps A s0 s (plug c (Nd (Nd a pc p b) gc g u))" and x: "parentOf s x = fst p" and u: "color_of u = RED"
  shows "\<exists>s'. fix_insertion_left s x = Some (s', fst g) \<and> steps A s0 s' (plug c (Nd (Nd a BLACK p b) RED g (paint BLACK u)))"
proof -
  have rb: "rb_at s (plug c (Nd (Nd a pc p b) gc g u))" "rb_at s (plug (CL c gc g u) (Nd a pc p b))"
      "rb_at s (plug (CR (Nd a pc p b) gc g c) u)"
    using steps_rb [OF st] by simp_all
  note g = focus [OF rb(1)] and p = focus [OF rb(2)]
  have y: "colorOf s (addr_of u) = RED"
    using focus_color [OF rb(3)] u by simp
  let ?s1 = "setColor (fst p) BLACK s"
  have "steps A s0 ?s1 (plug (CL c gc g u) (Nd a BLACK p b))"
    using steps_setColor [of A s0 s "CL c gc g u" "Nd a pc p b" BLACK] st by simp
  then have "steps A s0 (setColor (addr_of u) BLACK ?s1) (plug (CR (Nd a BLACK p b) gc g c) (paint BLACK u))"
    using steps_setColor [of A s0 ?s1 "CR (Nd a BLACK p b) gc g c" u BLACK] by simp
  then have "steps A s0 (setColor (fst g) RED (setColor (addr_of u) BLACK ?s1)) (plug c (Nd (Nd a BLACK p b) RED g (paint BLACK u)))"
    using steps_setColor [of A s0 _ c "Nd (Nd a BLACK p b) gc g (paint BLACK u)" RED] by simp
  then show ?thesis
    using x p(2) g(4) y by (simp add: fix_insertion_left_def Let_def)
qed

lemma insertion_left_outer:
  assumes st: "steps A s0 s (plug c (Nd (Nd t pc p b) gc g u))" and t: "t \<noteq> Lf" and u: "color_of u = BLACK"
  shows "\<exists>s'. fix_insertion_left s (addr_of t) = Some (s', addr_of t) \<and> steps A s0 s' (plug c (Nd t BLACK p (Nd b RED g u)))"
proof -
  have rb: "rb_at s (plug c (Nd (Nd t pc p b) gc g u))" "rb_at s (plug (CL c gc g u) (Nd t pc p b))"
      "rb_at s (plug (CR (Nd t pc p b) gc g c) u)" "rb_at s (plug (CL (CL c gc g u) pc p b) t)"
    using steps_rb [OF st] by simp_all
  note g = focus [OF rb(1)] and p = focus [OF rb(2)]
  have x: "parentOf s (addr_of t) = fst p"
    using focus_parent [OF rb(4) t] by simp
  have y: "colorOf s (addr_of u) = BLACK"
    using focus_color [OF rb(3)] u by simp
  have not_right: "addr_of t \<noteq> addr_of b"
    using focus_neq [OF rb(2)] t by simp
  let ?s2 = "setColor (fst g) RED (setColor (fst p) BLACK s)"
  have "steps A s0 (setColor (fst p) BLACK s) (plug (CL c gc g u) (Nd t BLACK p b))"
    using steps_setColor [of A s0 s "CL c gc g u" "Nd t pc p b" BLACK] st by simp
  then have "steps A s0 ?s2 (plug c (Nd (Nd t BLACK p b) RED g u))"
    using steps_setColor [of A s0 _ c "Nd (Nd t BLACK p b) gc g u" RED] by simp
  then obtain s' where "rotateRight ?s2 (fst g) = Some s'" "steps A s0 s' (plug c (Nd t BLACK p (Nd b RED g u)))"
    using steps_rotateRight by blast
  then show ?thesis
    using x p(2,4) g(1,4) y not_right by (simp add: fix_insertion_left_def Let_def)
qed

lemma insertion_left_inner:
  assumes st: "steps A s0 s (plug c (Nd (Nd a pc p (Nd t1 tc x t2)) gc g u))" and u: "color_of u = BLACK"
  shows "\<exists>s'. fix_insertion_left s (fst x) = Some (s', fst p) \<and> steps A s0 s' (plug c (Nd (Nd a pc p t1) BLACK x (Nd t2 RED g u)))"
proof -
  have rb: "rb_at s (plug c (Nd (Nd a pc p (Nd t1 tc x t2)) gc g u))" "rb_at s (plug (CL c gc g u) (Nd a pc p (Nd t1 tc x t2)))"
      "rb_at s (plug (CR (Nd a pc p (Nd t1 tc x t2)) gc g c) u)" "rb_at s (plug (CR a pc p (CL c gc g u)) (Nd t1 tc x t2))"
    using steps_rb [OF st] by simp_all
  note g = focus [OF rb(1)] and p = focus [OF rb(2)] and x = focus [OF rb(4)]
  have y: "colorOf s (addr_of u) = BLACK"
    using focus_color [OF rb(3)] u by simp
  obtain s1 where s1: "rotateLeft s (fst p) = Some s1" "steps A s0 s1 (plug (CL c gc g u) (Nd (Nd a pc p t1) tc x t2))"
    using steps_rotateLeft [of A s0 s "CL c gc g u" a pc p t1 tc x t2] st by auto
  have rb1: "rb_at s1 (plug (CL (CL c gc g u) tc x t2) (Nd a pc p t1))" "rb_at s1 (plug (CL c gc g u) (Nd (Nd a pc p t1) tc x t2))"
    using steps_rb [OF s1(2)] by simp_all
  note p1 = focus [OF rb1(1)] and x1 = focus [OF rb1(2)]
  let ?s2 = "setColor (fst g) RED (setColor (fst x) BLACK s1)"
  have "steps A s0 (setColor (fst x) BLACK s1) (plug (CL c gc g u) (Nd (Nd a pc p t1) BLACK x t2))"
    using steps_setColor [of A s0 s1 "CL c gc g u" "Nd (Nd a pc p t1) tc x t2" BLACK] s1(2) by simp
  then have "steps A s0 ?s2 (plug c (Nd (Nd (Nd a pc p t1) BLACK x t2) RED g u))"
    using steps_setColor [of A s0 _ c "Nd (Nd (Nd a pc p t1) BLACK x t2) gc g u" RED] by simp
  then obtain s' where "rotateRight ?s2 (fst g) = Some s'" "steps A s0 s' (plug c (Nd (Nd a pc p t1) BLACK x (Nd t2 RED g u)))"
    using steps_rotateRight by blast
  then show ?thesis
    using x(2) p(2,4) g(1,4) y s1(1) p1(2) x1(2) by (simp add: fix_insertion_left_def Let_def)
qed


text \<open>The right branch is the left one in the mirror.\<close>

lemma mirror_pull:
  "Some (mirror s, x) = map_option (apfst mirror) (Some (s, x))"
  "Option.bind (map_option (apfst mirror) r) (\<lambda>(s, y). g s y) = Option.bind r (\<lambda>(s, y). g (mirror s) y)"
  "(\<lambda>(s, y). map_option h (k s y)) = (\<lambda>q. map_option h (case q of (s, y) \<Rightarrow> k s y))"
  by (auto split: option.splits simp: fun_eq_iff, cases r) auto

lemma insertion_mirror: "fix_insertion_left (mirror s) x = map_option (apfst mirror) (fix_insertion_right s x)"
  by (simp only: fix_insertion_left_def fix_insertion_right_def Let_def setColor_mirror rotate_mirror rotate_mirror'
      access_mirror mirror_simps bind_mirror [where f = mirror] map_bind [symmetric] if_mirror(1,2) mirror_pull)

lemma steps_mirror: "steps A (mirror s) (mirror s') (mir t) \<longleftrightarrow> steps A s s' t"
  by (simp add: steps_def rb_at_mirror others_same_mirror)

lemma insertion_right_from_left:
  assumes "fix_insertion_left (mirror s) x = Some (s', y)" "steps A (mirror s0) s' (mir t)"
  shows "\<exists>s'. fix_insertion_right s x = Some (s', y) \<and> steps A s0 s' t"
proof -
  obtain s1 where "fix_insertion_right s x = Some (s1, y)" "s' = mirror s1"
    using assms(1) by (auto simp: insertion_mirror)
  then show ?thesis
    using assms(2) by (auto simp: steps_mirror)
qed

lemma insertion_right_red:
  assumes st: "steps A s0 s (plug c (Nd u gc g (Nd b pc p a)))" and x: "parentOf s x = fst p" and u: "color_of u = RED"
  shows "\<exists>s'. fix_insertion_right s x = Some (s', fst g) \<and> steps A s0 s' (plug c (Nd (paint BLACK u) RED g (Nd b BLACK p a)))"
proof -
  have "steps A (mirror s0) (mirror s) (mir (plug c (Nd u gc g (Nd b pc p a))))"
    using st by (simp only: steps_mirror)
  then have "steps A (mirror s0) (mirror s) (plug (mirp c) (Nd (Nd (mir a) pc p (mir b)) gc g (mir u)))"
    by (simp add: mir_plug)
  from insertion_left_red [OF this, of x] x u obtain s' where s': "fix_insertion_left (mirror s) x = Some (s', fst g)"
      "steps A (mirror s0) s' (plug (mirp c) (Nd (Nd (mir a) BLACK p (mir b)) RED g (paint BLACK (mir u))))" by auto
  then have "steps A (mirror s0) s' (mir (plug c (Nd (paint BLACK u) RED g (Nd b BLACK p a))))"
    by (simp add: mir_plug mir_paint)
  with s'(1) show ?thesis by (rule insertion_right_from_left)
qed

lemma insertion_right_outer:
  assumes st: "steps A s0 s (plug c (Nd u gc g (Nd b pc p t)))" and t: "t \<noteq> Lf" and u: "color_of u = BLACK"
  shows "\<exists>s'. fix_insertion_right s (addr_of t) = Some (s', addr_of t) \<and> steps A s0 s' (plug c (Nd (Nd u RED g b) BLACK p t))"
proof -
  have "steps A (mirror s0) (mirror s) (mir (plug c (Nd u gc g (Nd b pc p t))))"
    using st by (simp only: steps_mirror)
  then have "steps A (mirror s0) (mirror s) (plug (mirp c) (Nd (Nd (mir t) pc p (mir b)) gc g (mir u)))"
    by (simp add: mir_plug)
  moreover have "mir t \<noteq> Lf"
    using t by (cases t) simp_all
  ultimately obtain s' where s': "fix_insertion_left (mirror s) (addr_of t) = Some (s', addr_of t)"
      "steps A (mirror s0) s' (plug (mirp c) (Nd (mir t) BLACK p (Nd (mir b) RED g (mir u))))"
    using insertion_left_outer [of A "mirror s0" "mirror s" "mirp c" "mir t" pc p "mir b" gc g "mir u"] u by auto
  then have "steps A (mirror s0) s' (mir (plug c (Nd (Nd u RED g b) BLACK p t)))"
    by (simp add: mir_plug)
  with s'(1) show ?thesis by (rule insertion_right_from_left)
qed

lemma insertion_right_inner:
  assumes st: "steps A s0 s (plug c (Nd u gc g (Nd (Nd t2 tc x t1) pc p a)))" and u: "color_of u = BLACK"
  shows "\<exists>s'. fix_insertion_right s (fst x) = Some (s', fst p) \<and> steps A s0 s' (plug c (Nd (Nd u RED g t2) BLACK x (Nd t1 pc p a)))"
proof -
  have "steps A (mirror s0) (mirror s) (mir (plug c (Nd u gc g (Nd (Nd t2 tc x t1) pc p a))))"
    using st by (simp only: steps_mirror)
  then have "steps A (mirror s0) (mirror s) (plug (mirp c) (Nd (Nd (mir a) pc p (Nd (mir t1) tc x (mir t2))) gc g (mir u)))"
    by (simp add: mir_plug)
  then obtain s' where s': "fix_insertion_left (mirror s) (fst x) = Some (s', fst p)"
      "steps A (mirror s0) s' (plug (mirp c) (Nd (Nd (mir a) pc p (mir t1)) BLACK x (Nd (mir t2) RED g (mir u))))"
    using insertion_left_inner u by fastforce
  then have "steps A (mirror s0) s' (mir (plug c (Nd (Nd u RED g t2) BLACK x (Nd t1 pc p a))))"
    by (simp add: mir_plug)
  with s'(1) show ?thesis by (rule insertion_right_from_left)
qed

lemma focus_up:
  assumes "rb_at s (plug c t)" "c \<noteq> Top"
  shows "up_addr c \<noteq> NULL" "n_c (mem s (up_addr c)) = top_color c"
  using assms by (cases c; auto simp: rb_at_plug)+

lemma focus_loop:
  assumes "rb_at s (plug c t)" "t \<noteq> Lf"
  shows "fix_insertion_loop s (addr_of t) =
    (if c \<noteq> Top \<and> top_color c = RED then
       Option.bind (if parentOf s (addr_of t) = leftOf s (parentOf s (parentOf s (addr_of t)))
         then fix_insertion_left s (addr_of t) else fix_insertion_right s (addr_of t)) (\<lambda>(s, x). fix_insertion_loop s x)
     else Some s)"
proof -
  have nn: "addr_of t \<noteq> NULL"
    using assms by (cases t) (auto simp: rb_at_plug)
  have par: "n_p (mem s (addr_of t)) = up_addr c"
    using focus_parent [OF assms] nn by (simp add: parentOf_def)
  show ?thesis
    using focus_root [OF assms] focus_up [OF assms(1)] nn par
    by (subst fix_insertion_loop.simps) (auto simp: ldf_def)
qed


lemma loop_left:
  assumes "rb_at s (plug (CL c gc g u) (Nd a RED p b))" "q = addr_of t" "t \<noteq> Lf" "(t = a \<or> t = b)"
  shows "fix_insertion_loop s q = Option.bind (fix_insertion_left s q) (\<lambda>(s, x). fix_insertion_loop s x)"
proof -
  have rb: "rb_at s (plug c (Nd (Nd a RED p b) gc g u))"
    using assms(1) by simp
  have t: "rb_at s (plug (if t = a then CL (CL c gc g u) RED p b else CR a RED p (CL c gc g u)) t)"
    using assms(1,4) by auto
  show ?thesis
    using focus_loop [OF t assms(3)] focus_parent [OF t assms(3)] focus(2) [OF assms(1)] focus(3) [OF rb] assms(2)
    by (auto split: if_splits)
qed

lemma loop_right:
  assumes "rb_at s (plug (CR u gc g c) (Nd a RED p b))" "q = addr_of t" "t \<noteq> Lf" "(t = a \<or> t = b)"
  shows "fix_insertion_loop s q = Option.bind (fix_insertion_right s q) (\<lambda>(s, x). fix_insertion_loop s x)"
proof -
  have rb: "rb_at s (plug c (Nd u gc g (Nd a RED p b)))"
    using assms(1) by simp
  have t: "rb_at s (plug (if t = a then CL (CR u gc g c) RED p b else CR a RED p (CR u gc g c)) t)"
    using assms(1,4) by auto
  have "addr_of u \<noteq> fst p"
    using focus_neq [OF rb] focus(1) [OF assms(1)] by (cases u) auto
  then show ?thesis
    using focus_loop [OF t assms(3)] focus_parent [OF t assms(3)] focus(2) [OF assms(1)] focus(3) [OF rb] assms(2)
    by (auto split: if_splits)
qed

lemma loop_stops:
  assumes "steps A s0 s (plug c t)" "t \<noteq> Lf" "c = Top \<or> top_color c = BLACK"
  shows "fix_insertion_loop s (addr_of t) = Some s"
  using focus_loop [OF steps_rb [OF assms(1)] assms(2)] assms(3) by auto

lemma loop_tail:
  assumes "steps A s0 s (plug c t)" "color_of t = RED" "insfix c t = plug c t" "c = Top \<or> top_color c = BLACK"
  shows "\<exists>s'. fix_insertion_loop s (addr_of t) = Some s' \<and> steps A s0 s' (insfix c t)"
  using loop_stops [OF assms(1) _ assms(4)] assms(1-3) by (cases t) auto

lemma loop_left_outer:
  assumes prems: "steps A s0 s (plug (CL (CL c gc g u) RED p w) t)" "color_of t = RED" "valid BLACK t" "fits (bheight t) (CL (CL c gc g u) RED p w)"
    and IH: "\<And>s. color_of u = RED \<Longrightarrow> steps A s0 s (plug c (Nd (Nd t BLACK p w) RED g (paint BLACK u))) \<Longrightarrow> color_of (Nd (Nd t BLACK p w) RED g (paint BLACK u)) = RED \<Longrightarrow> valid BLACK (Nd (Nd t BLACK p w) RED g (paint BLACK u)) \<Longrightarrow>
      fits (bheight (Nd (Nd t BLACK p w) RED g (paint BLACK u))) c \<Longrightarrow> \<exists>s'. fix_insertion_loop s (addr_of (Nd (Nd t BLACK p w) RED g (paint BLACK u))) = Some s' \<and> steps A s0 s' (insfix c (Nd (Nd t BLACK p w) RED g (paint BLACK u)))"
  shows "\<exists>s'. fix_insertion_loop s (addr_of t) = Some s' \<and> steps A s0 s' (insfix (CL (CL c gc g u) RED p w) t)"
proof -
  have t: "t \<noteq> Lf"
    using prems(2) by auto
  have loop: "fix_insertion_loop s (addr_of t) = Option.bind (fix_insertion_left s (addr_of t)) (\<lambda>(s, x). fix_insertion_loop s x)"
    using loop_left [of s c gc g u t p w "addr_of t" t] steps_rb [OF prems(1)] t by simp
  show ?thesis
  proof (cases "color_of u = RED")
    case True
    have "parentOf s (addr_of t) = fst p"
      using focus_parent [OF steps_rb [OF prems(1)] t] by simp
    then obtain s' where s': "fix_insertion_left s (addr_of t) = Some (s', fst g)"
        "steps A s0 s' (plug c (Nd (Nd t BLACK p w) RED g (paint BLACK u)))"
      using insertion_left_red [of A s0 s c t RED p w gc g u] prems(1) True by auto
    have "\<exists>s''. fix_insertion_loop s' (addr_of (Nd (Nd t BLACK p w) RED g (paint BLACK u))) = Some s'' \<and>
        steps A s0 s'' (insfix c (Nd (Nd t BLACK p w) RED g (paint BLACK u)))"
      using True s'(2) prems(2-4) by (intro IH) (auto simp: valid_simps dest: valid_black)
    then show ?thesis
      using loop s'(1) True by simp
  next
    case False
    then obtain s' where s': "fix_insertion_left s (addr_of t) = Some (s', addr_of t)"
        "steps A s0 s' (plug c (Nd t BLACK p (Nd w RED g u)))"
      using insertion_left_outer [of A s0 s c t RED p w gc g u] prems(1) t by auto
    moreover have "fix_insertion_loop s' (addr_of t) = Some s'"
      using loop_stops [of A s0 s' "CL c BLACK p (Nd w RED g u)" t] s'(2) t by simp
    ultimately show ?thesis
      using loop False by simp
  qed
qed

lemma loop_left_inner:
  assumes prems: "steps A s0 s (plug (CR w RED p (CL c gc g u)) t)" "color_of t = RED" "valid BLACK t" "fits (bheight t) (CR w RED p (CL c gc g u))"
    and IH: "\<And>s. color_of u = RED \<Longrightarrow> steps A s0 s (plug c (Nd (Nd w BLACK p t) RED g (paint BLACK u))) \<Longrightarrow> color_of (Nd (Nd w BLACK p t) RED g (paint BLACK u)) = RED \<Longrightarrow> valid BLACK (Nd (Nd w BLACK p t) RED g (paint BLACK u)) \<Longrightarrow>
      fits (bheight (Nd (Nd w BLACK p t) RED g (paint BLACK u))) c \<Longrightarrow> \<exists>s'. fix_insertion_loop s (addr_of (Nd (Nd w BLACK p t) RED g (paint BLACK u))) = Some s' \<and> steps A s0 s' (insfix c (Nd (Nd w BLACK p t) RED g (paint BLACK u)))"
  shows "\<exists>s'. fix_insertion_loop s (addr_of t) = Some s' \<and> steps A s0 s' (insfix (CR w RED p (CL c gc g u)) t)"
proof -
  have t: "t \<noteq> Lf"
    using prems(2) by auto
  have loop: "fix_insertion_loop s (addr_of t) = Option.bind (fix_insertion_left s (addr_of t)) (\<lambda>(s, x). fix_insertion_loop s x)"
    using loop_left [of s c gc g u w p t "addr_of t" t] steps_rb [OF prems(1)] t by simp
  show ?thesis
  proof (cases "color_of u = RED")
    case True
    have "parentOf s (addr_of t) = fst p"
      using focus_parent [OF steps_rb [OF prems(1)] t] by simp
    then obtain s' where s': "fix_insertion_left s (addr_of t) = Some (s', fst g)"
        "steps A s0 s' (plug c (Nd (Nd w BLACK p t) RED g (paint BLACK u)))"
      using insertion_left_red [of A s0 s c w RED p t gc g u] prems(1) True by auto
    have "\<exists>s''. fix_insertion_loop s' (addr_of (Nd (Nd w BLACK p t) RED g (paint BLACK u))) = Some s'' \<and>
        steps A s0 s'' (insfix c (Nd (Nd w BLACK p t) RED g (paint BLACK u)))"
      using True s'(2) prems(2-4) by (intro IH) (auto simp: valid_simps dest: valid_black)
    then show ?thesis
      using loop s'(1) True by simp
  next
    case False
    obtain t1 x t2 where tt: "t = Nd t1 RED x t2"
      using prems(2) by (cases t) auto
    then obtain s' where s': "fix_insertion_left s (fst x) = Some (s', fst p)"
        "steps A s0 s' (plug c (Nd (Nd w RED p t1) BLACK x (Nd t2 RED g u)))"
      using insertion_left_inner [of A s0 s c w RED p t1 RED x t2 gc g u] prems(1) False by auto
    moreover have "fix_insertion_loop s' (fst p) = Some s'"
      using loop_stops [of A s0 s' "CL c BLACK x (Nd t2 RED g u)" "Nd w RED p t1"] s'(2) by simp
    ultimately show ?thesis
      using loop False tt by simp
  qed
qed

lemma loop_right_outer:
  assumes prems: "steps A s0 s (plug (CR w RED p (CR u gc g c)) t)" "color_of t = RED" "valid BLACK t" "fits (bheight t) (CR w RED p (CR u gc g c))"
    and IH: "\<And>s. color_of u = RED \<Longrightarrow> steps A s0 s (plug c (Nd (paint BLACK u) RED g (Nd w BLACK p t))) \<Longrightarrow> color_of (Nd (paint BLACK u) RED g (Nd w BLACK p t)) = RED \<Longrightarrow> valid BLACK (Nd (paint BLACK u) RED g (Nd w BLACK p t)) \<Longrightarrow>
      fits (bheight (Nd (paint BLACK u) RED g (Nd w BLACK p t))) c \<Longrightarrow> \<exists>s'. fix_insertion_loop s (addr_of (Nd (paint BLACK u) RED g (Nd w BLACK p t))) = Some s' \<and> steps A s0 s' (insfix c (Nd (paint BLACK u) RED g (Nd w BLACK p t)))"
  shows "\<exists>s'. fix_insertion_loop s (addr_of t) = Some s' \<and> steps A s0 s' (insfix (CR w RED p (CR u gc g c)) t)"
proof -
  have t: "t \<noteq> Lf"
    using prems(2) by auto
  have loop: "fix_insertion_loop s (addr_of t) = Option.bind (fix_insertion_right s (addr_of t)) (\<lambda>(s, x). fix_insertion_loop s x)"
    using loop_right [of s u gc g c w p t "addr_of t" t] steps_rb [OF prems(1)] t by simp
  show ?thesis
  proof (cases "color_of u = RED")
    case True
    have "parentOf s (addr_of t) = fst p"
      using focus_parent [OF steps_rb [OF prems(1)] t] by simp
    then obtain s' where s': "fix_insertion_right s (addr_of t) = Some (s', fst g)"
        "steps A s0 s' (plug c (Nd (paint BLACK u) RED g (Nd w BLACK p t)))"
      using insertion_right_red [of A s0 s c u gc g w RED p t] prems(1) True by auto
    have "\<exists>s''. fix_insertion_loop s' (addr_of (Nd (paint BLACK u) RED g (Nd w BLACK p t))) = Some s'' \<and>
        steps A s0 s'' (insfix c (Nd (paint BLACK u) RED g (Nd w BLACK p t)))"
      using True s'(2) prems(2-4) by (intro IH) (auto simp: valid_simps dest: valid_black)
    then show ?thesis
      using loop s'(1) True by simp
  next
    case False
    then obtain s' where s': "fix_insertion_right s (addr_of t) = Some (s', addr_of t)"
        "steps A s0 s' (plug c (Nd (Nd u RED g w) BLACK p t))"
      using insertion_right_outer [of A s0 s c u gc g w RED p t] prems(1) t by auto
    moreover have "fix_insertion_loop s' (addr_of t) = Some s'"
      using loop_stops [of A s0 s' "CR (Nd u RED g w) BLACK p c" t] s'(2) t by simp
    ultimately show ?thesis
      using loop False by simp
  qed
qed

lemma loop_right_inner:
  assumes prems: "steps A s0 s (plug (CL (CR u gc g c) RED p w) t)" "color_of t = RED" "valid BLACK t" "fits (bheight t) (CL (CR u gc g c) RED p w)"
    and IH: "\<And>s. color_of u = RED \<Longrightarrow> steps A s0 s (plug c (Nd (paint BLACK u) RED g (Nd t BLACK p w))) \<Longrightarrow> color_of (Nd (paint BLACK u) RED g (Nd t BLACK p w)) = RED \<Longrightarrow> valid BLACK (Nd (paint BLACK u) RED g (Nd t BLACK p w)) \<Longrightarrow>
      fits (bheight (Nd (paint BLACK u) RED g (Nd t BLACK p w))) c \<Longrightarrow> \<exists>s'. fix_insertion_loop s (addr_of (Nd (paint BLACK u) RED g (Nd t BLACK p w))) = Some s' \<and> steps A s0 s' (insfix c (Nd (paint BLACK u) RED g (Nd t BLACK p w)))"
  shows "\<exists>s'. fix_insertion_loop s (addr_of t) = Some s' \<and> steps A s0 s' (insfix (CL (CR u gc g c) RED p w) t)"
proof -
  have t: "t \<noteq> Lf"
    using prems(2) by auto
  have loop: "fix_insertion_loop s (addr_of t) = Option.bind (fix_insertion_right s (addr_of t)) (\<lambda>(s, x). fix_insertion_loop s x)"
    using loop_right [of s u gc g c t p w "addr_of t" t] steps_rb [OF prems(1)] t by simp
  show ?thesis
  proof (cases "color_of u = RED")
    case True
    have "parentOf s (addr_of t) = fst p"
      using focus_parent [OF steps_rb [OF prems(1)] t] by simp
    then obtain s' where s': "fix_insertion_right s (addr_of t) = Some (s', fst g)"
        "steps A s0 s' (plug c (Nd (paint BLACK u) RED g (Nd t BLACK p w)))"
      using insertion_right_red [of A s0 s c u gc g t RED p w] prems(1) True by auto
    have "\<exists>s''. fix_insertion_loop s' (addr_of (Nd (paint BLACK u) RED g (Nd t BLACK p w))) = Some s'' \<and>
        steps A s0 s'' (insfix c (Nd (paint BLACK u) RED g (Nd t BLACK p w)))"
      using True s'(2) prems(2-4) by (intro IH) (auto simp: valid_simps dest: valid_black)
    then show ?thesis
      using loop s'(1) True by simp
  next
    case False
    obtain t2 x t1 where tt: "t = Nd t2 RED x t1"
      using prems(2) by (cases t) auto
    then obtain s' where s': "fix_insertion_right s (fst x) = Some (s', fst p)"
        "steps A s0 s' (plug c (Nd (Nd u RED g t2) BLACK x (Nd t1 RED p w)))"
      using insertion_right_inner [of A s0 s c u gc g t2 RED x t1 RED p w] prems(1) False by auto
    moreover have "fix_insertion_loop s' (fst p) = Some s'"
      using loop_stops [of A s0 s' "CR (Nd u RED g t2) BLACK x c" "Nd t1 RED p w"] s'(2) by simp
    ultimately show ?thesis
      using loop False tt by simp
  qed

qed

lemma fix_insertion_loop_sim:
  assumes "steps A s0 s (plug c t)" "color_of t = RED" "valid BLACK t" "fits (bheight t) c"
  shows "\<exists>s'. fix_insertion_loop s (addr_of t) = Some s' \<and> steps A s0 s' (insfix c t)"
  using assms
proof (induction c t arbitrary: s rule: insfix.induct)
  case (1 c gc g u p w t)
  then show ?case by (intro loop_left_outer)
next
  case (2 w p c gc g u t)
  then show ?case by (intro loop_left_inner)
next
  case (3 w p u gc g c t)
  then show ?case by (intro loop_right_outer)
next
  case (4 u gc g c p w t)
  then show ?case by (intro loop_right_inner)
qed (rule loop_tail; auto)+

end
