(* ===== verification/Rb_Insert.thy ===== *)
theory Rb_Insert
  imports Rb_Refine
begin

text \<open>
  Lookup and insertion in the red-black tree: the way down to a key, the new node hung at the end of it, and the repair.
\<close>

section \<open>The way down\<close>

abbreviation key_of :: "entry \<Rightarrow> int" where
  "key_of e \<equiv> fst (snd e)"

fun descend :: "int \<Rightarrow> path \<Rightarrow> rbt \<Rightarrow> path \<times> rbt" where
  "descend k c Lf = (c, Lf)"
| "descend k c (Nd l col e r) =
    (if k = key_of e then (c, Nd l col e r) else if k < key_of e then descend k (CL c col e r) l
     else descend k (CR l col e c) r)"

definition keys :: "rbt \<Rightarrow> int list" where
  "keys t = map key_of (ents t)"

definition bst :: "rbt \<Rightarrow> bool" where
  "bst t \<longleftrightarrow> sorted_wrt (<) (keys t)"

text \<open>The comparison function orders these keys.\<close>

definition orders :: "(int \<Rightarrow> int \<Rightarrow> int) \<Rightarrow> int set \<Rightarrow> bool" where
  "orders cmp K \<longleftrightarrow> (\<forall>a \<in> K. \<forall>b \<in> K. (cmp a b = 0 \<longleftrightarrow> a = b) \<and> (cmp a b < 0 \<longleftrightarrow> a < b))"

lemma descend_plug: "descend k c t = (c', t') \<Longrightarrow> plug c' t' = plug c t"
  by (induction k c t rule: descend.induct) (auto split: if_splits)

lemma descend_found: "descend k c t = (c', Nd l col e r) \<Longrightarrow> key_of e = k"
  by (induction k c t rule: descend.induct) (auto split: if_splits)

section \<open>Lookup\<close>

lemma lookup_sim:
  assumes "tree_at (mem s) par t" "orders (compare s) (insert k (set (keys t)))"
  shows "lookup_loop s k (addr_of t) = Some (addr_of (snd (descend k c t)))"
  using assms
proof (induction t arbitrary: par c)
  case Lf
  then show ?case by (subst lookup_loop.simps) simp
next
  case (Nd l col e r)
  have cmp: "compare s k (key_of e) = 0 \<longleftrightarrow> k = key_of e" "compare s k (key_of e) < 0 \<longleftrightarrow> k < key_of e"
    using Nd.prems(2) by (simp_all add: orders_def keys_def)
  have sub: "orders (compare s) (insert k (set (keys l)))" "orders (compare s) (insert k (set (keys r)))"
    using Nd.prems(2) by (auto simp: orders_def keys_def)
  show ?case
    using Nd.prems(1) cmp Nd.IH(1) [of _ "CL c col e r"] Nd.IH(2) [of _ "CR l col e c"] sub
    by (subst lookup_loop.simps) (auto simp: ldf_def Let_def)
qed

section \<open>Insertion\<close>

lemma fixAfterInsertion_sim:
  assumes st: "steps A s0 s (plug c (Nd Lf col (n, k, v) Lf))" and c: "fits 0 c"
  shows "\<exists>s'. fixAfterInsertion s n = Some s' \<and> steps A s0 s' (paint BLACK (insfix c (Nd Lf RED (n, k, v) Lf)))"
proof -
  let ?t = "Nd Lf RED (n, k, v) Lf"
  have n: "n \<noteq> NULL"
    using focus(1) [OF steps_rb [OF st]] by simp
  have "steps A s0 (setColor n RED s) (plug c ?t)"
    using steps_setColor [OF st, of RED] by simp
  then obtain s1 where s1: "fix_insertion_loop (setColor n RED s) n = Some s1" "steps A s0 s1 (insfix c ?t)"
    using fix_insertion_loop_sim [of A s0 "setColor n RED s" c ?t] c by auto
  have "insfix c ?t \<noteq> Lf"
    using ents_insfix [of ?t c] by auto
  moreover have "rb_at s1 (plug Top (insfix c ?t))"
    using steps_rb [OF s1(2)] by simp
  ultimately have root: "root s1 = addr_of (insfix c ?t)" "root s1 \<noteq> NULL" "n_c (mem s1 (root s1)) = color_of (insfix c ?t)"
    using focus_root [of s1 Top "insfix c ?t"] focus_color [of s1 Top "insfix c ?t"]
    by (auto simp: colorOf_def rb_at_def) (cases "insfix c ?t"; auto)+
  have "steps A s0 (setColor (root s1) BLACK s1) (paint BLACK (insfix c ?t))"
    using steps_setColor [of A s0 s1 Top "insfix c ?t" BLACK] s1(2) root(1) by simp
  then show ?thesis
    using s1 root n by (cases "color_of (insfix c ?t) = BLACK") (auto simp: fixAfterInsertion_def stf_ok ldf_ok setColor_def bheight_paint_BLACK)
qed


lemma steps_mono: "steps A s s' t \<Longrightarrow> A \<subseteq> B \<Longrightarrow> steps B s s' t"
  by (auto simp: steps_def others_same_def)

definition link_of :: "path \<Rightarrow> nat \<Rightarrow> node \<Rightarrow> node" where
  "link_of c n = (case c of CL _ _ _ _ \<Rightarrow> n_l_update (\<lambda>_. n) | _ \<Rightarrow> n_r_update (\<lambda>_. n))"

lemma relink_link: "c \<noteq> Top \<Longrightarrow> relink c n m = upd_at (up_addr c) (link_of c n) m"
  by (cases c) (simp_all add: relink_def link_of_def)

lemma insert_at_sim:
  assumes st: "steps A s0 s (plug c Lf)" and c: "c \<noteq> Top" "fits 0 c" and n: "n \<noteq> NULL" "n \<notin> A"
  shows "\<exists>s'. insert_at s k v n (up_addr c) (link_of c n) = Some s' \<and>
    steps (insert n A) s0 s' (paint BLACK (insfix c (Nd Lf RED (n, k, v) Lf)))"
proof -
  have rb: "path_at (mem s) NULL c" "path_apart c" "root s = root_of c NULL" "path_adrs c \<subseteq> A" "others_same s0 s A"
    using st by (auto simp: steps_def rb_at_plug)
  have up: "up_addr c \<noteq> NULL" "up_addr c \<noteq> n" "n \<notin> path_adrs c"
    using focus_up(1) [OF steps_rb [OF st] c(1)] up_in [of c] rb(4) n(2) by auto
  let ?m = "upd_at n (n_p_update (\<lambda>_. up_addr c)) (upd_at n (n_v_update (\<lambda>_. v)) (upd_at n (n_k_update (\<lambda>_. k))
      (upd_at n (n_r_update (\<lambda>_. NULL)) (upd_at n (n_l_update (\<lambda>_. NULL)) (mem s)))))"
  let ?s1 = "s\<lparr>mem := relink c n ?m\<rparr>"
  let ?t = "Nd Lf (n_c (mem s n)) (n, k, v) Lf"
  have "path_at (relink c n ?m) n c"
    using rb(1,2) up(3) by (intro path_at_relink [of _ NULL]) simp_all
  moreover have "tree_at (relink c n ?m) (up_addr c) ?t"
    using n(1) up by (simp add: relink_link [OF c(1)] cell_def)
  ultimately have "rb_at ?s1 (plug c ?t)"
    using rb(2,3) up(3) root_of_other [OF c(1), of n NULL] by (simp add: rb_at_plug)
  moreover have "others_same s0 ?s1 (insert n A)"
  proof -
    have "relink c n ?m a = mem s a" if "a \<notin> insert n A" for a
    proof -
      have "a \<noteq> n" "a \<noteq> up_addr c"
        using that up_in [of c] up(1) rb(4) by auto
      then show ?thesis by (simp add: relink_link [OF c(1)])
    qed
    then show ?thesis
      using rb(5) by (simp add: others_same_def)
  qed
  ultimately have "steps (insert n A) s0 ?s1 (plug c ?t)"
    using rb(4) by (auto simp: steps_def)
  then obtain s' where "fixAfterInsertion ?s1 n = Some s'" "steps (insert n A) s0 s' (paint BLACK (insfix c (Nd Lf RED (n, k, v) Lf)))"
    using fixAfterInsertion_sim [of "insert n A" s0 ?s1 c] c(2) by blast
  then show ?thesis
    using n(1) up(1) by (simp add: insert_at_def stf_ok relink_link [OF c(1)])
qed

text \<open>What the insertion returns: the node found, or the null pointer and the tree with the new node.\<close>

definition inserted :: "nat set \<Rightarrow> rbtree \<Rightarrow> rbtree \<Rightarrow> int \<Rightarrow> nat \<Rightarrow> nat \<Rightarrow> path \<times> rbt \<Rightarrow> (nat \<times> rbtree) option \<Rightarrow> bool" where
  "inserted A s0 s k v n d res \<longleftrightarrow> (case d of (c, t) \<Rightarrow>
     if t \<noteq> Lf then res = Some (addr_of t, s)
     else \<exists>s'. res = Some (NULL, s') \<and> steps (insert n A) s0 s' (paint BLACK (insfix c (Nd Lf RED (n, k, v) Lf))))"

lemma insert_below:
  assumes "steps A s0 s (plug c t)" "c \<noteq> Top" "fits (bheight t) c" "n \<noteq> NULL" "n \<notin> A"
    and IH: "t \<noteq> Lf \<Longrightarrow> inserted A s0 s k v n (descend k c t) (insert_loop s k v n (addr_of t))"
  shows "inserted A s0 s k v n (descend k c t)
    (if addr_of t \<noteq> NULL then insert_loop s k v n (addr_of t)
     else Option.bind (insert_at s k v n (up_addr c) (link_of c n)) (\<lambda>s. Some (NULL, s)))"
proof (cases t)
  case Lf
  then show ?thesis
    using insert_at_sim [of A s0 s c n k v] assms by (auto simp: inserted_def)
next
  case (Nd l col e r)
  then have "addr_of t \<noteq> NULL"
    using focus(1) [of s c l col e r] steps_rb [OF assms(1)] by simp
  then show ?thesis
    using IH Nd by simp
qed

lemma insert_loop_sim:
  assumes "steps A s0 s (plug c t)" "t \<noteq> Lf" "orders (compare s) (insert k (set (keys t)))"
    "valid (top_color c) t" "fits (bheight t) c" "n \<noteq> NULL" "n \<notin> A"
  shows "inserted A s0 s k v n (descend k c t) (insert_loop s k v n (addr_of t))"
  using assms
proof (induction k c t rule: descend.induct)
  case (2 k c l col e r)
  have cmp: "compare s k (key_of e) = 0 \<longleftrightarrow> k = key_of e" "compare s k (key_of e) < 0 \<longleftrightarrow> k < key_of e"
    using "2.prems"(3) by (simp_all add: orders_def keys_def)
  have sub: "orders (compare s) (insert k (set (keys l)))" "orders (compare s) (insert k (set (keys r)))"
    using "2.prems"(3) by (auto simp: orders_def keys_def)
  note f = focus [OF steps_rb [OF "2.prems"(1)]]
  have run: "insert_loop s k v n (fst e) = (if k = key_of e then Some (fst e, s) else if k < key_of e then
       (if addr_of l \<noteq> NULL then insert_loop s k v n (addr_of l)
        else Option.bind (insert_at s k v n (fst e) (n_l_update (\<lambda>_. n))) (\<lambda>s. Some (NULL, s)))
     else (if addr_of r \<noteq> NULL then insert_loop s k v n (addr_of r)
        else Option.bind (insert_at s k v n (fst e) (n_r_update (\<lambda>_. n))) (\<lambda>s. Some (NULL, s))))"
    by (subst insert_loop.simps) (simp add: ldf_ok [OF f(1)] f(6) cmp Let_def)
  consider "k = key_of e" | "k < key_of e" | "key_of e < k" by linarith
  then show ?case
  proof cases
    case 1
    then show ?thesis using run by (simp add: inserted_def)
  next
    case 2
    have "inserted A s0 s k v n (descend k (CL c col e r) l) (if addr_of l \<noteq> NULL then insert_loop s k v n (addr_of l)
        else Option.bind (insert_at s k v n (up_addr (CL c col e r)) (link_of (CL c col e r) n)) (\<lambda>s. Some (NULL, s)))"
      using "2.prems" 2 sub by (intro insert_below "2.IH"(1)) auto
    then show ?thesis
      using 2 run by (cases "addr_of l = NULL") (simp_all add: link_of_def)
  next
    case 3
    have "inserted A s0 s k v n (descend k (CR l col e c) r) (if addr_of r \<noteq> NULL then insert_loop s k v n (addr_of r)
        else Option.bind (insert_at s k v n (up_addr (CR l col e c)) (link_of (CR l col e c) n)) (\<lambda>s. Some (NULL, s)))"
      using "2.prems" 3 sub by (intro insert_below "2.IH"(2)) auto
    then show ?thesis
      using 3 run by (cases "addr_of r = NULL") (simp_all add: link_of_def)
  qed
qed simp

lemma insert_node_sim:
  assumes rb: "rb_at s t" and ok: "rb_ok t" and ord: "orders (compare s) (insert k (set (keys t)))" and n: "n \<noteq> NULL" "n \<notin> adrs t"
  shows "inserted (adrs t) s s k v n (descend k Top t) (insert_node s k v n)"
proof (cases t)
  case Lf
  let ?m = "upd_at n (n_c_update (\<lambda>_. BLACK)) (upd_at n (n_v_update (\<lambda>_. v)) (upd_at n (n_k_update (\<lambda>_. k))
      (upd_at n (n_p_update (\<lambda>_. NULL)) (upd_at n (n_r_update (\<lambda>_. NULL)) (upd_at n (n_l_update (\<lambda>_. NULL)) (mem s))))))"
  have "?m n = cell NULL NULL BLACK (n, k, v) NULL"
    by (simp add: cell_def)
  then have "steps {n} s (s\<lparr>mem := ?m, root := n\<rparr>) (Nd Lf BLACK (n, k, v) Lf)"
    using n by (auto simp: steps_def rb_at_def others_same_def)
  moreover have "insert_node s k v n = Some (NULL, s\<lparr>mem := ?m, root := n\<rparr>)"
    using rb Lf n by (simp add: insert_node_def rb_at_def stf_ok)
  ultimately show ?thesis
    using Lf by (simp add: inserted_def)
next
  case (Nd l col e r)
  have "steps (adrs t) s s (plug Top t)"
    using rb by (simp add: steps_def)
  then have "inserted (adrs t) s s k v n (descend k Top t) (insert_loop s k v n (addr_of t))"
    using ok ord n Nd by (intro insert_loop_sim) (auto simp: rb_ok_def)
  moreover have "root s = addr_of t" "root s \<noteq> NULL"
    using rb Nd by (auto simp: rb_at_def)
  ultimately show ?thesis
    by (simp add: insert_node_def)
qed

end
