(* ===== verification/Rb_Delete.thy ===== *)
theory Rb_Delete
  imports Rb_Refine
begin

text \<open>
  Deletion from the red-black tree: the repair loop and the removal of a node.
\<close>

section \<open>The repair\<close>

text \<open>The left branch of the loop, after the sibling has been made black.\<close>

definition deletion_rest_left :: "rbtree \<Rightarrow> nat \<Rightarrow> nat \<Rightarrow> (rbtree \<times> nat) option" where
  "deletion_rest_left s sib x =
    (if colorOf s (leftOf s sib) = BLACK \<and> colorOf s (rightOf s sib) = BLACK then
       (let s = setColor sib RED s in Some (s, parentOf s x))
     else do {
       (s, sib) \<leftarrow> (if colorOf s (rightOf s sib) = BLACK then do {
           let s = setColor (leftOf s sib) BLACK s;
           let s = setColor sib RED s;
           s \<leftarrow> rotateRight s sib;
           Some (s, rightOf s (parentOf s x))
         } else Some (s, sib));
       let s = setColor sib (colorOf s (parentOf s x)) s;
       let s = setColor (parentOf s x) BLACK s;
       let s = setColor (rightOf s sib) BLACK s;
       s \<leftarrow> rotateLeft s (parentOf s x);
       Some (s, root s)
     })"

lemma fix_deletion_left_rest:
  "fix_deletion_left s x = do {
     let sib = rightOf s (parentOf s x);
     (s, sib) \<leftarrow> (if colorOf s sib = RED then do {
         let s = setColor sib BLACK s;
         let s = setColor (parentOf s x) RED s;
         s \<leftarrow> rotateLeft s (parentOf s x);
         Some (s, rightOf s (parentOf s x))
       } else Some (s, sib));
     deletion_rest_left s sib x
   }"
  by (simp add: fix_deletion_left_def deletion_rest_left_def)

text \<open>Recolouring and the last rotation.\<close>

lemma deletion_finish:
  assumes st: "steps A s0 s (plug c (Nd t pc p (Nd a ec e b)))" and t: "t \<noteq> Lf"
  shows "\<exists>s'. rotateLeft (setColor (rightOf s (fst e)) BLACK (setColor (fst p) BLACK (setColor (fst e) pc s))) (fst p) = Some s' \<and>
    steps A s0 s' (plug c (Nd (Nd t BLACK p a) pc e (paint BLACK b)))"
proof -
  have b: "rightOf s (fst e) = addr_of b"
    using focus(4) [of s "CR t pc p c" a ec e b] steps_rb [OF st] by simp
  have "steps A s0 (setColor (fst e) pc s) (plug (CR t pc p c) (Nd a pc e b))"
    using steps_setColor [of A s0 s "CR t pc p c" "Nd a ec e b" pc] st by simp
  then have "steps A s0 (setColor (fst p) BLACK (setColor (fst e) pc s)) (plug c (Nd t BLACK p (Nd a pc e b)))"
    using steps_setColor [of A s0 _ c "Nd t pc p (Nd a pc e b)" BLACK] by simp
  then have "steps A s0 (setColor (addr_of b) BLACK (setColor (fst p) BLACK (setColor (fst e) pc s)))
      (plug c (Nd t BLACK p (Nd a pc e (paint BLACK b))))"
    using steps_setColor [of A s0 _ "CR a pc e (CR t BLACK p c)" b BLACK] by simp
  then show ?thesis
    using steps_rotateLeft b by simp
qed

lemma deletion_rest_nephews:
  assumes st: "steps A s0 s (plug c (Nd t pc p (Nd a BLACK e b)))" and x: "parentOf s x = fst p"
    and n: "color_of a = BLACK" "color_of b = BLACK"
  shows "\<exists>s'. deletion_rest_left s (fst e) x = Some (s', fst p) \<and> steps A s0 s' (plug c (Nd t pc p (Nd a RED e b)))"
proof -
  have rb: "rb_at s (plug (CR t pc p c) (Nd a BLACK e b))" "rb_at s (plug (CL (CR t pc p c) BLACK e b) a)"
      "rb_at s (plug (CR a BLACK e (CR t pc p c)) b)"
    using steps_rb [OF st] by simp_all
  have "steps A s0 (setColor (fst e) RED s) (plug (CR t pc p c) (Nd a RED e b))"
    using steps_setColor [of A s0 s "CR t pc p c" "Nd a BLACK e b" RED] st by simp
  then show ?thesis
    using focus(3,4) [OF rb(1)] focus_color [OF rb(2)] focus_color [OF rb(3)] n x
    by (simp add: deletion_rest_left_def)
qed

lemma deletion_rest_outer:
  assumes st: "steps A s0 s (plug c (Nd t pc p (Nd a ec e b)))" and t: "t \<noteq> Lf" and n: "color_of b = RED"
  shows "\<exists>s'. deletion_rest_left s (fst e) (addr_of t) = Some (s', root s') \<and>
    steps A s0 s' (plug c (Nd (Nd t BLACK p a) pc e (paint BLACK b)))"
proof -
  have rb: "rb_at s (plug (CR t pc p c) (Nd a ec e b))" "rb_at s (plug (CL c pc p (Nd a ec e b)) t)"
      "rb_at s (plug (CR a ec e (CR t pc p c)) b)" "rb_at s (plug c (Nd t pc p (Nd a ec e b)))"
    using steps_rb [OF st] by simp_all
  have x: "parentOf s (addr_of t) = fst p"
    using focus_parent [OF rb(2) t] by simp
  obtain s' where "rotateLeft (setColor (rightOf s (fst e)) BLACK (setColor (fst p) BLACK (setColor (fst e) pc s))) (fst p) = Some s'"
    "steps A s0 s' (plug c (Nd (Nd t BLACK p a) pc e (paint BLACK b)))"
    using deletion_finish [OF st t] by blast
  then show ?thesis
    using focus(3,4) [OF rb(1)] focus_color [OF rb(3)] focus(5) [OF rb(4)] n x
    by (simp add: deletion_rest_left_def)
qed

lemma deletion_rest_inner:
  assumes st: "steps A s0 s (plug c (Nd t pc p (Nd (Nd a1 RED m a2) ec e b)))" and t: "t \<noteq> Lf" and n: "color_of b = BLACK"
  shows "\<exists>s'. deletion_rest_left s (fst e) (addr_of t) = Some (s', root s') \<and>
    steps A s0 s' (plug c (Nd (Nd t BLACK p a1) pc m (Nd a2 BLACK e b)))"
proof -
  let ?a = "Nd a1 RED m a2"
  have rb: "rb_at s (plug (CR t pc p c) (Nd ?a ec e b))" "rb_at s (plug (CL c pc p (Nd ?a ec e b)) t)"
      "rb_at s (plug (CR ?a ec e (CR t pc p c)) b)" "rb_at s (plug (CL (CR t pc p c) ec e b) ?a)"
    using steps_rb [OF st] by simp_all
  have x: "parentOf s (addr_of t) = fst p"
    using focus_parent [OF rb(2) t] by simp
  let ?s2 = "setColor (fst e) RED (setColor (fst m) BLACK s)"
  have "steps A s0 (setColor (fst m) BLACK s) (plug (CL (CR t pc p c) ec e b) (Nd a1 BLACK m a2))"
    using steps_setColor [of A s0 s "CL (CR t pc p c) ec e b" ?a BLACK] st by simp
  then have "steps A s0 ?s2 (plug (CR t pc p c) (Nd (Nd a1 BLACK m a2) RED e b))"
    using steps_setColor [of A s0 _ "CR t pc p c" "Nd (Nd a1 BLACK m a2) ec e b" RED] by simp
  then obtain s3 where s3: "rotateRight ?s2 (fst e) = Some s3" "steps A s0 s3 (plug (CR t pc p c) (Nd a1 BLACK m (Nd a2 RED e b)))"
    using steps_rotateRight by blast
  have rb3: "rb_at s3 (plug c (Nd t pc p (Nd a1 BLACK m (Nd a2 RED e b))))" "rb_at s3 (plug (CL c pc p (Nd a1 BLACK m (Nd a2 RED e b))) t)"
    using steps_rb [OF s3(2)] by simp_all
  have x3: "parentOf s3 (addr_of t) = fst p"
    using focus_parent [OF rb3(2) t] by simp
  obtain s' where "rotateLeft (setColor (rightOf s3 (fst m)) BLACK (setColor (fst p) BLACK (setColor (fst m) pc s3))) (fst p) = Some s'"
    "steps A s0 s' (plug c (Nd (Nd t BLACK p a1) pc m (paint BLACK (Nd a2 RED e b))))"
    using deletion_finish [of A s0 s3 c t pc p a1 BLACK m "Nd a2 RED e b"] s3(2) t by auto
  then show ?thesis
    using focus(3,4) [OF rb(1)] focus_color [OF rb(3)] focus(5) [OF rb(4)] n x s3(1) x3 focus(4,5) [OF rb3(1)]
    by (simp add: deletion_rest_left_def)
qed


lemma path_root_black: "fits n c \<Longrightarrow> c \<noteq> Top \<Longrightarrow> color_of (plug c t) = BLACK"
proof (induction c arbitrary: n t)
  case (CL c col e r)
  then show ?case by (cases "c = Top") auto
next
  case (CR l col e c)
  then show ?case by (cases "c = Top") auto
qed simp

text \<open>
  What one pass of the loop achieves: the repair goes on one level up, or is over.
\<close>

definition pass_done :: "nat set \<Rightarrow> rbtree \<Rightarrow> path \<Rightarrow> rbt \<Rightarrow> (rbtree \<times> nat) option \<Rightarrow> path \<Rightarrow> bool" where
  "pass_done A s0 c t res up \<longleftrightarrow> (\<exists>s' c' t'. res = Some (s', addr_of t') \<and> t' \<noteq> Lf \<and> steps A s0 s' (plug c' t') \<and>
     delfix c t = delfix c' t' \<and> (c' = up \<and> (\<exists>m. fits (Suc m) up) \<or> c' = Top \<or> color_of t' = RED))"

lemma pass_done_up:
  "res = Some (s', addr_of t') \<Longrightarrow> t' \<noteq> Lf \<Longrightarrow> steps A s0 s' (plug up t') \<Longrightarrow> delfix c t = delfix up t' \<Longrightarrow> fits (Suc m) up \<Longrightarrow>
    pass_done A s0 c t res up"
  unfolding pass_done_def by blast

lemma pass_done_red:
  "res = Some (s', addr_of t') \<Longrightarrow> steps A s0 s' (plug c' t') \<Longrightarrow> delfix c t = plug c' (paint BLACK t') \<Longrightarrow> color_of t' = RED \<Longrightarrow>
    pass_done A s0 c t res up"
  unfolding pass_done_def using delfix_red by (metis color.distinct(1) color_of.simps(1))

lemma pass_done_root:
  assumes "res = Some (s', root s')" "steps A s0 s' T" "delfix c t = T" "T \<noteq> Lf" "color_of T = BLACK"
  shows "pass_done A s0 c t res up"
proof -
  have "root s' = addr_of T"
    using assms(2) by (simp add: steps_def rb_at_def)
  then show ?thesis
    unfolding pass_done_def using assms by (intro exI [of _ s'] exI [of _ Top] exI [of _ T]) (simp add: bheight_paint_BLACK)
qed

text \<open>The pass with a black sibling \<open>sib\<close> under the parent \<open>p\<close>.\<close>

lemma deletion_rest_turn:
  assumes st: "steps A s0 s (plug c (Nd t pc p sib))" and t: "t \<noteq> Lf" and n: "\<not> nephews_black sib"
  shows "\<exists>s'. deletion_rest_left s (addr_of sib) (addr_of t) = Some (s', root s') \<and> steps A s0 s' (plug c (turnL t pc p sib))"
proof -
  obtain a ec e b where sib: "sib = Nd a ec e b"
    using n by (cases sib) auto
  show ?thesis
  proof (cases "color_of b = BLACK")
    case True
    then obtain a1 m a2 where "a = Nd a1 RED m a2"
      using n sib by (cases a) auto
    then show ?thesis
      using deletion_rest_inner [of A s0 s c t pc p a1 m a2 ec e b] st t True sib by simp
  next
    case False
    then show ?thesis
      using deletion_rest_outer [of A s0 s c t pc p a ec e b] st t sib by simp
  qed
qed

lemma plug_turn_black:
  assumes "\<not> nephews_black sib" "top_color c = RED \<longrightarrow> pc = BLACK" "fits n c"
  shows "plug c (turnL t pc p sib) \<noteq> Lf" "color_of (plug c (turnL t pc p sib)) = BLACK"
proof -
  have "ents (plug c (turnL t pc p sib)) \<noteq> []"
    using ents_turnL [OF assms(1)] by simp
  then show "plug c (turnL t pc p sib) \<noteq> Lf" by (metis ents.simps(1))
  have "color_of (turnL t pc p sib) = pc"
    using assms(1) by (cases sib) (auto split: rbt.splits)
  then show "color_of (plug c (turnL t pc p sib)) = BLACK"
    using path_root_black [OF assms(3)] assms(2) by (cases "c = Top") auto
qed

lemma deletion_black_sibling:
  assumes st: "steps A s0 s (plug (CL c pc p sib) t)" and t: "t \<noteq> Lf" "color_of t = BLACK" and sib: "color_of sib = BLACK"
    and fit: "fits (Suc m) (CL c pc p sib)"
  shows "pass_done A s0 (CL c pc p sib) t (deletion_rest_left s (addr_of sib) (addr_of t)) c"
proof (cases "nephews_black sib")
  case True
  obtain a e b where s: "sib = Nd a BLACK e b"
    using sib fit by (cases sib) auto
  have "parentOf s (addr_of t) = fst p"
    using focus_parent [OF steps_rb [OF st] t(1)] by simp
  then obtain s' where "deletion_rest_left s (fst e) (addr_of t) = Some (s', fst p)" "steps A s0 s' (plug c (Nd t pc p (Nd a RED e b)))"
    using deletion_rest_nephews [of A s0 s c t pc p a e b] st s True by auto
  then show ?thesis
    using s True t(2) fit by (intro pass_done_up [where t' = "Nd t pc p (Nd a RED e b)" and m = "m + (if pc = BLACK then 1 else 0)"]) simp_all
next
  case False
  obtain s' where s': "deletion_rest_left s (addr_of sib) (addr_of t) = Some (s', root s')" "steps A s0 s' (plug c (turnL t pc p sib))"
    using deletion_rest_turn [of A s0 s c t pc p sib] st t(1) False by auto
  show ?thesis
    using s' t(2) sib False fit plug_turn_black [OF False, of c pc _ t p] by (intro pass_done_root [OF s']) auto
qed

lemma deletion_red_sibling:
  assumes st: "steps A s0 s3 (plug c (Nd (Nd t RED p a) BLACK e b))" and t: "t \<noteq> Lf" "color_of t = BLACK"
    and fit: "fits (Suc m) (CL c BLACK p (Nd a RED e b))"
  shows "pass_done A s0 (CL c BLACK p (Nd a RED e b)) t (deletion_rest_left s3 (addr_of a) (addr_of t)) c"
proof (cases "nephews_black a")
  case True
  have "rb_at s3 (plug (CL (CL c BLACK e b) RED p a) t)"
    using steps_rb [OF st] by simp
  then have x: "parentOf s3 (addr_of t) = fst p"
    using focus_parent [of s3 "CL (CL c BLACK e b) RED p a" t] t(1) by simp
  obtain a1 f a2 where aa: "a = Nd a1 BLACK f a2"
    using fit by (cases a) auto
  then obtain s' where "deletion_rest_left s3 (fst f) (addr_of t) = Some (s', fst p)"
      "steps A s0 s' (plug (CL c BLACK e b) (Nd t RED p (Nd a1 RED f a2)))"
    using deletion_rest_nephews [of A s0 s3 "CL c BLACK e b" t RED p a1 f a2 "addr_of t"] st x True by auto
  then show ?thesis
    using aa t(2) True by (intro pass_done_red [where c' = "CL c BLACK e b" and t' = "Nd t RED p (Nd a1 RED f a2)"]) simp_all
next
  case False
  obtain s' where s': "deletion_rest_left s3 (addr_of a) (addr_of t) = Some (s', root s')"
      "steps A s0 s' (plug (CL c BLACK e b) (turnL t RED p a))"
    using deletion_rest_turn [of A s0 s3 "CL c BLACK e b" t RED p a] st t(1) False by auto
  have "fits (Suc m) (CL c BLACK e b)"
    using fit by (auto simp: valid_RED_iff)
  then show ?thesis
    using s' t(2) False plug_turn_black [OF False, of "CL c BLACK e b" RED "Suc m" t p] by (intro pass_done_root [OF s']) auto
qed

lemma deletion_left_sim:
  assumes st: "steps A s0 s (plug (CL c pc p sib) t)" and t: "t \<noteq> Lf" "color_of t = BLACK" and fit: "fits (Suc m) (CL c pc p sib)"
  shows "pass_done A s0 (CL c pc p sib) t (fix_deletion_left s (addr_of t)) c"
proof -
  have rb: "rb_at s (plug c (Nd t pc p sib))" "rb_at s (plug (CL c pc p sib) t)" "rb_at s (plug (CR t pc p c) sib)"
    using steps_rb [OF st] by simp_all
  have x: "parentOf s (addr_of t) = fst p" "rightOf s (fst p) = addr_of sib" "colorOf s (addr_of sib) = color_of sib"
    using focus_parent [OF rb(2) t(1)] focus(4) [OF rb(1)] focus_color [OF rb(3)] by simp_all
  show ?thesis
  proof (cases "color_of sib = BLACK")
    case True
    then show ?thesis
      using deletion_black_sibling [OF st t True fit] x by (simp add: fix_deletion_left_rest)
  next
    case False
    then obtain a e b where sib: "sib = Nd a RED e b" by (cases sib) auto
    have pc: "pc = BLACK"
      using fit sib by auto
    let ?s2 = "setColor (fst p) RED (setColor (fst e) BLACK s)"
    have "steps A s0 (setColor (fst e) BLACK s) (plug (CR t pc p c) (Nd a BLACK e b))"
      using steps_setColor [of A s0 s "CR t pc p c" sib BLACK] st sib by simp
    then have "steps A s0 ?s2 (plug c (Nd t RED p (Nd a BLACK e b)))"
      using steps_setColor [of A s0 _ c "Nd t pc p (Nd a BLACK e b)" RED] by simp
    then obtain s3 where s3: "rotateLeft ?s2 (fst p) = Some s3" "steps A s0 s3 (plug c (Nd (Nd t RED p a) BLACK e b))"
      using steps_rotateLeft by blast
    have rb3: "rb_at s3 (plug (CL c BLACK e b) (Nd t RED p a))" "rb_at s3 (plug (CL (CL c BLACK e b) RED p a) t)"
      using steps_rb [OF s3(2)] by simp_all
    have x3: "parentOf s3 (addr_of t) = fst p" "rightOf s3 (fst p) = addr_of a"
      using focus_parent [OF rb3(2) t(1)] focus(4) [OF rb3(1)] by simp_all
    have "fix_deletion_left s (addr_of t) = deletion_rest_left s3 (addr_of a) (addr_of t)"
      using x sib s3(1) x3 by (simp add: fix_deletion_left_rest)
    then show ?thesis
      using deletion_red_sibling [OF s3(2) t, of m] fit sib pc by simp
  qed
qed

text \<open>The right branch.\<close>

lemma deletion_mirror: "fix_deletion_left (mirror s) x = map_option (apfst mirror) (fix_deletion_right s x)"
  by (simp only: fix_deletion_left_def fix_deletion_right_def Let_def setColor_mirror rotate_mirror rotate_mirror'
      access_mirror mirror_simps bind_mirror [where f = mirror] map_bind [symmetric] if_mirror(1) mirror_pull)

lemma pass_done_mirror:
  assumes "pass_done A (mirror s0) (mirp c) (mir t) (map_option (apfst mirror) res) (mirp up)"
  shows "pass_done A s0 c t res up"
proof -
  obtain s' c' t' where d: "map_option (apfst mirror) res = Some (s', addr_of t')" "t' \<noteq> Lf" "steps A (mirror s0) s' (plug c' t')"
      "delfix (mirp c) (mir t) = delfix c' t'" "c' = mirp up \<and> (\<exists>m. fits (Suc m) (mirp up)) \<or> c' = Top \<or> color_of t' = RED"
    using assms by (auto simp: pass_done_def)
  obtain s1 where s1: "res = Some (s1, addr_of t')" "s' = mirror s1"
    using d(1) by auto
  have "steps A s0 s1 (plug (mirp c') (mir t'))"
    using d(3) s1(2) steps_mirror [of A s0 s1 "plug (mirp c') (mir t')"] by (simp add: mir_plug)
  moreover have "delfix c t = delfix (mirp c') (mir t')"
    using d(4) delfix_mir [of c t] delfix_mir [of "mirp c'" "mir t'"] by (metis mir_mir mirp_mirp)
  moreover have "mir t' \<noteq> Lf"
    using d(2) by (cases t') simp_all
  moreover have "mirp c' = up \<and> (\<exists>m. fits (Suc m) up) \<or> mirp c' = Top \<or> color_of (mir t') = RED"
    using d(5) fits_mirp [of _ "mirp up"] by auto
  ultimately show ?thesis
    unfolding pass_done_def using s1(1) by (intro exI [of _ s1] exI [of _ "mirp c'"] exI [of _ "mir t'"]) simp
qed

lemma deletion_right_sim:
  assumes st: "steps A s0 s (plug (CR sib pc p c) t)" and t: "t \<noteq> Lf" "color_of t = BLACK" and fit: "fits (Suc m) (CR sib pc p c)"
  shows "pass_done A s0 (CR sib pc p c) t (fix_deletion_right s (addr_of t)) c"
proof (rule pass_done_mirror)
  have "steps A (mirror s0) (mirror s) (plug (mirp (CR sib pc p c)) (mir t))"
    using st steps_mirror [of A s0 s "plug (CR sib pc p c) t"] by (simp add: mir_plug)
  moreover have "mir t \<noteq> Lf"
    using t(1) by (cases t) simp_all
  ultimately have "pass_done A (mirror s0) (mirp (CR sib pc p c)) (mir t) (fix_deletion_left (mirror s) (addr_of (mir t))) (mirp c)"
    using deletion_left_sim [of A "mirror s0" "mirror s" "mirp c" pc p "mir sib" "mir t" m] t(2) fits_mirp [OF fit] by simp
  then show "pass_done A (mirror s0) (mirp (CR sib pc p c)) (mir t) (map_option (apfst mirror) (fix_deletion_right s (addr_of t))) (mirp c)"
    by (simp add: deletion_mirror)
qed

section \<open>The loop\<close>

lemma fixAfterDeletion_unfold:
  "fixAfterDeletion s x = (if x \<noteq> root s \<and> colorOf s x = BLACK
     then Option.bind (if x = leftOf s (parentOf s x) then fix_deletion_left s x else fix_deletion_right s x) (\<lambda>(s, x). fixAfterDeletion s x)
     else if x \<noteq> NULL \<and> n_c (mem s x) \<noteq> BLACK then stf x (n_c_update (\<lambda>_. BLACK)) s else Some s)"
proof -
  let ?b = "if x = leftOf s (parentOf s x) then fix_deletion_left s x else fix_deletion_right s x"
  have "fix_deletion_loop s x = (if x \<noteq> root s \<and> colorOf s x = BLACK then Option.bind ?b (\<lambda>(s, x). fix_deletion_loop s x) else Some (s, x))"
    by (subst fix_deletion_loop.simps) simp
  then show ?thesis
    unfolding fixAfterDeletion_def by (cases ?b) (simp_all split: prod.splits del: color_neq)
qed


lemma fixAfterDeletion_exit:
  assumes st: "steps A s0 s (plug c t)" and t: "t \<noteq> Lf" and e: "c = Top \<or> color_of t = RED"
  shows "\<exists>s'. fixAfterDeletion s (addr_of t) = Some s' \<and> steps A s0 s' (delfix c t)"
proof -
  have nn: "addr_of t \<noteq> NULL"
    using t steps_rb [OF st] by (cases t) (auto simp: rb_at_plug)
  have col: "n_c (mem s (addr_of t)) = color_of t"
    using focus_color [OF steps_rb [OF st]] nn by (simp add: colorOf_def)
  have d: "delfix c t = plug c (paint BLACK t)"
    using e delfix_red by (cases "c = Top") auto
  have "fixAfterDeletion s (addr_of t) = Some (if color_of t = RED then setColor (addr_of t) BLACK s else s)"
    using focus_root [OF steps_rb [OF st] t] e nn col
    by (subst fixAfterDeletion_unfold) (auto simp: stf_ok setColor_def colorOf_def)
  moreover have "steps A s0 (if color_of t = RED then setColor (addr_of t) BLACK s else s) (plug c (paint BLACK t))"
    using st steps_setColor [OF st, of BLACK] by (auto simp: bheight_paint_BLACK)
  ultimately show ?thesis
    using d by simp
qed

lemma fixAfterDeletion_pass:
  assumes st: "steps A s0 s (plug c t)" and t: "t \<noteq> Lf" "color_of t = BLACK" and c: "c \<noteq> Top"
    and pass: "pass_done A s0 c t (if addr_of t = leftOf s (up_addr c) then fix_deletion_left s (addr_of t) else fix_deletion_right s (addr_of t)) up"
    and IH: "\<And>t s. steps A s0 s (plug up t) \<Longrightarrow> t \<noteq> Lf \<Longrightarrow> \<exists>m. fits (Suc m) up \<Longrightarrow>
      \<exists>s'. fixAfterDeletion s (addr_of t) = Some s' \<and> steps A s0 s' (delfix up t)"
  shows "\<exists>s'. fixAfterDeletion s (addr_of t) = Some s' \<and> steps A s0 s' (delfix c t)"
proof -
  obtain s' c' t' where p: "(if addr_of t = leftOf s (up_addr c) then fix_deletion_left s (addr_of t) else fix_deletion_right s (addr_of t)) =
        Some (s', addr_of t')"
      "t' \<noteq> Lf" "steps A s0 s' (plug c' t')" "delfix c t = delfix c' t'"
      "c' = up \<and> (\<exists>m. fits (Suc m) up) \<or> c' = Top \<or> color_of t' = RED"
    using pass unfolding pass_done_def by blast
  have "fixAfterDeletion s (addr_of t) = fixAfterDeletion s' (addr_of t')"
    using focus_root [OF steps_rb [OF st] t(1)] focus_color [OF steps_rb [OF st]] focus_parent [OF steps_rb [OF st] t(1)] c t(2) p(1)
    by (subst fixAfterDeletion_unfold) (auto split: if_splits)
  moreover have "\<exists>s''. fixAfterDeletion s' (addr_of t') = Some s'' \<and> steps A s0 s'' (delfix c' t')"
    using p(5) IH [OF _ p(2)] fixAfterDeletion_exit [OF p(3,2)] p(3) by blast
  ultimately show ?thesis
    using p(4) by simp
qed

lemma fixAfterDeletion_sim:
  assumes "steps A s0 s (plug c t)" "t \<noteq> Lf" "\<exists>m. fits (Suc m) c"
  shows "\<exists>s'. fixAfterDeletion s (addr_of t) = Some s' \<and> steps A s0 s' (delfix c t)"
  using assms
proof (induction c arbitrary: t s)
  case Top
  then show ?case using fixAfterDeletion_exit by blast
next
  case (CL c pc p sib)
  have rb: "rb_at s (plug c (Nd t pc p sib))"
    using steps_rb [OF CL.prems(1)] by simp
  obtain m where m: "fits (Suc m) (CL c pc p sib)"
    using CL.prems(3) by blast
  show ?case
  proof (cases "color_of t = RED")
    case False
    then have "pass_done A s0 (CL c pc p sib) t (fix_deletion_left s (addr_of t)) c"
      using deletion_left_sim [OF CL.prems(1,2) _ m] by simp
    then show ?thesis
      using fixAfterDeletion_pass [OF CL.prems(1,2)] CL.IH False focus(3) [OF rb] by simp
  qed (use fixAfterDeletion_exit [OF CL.prems(1,2)] in blast)
next
  case (CR sib pc p c)
  have rb: "rb_at s (plug c (Nd sib pc p t))"
    using steps_rb [OF CR.prems(1)] by simp
  obtain m where m: "fits (Suc m) (CR sib pc p c)"
    using CR.prems(3) by blast
  have "addr_of sib \<noteq> addr_of t"
    using focus_neq [OF rb] m by (cases sib) auto
  then show ?case
  proof (cases "color_of t = RED")
    case False
    then have "pass_done A s0 (CR sib pc p c) t (fix_deletion_right s (addr_of t)) c"
      using deletion_right_sim [OF CR.prems(1,2) _ m] by simp
    then show ?thesis
      using fixAfterDeletion_pass [OF CR.prems(1,2)] CR.IH False focus(3) [OF rb] \<open>addr_of sib \<noteq> addr_of t\<close> by simp
  qed (use fixAfterDeletion_exit [OF CR.prems(1,2)] in blast)
qed

end
