(* ===== verification/Rb_Remove.thy ===== *)
theory Rb_Remove
  imports Rb_Delete
begin

text \<open>
  Removal of a node from the red-black tree: \<^verbatim>\<open>delete_node\<close> with its three cases.
\<close>

section \<open>The second half: a node with at most one child\<close>

definition delete_splice :: "rbtree \<Rightarrow> nat \<Rightarrow> nat \<Rightarrow> nat \<Rightarrow> (nat \<times> rbtree) option" where
  "delete_splice s p replacement pp = do {
     s \<leftarrow> stf replacement (n_p_update (\<lambda>_. pp)) s;
     pp \<leftarrow> ldf n_p s p;
     s \<leftarrow> (if pp = NULL then Some (s\<lparr>root := replacement\<rparr>)
          else do {
            ppl \<leftarrow> ldf n_l s pp;
            if p = ppl then stf pp (n_l_update (\<lambda>_. replacement)) s else stf pp (n_r_update (\<lambda>_. replacement)) s
          });
     s \<leftarrow> stf p (n_l_update (\<lambda>_. NULL)) s;
     s \<leftarrow> stf p (n_r_update (\<lambda>_. NULL)) s;
     s \<leftarrow> stf p (n_p_update (\<lambda>_. NULL)) s;
     c \<leftarrow> ldf n_c s p;
     s \<leftarrow> (if c = BLACK then fixAfterDeletion s replacement else Some s);
     Some (p, s)
   }"

definition delete_unlink :: "rbtree \<Rightarrow> nat \<Rightarrow> rbtree option" where
  "delete_unlink s p = do {
     pp \<leftarrow> ldf n_p s p;
     if pp \<noteq> NULL then do {
       ppl \<leftarrow> ldf n_l s pp;
       ppr \<leftarrow> ldf n_r s pp;
       s \<leftarrow> (if p = ppl then stf pp (n_l_update (\<lambda>_. NULL)) s
            else if p = ppr then stf pp (n_r_update (\<lambda>_. NULL)) s else Some s);
       stf p (n_p_update (\<lambda>_. NULL)) s
     } else Some s
   }"

definition delete_rest :: "rbtree \<Rightarrow> nat \<Rightarrow> (nat \<times> rbtree) option" where
  "delete_rest s p = do {
     pl \<leftarrow> ldf n_l s p;
     replacement \<leftarrow> (if pl \<noteq> NULL then Some pl else ldf n_r s p);
     pp \<leftarrow> ldf n_p s p;
     if replacement \<noteq> NULL then delete_splice s p replacement pp
     else if pp = NULL then Some (p, s\<lparr>root := NULL\<rparr>)
     else do {
       c \<leftarrow> ldf n_c s p;
       s \<leftarrow> (if c = BLACK then fixAfterDeletion s p else Some s);
       s \<leftarrow> delete_unlink s p;
       Some (p, s)
     }
   }"

lemma delete_node_rest:
  "delete_node s p = do {
     pl \<leftarrow> ldf n_l s p;
     pr \<leftarrow> ldf n_r s p;
     (s, p) \<leftarrow> (if pl \<noteq> NULL \<and> pr \<noteq> NULL then do {
         q \<leftarrow> successor s p;
         qk \<leftarrow> ldf n_k s q;
         s \<leftarrow> stf p (n_k_update (\<lambda>_. qk)) s;
         qv \<leftarrow> ldf n_v s q;
         s \<leftarrow> stf p (n_v_update (\<lambda>_. qv)) s;
         Some (s, q)
       } else Some (s, p));
     delete_rest s p
   }"
  by (simp only: delete_node_def delete_rest_def delete_splice_def delete_unlink_def bind_assoc)

definition del_tree :: "path \<Rightarrow> color \<Rightarrow> rbt \<Rightarrow> rbt" where
  "del_tree c col t = (if col = BLACK then delfix c t else plug c t)"

text \<open>A node whose only child takes its place.\<close>

lemma splice:
  assumes rb: "rb_at s (plug c (Nd l col e r))" and ch: "t \<noteq> Lf" "t = l \<and> r = Lf \<or> t = r \<and> l = Lf"
  shows "\<exists>s1. delete_rest s (fst e) = Option.bind (if col = BLACK then fixAfterDeletion s1 (addr_of t) else Some s1) (\<lambda>s. Some (fst e, s)) \<and>
    steps (adrs (plug c (Nd l col e r))) s s1 (plug c t)"
proof -
  let ?p = "fst e" and ?q = "addr_of t"
  have f: "path_at (mem s) ?p c" "path_apart c" "root s = root_of c ?p" "tree_at (mem s) ?p t" "apart t" "?p \<notin> adrs t"
      "?p \<notin> path_adrs c" "adrs t \<inter> path_adrs c = {}" "?p \<noteq> NULL"
    using rb ch(2) by (auto simp: rb_at_plug)
  note p = focus [OF rb]
  have qin: "?q \<in> adrs t" "?q \<noteq> NULL" "?q \<noteq> ?p"
    using f(4,6) ch(1) by (cases t; auto)+
  have up: "c \<noteq> Top \<longrightarrow> up_addr c \<noteq> NULL \<and> up_addr c \<in> path_adrs c" "up_addr c \<noteq> ?p" "up_addr c \<noteq> ?q"
    using f(1,7,8,9) qin(1,2) by (cases c; auto)+
  note child = path_child [OF f(1,7,9)]
  let ?m = "relink c ?q (upd_at ?q (n_p_update (\<lambda>_. up_addr c)) (mem s))"
  let ?m1 = "upd_at ?p (n_p_update (\<lambda>_. NULL)) (upd_at ?p (n_r_update (\<lambda>_. NULL)) (upd_at ?p (n_l_update (\<lambda>_. NULL)) ?m))"
  let ?s1 = "s\<lparr>root := (if c = Top then ?q else root s), mem := ?m1\<rparr>"
  have "delete_rest s ?p = Option.bind (if col = BLACK then fixAfterDeletion ?s1 ?q else Some ?s1) (\<lambda>s. Some (?p, s))"
  proof -
    have eq: "delete_rest s ?p = delete_splice s ?p ?q (up_addr c)"
      using ch qin f(9) by (auto simp: delete_rest_def ldf_ok p(6))
    have col: "?m1 ?p = cell NULL NULL col e NULL"
      using p(6) up qin(3) by (cases c) (simp_all add: relink_def)
    show ?thesis
      unfolding eq using qin f(9) up child col not_sym [OF up(2)] by (cases c) (simp_all add: delete_splice_def ldf_ok stf_ok relink_def p(6))
  qed
  moreover have "steps (adrs (plug c (Nd l col e r))) s ?s1 (plug c t)"
  proof -
    have "?q \<notin> path_adrs c" "up_addr c \<notin> adrs t"
      using qin up f(4,8) tree_at_nonnull [OF f(4)] by (cases "c = Top"; auto)+
    then have "path_at ?m1 ?q c" "tree_at ?m1 (up_addr c) t"
      using f(1,2,4,5,6,7) tree_at_reparent [OF f(4,5) ch(1), of "up_addr c"] by (simp_all add: path_at_relink)
    then have "rb_at ?s1 (plug c t)"
      using f(2,3,5,8) root_of_other [of c ?p ?q] by (simp add: rb_at_plug)
    moreover have "?m1 a = mem s a" if "a \<notin> adrs (plug c (Nd l col e r))" for a
    proof -
      have "a \<noteq> ?p" "a \<noteq> ?q" "c = Top \<or> a \<noteq> up_addr c"
        using that qin(1) up(1) ch(2) by auto
      then show ?thesis by (cases c) (auto simp: relink_def)
    qed
    moreover have "adrs (plug c t) \<subseteq> adrs (plug c (Nd l col e r))"
      using ch(2) by auto
    ultimately show ?thesis
      by (simp add: steps_def others_same_def)
  qed
  ultimately show ?thesis by blast
qed


text \<open>A leaf that is cut off.\<close>

lemma unlink:
  assumes rb: "rb_at s (plug d (Nd Lf col e Lf))" and d: "d \<noteq> Top"
  shows "\<exists>s'. delete_unlink s (fst e) = Some s' \<and> steps (adrs (plug d (Nd Lf col e Lf))) s s' (plug d Lf)"
proof -
  let ?p = "fst e"
  have f: "path_at (mem s) ?p d" "path_apart d" "root s = root_of d ?p" "?p \<notin> path_adrs d" "?p \<noteq> NULL"
    using rb by (auto simp: rb_at_plug)
  note p = focus [OF rb]
  have up: "up_addr d \<noteq> NULL" "up_addr d \<in> path_adrs d" "up_addr d \<noteq> ?p"
    using f(1,4,5) d by (cases d; auto)+
  let ?s1 = "s\<lparr>mem := upd_at ?p (n_p_update (\<lambda>_. NULL)) (relink d NULL (mem s))\<rparr>"
  have kids: "case d of Top \<Rightarrow> False | CL _ _ _ _ \<Rightarrow> n_l (mem s (up_addr d)) = ?p
      | CR _ _ _ _ \<Rightarrow> n_l (mem s (up_addr d)) \<noteq> ?p \<and> n_r (mem s (up_addr d)) = ?p"
    using path_child [OF f(1,4,5)] f(1) d by (cases d) auto
  have "delete_unlink s ?p = Some ?s1"
    using kids up f(5) d by (cases d) (auto simp: delete_unlink_def ldf_ok stf_ok relink_def p(6))
  moreover have "rb_at ?s1 (plug d Lf)"
    using f path_at_relink [OF f(1,2), of NULL] root_of_other [OF d, of ?p NULL] by (simp add: rb_at_plug)
  moreover have "mem ?s1 a = mem s a" if "a \<notin> adrs (plug d (Nd Lf col e Lf))" for a
  proof -
    have "a \<noteq> ?p" "a \<noteq> up_addr d"
      using that up(2) by auto
    then show ?thesis by (cases d) (auto simp: relink_def)
  qed
  ultimately show ?thesis
    by (auto simp: steps_def others_same_def)
qed

lemma delete_rest_sim:
  assumes rb: "rb_at s (plug c (Nd l col e r))" and ok: "rb_ok (plug c (Nd l col e r))" and ch: "t = l \<and> r = Lf \<or> t = r \<and> l = Lf"
  shows "\<exists>s'. delete_rest s (fst e) = Some (fst e, s') \<and> steps (adrs (plug c (Nd l col e r))) s s' (del_tree c col t)"
proof -
  let ?A = "adrs (plug c (Nd l col e r))"
  have fit: "col = BLACK \<Longrightarrow> \<exists>m. fits (Suc m) c"
    using ok by (auto simp: rb_ok_def valid_plug)
  consider "t \<noteq> Lf" | "t = Lf" "c = Top" | "t = Lf" "c \<noteq> Top" by blast
  then show ?thesis
  proof cases
    case 1
    then obtain s1 where s1: "delete_rest s (fst e) = Option.bind (if col = BLACK then fixAfterDeletion s1 (addr_of t) else Some s1) (\<lambda>s. Some (fst e, s))"
        "steps ?A s s1 (plug c t)"
      using splice [OF rb 1 ch] by blast
    show ?thesis
    proof (cases col)
      case BLACK
      then obtain s' where "fixAfterDeletion s1 (addr_of t) = Some s'" "steps ?A s s' (delfix c t)"
        using fixAfterDeletion_sim [OF s1(2) 1 fit] by blast
      then show ?thesis
        using s1(1) BLACK by (simp add: del_tree_def)
    qed (use s1 in \<open>simp add: del_tree_def\<close>)
  next
    case 2
    note p = focus [OF rb]
    have "delete_rest s (fst e) = Some (fst e, s\<lparr>root := NULL\<rparr>)"
      using 2 ch p(1) by (auto simp: delete_rest_def ldf_ok p(6))
    then show ?thesis
      using 2 by (auto simp: del_tree_def steps_def rb_at_def others_same_def)
  next
    case 3
    note p = focus [OF rb]
    have lf: "l = Lf" "r = Lf"
      using 3(1) ch by auto
    obtain d where d: "d \<noteq> Top" "del_tree c col (Nd Lf col e Lf) = plug d (Nd Lf col e Lf)" "del_tree c col Lf = plug d Lf"
    proof (cases col)
      case BLACK
      then show ?thesis
        using framed_all [of c] 3(2) that by (auto simp: framed_def del_tree_def)
    qed (use 3(2) that in \<open>auto simp: del_tree_def\<close>)
    have st: "steps ?A s s (plug c (Nd Lf col e Lf))"
      using rb lf by (simp add: steps_def)
    obtain s1 where s1: "(if col = BLACK then fixAfterDeletion s (fst e) else Some s) = Some s1" "steps ?A s s1 (plug d (Nd Lf col e Lf))"
    proof (cases col)
      case BLACK
      then show ?thesis
        using fixAfterDeletion_sim [OF st _ fit] d(2) that by (auto simp: del_tree_def)
    qed (use st d(2) that in \<open>auto simp: del_tree_def\<close>)
    obtain s' where s': "delete_unlink s1 (fst e) = Some s'" "steps (adrs (plug d (Nd Lf col e Lf))) s1 s' (plug d Lf)"
      using unlink [OF steps_rb [OF s1(2)] d(1)] by blast
    have "steps ?A s s' (plug d Lf)"
      using s1(2) s'(2) others_same_step [of s s1 ?A] by (auto simp: steps_def)
    moreover have "up_addr c \<noteq> NULL"
      using focus_up(1) [OF rb 3(2)] .
    ultimately show ?thesis
      using s1(1) s'(1) d(3) 3(1) lf p(1) by (auto simp: delete_rest_def ldf_ok p(6))
  qed
qed


lemma ents_del_tree: "ents (del_tree c col t) = before c @ ents t @ after c"
  by (simp add: del_tree_def ents_delfix)

lemma del_tree_ok:
  assumes ok: "rb_ok (plug c (Nd l col e r))" and ch: "t = l \<and> r = Lf \<or> t = r \<and> l = Lf"
  shows "rb_ok (del_tree c col t)"
proof -
  have v: "bheight l = bheight r" "valid col l" "valid col r" "top_color c = RED \<longrightarrow> col = BLACK" "fits (bheight (Nd l col e r)) c"
    using ok by (auto simp: rb_ok_def valid_plug)
  have t: "valid col t" "bheight t = bheight l"
    using ch v(1-3) by auto
  show ?thesis
  proof (cases col)
    case BLACK
    have "valid BLACK (paint BLACK t)"
      using t(1) by (rule valid_paint_BLACK)
    then show ?thesis
      using BLACK v(5) t(2) by (simp add: del_tree_def delfix_valid)
  next
    case RED
    then have "valid (top_color c) t"
      using t(1) v(4) valid_black by (cases "top_color c") auto
    then show ?thesis
      using RED v(5) t(2) by (simp add: del_tree_def rb_ok_plug')
  qed
qed

text \<open>What a removal does to the tree \<open>T\<close>: the node \<open>q\<close> is no longer part of it and one entry is gone.\<close>

definition removed :: "rbt \<Rightarrow> nat \<Rightarrow> rbt \<Rightarrow> bool" where
  "removed T q T' \<longleftrightarrow> rb_ok T' \<and> q \<in> adrs T \<and> adrs T' = adrs T - {q}"

lemma removed_del_tree:
  assumes "rb_at s (plug c (Nd l col e r))" "rb_ok (plug c (Nd l col e r))" "t = l \<and> r = Lf \<or> t = r \<and> l = Lf"
  shows "removed (plug c (Nd l col e r)) (fst e) (del_tree c col t)"
proof -
  have "fst e \<notin> adrs t" "fst e \<notin> path_adrs c"
    using assms(1,3) by (auto simp: rb_at_plug)
  moreover have "adrs (del_tree c col t) = adrs (plug c t)"
    by (simp add: adrs_ents ents_del_tree)
  moreover have "adrs (plug c (Nd l col e r)) = insert (fst e) (adrs (plug c t))"
    using assms(3) by auto
  ultimately show ?thesis
    using del_tree_ok [OF assms(2,3)] by (simp add: removed_def)
qed

section \<open>A node with two children\<close>

lemma before_join: "before (join_path d c) = before c @ before d"
  by (induction d) simp_all

lemma after_join: "after (join_path d c) = after d @ after c"
  by (induction d) simp_all

lemma leftmost_sim:
  assumes "tree_at (mem s) par r" "r \<noteq> Lf"
  shows "\<exists>d qc q rr. r = plug d (Nd Lf qc q rr) \<and> before d = [] \<and> leftmost s (addr_of r) = Some (fst q)"
  using assms
proof (induction r arbitrary: par)
  case (Nd l col e r)
  have e: "fst e \<noteq> NULL" "n_l (mem s (fst e)) = addr_of l" "tree_at (mem s) (fst e) l"
    using Nd.prems(1) by auto
  show ?case
  proof (cases "l = Lf")
    case True
    then show ?thesis
      using e by (intro exI [of _ Top] exI [of _ col] exI [of _ e] exI [of _ r]) (subst leftmost.simps, simp add: ldf_ok)
  next
    case False
    then obtain d qc q rr where d: "l = plug d (Nd Lf qc q rr)" "before d = []" "leftmost s (addr_of l) = Some (fst q)"
      using Nd.IH(1) [OF e(3)] by blast
    have "addr_of l \<noteq> NULL"
      using False e(3) by (cases l) auto
    then have "leftmost s (fst e) = Some (fst q)"
      using e d(3) by (subst leftmost.simps) (simp add: ldf_ok)
    moreover have "Nd l col e r = plug (join_path d (CL Top col e r)) (Nd Lf qc q rr)"
      by (simp add: plug_join d(1))
    moreover have "before (join_path d (CL Top col e r)) = []"
      using d(2) by (simp add: before_join)
    ultimately show ?thesis
      by (metis addr_of.simps(2))
  qed
qed simp

text \<open>The successor's key and value are copied into the node.\<close>

lemma copy_entry:
  assumes rb: "rb_at s (plug c (Nd l col e r))"
  shows "rb_at (s\<lparr>mem := upd_at (fst e) (n_v_update (\<lambda>_. v)) (upd_at (fst e) (n_k_update (\<lambda>_. k)) (mem s))\<rparr>) (plug c (Nd l col (fst e, k, v) r))"
proof -
  have "fst e \<notin> adrs l" "fst e \<notin> adrs r" "fst e \<notin> path_adrs c"
    using rb by (auto simp: rb_at_plug)
  then show ?thesis
    using rb by (simp add: rb_at_plug cell_def)
qed

lemma delete_node_sim:
  assumes rb: "rb_at s (plug c (Nd l col e r))" and ok: "rb_ok (plug c (Nd l col e r))"
  shows "\<exists>q s' T'. delete_node s (fst e) = Some (q, s') \<and> steps (adrs (plug c (Nd l col e r))) s s' T' \<and>
    removed (plug c (Nd l col e r)) q T' \<and> map snd (ents T') = map snd (before c @ ents l @ ents r @ after c)"
proof (cases "l \<noteq> Lf \<and> r \<noteq> Lf")
  case False
  note p = focus [OF rb]
  define t where "t = (if l \<noteq> Lf then l else r)"
  have ch: "t = l \<and> r = Lf \<or> t = r \<and> l = Lf"
    using False by (auto simp: t_def)
  obtain s' where "delete_rest s (fst e) = Some (fst e, s')" "steps (adrs (plug c (Nd l col e r))) s s' (del_tree c col t)"
    using delete_rest_sim [OF rb ok ch] by blast
  moreover have "delete_node s (fst e) = delete_rest s (fst e)"
    using ch p(1) by (auto simp: delete_node_rest ldf_ok p(6))
  moreover have "ents t = ents l @ ents r"
    using ch by auto
  ultimately show ?thesis
    using removed_del_tree [OF rb ok ch] by (auto simp: ents_del_tree)
next
  case True
  note p = focus [OF rb]
  have nn: "addr_of l \<noteq> NULL" "addr_of r \<noteq> NULL" and tr: "tree_at (mem s) (fst e) r"
    using True rb by (cases l; cases r; auto simp: rb_at_plug)+
  obtain d qc q rr where d: "r = plug d (Nd Lf qc q rr)" "before d = []" "leftmost s (addr_of r) = Some (fst q)"
    using leftmost_sim [OF tr] True by blast
  let ?s1 = "s\<lparr>mem := upd_at (fst e) (n_v_update (\<lambda>_. snd (snd q))) (upd_at (fst e) (n_k_update (\<lambda>_. fst (snd q))) (mem s))\<rparr>"
  let ?e = "(fst e, snd q)"
  let ?C = "join_path d (CR l col ?e c)"
  have T1: "plug c (Nd l col ?e r) = plug ?C (Nd Lf qc q rr)"
    by (simp add: plug_join d(1))
  have rb1: "rb_at ?s1 (plug ?C (Nd Lf qc q rr))"
    using copy_entry [OF rb, of "snd (snd q)" "fst (snd q)"] by (simp flip: T1)
  have ok1: "rb_ok (plug ?C (Nd Lf qc q rr))"
    using ok by (auto simp: rb_ok_def valid_plug simp flip: T1)
  have q: "fst q \<noteq> fst e \<and> fst q \<noteq> NULL \<and> n_k (mem s (fst q)) = fst (snd q) \<and> n_v (mem s (fst q)) = snd (snd q)"
  proof -
    have "plug c (Nd l col e r) = plug (join_path d (CR l col e c)) (Nd Lf qc q rr)"
      by (simp add: plug_join d(1))
    then have "rb_at s (plug (join_path d (CR l col e c)) (Nd Lf qc q rr))"
      using rb by (rule subst)
    note q = focus [OF this]
    have "fst q \<in> adrs r" "fst e \<notin> adrs r"
      using rb d(1) by (auto simp: rb_at_plug)
    then have "fst q \<noteq> fst e" by metis
    then show ?thesis using q(1,6) by simp
  qed
  obtain s' where s': "delete_rest ?s1 (fst q) = Some (fst q, s')" "steps (adrs (plug ?C (Nd Lf qc q rr))) ?s1 s' (del_tree ?C qc rr)"
    using delete_rest_sim [OF rb1 ok1, of rr] by blast
  have A: "adrs (plug ?C (Nd Lf qc q rr)) = adrs (plug c (Nd l col e r))"
    by (simp flip: T1)
  have "delete_node s (fst e) = Some (fst q, s')"
    using p(1) nn d(3) q s'(1) by (simp add: delete_node_rest ldf_ok stf_ok p(6) successor_def)
  moreover have "steps (adrs (plug c (Nd l col e r))) s s' (del_tree ?C qc rr)"
    using s'(2) unfolding A steps_def others_same_def by simp
  moreover have "removed (plug c (Nd l col e r)) (fst q) (del_tree ?C qc rr)"
    using removed_del_tree [OF rb1 ok1, of rr] unfolding removed_def A by simp
  moreover have "map snd (ents (del_tree ?C qc rr)) = map snd (before c @ ents l @ ents r @ after c)"
    using d(2) by (simp add: ents_del_tree before_join after_join d(1))
  ultimately show ?thesis by blast
qed

end
