(* ===== verification/Rb_Map.thy ===== *)
theory Rb_Map
  imports Rb_Insert Rb_Remove
begin

text \<open>
  The red-black tree as the map that \<^verbatim>\<open>map.h\<close> promises: \<open>holds s M\<close> says that the tree in the memory of \<open>s\<close>
  is a balanced search tree for the finite map \<open>M\<close>, and the operations of \<^verbatim>\<open>rbtree.c\<close> take it to the
  tree of the updated map. The interface that hides this is in \<open>Rb_Api\<close>.
\<close>

section \<open>The map of a tree\<close>

definition kvs :: "rbt \<Rightarrow> (int \<times> nat) list" where
  "kvs t = map snd (ents t)"

definition holds :: "rbtree \<Rightarrow> (int \<rightharpoonup> nat) \<Rightarrow> bool" where
  "holds s M \<longleftrightarrow> (\<exists>t. rb_at s t \<and> rb_ok t \<and> bst t \<and> adrs t = live s \<and> M = map_of (kvs t))"

lemma holdsI: "rb_at s t \<Longrightarrow> rb_ok t \<Longrightarrow> bst t \<Longrightarrow> adrs t = live s \<Longrightarrow> map_of (kvs t) = M \<Longrightarrow> holds s M"
  by (auto simp: holds_def)

lemma keys_kvs: "keys t = map fst (kvs t)"
  by (simp add: keys_def kvs_def comp_def)

lemma bst_distinct: "bst t \<Longrightarrow> distinct (keys t)"
  by (auto simp: bst_def sorted_wrt_iff_nth_less distinct_conv_nth) (metis less_irrefl nat_neq_iff)

lemma dom_kvs: "dom (map_of (kvs t)) = set (keys t)"
  by (simp add: keys_kvs dom_map_of_conv_image_fst)

lemma map_of_outside: "k \<notin> fst ` set xs \<Longrightarrow> map_of xs k = None"
  by (simp add: map_of_eq_None_iff)

lemma map_of_middle: "k \<notin> fst ` set xs \<Longrightarrow> map_of (xs @ (k, v) # ys) = (map_of (xs @ ys))(k \<mapsto> v)"
  using map_of_outside [of k xs] by (auto simp: fun_eq_iff map_add_def split: option.splits)

lemma map_of_without: "k \<notin> fst ` set xs \<Longrightarrow> k \<notin> fst ` set ys \<Longrightarrow> map_of (xs @ ys) = (map_of (xs @ (k, v) # ys))(k := None)"
  using map_of_outside [of k xs] map_of_outside [of k ys] by (auto simp: fun_eq_iff map_add_def split: option.splits)

text \<open>The map with the value of one entry replaced, and with the entry left out.\<close>

lemma map_of_entry:
  assumes b: "bst t" and e: "ents t = xs @ e # ys"
  shows "map_of (map snd xs @ (key_of e, v) # map snd ys) = (map_of (kvs t))(key_of e \<mapsto> v)"
    "map_of (map snd xs @ map snd ys) = (map_of (kvs t))(key_of e := None)"
    "sorted_wrt (<) (map key_of (xs @ ys))"
proof -
  have k: "kvs t = map snd xs @ (key_of e, snd (snd e)) # map snd ys"
    using e by (simp add: kvs_def)
  have s: "sorted_wrt (<) (map key_of xs @ key_of e # map key_of ys)"
    using b e by (simp add: bst_def keys_def)
  then show "sorted_wrt (<) (map key_of (xs @ ys))"
    by (simp add: sorted_wrt_append)
  have "\<forall>x \<in> set xs. key_of x < key_of e" "\<forall>x \<in> set ys. key_of e < key_of x"
    using s by (simp_all add: sorted_wrt_append)
  then have "key_of e \<notin> fst ` set (map snd xs)" "key_of e \<notin> fst ` set (map snd ys)"
    by force+
  note mid = map_of_middle [OF this(1)] and del = map_of_without [OF this]
  show "map_of (map snd xs @ (key_of e, v) # map snd ys) = (map_of (kvs t))(key_of e \<mapsto> v)"
    unfolding k by (simp only: mid fun_upd_upd)
  show "map_of (map snd xs @ map snd ys) = (map_of (kvs t))(key_of e := None)"
    unfolding k by (rule del)
qed

text \<open>The keys before and after the place where the way down ends.\<close>

lemma descend_between:
  assumes "descend k c t = (c', t')" "sorted_wrt (<) (map key_of (before c @ ents t @ after c))"
    "\<And>x. x \<in> set (before c) \<Longrightarrow> key_of x < k" "\<And>x. x \<in> set (after c) \<Longrightarrow> k < key_of x"
  shows "(\<forall>x \<in> set (before c'). key_of x < k) \<and> (\<forall>x \<in> set (after c'). k < key_of x)"
  using assms
proof (induction k c t rule: descend.induct)
  case (2 k c l col e r)
  have lt: "\<forall>x \<in> set (ents l). key_of x < key_of e" "\<forall>x \<in> set (ents r). key_of e < key_of x"
    using "2.prems"(2) by (simp_all add: sorted_wrt_append sorted_wrt_map)
  consider "k = key_of e" | "k < key_of e" | "key_of e < k" by linarith
  then show ?case
  proof cases
    case 1
    then show ?thesis using "2.prems" by auto
  next
    case 2
    then show ?thesis
      using "2.prems" lt by (intro "2.IH"(1)) (auto intro: less_trans)
  next
    case 3
    then show ?thesis
      using "2.prems" lt by (intro "2.IH"(2)) (auto intro: less_trans)
  qed
qed auto

lemma descend_split:
  assumes "descend k Top t = (c, u)" "bst t"
  shows "ents t = before c @ ents u @ after c" "\<forall>x \<in> set (before c). key_of x < k" "\<forall>x \<in> set (after c). k < key_of x"
proof -
  show "ents t = before c @ ents u @ after c"
    using descend_plug [OF assms(1)] ents_plug [of c u] by simp
  show "\<forall>x \<in> set (before c). key_of x < k" "\<forall>x \<in> set (after c). k < key_of x"
    using descend_between [OF assms(1)] assms(2) by (simp_all add: bst_def keys_def)
qed

text \<open>What the node found says about the map.\<close>

lemma descend_map:
  assumes "descend k Top t = (c, u)" "bst t"
  shows "map_of (kvs t) k = (case u of Lf \<Rightarrow> None | Nd l col e r \<Rightarrow> Some (snd (snd e)))"
proof (cases u)
  case Lf
  have "k \<notin> set (keys t)"
    using descend_split [OF assms] Lf by (auto simp: keys_def)
  then show ?thesis
    using dom_kvs [of t] Lf by (metis domIff rbt.simps(4))
next
  case (Nd l col e r)
  have "e \<in> set (ents t)"
    using descend_split(1) [OF assms] Nd by simp
  then have "(k, snd (snd e)) \<in> set (kvs t)"
    using descend_found [of k Top t c l col e r] assms(1) Nd by (force simp: kvs_def)
  then show ?thesis
    using bst_distinct [OF assms(2)] Nd by (simp add: keys_kvs)
qed

section \<open>Lookup\<close>

lemma lookup_tree:
  assumes "rb_at s t" "orders (compare s) (insert k (set (keys t)))"
  shows "lookup s k = Some (addr_of (snd (descend k Top t)))"
  using lookup_sim [of s NULL t k Top] assms by (simp add: lookup_def rb_at_def)

lemma found_node:
  assumes "rb_at s t" "descend k Top t = (c, Nd l col e r)"
  shows "fst e \<noteq> NULL" "n_v (mem s (fst e)) = snd (snd e)" "rb_at s (plug c (Nd l col e r))"
proof -
  show rb: "rb_at s (plug c (Nd l col e r))"
    using descend_plug [OF assms(2)] assms(1) by simp
  show "fst e \<noteq> NULL" "n_v (mem s (fst e)) = snd (snd e)"
    using focus [OF rb] by simp_all
qed

lemma orders_subset: "orders cmp K \<Longrightarrow> L \<subseteq> K \<Longrightarrow> orders cmp L"
  by (auto simp: orders_def)

lemma get_holds:
  assumes "holds s M" "orders (compare s) (insert k (dom M))"
  shows "rbtree_get s k = Some (case M k of None \<Rightarrow> NULL | Some v \<Rightarrow> v)"
    "rbtree_contains s k = Some (M k \<noteq> None)"
proof -
  obtain t where t: "rb_at s t" "rb_ok t" "bst t" "M = map_of (kvs t)"
    using assms(1) by (auto simp: holds_def)
  obtain c u where d: "descend k Top t = (c, u)" by fastforce
  have lk: "lookup s k = Some (addr_of u)"
    using lookup_tree [OF t(1)] assms(2) d t(4) by (simp add: dom_kvs)
  have M: "M k = (case u of Lf \<Rightarrow> None | Nd l col e r \<Rightarrow> Some (snd (snd e)))"
    using descend_map [OF d t(3)] t(4) by simp
  show "rbtree_get s k = Some (case M k of None \<Rightarrow> NULL | Some v \<Rightarrow> v)" "rbtree_contains s k = Some (M k \<noteq> None)"
    using lk M found_node [OF t(1)] d by (cases u; simp add: rbtree_get_def rbtree_contains_def ldf_def)+
qed

section \<open>Insertion\<close>

text \<open>\<open>insert_node\<close>, which both \<open>rbtree_insert\<close> and \<open>rbtree_update\<close> call: the node found, or the new node in its place.\<close>

lemma insert_node_tree:
  assumes rb: "rb_at s t" and ok: "rb_ok t" and b: "bst t" and ord: "orders (compare s) (insert k (dom (map_of (kvs t))))"
    and n: "n \<noteq> NULL" "n \<notin> adrs t"
  shows "case map_of (kvs t) k of
    Some w \<Rightarrow> \<exists>c l col e r. descend k Top t = (c, Nd l col e r) \<and> snd (snd e) = w \<and> insert_node s k v n = Some (fst e, s) \<and> fst e \<noteq> NULL
  | None \<Rightarrow> \<exists>s' t'. insert_node s k v n = Some (NULL, s') \<and> rb_at s' t' \<and> rb_ok t' \<and> bst t' \<and> adrs t' = insert n (adrs t) \<and>
      map_of (kvs t') = (map_of (kvs t))(k \<mapsto> v) \<and> compare s' = compare s \<and> live s' = live s"
proof -
  obtain c u where d: "descend k Top t = (c, u)" by fastforce
  have ins: "inserted (adrs t) s s k v n (c, u) (insert_node s k v n)"
    using insert_node_sim [OF rb ok, of k n v] ord n d by (simp add: dom_kvs)
  show ?thesis
  proof (cases u)
    case (Nd l col e r)
    then show ?thesis
      using ins found_node(1) [OF rb] descend_map [OF d b] d by (auto simp: inserted_def)
  next
    case Lf
    let ?t = "paint BLACK (insfix c (Nd Lf RED (n, k, v) Lf))"
    obtain s' where s': "insert_node s k v n = Some (NULL, s')" "steps (insert n (adrs t)) s s' ?t"
      using ins Lf by (auto simp: inserted_def)
    note sp = descend_split [OF d b]
    have ents: "ents ?t = before c @ (n, k, v) # after c" "ents t = before c @ after c"
      using ents_insfix [of "Nd Lf RED (n, k, v) Lf" c] sp(1) Lf by simp_all
    have "fits 0 c"
      using ok descend_plug [OF d] Lf valid_plug [of c Lf] by (simp add: rb_ok_def)
    then have ok': "rb_ok ?t"
      by (intro insfix_valid) simp_all
    have bst': "bst ?t"
      using b sp(2,3) ents by (auto simp: bst_def keys_def sorted_wrt_append sorted_wrt_map intro: less_trans)
    have "k \<notin> fst ` set (map snd (before c))"
      using sp(2) by auto
    then have map': "map_of (kvs ?t) = (map_of (kvs t))(k \<mapsto> v)"
      using map_of_middle [of k "map snd (before c)" v "map snd (after c)"] ents by (simp add: kvs_def)
    have "adrs ?t = insert n (adrs t)"
      unfolding adrs_ents ents by auto
    then show ?thesis
      using s' ok' bst' map' descend_map [OF d b] Lf
      by (auto simp: steps_def others_same_def intro!: exI [of _ s'] exI [of _ ?t])
  qed
qed

lemma getNode_ok: "n \<noteq> NULL \<Longrightarrow> getNode n s = s\<lparr>live := insert n (live s)\<rparr>"
  by (simp add: getNode_def)

lemma rb_at_live [simp]: "rb_at (s\<lparr>live := L\<rparr>) t = rb_at s t"
  by (simp add: rb_at_def)

lemma insert_holds:
  assumes h: "holds s M" and ord: "orders (compare s) (insert k (dom M))" and n: "n \<noteq> NULL" "n \<notin> live s"
  shows "\<exists>s'. rbtree_insert n s k v = Some (M k = None, s') \<and> holds s' (if M k = None then M(k \<mapsto> v) else M) \<and> compare s' = compare s"
proof -
  obtain t where t: "rb_at s t" "rb_ok t" "bst t" "adrs t = live s" "M = map_of (kvs t)"
    using h by (auto simp: holds_def)
  let ?s = "s\<lparr>live := insert n (live s)\<rparr>"
  have undo: "releaseNode n ?s = s"
    using n by (simp add: releaseNode_def)
  have "rb_at ?s t" "compare ?s = compare s" "n \<notin> adrs t"
    using t(1,4) n by simp_all
  note res = insert_node_tree [OF this(1) t(2,3) _ n(1) this(3), of k v, unfolded this(2)]
  show ?thesis
  proof (cases "M k")
    case None
    then show ?thesis
      using res ord t(4,5) n by (auto simp: rbtree_insert_def getNode_ok intro!: holdsI)
  next
    case (Some w)
    then show ?thesis
      using res ord t(5) n h undo by (auto simp: rbtree_insert_def getNode_ok)
  qed
qed

lemma update_holds:
  assumes h: "holds s M" and ord: "orders (compare s) (insert k (dom M))" and n: "n \<noteq> NULL" "n \<notin> live s"
  shows "\<exists>s'. rbtree_update n s k v = Some (M k \<noteq> None, s') \<and> holds s' (M(k \<mapsto> v)) \<and> compare s' = compare s"
proof -
  obtain t where t: "rb_at s t" "rb_ok t" "bst t" "adrs t = live s" "M = map_of (kvs t)"
    using h by (auto simp: holds_def)
  let ?s = "s\<lparr>live := insert n (live s)\<rparr>"
  have "rb_at ?s t" "compare ?s = compare s" "n \<notin> adrs t"
    using t(1,4) n by simp_all
  note res = insert_node_tree [OF this(1) t(2,3) _ n(1) this(3), of k v, unfolded this(2)]
  show ?thesis
  proof (cases "M k")
    case None
    then show ?thesis
      using res ord t(4,5) n by (auto simp: rbtree_update_def getNode_ok intro!: holdsI)
  next
    case (Some w)
    then obtain c l col e r where e: "descend k Top t = (c, Nd l col e r)" "insert_node ?s k v n = Some (fst e, ?s)" "fst e \<noteq> NULL"
      using res ord t(5) by auto
    have key: "key_of e = k" and T: "t = plug c (Nd l col e r)"
      using descend_found [OF e(1)] descend_plug [OF e(1)] by simp_all
    let ?t = "plug c (Nd l col (fst e, k, v) r)"
    let ?s' = "s\<lparr>mem := upd_at (fst e) (n_v_update (\<lambda>_. v)) (mem s)\<rparr>"
    have run: "rbtree_update n s k v = Some (True, ?s')"
      using e(2,3) n by (simp add: rbtree_update_def getNode_ok stf_def releaseNode_def)
    have "n_k (mem s (fst e)) = k"
      using focus(6) [of s c l col e r] t(1) T key by simp
    then have "upd_at (fst e) (n_v_update (\<lambda>_. v)) (mem s) = upd_at (fst e) (n_v_update (\<lambda>_. v)) (upd_at (fst e) (n_k_update (\<lambda>_. k)) (mem s))"
      by (simp add: upd_at_def fun_eq_iff)
    then have "rb_at ?s' ?t"
      using copy_entry [of s c l col e r v k] t(1) T by simp
    moreover have "rb_ok ?t" "adrs ?t = live s"
      using t(2,4) unfolding T by (auto simp: rb_ok_def valid_plug)
    moreover have "keys ?t = keys t"
      using T key by (simp add: keys_def)
    moreover have "map_of (kvs ?t) = M(k \<mapsto> v)"
      using map_of_entry(1) [OF t(3), of "before c @ ents l" e "ents r @ after c" v] t(5) T key by (simp add: kvs_def)
    ultimately have "holds ?s' (M(k \<mapsto> v))"
      using t(3) by (intro holdsI [of _ ?t]) (simp_all add: bst_def)
    then show ?thesis
      using run Some by simp
  qed
qed

section \<open>Deletion\<close>

lemma delete_holds:
  assumes h: "holds s M" and ord: "orders (compare s) (insert k (dom M))"
  shows "\<exists>s'. rbtree_delete s k = Some (M k \<noteq> None, s') \<and> holds s' (M(k := None)) \<and> compare s' = compare s"
proof -
  obtain t where t: "rb_at s t" "rb_ok t" "bst t" "adrs t = live s" "M = map_of (kvs t)"
    using h by (auto simp: holds_def)
  obtain c u where d: "descend k Top t = (c, u)" by fastforce
  have lk: "lookup s k = Some (addr_of u)"
    using lookup_tree [OF t(1)] ord d t(5) by (simp add: dom_kvs)
  have M: "M k = (case u of Lf \<Rightarrow> None | Nd l col e r \<Rightarrow> Some (snd (snd e)))"
    using descend_map [OF d t(3)] t(5) by simp
  show ?thesis
  proof (cases u)
    case Lf
    then show ?thesis
      using lk M h by (auto simp: rbtree_delete_def fun_upd_idem)
  next
    case (Nd l col e r)
    have T: "t = plug c (Nd l col e r)" and key: "key_of e = k" "fst e \<noteq> NULL"
      using descend_plug [OF d] descend_found [of k Top t c l col e r] found_node(1) [OF t(1)] d Nd by simp_all
    obtain q s' T' where del: "delete_node s (fst e) = Some (q, s')" "steps (adrs t) s s' T'" "removed t q T'"
        "map snd (ents T') = map snd (before c @ ents l @ ents r @ after c)"
      using delete_node_sim [OF t(1) [unfolded T] t(2) [unfolded T]] unfolding T by blast
    have "tree_at (mem s) NULL t" "q \<in> adrs t"
      using del(3) t(1) by (simp_all add: removed_def rb_at_def)
    then have "q \<noteq> NULL"
      using tree_at_nonnull by metis
    then have run: "rbtree_delete s k = Some (True, releaseNode q s')"
      using lk Nd key(2) del(1) by (simp add: rbtree_delete_def)
    note left = map_of_entry [OF t(3), of "before c @ ents l" e "ents r @ after c"]
    have kv: "kvs T' = map snd (before c @ ents l) @ map snd (ents r @ after c)"
      using del(4) by (simp add: kvs_def)
    have "keys T' = map key_of ((before c @ ents l) @ (ents r @ after c))"
      unfolding keys_kvs kv by simp
    then have "bst T'"
      using left(3) T by (simp add: bst_def)
    moreover have "map_of (kvs T') = M(k := None)"
      using left(2) kv T key t(5) by simp
    moreover have "rb_at (releaseNode q s') T'" "rb_ok T'" "adrs T' = live (releaseNode q s')" "compare (releaseNode q s') = compare s"
      using del(2,3) t(4) by (auto simp: releaseNode_def steps_def others_same_def removed_def)
    ultimately show ?thesis
      using run M Nd by (intro exI [of _ "releaseNode q s'"] conjI holdsI [of _ T']) simp_all
  qed
qed

end
