(* ===== verification/Rb_Api.thy ===== *)
theory Rb_Api
  imports Rb_Map
begin

text \<open>
  The red-black tree as its clients see it: the integrity check and the release of a tree, the default order of the
  keys, and any sequence of the operations of \<^verbatim>\<open>map.h\<close>, which answers as the finite map does.
\<close>

section \<open>Release\<close>

lemma freeNode_tree:
  assumes "tree_at (mem s) par t"
  shows "freeNode (addr_of t) s = Some (s\<lparr>live := live s - adrs t\<rparr>)"
  using assms
proof (induction t arbitrary: s par)
  case Lf
  then show ?case by (subst freeNode.simps) simp
next
  case (Nd l col e r)
  let ?s = "s\<lparr>live := live s - adrs l\<rparr>"
  have "freeNode (addr_of l) s = Some ?s" "freeNode (addr_of r) ?s = Some (?s\<lparr>live := live ?s - adrs r\<rparr>)"
    using Nd.prems Nd.IH(1) [of s "fst e"] Nd.IH(2) [of ?s "fst e"] by simp_all
  moreover have "live s - adrs l - adrs r - {fst e} = live s - adrs (Nd l col e r)"
    by auto
  ultimately show ?case
    using Nd.prems by (subst freeNode.simps) (simp add: releaseNode_def)
qed

lemma free_holds: "holds s M \<Longrightarrow> rbtree_free s = Some (s\<lparr>live := {}\<rparr>)"
  using freeNode_tree [of s NULL] by (auto simp: holds_def rb_at_def rbtree_free_def)

section \<open>The integrity check\<close>

lemma child_ok:
  assumes "tree_at (mem s) par t" "valid p t"
  shows "\<not> wrong_parent s par (addr_of t)" "p = RED \<Longrightarrow> addr_of t \<noteq> NULL \<Longrightarrow> n_c (mem s (addr_of t)) = BLACK"
  using assms by (cases t; auto simp: wrong_parent_def)+

lemma verifyRedBlack_tree:
  assumes "tree_at (mem s) par t" "valid p t"
  shows "verifyRedBlack s (addr_of t) = Some (int (bheight t) + 1, [])"
  using assms
proof (induction t arbitrary: par p)
  case Lf
  then show ?case by (subst verifyRedBlack.simps) simp
next
  case (Nd l col e r)
  have e: "fst e \<noteq> NULL" "mem s (fst e) = cell par (addr_of l) col e (addr_of r)" "tree_at (mem s) (fst e) l" "tree_at (mem s) (fst e) r"
      "bheight r = bheight l" "valid col l" "valid col r"
    using Nd.prems by simp_all
  have IH: "verifyRedBlack s (addr_of l) = Some (int (bheight l) + 1, [])" "verifyRedBlack s (addr_of r) = Some (int (bheight l) + 1, [])"
    using Nd.IH(1) [OF e(3,6)] Nd.IH(2) [OF e(4,7)] e(5) by simp_all
  note kids = child_ok [OF e(3,6)] child_ok [OF e(4,7)]
  show ?case
  proof (cases col)
    case RED
    then show ?thesis
      using e(1,2) IH kids by (subst verifyRedBlack.simps) (auto simp: Let_def complain_def)
  next
    case BLACK
    then show ?thesis
      using e(1,2) IH kids by (subst verifyRedBlack.simps) (simp add: Let_def complain_def)
  qed
qed

text \<open>The nodes in the order of the keys: \<open>successor\<close> goes from one to the next.\<close>

definition first_addr :: "entry list \<Rightarrow> nat" where
  "first_addr es = (case es of [] \<Rightarrow> NULL | e # _ \<Rightarrow> fst e)"

lemma climb_path:
  assumes "rb_at s (plug c t)" "t \<noteq> Lf"
  shows "climb s (addr_of t) (up_addr c) = Some (first_addr (after c))"
  using assms
proof (induction c t rule: plug.induct)
  case (1 t)
  then show ?case by (subst climb.simps) (simp add: first_addr_def)
next
  case (2 c col e r t)
  have rb: "rb_at s (plug c (Nd t col e r))"
    using "2.prems"(1) by simp
  have d: "fst e \<noteq> NULL" "n_r (mem s (fst e)) = addr_of r"
    using focus [OF rb] by simp_all
  have "tree_at (mem s) (fst e) t" "adrs t \<inter> adrs r = {}"
    using rb by (simp_all add: rb_at_plug)
  then have "addr_of t \<noteq> addr_of r"
    using "2.prems"(2) by (cases t; cases r) auto
  with d show ?case
    by (subst climb.simps) (simp add: ldf_def first_addr_def)
next
  case (3 l col e c t)
  have "fst e \<noteq> NULL" "n_r (mem s (fst e)) = addr_of t" "n_p (mem s (fst e)) = up_addr c"
    using focus [of s c l col e t] "3.prems" by simp_all
  then show ?case
    using 3 by (subst climb.simps) (simp add: ldf_def)
qed

lemma successor_tree:
  assumes rb: "rb_at s (plug c (Nd l col e r))"
  shows "successor s (fst e) = Some (first_addr (ents r @ after c))"
proof -
  note p = focus [OF rb]
  show ?thesis
  proof (cases "r = Lf")
    case True
    then show ?thesis
      using p climb_path [OF rb] by (simp add: successor_def ldf_def)
  next
    case False
    then have "tree_at (mem s) (fst e) r" "addr_of r \<noteq> NULL"
      using rb by (cases r; auto simp: rb_at_plug)+
    then obtain d qc q rr where "r = plug d (Nd Lf qc q rr)" "before d = []" "leftmost s (addr_of r) = Some (fst q)"
      using leftmost_sim False by blast
    then show ?thesis
      using p \<open>addr_of r \<noteq> NULL\<close> by (simp add: successor_def ldf_def first_addr_def)
  qed
qed

lemma locate:
  assumes "ents t = xs @ e # ys"
  shows "\<exists>c l col r. t = plug c (Nd l col e r) \<and> ents r @ after c = ys"
  using assms
proof (induction t arbitrary: xs ys)
  case (Nd l col f r)
  consider "l = l" "xs = ents l" "f = e" "ents r = ys" | us where "ents r = us @ e # ys"
    | us where "ents l = xs @ e # us" "ys = us @ f # ents r"
    using Nd.prems by (auto simp: append_eq_append_conv2 Cons_eq_append_conv append_eq_Cons_conv)
  then show ?case
  proof cases
    case 1
    then show ?thesis
      by (intro exI [of _ Top] exI [of _ l] exI [of _ col] exI [of _ r]) simp
  next
    case 2
    then obtain c l' col' r' where "r = plug c (Nd l' col' e r')" "ents r' @ after c = ys"
      using Nd.IH(2) by blast
    then show ?thesis
      by (intro exI [of _ "join_path c (CR l col f Top)"] exI [of _ l'] exI [of _ col'] exI [of _ r'])
        (simp add: plug_join after_join)
  next
    case 3
    then obtain c l' col' r' where "l = plug c (Nd l' col' e r')" "ents r' @ after c = us"
      using Nd.IH(1) by blast
    then show ?thesis
      using 3(2) by (intro exI [of _ "join_path c (CL Top col f r)"] exI [of _ l'] exI [of _ col'] exI [of _ r'])
        (auto simp add: plug_join after_join)
  qed
qed simp

lemma entry_node:
  assumes "rb_at s t" "e \<in> set (ents t)"
  shows "fst e \<noteq> NULL" "n_k (mem s (fst e)) = key_of e"
proof -
  obtain xs ys where "ents t = xs @ e # ys"
    using assms(2) by (auto simp: in_set_conv_decomp)
  then obtain c l col r where "t = plug c (Nd l col e r)"
    using locate by blast
  then show "fst e \<noteq> NULL" "n_k (mem s (fst e)) = key_of e"
    using focus [of s c l col e r] assms(1) by simp_all
qed

lemma entry_children:
  assumes "rb_at s t" "ents t = xs @ e # ys"
  shows "\<not> wrong_parent s (fst e) (n_l (mem s (fst e)))" "\<not> wrong_parent s (fst e) (n_r (mem s (fst e)))"
proof -
  obtain c l col r where T: "t = plug c (Nd l col e r)"
    using locate [OF assms(2)] by blast
  note p = focus [of s c l col e r, folded T, OF assms(1)]
  have "tree_at (mem s) (fst e) l" "tree_at (mem s) (fst e) r"
    using assms(1) unfolding T by (simp_all add: rb_at_plug)
  then show "\<not> wrong_parent s (fst e) (n_l (mem s (fst e)))" "\<not> wrong_parent s (fst e) (n_r (mem s (fst e)))"
    unfolding p(6) by (cases l; auto simp: wrong_parent_def; fail | cases r; auto simp: wrong_parent_def)+
qed

lemma verify_order_tree:
  assumes rb: "rb_at s t" and b: "bst t" and ord: "orders (compare s) (set (keys t))"
  shows "ents t = xs @ e # ys \<Longrightarrow> verify_order s (fst e) [] = Some (True, [])"
proof (induction ys arbitrary: xs e)
  case (Cons f ys)
  obtain c l col r where T: "t = plug c (Nd l col e r)" "ents r @ after c = f # ys"
    using locate [OF Cons.prems] by blast
  have nxt: "successor s (fst e) = Some (fst f)"
    using successor_tree [of s c l col e r] rb T by (simp add: first_addr_def)
  have "e \<in> set (ents t)" "f \<in> set (ents t)"
    using Cons.prems by simp_all
  note ef = entry_node [OF rb this(1)] entry_node [OF rb this(2)] this
  have "key_of e < key_of f"
    using b Cons.prems by (simp add: bst_def keys_def sorted_wrt_append)
  then have "compare s (key_of e) (key_of f) < 0"
    using ord ef(5,6) by (simp add: orders_def keys_def)
  moreover have "verify_order s (fst f) [] = Some (True, [])"
    using Cons.IH [of "xs @ [e]" f] Cons.prems by simp
  ultimately show ?case
    using ef nxt entry_children [OF rb Cons.prems] by (subst verify_order.simps) (simp add: complain_def)
next
  case Nil
  obtain c l col r where T: "t = plug c (Nd l col e r)" "ents r @ after c = []"
    using locate [OF Nil.prems] by blast
  have "successor s (fst e) = Some NULL"
    using successor_tree [of s c l col e r] rb T by (simp add: first_addr_def)
  then show ?case
    using entry_children [OF rb Nil.prems] by (subst verify_order.simps) (simp add: complain_def)
qed

lemma verify_holds:
  assumes h: "holds s M" and ord: "orders (compare s) (dom M)"
  shows "\<exists>n > 0. rbtree_verify s = Some (n, [])"
proof -
  obtain t where t: "rb_at s t" "rb_ok t" "bst t" "M = map_of (kvs t)"
    using h by (auto simp: holds_def)
  have at: "root s = addr_of t" "tree_at (mem s) NULL t"
    using t(1) by (simp_all add: rb_at_def)
  show ?thesis
  proof (cases t)
    case Lf
    then show ?thesis
      using at by (simp add: rbtree_verify_def)
  next
    case (Nd l col e r)
    then have root: "root s \<noteq> NULL" "n_p (mem s (root s)) = NULL" "n_c (mem s (root s)) = BLACK"
      using at t(2) by (auto simp: rb_ok_Nd)
    obtain d qc q rr where q: "t = plug d (Nd Lf qc q rr)" "before d = []" "leftmost s (addr_of t) = Some (fst q)"
      using leftmost_sim [OF at(2)] Nd by blast
    have "verify_order s (fst q) [] = Some (True, [])"
      using verify_order_tree [OF t(1,3), of "[]" q "ents rr @ after d"] ord q(1,2) t(4) by (simp add: dom_kvs)
    moreover have "verifyRedBlack s (root s) = Some (int (bheight t) + 1, [])"
      using verifyRedBlack_tree [OF at(2)] t(2) at(1) by (simp add: rb_ok_def)
    ultimately show ?thesis
      using root q(3) at(1) by (simp add: rbtree_verify_def firstEntry_def complain_def)
  qed
qed

section \<open>The default order\<close>

text \<open>The difference of two keys of this range fits into a \<^verbatim>\<open>long\<close>.\<close>

definition default_keys :: "int set" where
  "default_keys = {- (2 ^ 62) ..< 2 ^ 62}"

lemma compareKeysDefault_exact:
  assumes "a \<in> default_keys" "b \<in> default_keys"
  shows "compareKeysDefault a b = a - b"
proof -
  have "- (2 ^ 63) \<le> a - b" "a - b < 2 ^ 63"
    using assms by (simp_all add: default_keys_def)
  then show ?thesis
    unfolding compareKeysDefault_def sint_sbintrunc' by (intro signed_take_bit_int_eq_self) simp_all
qed

lemma compareKeysDefault_orders: "K \<subseteq> default_keys \<Longrightarrow> orders compareKeysDefault K"
  by (auto simp: orders_def compareKeysDefault_exact subset_iff)

section \<open>Sequences of operations\<close>

datatype map_op = Find int | Contains int | Insert int nat | Update int nat | Remove int

datatype map_res = Val nat | Flag bool

fun op_key :: "map_op \<Rightarrow> int" where
  "op_key (Find k) = k"
| "op_key (Contains k) = k"
| "op_key (Insert k v) = k"
| "op_key (Update k v) = k"
| "op_key (Remove k) = k"

text \<open>What a map answers, and what becomes of it. A value that is not there reads as the null pointer.\<close>

fun spec_call :: "map_op \<Rightarrow> (int \<rightharpoonup> nat) \<Rightarrow> map_res \<times> (int \<rightharpoonup> nat)" where
  "spec_call (Find k) M = (Val (case M k of None \<Rightarrow> NULL | Some v \<Rightarrow> v), M)"
| "spec_call (Contains k) M = (Flag (M k \<noteq> None), M)"
| "spec_call (Insert k v) M = (Flag (M k = None), if M k = None then M(k \<mapsto> v) else M)"
| "spec_call (Update k v) M = (Flag (M k \<noteq> None), M(k \<mapsto> v))"
| "spec_call (Remove k) M = (Flag (M k \<noteq> None), M(k := None))"

fun spec_calls :: "map_op list \<Rightarrow> (int \<rightharpoonup> nat) \<Rightarrow> map_res list \<times> (int \<rightharpoonup> nat)" where
  "spec_calls [] M = ([], M)"
| "spec_calls (op # ops) M =
    (let (r, M) = spec_call op M; (rs, M) = spec_calls ops M in (r # rs, M))"

text \<open>The macros of \<^verbatim>\<open>map.h\<close> for the red-black tree; \<open>n\<close> is the node that \<^verbatim>\<open>malloc\<close> returns.\<close>

fun map_call :: "nat \<Rightarrow> map_op \<Rightarrow> rbtree \<Rightarrow> (map_res \<times> rbtree) option" where
  "map_call n (Find k) s = do { v \<leftarrow> rbtree_get s k; Some (Val v, s) }"
| "map_call n (Contains k) s = do { b \<leftarrow> rbtree_contains s k; Some (Flag b, s) }"
| "map_call n (Insert k v) s = do { (b, s) \<leftarrow> rbtree_insert n s k v; Some (Flag b, s) }"
| "map_call n (Update k v) s = do { (b, s) \<leftarrow> rbtree_update n s k v; Some (Flag b, s) }"
| "map_call n (Remove k) s = do { (b, s) \<leftarrow> rbtree_delete s k; Some (Flag b, s) }"

fun calls_with :: "(nat \<Rightarrow> map_op \<Rightarrow> 's \<Rightarrow> (map_res \<times> 's) option) \<Rightarrow> ('s \<Rightarrow> nat) \<Rightarrow> map_op list \<Rightarrow> 's \<Rightarrow> (map_res list \<times> 's) option" where
  "calls_with call pick [] s = Some ([], s)"
| "calls_with call pick (op # ops) s = do {
     (r, s) \<leftarrow> call (pick s) op s;
     (rs, s) \<leftarrow> calls_with call pick ops s;
     Some (r # rs, s)
   }"

definition map_calls :: "(nat set \<Rightarrow> nat) \<Rightarrow> map_op list \<Rightarrow> rbtree \<Rightarrow> (map_res list \<times> rbtree) option" where
  "map_calls malloc ops s = calls_with map_call (\<lambda>s. malloc (live s)) ops s"

section \<open>The interface\<close>

text \<open>An implementation of maps whose keys lie in \<open>K\<close>: each call answers as the map does.\<close>

locale map_impl =
  fixes repr :: "'s \<Rightarrow> (int \<rightharpoonup> nat) \<Rightarrow> bool"
    and fresh :: "'s \<Rightarrow> nat \<Rightarrow> bool"
    and call :: "nat \<Rightarrow> map_op \<Rightarrow> 's \<Rightarrow> (map_res \<times> 's) option"
    and K :: "int set"
  assumes call_law: "repr s M \<Longrightarrow> dom M \<subseteq> K \<Longrightarrow> op_key op \<in> K \<Longrightarrow> fresh s n \<Longrightarrow>
    \<exists>s'. call n op s = Some (fst (spec_call op M), s') \<and> repr s' (snd (spec_call op M))"
begin

lemma spec_dom: "dom M \<subseteq> K \<Longrightarrow> op_key op \<in> K \<Longrightarrow> dom (snd (spec_call op M)) \<subseteq> K"
  by (cases op) auto

lemma run_law:
  assumes "repr s M" "dom M \<subseteq> K" "\<And>op. op \<in> set ops \<Longrightarrow> op_key op \<in> K" "\<And>s M. repr s M \<Longrightarrow> fresh s (pick s)"
  shows "\<exists>s'. calls_with call pick ops s = Some (fst (spec_calls ops M), s') \<and> repr s' (snd (spec_calls ops M)) \<and>
    dom (snd (spec_calls ops M)) \<subseteq> K"
  using assms
proof (induction ops arbitrary: s M)
  case (Cons op ops)
  obtain s1 where s1: "call (pick s) op s = Some (fst (spec_call op M), s1)" "repr s1 (snd (spec_call op M))"
    using call_law [of s M op "pick s"] Cons.prems by auto
  have "dom (snd (spec_call op M)) \<subseteq> K"
    using Cons.prems by (intro spec_dom) simp_all
  then show ?case
    using Cons.IH [OF s1(2)] Cons.prems(3,4) s1(1) by (auto simp: split_beta)
qed simp

end

text \<open>An implementation that can check itself and give its nodes back.\<close>

locale map_impl_owned = map_impl +
  fixes verify :: "'s \<Rightarrow> (int \<times> string list) option"
    and release :: "'s \<Rightarrow> 's option"
    and owned :: "'s \<Rightarrow> nat set"
  assumes verify_law: "repr s M \<Longrightarrow> dom M \<subseteq> K \<Longrightarrow> \<exists>n > 0. verify s = Some (n, [])"
    and release_law: "repr s M \<Longrightarrow> \<exists>s'. release s = Some s' \<and> owned s' = {}"
begin

lemma run_verifies:
  assumes "repr s M" "dom M \<subseteq> K" "\<And>op. op \<in> set ops \<Longrightarrow> op_key op \<in> K" "\<And>s M. repr s M \<Longrightarrow> fresh s (pick s)"
    "calls_with call pick ops s = Some (rs, s')"
  shows "\<exists>n > 0. verify s' = Some (n, [])" "\<exists>s''. release s' = Some s'' \<and> owned s'' = {}"
proof -
  have "repr s' (snd (spec_calls ops M))" "dom (snd (spec_calls ops M)) \<subseteq> K"
    using run_law [OF assms(1,2), of ops pick] assms(3-5) by auto
  then show "\<exists>n > 0. verify s' = Some (n, [])" "\<exists>s''. release s' = Some s'' \<and> owned s'' = {}"
    using verify_law release_law by blast+
qed

end

definition tree_holds :: "rbtree \<Rightarrow> (int \<rightharpoonup> nat) \<Rightarrow> bool" where
  "tree_holds s M \<longleftrightarrow> holds s M \<and> compare s = compareKeysDefault"

definition fresh_node :: "rbtree \<Rightarrow> nat \<Rightarrow> bool" where
  "fresh_node s n \<longleftrightarrow> n \<noteq> NULL \<and> n \<notin> live s"

lemma map_call_law:
  assumes "tree_holds s M" "dom M \<subseteq> default_keys" "op_key op \<in> default_keys" "fresh_node s n"
  shows "\<exists>s'. map_call n op s = Some (fst (spec_call op M), s') \<and> tree_holds s' (snd (spec_call op M))"
proof -
  have h: "holds s M" "compare s = compareKeysDefault" and n: "n \<noteq> NULL" "n \<notin> live s"
    using assms(1,4) by (simp_all add: tree_holds_def fresh_node_def)
  have ord: "orders (compare s) (insert (op_key op) (dom M))"
    using assms(2,3) h(2) by (simp add: compareKeysDefault_orders)
  show ?thesis
  proof (cases op)
    case (Insert k v)
    then show ?thesis
      using insert_holds [OF h(1) _ n, of k v] ord h(2) by (auto simp: tree_holds_def)
  next
    case (Update k v)
    then show ?thesis
      using update_holds [OF h(1) _ n, of k v] ord h(2) by (auto simp: tree_holds_def)
  next
    case (Remove k)
    then show ?thesis
      using delete_holds [OF h(1), of k] ord h(2) by (auto simp: tree_holds_def)
  qed (use get_holds [OF h(1)] ord h in \<open>simp_all add: tree_holds_def\<close>)
qed

interpretation rb: map_impl tree_holds fresh_node map_call default_keys
  by unfold_locales (rule map_call_law)

interpretation rb: map_impl_owned tree_holds fresh_node map_call default_keys rbtree_verify rbtree_free live
proof
  show "\<exists>n > 0. rbtree_verify s = Some (n, [])" if "tree_holds s M" "dom M \<subseteq> default_keys" for s M
    using verify_holds [of s M] compareKeysDefault_orders [of "dom M"] that by (simp add: tree_holds_def)
  show "\<exists>s'. rbtree_free s = Some s' \<and> live s' = {}" if "tree_holds s M" for s M
    using that free_holds by (auto simp: tree_holds_def)
qed

lemma finite_adrs: "finite (adrs t)"
  by (induction t) simp_all

lemma malloc_fresh:
  assumes "\<And>L. finite L \<Longrightarrow> malloc L \<noteq> NULL \<and> malloc L \<notin> L" "tree_holds s M"
  shows "fresh_node s (malloc (live s))"
proof -
  have "finite (live s)"
    using assms(2) finite_adrs by (auto simp: tree_holds_def holds_def) (metis finite_adrs)
  then show ?thesis
    using assms(1) by (simp add: fresh_node_def)
qed

lemma alloc_holds: "tree_holds (rbtree_alloc None m {}) Map.empty"
  by (auto simp: tree_holds_def rbtree_alloc_def rb_at_def rb_ok_def bst_def keys_def kvs_def intro!: holdsI [of _ Lf])

section \<open>Properties\<close>

text \<open>
  C25. The red-black tree implements the map: any sequence of finds, membership tests, insertions, updates and
  removals on a tree that starts out empty ends, follows no null pointer, and answers as the finite map does,
  for keys whose differences fit into a \<^verbatim>\<open>long\<close> and a \<^verbatim>\<open>malloc\<close> that returns a new block each time.
\<close>

theorem rbtree_implements_map:
  assumes "\<And>L. finite L \<Longrightarrow> malloc L \<noteq> NULL \<and> malloc L \<notin> L" "\<And>op. op \<in> set ops \<Longrightarrow> op_key op \<in> default_keys"
  shows "\<exists>s. map_calls malloc ops (rbtree_alloc None m {}) = Some (fst (spec_calls ops Map.empty), s) \<and>
    holds s (snd (spec_calls ops Map.empty))"
  using rb.run_law [OF alloc_holds _ assms(2), of ops "\<lambda>s. malloc (live s)" m] malloc_fresh [OF assms(1)]
  by (auto simp: map_calls_def tree_holds_def)

text \<open>An allocator for the witnesses.\<close>

definition next_free :: "nat set \<Rightarrow> nat" where
  "next_free L = Suc (Max (insert 0 L))"

lemma next_free_new: "finite L \<Longrightarrow> next_free L \<noteq> NULL \<and> next_free L \<notin> L"
  by (auto simp: next_free_def dest: Max_ge [of "insert 0 L", rotated])
    (metis Max_ge Suc_n_not_le_n finite_insert insertCI)

abbreviation demo_ops :: "map_op list" where
  "demo_ops \<equiv> [Insert 5 50, Insert 3 30, Insert 8 80, Insert 5 51, Update 8 81, Remove 3, Find 8, Contains 3, Find 5, Remove 9]"

definition blank_mem :: "nat \<Rightarrow> node" where
  "blank_mem a = \<lparr>n_k = 0, n_v = 0, n_p = 0, n_l = 0, n_r = 0, n_c = RED\<rparr>"

lemma demo_keys: "op \<in> set demo_ops \<Longrightarrow> op_key op \<in> default_keys"
  by (auto simp: default_keys_def)

theorem rbtree_implements_map_witness:
  "\<exists>s. map_calls next_free demo_ops (rbtree_alloc None blank_mem {}) =
     Some ([Flag True, Flag True, Flag True, Flag False, Flag True, Flag True, Val 81, Flag False, Val 50, Flag False], s) \<and>
     holds s [5 \<mapsto> 50, 8 \<mapsto> 81]"
proof -
  have "spec_calls demo_ops Map.empty =
      ([Flag True, Flag True, Flag True, Flag False, Flag True, Flag True, Val 81, Flag False, Val 50, Flag False], [5 \<mapsto> 50, 8 \<mapsto> 81])"
    by (simp add: fun_eq_iff)
  then show ?thesis
    using rbtree_implements_map [where m = blank_mem and ops = demo_ops, OF next_free_new demo_keys] by simp
qed

lemma demo_runs: "\<exists>rs s. map_calls next_free demo_ops (rbtree_alloc None blank_mem {}) = Some (rs, s)"
proof -
  have ready: "fresh_node s (next_free (live s))" if "tree_holds s M" for s M
    using malloc_fresh [of next_free] next_free_new that by blast
  have "\<exists>s. calls_with map_call (\<lambda>s. next_free (live s)) demo_ops (rbtree_alloc None blank_mem {}) =
      Some (fst (spec_calls demo_ops Map.empty), s) \<and> tree_holds s (snd (spec_calls demo_ops Map.empty)) \<and>
      dom (snd (spec_calls demo_ops Map.empty)) \<subseteq> default_keys"
    by (rule rb.run_law [OF alloc_holds _ demo_keys ready]) simp_all
  then show ?thesis
    unfolding map_calls_def by blast
qed

text \<open>
  C26. After any sequence of operations the tree passes the integrity check of \<^verbatim>\<open>rbtree_verify\<close> without a message:
  the root is black and has no parent, the keys are in strictly increasing order, every child points back to its
  parent, no red node has a red child, and all paths have the same number of black nodes.
\<close>

theorem rbtree_verify_accepts:
  assumes "\<And>L. finite L \<Longrightarrow> malloc L \<noteq> NULL \<and> malloc L \<notin> L" "\<And>op. op \<in> set ops \<Longrightarrow> op_key op \<in> default_keys"
    "map_calls malloc ops (rbtree_alloc None m {}) = Some (rs, s)"
  shows "\<exists>n > 0. rbtree_verify s = Some (n, [])"
  using rb.run_verifies(1) [OF alloc_holds _ assms(2) malloc_fresh [OF assms(1)] assms(3) [unfolded map_calls_def]] by simp

theorem rbtree_verify_accepts_witness:
  "\<exists>rs s. map_calls next_free demo_ops (rbtree_alloc None blank_mem {}) = Some (rs, s) \<and> (\<exists>n > 0. rbtree_verify s = Some (n, []))"
  using demo_runs rbtree_verify_accepts [where m = blank_mem and ops = demo_ops, OF next_free_new demo_keys] by blast

text \<open>
  C27. A tree owns exactly the nodes it has allocated and not released: \<^verbatim>\<open>rbtree_free\<close> after any sequence of
  operations gives every node back and leaves none behind.
\<close>

theorem rbtree_no_leak:
  assumes "\<And>L. finite L \<Longrightarrow> malloc L \<noteq> NULL \<and> malloc L \<notin> L" "\<And>op. op \<in> set ops \<Longrightarrow> op_key op \<in> default_keys"
    "map_calls malloc ops (rbtree_alloc None m {}) = Some (rs, s)"
  shows "\<exists>s'. rbtree_free s = Some s' \<and> live s' = {}"
  using rb.run_verifies(2) [OF alloc_holds _ assms(2) malloc_fresh [OF assms(1)] assms(3) [unfolded map_calls_def]] by simp

theorem rbtree_no_leak_witness:
  "\<exists>rs s. map_calls next_free demo_ops (rbtree_alloc None blank_mem {}) = Some (rs, s) \<and> (\<exists>s'. rbtree_free s = Some s' \<and> live s' = {})"
  using demo_runs rbtree_no_leak [where m = blank_mem and ops = demo_ops, OF next_free_new demo_keys] by blast

section \<open>Where the tree does not keep its promise\<close>

text \<open>
  Without memory for the node, an insertion into an empty tree reports success, and any other insertion of a new
  key writes through the null pointer.
\<close>

theorem insert_without_memory:
  "rbtree_insert NULL (rbtree_alloc None m {}) k v = Some (True, rbtree_alloc None m {})"
  "insert_at s k v NULL t link = None"
  by (simp_all add: rbtree_insert_def insert_node_def rbtree_alloc_def getNode_def insert_at_def stf_def)

text \<open>
  The check does not reject a tree whose paths have different numbers of black nodes: it prints a message and
  returns a height.
\<close>

theorem verify_accepts_imbalance:
  assumes "mem s 1 = \<lparr>n_k = 1, n_v = 0, n_p = NULL, n_l = NULL, n_r = 2, n_c = BLACK\<rparr>"
    "mem s 2 = \<lparr>n_k = 2, n_v = 0, n_p = 1, n_l = NULL, n_r = NULL, n_c = BLACK\<rparr>"
  shows "verifyRedBlack s 1 = Some (2, [''Imbalance''])"
proof -
  have "verifyRedBlack s NULL = Some (1, [])"
    by (subst verifyRedBlack.simps) simp
  moreover from this have "verifyRedBlack s 2 = Some (2, [])"
    using assms by (subst verifyRedBlack.simps) (simp add: complain_def wrong_parent_def)
  ultimately show ?thesis
    using assms by (subst verifyRedBlack.simps) (simp add: complain_def wrong_parent_def)
qed

text \<open>The default comparison of keys that are far apart wraps around: the larger one counts as the smaller one.\<close>

theorem compareKeysDefault_wraps: "compareKeysDefault (2 ^ 63 - 1) (- 1) < 0"
  by (simp add: compareKeysDefault_def)

end
