(* ===== verification/Prio_Queue.thy ===== *)
theory Prio_Queue
  imports Stm_Prelude "HOL-Library.Word"
begin

unbundle bit_operations_syntax

text \<open>
  The priority queues that hand tasks to the workers of the TPC-C server (\<^verbatim>\<open>TPCC/Server/core/priority.c\<close>, in the
  default build with spin locks): one linked list of tasks per priority with a lock at each end, and a bitmap of the
  priorities that have tasks.

  As for the transactions, a thread is at a program counter that names its next access to shared memory; \<open>prio_run\<close>
  makes this access. A task is named by its address, zero is the null pointer. The counters \<^verbatim>\<open>nenq\<close>, \<^verbatim>\<open>ndeq\<close> and
  \<^verbatim>\<open>neqx\<close> serve the assertions of the code only; an assertion that does not hold leads to \<open>Failed\<close>, an access
  outside of the arrays to \<open>Fault\<close>; in both the thread stops where it is. The counters are unbounded integers, and
  the array that the operations are given is not the null pointer.

  The theorems: the assertions hold in all executions, calls that do not overlap implement a queue with priorities,
  and an execution with overlapping calls leaves a task behind that is never delivered.
\<close>

section \<open>State\<close>

abbreviation NIL :: nat where "NIL \<equiv> 0"

datatype lock_id = Head | Tail

datatype counter = Nenq | Ndeq | Neqx

record task_list =
  locked :: "lock_id \<Rightarrow> bool"
  tl_head :: nat
  tl_tail :: nat
  dbg :: "counter \<Rightarrow> int"
  nins :: int
  tl_count :: int

record prio_task_array =
  num_priorities :: nat
  bitmap :: "8 word list"
  plist :: "nat \<Rightarrow> task_list"
  next_queue :: "nat \<Rightarrow> nat"
  priority :: "nat \<Rightarrow> int"

definition task_list_init :: task_list where
  "task_list_init = \<lparr>locked = (\<lambda>_. False), tl_head = NIL, tl_tail = NIL, dbg = (\<lambda>_. 0), nins = 0, tl_count = 0\<rparr>"

text \<open>The fields of the tasks are what the callers have put there. Memory is never exhausted.\<close>

definition GetPrioTaskArray :: "int \<Rightarrow> (nat \<Rightarrow> nat) \<Rightarrow> (nat \<Rightarrow> int) \<Rightarrow> prio_task_array option" where
  "GetPrioTaskArray num_prio nq pr =
    (if num_prio \<le> 0 then None
     else Some \<lparr>num_priorities = nat num_prio, bitmap = replicate (nat ((num_prio - 1) div 8 + 1)) 0,
       plist = (\<lambda>_. task_list_init), next_queue = nq, priority = pr\<rparr>)"

definition GET_BYTE_NUM :: "nat \<Rightarrow> nat" where "GET_BYTE_NUM pos = pos div 8"
definition GET_BIT_NUM :: "nat \<Rightarrow> nat" where "GET_BIT_NUM pos = pos mod 8"
definition CHECK_BIT :: "8 word \<Rightarrow> nat \<Rightarrow> bool" where "CHECK_BIT b i \<longleftrightarrow> b AND push_bit i 1 \<noteq> 0"
definition SET_BIT :: "8 word \<Rightarrow> nat \<Rightarrow> 8 word" where "SET_BIT b i = b OR push_bit i 1"
definition RESET_BIT :: "8 word \<Rightarrow> nat \<Rightarrow> 8 word" where "RESET_BIT b i = b AND NOT (push_bit i 1)"

section \<open>Program counters\<close>

text \<open>\<open>Add c 1\<close> is \<^verbatim>\<open>assert(__atomic_fetch_add(&c, 1) == 0)\<close>, \<open>Add c (-1)\<close> the subtraction from one.\<close>

datatype act = Add counter int | Unlock lock_id

datatype ret = RInt int | RTask nat

text \<open>
  Inside \<^verbatim>\<open>InsertTaskWithPriority\<close> (\<open>I_\<close>) with the task and its priority, inside \<^verbatim>\<open>RemoveTaskFromPriority\<close> (\<open>R_\<close>)
  with the flag whether \<^verbatim>\<open>RemoveHighestPriorityTask\<close> called it and the priority; \<open>n\<close> is \<^verbatim>\<open>nlocks\<close>. \<open>Rel\<close> is the
  release of the locks, \<open>H_scan k\<close> the search for a task below position \<open>k\<close>.
\<close>

datatype prio_pc =
    Idle
  | I_nins nat
  | I_tail nat nat | I_count nat nat | I_head nat nat | I_back nat nat
  | I_acq "act list" nat nat nat
  | I_rdhead nat nat nat | I_wrhead nat nat nat | I_rdtail nat nat nat | I_wrnext nat nat nat nat | I_wrtail nat nat nat
  | I_cnt nat nat nat | I_bm nat nat | I_bmcas nat nat "8 word"
  | R_head bool nat | R_count bool nat | R_tail bool nat | R_back bool nat
  | R_acq "act list" nat bool nat
  | R_rdhead nat bool nat | R_rdtask nat bool nat | R_rdnext nat bool nat nat | R_wrhead nat bool nat nat nat
  | R_wrtail nat bool nat nat | R_wrnext nat bool nat nat
  | R_cnt nat bool nat nat | R_bm nat bool nat nat | R_bmcas nat bool nat nat "8 word"
  | Rel "act list" nat bool ret
  | H_scan nat
  | Return ret
  | Failed
  | Fault prio_pc

definition insert_acq_acts :: "nat \<Rightarrow> act list" where
  "insert_acq_acts n = (if n = 2 then [Add Nenq 1, Add Ndeq 1, Add Neqx 1] else [Add Nenq 1])"

definition insert_rel_acts :: "nat \<Rightarrow> act list" where
  "insert_rel_acts n = (if n = 2 then [Add Ndeq (-1), Add Neqx (-1), Unlock Head] else []) @ [Add Nenq (-1), Unlock Tail]"

definition remove_acq_acts :: "nat \<Rightarrow> act list" where
  "remove_acq_acts n = (if n = 2 then [Add Ndeq 1, Add Nenq 1, Add Neqx 1] else [Add Ndeq 1])"

definition remove_rel_acts :: "nat \<Rightarrow> act list" where
  "remove_rel_acts n = (if n = 2 then [Add Nenq (-1), Add Neqx (-1), Unlock Tail] else []) @ [Add Ndeq (-1), Unlock Head]"

section \<open>Steps\<close>

definition upd_list :: "nat \<Rightarrow> (task_list \<Rightarrow> task_list) \<Rightarrow> prio_task_array \<Rightarrow> prio_task_array" where
  "upd_list p f a = a\<lparr>plist := (plist a)(p := f (plist a p))\<rparr>"

definition set_lock :: "lock_id \<Rightarrow> bool \<Rightarrow> nat \<Rightarrow> prio_task_array \<Rightarrow> prio_task_array" where
  "set_lock l b p a = upd_list p (locked_update (\<lambda>f. f(l := b))) a"

definition trylock :: "lock_id \<Rightarrow> nat \<Rightarrow> prio_task_array \<Rightarrow> prio_pc \<Rightarrow> prio_pc \<Rightarrow> prio_task_array \<times> prio_pc" where
  "trylock l p a yes no = (if locked (plist a p) l then (a, no) else (set_lock l True p a, yes))"

fun act_ok :: "act \<Rightarrow> task_list \<Rightarrow> bool" where
  "act_ok (Add c d) q = (dbg q c = (if d = 1 then 0 else 1))"
| "act_ok (Unlock l) q = True"

fun do_act :: "act \<Rightarrow> nat \<Rightarrow> prio_task_array \<Rightarrow> prio_task_array" where
  "do_act (Add c d) p a = upd_list p (dbg_update (\<lambda>f. f(c := f c + d))) a"
| "do_act (Unlock l) p a = set_lock l False p a"

definition acts_step :: "act list \<Rightarrow> nat \<Rightarrow> prio_task_array \<Rightarrow> (act list \<Rightarrow> prio_pc) \<Rightarrow> prio_task_array \<times> prio_pc" where
  "acts_step acts p a k =
    (case acts of [] \<Rightarrow> (a, k []) | x # xs \<Rightarrow> if act_ok x (plist a p) then (do_act x p a, k xs) else (a, Failed))"

definition bitmap_cas :: "nat \<Rightarrow> 8 word \<Rightarrow> 8 word \<Rightarrow> prio_task_array \<Rightarrow> prio_pc \<Rightarrow> prio_pc \<Rightarrow> prio_task_array \<times> prio_pc" where
  "bitmap_cas byte old new a yes no =
    (if bitmap a ! byte = old then (a\<lparr>bitmap := (bitmap a)[byte := new]\<rparr>, yes) else (a, no))"

text \<open>The checks at the entry of the operations.\<close>

definition InsertTaskWithPriority :: "prio_task_array \<Rightarrow> nat \<Rightarrow> int \<Rightarrow> prio_pc" where
  "InsertTaskWithPriority a t p =
    (if t = NIL then Return (RInt (-1)) else if p < 0 \<or> p \<ge> int (num_priorities a) then Return (RInt (-1)) else I_tail t (nat p))"

definition RemoveTaskFromPriority :: "prio_task_array \<Rightarrow> int \<Rightarrow> prio_pc" where
  "RemoveTaskFromPriority a p = (if p < 0 \<or> p \<ge> int (num_priorities a) then Return (RTask NIL) else R_head False (nat p))"

definition RemoveHighestPriorityTask :: "prio_task_array \<Rightarrow> prio_pc" where
  "RemoveHighestPriorityTask a = H_scan (8 * length (bitmap a))"

text \<open>What the caller does with the result of \<^verbatim>\<open>RemoveTaskFromPriority\<close>.\<close>

definition removed_task :: "bool \<Rightarrow> nat \<Rightarrow> ret \<Rightarrow> prio_pc" where
  "removed_task scan p r = (if scan \<and> r = RTask NIL then H_scan p else Return r)"

fun insert_run :: "prio_task_array \<Rightarrow> prio_pc \<Rightarrow> prio_task_array \<times> prio_pc" where
  "insert_run a (I_nins t) =
    (if t = NIL \<or> priority a t < 0 \<or> priority a t \<ge> int (num_priorities a) then (a, Fault (I_nins t))
     else (upd_list (nat (priority a t)) (nins_update (\<lambda>x. x + 1)) a, InsertTaskWithPriority a t (priority a t)))"
| "insert_run a (I_tail t p) = trylock Tail p a (I_count t p) (I_tail t p)"
| "insert_run a (I_count t p) = (a, if tl_count (plist a p) = 1 then I_head t p else I_acq (insert_acq_acts 1) 1 t p)"
| "insert_run a (I_head t p) = trylock Head p a (I_acq (insert_acq_acts 2) 2 t p) (I_back t p)"
| "insert_run a (I_back t p) = (set_lock Tail False p a, I_tail t p)"
| "insert_run a (I_acq acts n t p) = acts_step acts p a (\<lambda>xs. if xs = [] then I_rdhead n t p else I_acq xs n t p)"
| "insert_run a (I_rdhead n t p) = (a, if tl_head (plist a p) = NIL then I_wrhead n t p else I_rdtail n t p)"
| "insert_run a (I_wrhead n t p) = (upd_list p (tl_head_update (\<lambda>_. t)) a, I_wrtail n t p)"
| "insert_run a (I_rdtail n t p) = (a, I_wrnext n t p (tl_tail (plist a p)))"
| "insert_run a (I_wrnext n t p q) =
    (if q = NIL then (a, Fault (I_wrnext n t p q)) else (a\<lparr>next_queue := (next_queue a)(q := t)\<rparr>, I_wrtail n t p))"
| "insert_run a (I_wrtail n t p) = (upd_list p (tl_tail_update (\<lambda>_. t)) a, I_cnt n t p)"
| "insert_run a (I_cnt n t p) = (upd_list p (tl_count_update (\<lambda>x. x + 1)) a,
     if tl_count (plist a p) = 0 then I_bm n p else Rel (insert_rel_acts n) p False (RInt 0))"
| "insert_run a (I_bm n p) = (a, I_bmcas n p (bitmap a ! GET_BYTE_NUM p))"
| "insert_run a (I_bmcas n p b) = bitmap_cas (GET_BYTE_NUM p) b (SET_BIT b (GET_BIT_NUM p)) a
     (Rel (insert_rel_acts n) p False (RInt 0)) (I_bm n p)"
| "insert_run a pc = (a, pc)"

fun remove_run :: "prio_task_array \<Rightarrow> prio_pc \<Rightarrow> prio_task_array \<times> prio_pc" where
  "remove_run a (R_head b p) = trylock Head p a (R_count b p) (R_head b p)"
| "remove_run a (R_count b p) = (a, if tl_count (plist a p) = 1 then R_tail b p else R_acq (remove_acq_acts 1) 1 b p)"
| "remove_run a (R_tail b p) = trylock Tail p a (R_acq (remove_acq_acts 2) 2 b p) (R_back b p)"
| "remove_run a (R_back b p) = (set_lock Head False p a, R_head b p)"
| "remove_run a (R_acq acts n b p) = acts_step acts p a (\<lambda>xs. if xs = [] then R_rdhead n b p else R_acq xs n b p)"
| "remove_run a (R_rdhead n b p) =
    (a, if tl_head (plist a p) = NIL then Rel (remove_rel_acts n) p b (RTask NIL) else R_rdtask n b p)"
| "remove_run a (R_rdtask n b p) = (a, R_rdnext n b p (tl_head (plist a p)))"
| "remove_run a (R_rdnext n b p t) = (if t = NIL then (a, Fault (R_rdnext n b p t)) else (a, R_wrhead n b p t (next_queue a t)))"
| "remove_run a (R_wrhead n b p t q) = (upd_list p (tl_head_update (\<lambda>_. q)) a, if q = NIL then R_wrtail n b p t else R_wrnext n b p t)"
| "remove_run a (R_wrtail n b p t) = (upd_list p (tl_tail_update (\<lambda>_. NIL)) a, R_wrnext n b p t)"
| "remove_run a (R_wrnext n b p t) = (a\<lparr>next_queue := (next_queue a)(t := NIL)\<rparr>, R_cnt n b p t)"
| "remove_run a (R_cnt n b p t) = (upd_list p (tl_count_update (\<lambda>x. x - 1)) a,
     if tl_count (plist a p) = 1 then R_bm n b p t else Rel (remove_rel_acts n) p b (RTask t))"
| "remove_run a (R_bm n b p t) = (a, R_bmcas n b p t (bitmap a ! GET_BYTE_NUM p))"
| "remove_run a (R_bmcas n b p t w) = bitmap_cas (GET_BYTE_NUM p) w (RESET_BIT w (GET_BIT_NUM p)) a
     (Rel (remove_rel_acts n) p b (RTask t)) (R_bm n b p t)"
| "remove_run a pc = (a, pc)"

definition scan_run :: "prio_task_array \<Rightarrow> nat \<Rightarrow> prio_task_array \<times> prio_pc" where
  "scan_run a k = (case k of 0 \<Rightarrow> (a, Return (RTask NIL))
     | Suc p \<Rightarrow> (a, if CHECK_BIT (bitmap a ! GET_BYTE_NUM p) (GET_BIT_NUM p) \<and> p < num_priorities a then R_head True p else H_scan p))"

definition is_insert :: "prio_pc \<Rightarrow> bool" where
  "is_insert pc = (case pc of
     I_nins _ \<Rightarrow> True | I_tail _ _ \<Rightarrow> True | I_count _ _ \<Rightarrow> True | I_head _ _ \<Rightarrow> True | I_back _ _ \<Rightarrow> True | I_acq _ _ _ _ \<Rightarrow> True
   | I_rdhead _ _ _ \<Rightarrow> True | I_wrhead _ _ _ \<Rightarrow> True | I_rdtail _ _ _ \<Rightarrow> True | I_wrnext _ _ _ _ \<Rightarrow> True | I_wrtail _ _ _ \<Rightarrow> True
   | I_cnt _ _ _ \<Rightarrow> True | I_bm _ _ \<Rightarrow> True | I_bmcas _ _ _ \<Rightarrow> True | _ \<Rightarrow> False)"

definition prio_run :: "prio_task_array \<Rightarrow> prio_pc \<Rightarrow> prio_task_array \<times> prio_pc" where
  "prio_run a pc = (case pc of
     Rel acts p b r \<Rightarrow> acts_step acts p a (\<lambda>xs. if xs = [] then removed_task b p r else Rel xs p b r)
   | H_scan k \<Rightarrow> scan_run a k
   | _ \<Rightarrow> if is_insert pc then insert_run a pc else remove_run a pc)"

section \<open>Executions\<close>

datatype prio_op = InsertOp nat | InsertAtOp nat int | RemoveOp int | RemoveHighestOp

fun prio_start :: "prio_task_array \<Rightarrow> prio_op \<Rightarrow> prio_pc" where
  "prio_start a (InsertOp t) = I_nins t"
| "prio_start a (InsertAtOp t p) = InsertTaskWithPriority a t p"
| "prio_start a (RemoveOp p) = RemoveTaskFromPriority a p"
| "prio_start a RemoveHighestOp = RemoveHighestPriorityTask a"

record prio_sys =
  arr :: prio_task_array
  pcs :: "tid \<Rightarrow> prio_pc"

definition prio_step :: "prio_sys \<Rightarrow> tid \<Rightarrow> prio_op \<Rightarrow> prio_sys" where
  "prio_step s t c = (case pcs s t of
     Idle \<Rightarrow> s\<lparr>pcs := (pcs s)(t := prio_start (arr s) c)\<rparr>
   | Return r \<Rightarrow> s\<lparr>pcs := (pcs s)(t := Idle)\<rparr>
   | Failed \<Rightarrow> s
   | Fault _ \<Rightarrow> s
   | pc \<Rightarrow> (let (a, pc') = prio_run (arr s) pc in \<lparr>arr = a, pcs = (pcs s)(t := pc')\<rparr>))"

fun prio_exec :: "prio_sys \<Rightarrow> (tid \<times> prio_op) list \<Rightarrow> prio_sys" where
  "prio_exec s [] = s"
| "prio_exec s ((t, c) # cs) = prio_exec (prio_step s t c) cs"

section \<open>The assertions hold\<close>

text \<open>The lock that protects a counter.\<close>

fun lock_of :: "counter \<Rightarrow> lock_id" where
  "lock_of Nenq = Tail"
| "lock_of Ndeq = Head"
| "lock_of Neqx = Tail"

definition both :: "nat \<Rightarrow> 'a \<Rightarrow> 'a set" where
  "both n x = (if n = 2 then UNIV else {x})"

text \<open>The list a thread is working on, the locks of it that it holds and the counters that it has raised.\<close>

fun site :: "prio_pc \<Rightarrow> nat \<times> lock_id set \<times> counter set" where
  "site (I_count t p) = (p, {Tail}, {})"
| "site (I_head t p) = (p, {Tail}, {})"
| "site (I_back t p) = (p, {Tail}, {})"
| "site (I_acq acts n t p) = (p, both n Tail, both n Nenq - {c. Add c 1 \<in> set acts})"
| "site (I_rdhead n t p) = (p, both n Tail, both n Nenq)"
| "site (I_wrhead n t p) = (p, both n Tail, both n Nenq)"
| "site (I_rdtail n t p) = (p, both n Tail, both n Nenq)"
| "site (I_wrnext n t p q) = (p, both n Tail, both n Nenq)"
| "site (I_wrtail n t p) = (p, both n Tail, both n Nenq)"
| "site (I_cnt n t p) = (p, both n Tail, both n Nenq)"
| "site (I_bm n p) = (p, both n Tail, both n Nenq)"
| "site (I_bmcas n p b) = (p, both n Tail, both n Nenq)"
| "site (R_count b p) = (p, {Head}, {})"
| "site (R_tail b p) = (p, {Head}, {})"
| "site (R_back b p) = (p, {Head}, {})"
| "site (R_acq acts n b p) = (p, both n Head, both n Ndeq - {c. Add c 1 \<in> set acts})"
| "site (R_rdhead n b p) = (p, both n Head, both n Ndeq)"
| "site (R_rdtask n b p) = (p, both n Head, both n Ndeq)"
| "site (R_rdnext n b p t) = (p, both n Head, both n Ndeq)"
| "site (R_wrhead n b p t q) = (p, both n Head, both n Ndeq)"
| "site (R_wrtail n b p t) = (p, both n Head, both n Ndeq)"
| "site (R_wrnext n b p t) = (p, both n Head, both n Ndeq)"
| "site (R_cnt n b p t) = (p, both n Head, both n Ndeq)"
| "site (R_bm n b p t) = (p, both n Head, both n Ndeq)"
| "site (R_bmcas n b p t w) = (p, both n Head, both n Ndeq)"
| "site (Rel acts p b r) = (p, {l. Unlock l \<in> set acts}, {c. Add c (-1) \<in> set acts})"
| "site (Fault pc) = site pc"
| "site pc = (0, {}, {})"

definition owns :: "prio_pc \<Rightarrow> nat \<Rightarrow> lock_id \<Rightarrow> bool" where
  "owns pc p l = (case site pc of (q, L, C) \<Rightarrow> p = q \<and> l \<in> L)"

definition raised :: "prio_pc \<Rightarrow> nat \<Rightarrow> counter \<Rightarrow> bool" where
  "raised pc p c = (case site pc of (q, L, C) \<Rightarrow> p = q \<and> c \<in> C)"

text \<open>The actions still to come: counters are raised once; a counter is lowered before its lock is released.\<close>

fun raise_ok :: "counter set \<Rightarrow> act list \<Rightarrow> bool" where
  "raise_ok C [] = True"
| "raise_ok C (Add c d # xs) = (d = 1 \<and> c \<in> C \<and> Add c 1 \<notin> set xs \<and> raise_ok C xs)"
| "raise_ok C (Unlock l # xs) = False"

fun rel_ok :: "act list \<Rightarrow> bool" where
  "rel_ok [] = True"
| "rel_ok (Add c d # xs) = (d = -1 \<and> Add c (-1) \<notin> set xs \<and> Unlock (lock_of c) \<in> set xs \<and> rel_ok xs)"
| "rel_ok (Unlock l # xs) = (Unlock l \<notin> set xs \<and> (\<forall>c. lock_of c = l \<longrightarrow> Add c (-1) \<notin> set xs) \<and> rel_ok xs)"

fun pc_ok :: "prio_pc \<Rightarrow> bool" where
  "pc_ok (I_acq acts n t p) = (acts \<noteq> [] \<and> raise_ok (both n Nenq) acts)"
| "pc_ok (R_acq acts n b p) = (acts \<noteq> [] \<and> raise_ok (both n Ndeq) acts)"
| "pc_ok (Rel acts p b r) = (acts \<noteq> [] \<and> rel_ok acts)"
| "pc_ok Failed = False"
| "pc_ok (Fault pc) = pc_ok pc"
| "pc_ok pc = True"

lemma UNIV_counter: "UNIV = {Nenq, Ndeq, Neqx}"
  by (auto intro: counter.exhaust)

lemma rel_ok_owns: "rel_ok acts \<Longrightarrow> Add c (-1) \<in> set acts \<Longrightarrow> Unlock (lock_of c) \<in> set acts"
  by (induction acts rule: rel_ok.induct) auto

lemma raised_owns:
  assumes "pc_ok pc" "raised pc p c"
  shows "owns pc p (lock_of c)"
  using assms by (induction pc) (auto simp: raised_def owns_def both_def rel_ok_owns split: if_splits)

lemma acts_ok [simp]:
  "raise_ok (both n Nenq) (insert_acq_acts n)" "raise_ok (both n Ndeq) (remove_acq_acts n)" "rel_ok (insert_rel_acts n)" "rel_ok (remove_rel_acts n)"
  "insert_acq_acts n \<noteq> []" "remove_acq_acts n \<noteq> []" "insert_rel_acts n \<noteq> []" "remove_rel_acts n \<noteq> []"
  by (auto simp: insert_acq_acts_def remove_acq_acts_def insert_rel_acts_def remove_rel_acts_def both_def elim: lock_of.elims)

lemma acts_sets [simp]:
  "Add c 1 \<in> set (insert_acq_acts n) \<longleftrightarrow> c \<in> both n Nenq" "Add c 1 \<in> set (remove_acq_acts n) \<longleftrightarrow> c \<in> both n Ndeq"
  "Add c (-1) \<in> set (insert_rel_acts n) \<longleftrightarrow> c \<in> both n Nenq" "Add c (-1) \<in> set (remove_rel_acts n) \<longleftrightarrow> c \<in> both n Ndeq"
  "Unlock l \<in> set (insert_rel_acts n) \<longleftrightarrow> l \<in> both n Tail" "Unlock l \<in> set (remove_rel_acts n) \<longleftrightarrow> l \<in> both n Head"
  by (cases c; auto simp: insert_acq_acts_def remove_acq_acts_def insert_rel_acts_def remove_rel_acts_def both_def; fail |
    cases l; auto simp: insert_rel_acts_def remove_rel_acts_def both_def)+

text \<open>How a step of a thread may change the locks and the counters.\<close>

definition moves :: "prio_task_array \<Rightarrow> prio_pc \<Rightarrow> prio_task_array \<Rightarrow> prio_pc \<Rightarrow> bool" where
  "moves a pc a' pc' \<longleftrightarrow>
    (\<forall>p l. locked (plist a' p) l = locked (plist a p) l \<and> owns pc' p l = owns pc p l \<or>
       \<not> locked (plist a p) l \<and> locked (plist a' p) l \<and> owns pc' p l \<or>
       owns pc p l \<and> \<not> locked (plist a' p) l \<and> \<not> owns pc' p l) \<and>
    (\<forall>p c. dbg (plist a' p) c = dbg (plist a p) c \<and> raised pc' p c = raised pc p c \<or>
       owns pc p (lock_of c) \<and> \<not> raised pc p c \<and> raised pc' p c \<and> dbg (plist a' p) c = dbg (plist a p) c + 1 \<or>
       raised pc p c \<and> \<not> raised pc' p c \<and> dbg (plist a' p) c = dbg (plist a p) c - 1)"

definition active :: "prio_pc \<Rightarrow> bool" where
  "active pc \<longleftrightarrow> pc \<noteq> Idle \<and> pc \<noteq> Failed \<and> (\<forall>r. pc \<noteq> Return r) \<and> (\<forall>q. pc \<noteq> Fault q)"

lemma prio_run_simps [simp]:
  "prio_run a (Rel acts p b r) = acts_step acts p a (\<lambda>xs. if xs = [] then removed_task b p r else Rel xs p b r)"
  "prio_run a (H_scan k) = scan_run a k"
  "is_insert pc \<Longrightarrow> prio_run a pc = insert_run a pc"
  "prio_run a (R_head b p) = remove_run a (R_head b p)" "prio_run a (R_count b p) = remove_run a (R_count b p)"
  "prio_run a (R_tail b p) = remove_run a (R_tail b p)" "prio_run a (R_back b p) = remove_run a (R_back b p)"
  "prio_run a (R_acq acts n b p) = remove_run a (R_acq acts n b p)" "prio_run a (R_rdhead n b p) = remove_run a (R_rdhead n b p)"
  "prio_run a (R_rdtask n b p) = remove_run a (R_rdtask n b p)" "prio_run a (R_rdnext n b p t) = remove_run a (R_rdnext n b p t)"
  "prio_run a (R_wrhead n b p t q) = remove_run a (R_wrhead n b p t q)" "prio_run a (R_wrtail n b p t) = remove_run a (R_wrtail n b p t)"
  "prio_run a (R_wrnext n b p t) = remove_run a (R_wrnext n b p t)" "prio_run a (R_cnt n b p t) = remove_run a (R_cnt n b p t)"
  "prio_run a (R_bm n b p t) = remove_run a (R_bm n b p t)" "prio_run a (R_bmcas n b p t w) = remove_run a (R_bmcas n b p t w)"
  by (simp_all add: prio_run_def is_insert_def split: prio_pc.splits)

lemma is_insert_simps [simp]:
  "is_insert (I_nins t)" "is_insert (I_tail t p)" "is_insert (I_count t p)" "is_insert (I_head t p)" "is_insert (I_back t p)"
  "is_insert (I_acq acts n t p)" "is_insert (I_rdhead n t p)" "is_insert (I_wrhead n t p)" "is_insert (I_rdtail n t p)"
  "is_insert (I_wrnext n t p q)" "is_insert (I_wrtail n t p)" "is_insert (I_cnt n t p)" "is_insert (I_bm n p)" "is_insert (I_bmcas n p b)"
  by (simp_all add: is_insert_def)

text \<open>A step that leaves the locks, the counters and the site alone.\<close>

definition same_locks :: "prio_task_array \<Rightarrow> prio_task_array \<Rightarrow> bool" where
  "same_locks a a' \<longleftrightarrow> (\<forall>p. locked (plist a' p) = locked (plist a p) \<and> dbg (plist a' p) = dbg (plist a p))"

lemma moves_same: "same_locks a a' \<Longrightarrow> site pc' = site pc \<Longrightarrow> moves a pc a' pc'"
  by (simp add: moves_def same_locks_def owns_def raised_def)

lemma moves_trylock:
  assumes "trylock l p a yes no = (a', pc')" "site yes = (p, insert l L, C)" "site pc = (p, L, C) \<or> site pc = (q, {}, {}) \<and> L = {} \<and> C = {}"
    "site no = site pc"
  shows "moves a pc a' pc'"
  using assms by (auto simp: trylock_def set_lock_def upd_list_def moves_def owns_def raised_def split: if_splits)

lemma moves_unlock:
  assumes "site pc = (p, {l}, {})" "site pc' = (q, {}, {})"
  shows "moves a pc (set_lock l False p a) pc'"
  using assms by (auto simp: set_lock_def upd_list_def moves_def owns_def raised_def)

lemma moves_raise:
  assumes "site pc = (p, L, C)" "site pc' = (p, L, insert c C)" "c \<notin> C" "lock_of c \<in> L"
  shows "moves a pc (do_act (Add c 1) p a) pc'"
  using assms by (auto simp: upd_list_def moves_def owns_def raised_def)

lemma moves_lower:
  assumes "site pc = (p, L, insert c C)" "site pc' = (p, L, C)" "c \<notin> C"
  shows "moves a pc (do_act (Add c (-1)) p a) pc'"
  using assms by (auto simp: upd_list_def moves_def owns_def raised_def)

lemma moves_release:
  assumes "site pc = (p, insert l L, C)" "site pc' = (p, L, C) \<or> L = {} \<and> C = {} \<and> site pc' = (q, {}, {})" "l \<notin> L"
  shows "moves a pc (do_act (Unlock l) p a) pc'"
  using assms by (auto simp: set_lock_def upd_list_def moves_def owns_def raised_def)

text \<open>The assertions hold for a thread that finds the counters as it left them.\<close>

definition counters_seen :: "prio_task_array \<Rightarrow> prio_pc \<Rightarrow> bool" where
  "counters_seen a pc \<longleftrightarrow> (\<forall>p c. owns pc p (lock_of c) \<longrightarrow> dbg (plist a p) c = (if raised pc p c then 1 else 0))"

lemma both_lock: "c \<in> both n Nenq \<Longrightarrow> lock_of c \<in> both n Tail" "c \<in> both n Ndeq \<Longrightarrow> lock_of c \<in> both n Head"
  by (auto simp: both_def split: if_splits)

lemma both_1 [simp]: "both (Suc 0) x = {x}"
  by (simp add: both_def)

lemma acts_ok_1 [simp]: "raise_ok {Nenq} (insert_acq_acts (Suc 0))" "raise_ok {Ndeq} (remove_acq_acts (Suc 0))"
  by (simp_all add: insert_acq_acts_def remove_acq_acts_def)

lemma both_locks: "both 2 Tail = {Head, Tail}" "both 2 Head = {Tail, Head}"
  by (auto simp: both_def intro: lock_id.exhaust)

lemma acq_moves:
  assumes "acts \<noteq> []" "raise_ok D acts" "site pc = (p, L, D - {c. Add c 1 \<in> set acts})" "counters_seen a pc"
    "\<And>c. c \<in> D \<Longrightarrow> lock_of c \<in> L" "\<And>xs. site (k xs) = (p, L, D - {c. Add c 1 \<in> set xs})" "acts_step acts p a k = (a', pc')"
  shows "moves a pc a' pc' \<and> (\<exists>xs. pc' = k xs \<and> raise_ok D xs)"
proof -
  obtain x xs where acts: "acts = x # xs"
    using assms(1) by (cases acts) auto
  then obtain c where x: "x = Add c 1" "c \<in> D" "Add c 1 \<notin> set xs" "raise_ok D xs"
    using assms(2) by (cases x) auto
  have "owns pc p (lock_of c)" "\<not> raised pc p c"
    using assms(3,5) x acts by (auto simp: owns_def raised_def)
  then have "act_ok x (plist a p)"
    using assms(4) x(1) by (simp add: counters_seen_def)
  then have step: "a' = do_act (Add c 1) p a" "pc' = k xs"
    using assms(7) acts x(1) by (simp_all add: acts_step_def)
  have "D - {c. Add c 1 \<in> set xs} = insert c (D - {c. Add c 1 \<in> set acts})"
    using acts x by auto
  then have "moves a pc a' pc'"
    unfolding step using assms(3,5,6) acts x by (intro moves_raise [where C = "D - {c. Add c 1 \<in> set acts}"]) auto
  then show ?thesis
    using step(2) x(4) by blast
qed

lemma rel_moves:
  assumes "pc_ok (Rel acts p b r)" "counters_seen a (Rel acts p b r)" "prio_run a (Rel acts p b r) = (a', pc')"
  shows "moves a (Rel acts p b r) a' pc' \<and> pc_ok pc'"
proof -
  let ?k = "\<lambda>xs. if xs = [] then removed_task b p r else Rel xs p b r"
  obtain x xs where acts: "acts = x # xs" "rel_ok (x # xs)"
    using assms(1) by (cases acts) auto
  have k: "site (?k xs) = (p, {l. Unlock l \<in> set xs}, {c. Add c (-1) \<in> set xs}) \<or> xs = [] \<and> (\<exists>q. site (?k xs) = (q, {}, {}))" "pc_ok (?k xs)"
    using acts(2) by (cases x; auto simp: removed_task_def)+
  show ?thesis
  proof (cases x)
    case (Add c d)
    then have c: "d = -1" "Add c (-1) \<notin> set xs" "Unlock (lock_of c) \<in> set xs"
      using acts(2) by simp_all
    have "raised (Rel acts p b r) p c" "owns (Rel acts p b r) p (lock_of c)"
      using acts(1) Add c by (simp_all add: raised_def owns_def)
    then have "act_ok x (plist a p)"
      using assms(2) Add c(1) by (simp add: counters_seen_def)
    then have step: "a' = do_act (Add c (-1)) p a" "pc' = ?k xs" "xs \<noteq> []"
      using assms(3) acts(1) Add c by (auto simp: acts_step_def)
    have "moves a (Rel acts p b r) a' pc'"
      unfolding step(1) using k(1) step(2,3) acts(1) Add c by (intro moves_lower [where C = "{c. Add c (-1) \<in> set xs}" and L = "{l. Unlock l \<in> set xs}"]) auto
    then show ?thesis
      using k(2) step(2) by simp
  next
    case (Unlock l)
    then have step: "a' = do_act (Unlock l) p a" "pc' = ?k xs" "Unlock l \<notin> set xs"
      using assms(3) acts by (auto simp: acts_step_def)
    have "moves a (Rel acts p b r) a' pc'"
      unfolding step(1) using k(1) step(2,3) acts(1) Unlock
      by (elim disjE conjE exE; intro moves_release [where C = "{c. Add c (-1) \<in> set xs}" and L = "{l. Unlock l \<in> set xs}"]) auto
    then show ?thesis
      using k(2) step(2) by simp
  qed
qed

lemma run_moves:
  assumes "pc_ok pc" "counters_seen a pc" "active pc" "prio_run a pc = (a', pc')"
  shows "moves a pc a' pc' \<and> pc_ok pc'"
proof -
  note defs = same_locks_def upd_list_def bitmap_cas_def
  show ?thesis
  proof (cases pc)
    case (I_acq acts n t p)
    have "site (if xs = [] then I_rdhead n t p else I_acq xs n t p) = (p, both n Tail, both n Nenq - {c. Add c 1 \<in> set xs})" for xs
      by simp
    note st = acq_moves [of acts "both n Nenq" pc p "both n Tail" a, OF _ _ _ assms(2) both_lock(1) this]
    show ?thesis
      using st assms(1,4) I_acq by (fastforce split: if_splits)
  next
    case (R_acq acts n b p)
    have "site (if xs = [] then R_rdhead n b p else R_acq xs n b p) = (p, both n Head, both n Ndeq - {c. Add c 1 \<in> set xs})" for xs
      by simp
    note st = acq_moves [of acts "both n Ndeq" pc p "both n Head" a, OF _ _ _ assms(2) both_lock(2) this]
    show ?thesis
      using st assms(1,4) R_acq by (fastforce split: if_splits)
  next
    case (Rel acts p b r)
    then show ?thesis
      using rel_moves assms by simp
  next
    case (I_tail t p)
    then show ?thesis
      using assms(4) moves_trylock [of Tail p a "I_count t p" "I_tail t p" a' pc' "{}" "{}" pc 0] by (auto simp: trylock_def split: if_splits)
  next
    case (I_head t p)
    then show ?thesis
      using assms(4) moves_trylock [of Head p a "I_acq (insert_acq_acts 2) 2 t p" "I_back t p" a' pc' "{Tail}" "{}" pc 0]
      by (auto simp: trylock_def both_locks split: if_splits)
  next
    case (R_head b p)
    then show ?thesis
      using assms(4) moves_trylock [of Head p a "R_count b p" "R_head b p" a' pc' "{}" "{}" pc 0] by (auto simp: trylock_def split: if_splits)
  next
    case (R_tail b p)
    then show ?thesis
      using assms(4) moves_trylock [of Tail p a "R_acq (remove_acq_acts 2) 2 b p" "R_back b p" a' pc' "{Head}" "{}" pc 0]
      by (auto simp: trylock_def both_locks split: if_splits)
  next
    case (I_back t p)
    then show ?thesis
      using assms(4) moves_unlock [of pc p Tail pc' 0 a] by auto
  next
    case (R_back b p)
    then show ?thesis
      using assms(4) moves_unlock [of pc p Head pc' 0 a] by auto
  next
    case (H_scan k)
    then show ?thesis
      using assms(4) by (auto simp: scan_run_def defs intro!: moves_same split: nat.splits if_splits)
  qed (use assms in \<open>auto simp: defs active_def InsertTaskWithPriority_def intro!: moves_same split: if_splits\<close>)
qed

section \<open>The assertions hold in every execution\<close>

definition prio_inv :: "prio_sys \<Rightarrow> bool" where
  "prio_inv s \<longleftrightarrow> (\<forall>t. pc_ok (pcs s t)) \<and>
    (\<forall>p l. locked (plist (arr s) p) l = (\<exists>t. owns (pcs s t) p l)) \<and>
    (\<forall>p l t u. owns (pcs s t) p l \<longrightarrow> owns (pcs s u) p l \<longrightarrow> t = u) \<and>
    (\<forall>p c. dbg (plist (arr s) p) c = (if \<exists>t. raised (pcs s t) p c then 1 else 0))"

lemma inv_counters_seen:
  assumes "prio_inv s"
  shows "counters_seen (arr s) (pcs s t)"
proof -
  have "raised (pcs s u) p c \<Longrightarrow> owns (pcs s t) p (lock_of c) \<Longrightarrow> u = t" for u p c
    using assms raised_owns [of "pcs s u" p c] unfolding prio_inv_def by blast
  then show ?thesis
    using assms by (fastforce simp: counters_seen_def prio_inv_def)
qed

lemma moves_inv:
  assumes inv: "prio_inv s" and mv: "moves (arr s) (pcs s t) a' pc'" and ok: "pc_ok pc'"
  shows "prio_inv \<lparr>arr = a', pcs = (pcs s)(t := pc')\<rparr>"
proof -
  have own: "locked (plist (arr s) p) l = (\<exists>t. owns (pcs s t) p l)" "owns (pcs s t) p l \<Longrightarrow> owns (pcs s u) p l \<Longrightarrow> t = u" for p l t u
    using inv by (simp_all add: prio_inv_def)
  have cnt: "dbg (plist (arr s) p) c = (if \<exists>t. raised (pcs s t) p c then 1 else 0)" for p c
    using inv by (simp add: prio_inv_def)
  have excl: "raised (pcs s u) p c \<Longrightarrow> owns (pcs s t) p (lock_of c) \<Longrightarrow> u = t" for u p c
    using inv raised_owns [of "pcs s u" p c] unfolding prio_inv_def by blast
  have L: "locked (plist a' p) l = (\<exists>u. owns (((pcs s)(t := pc')) u) p l) \<and>
      (owns (((pcs s)(t := pc')) u) p l \<longrightarrow> owns (((pcs s)(t := pc')) v) p l \<longrightarrow> u = v)" for p l u v
  proof -
    consider (same) "locked (plist a' p) l = locked (plist (arr s) p) l" "owns pc' p l = owns (pcs s t) p l"
      | (acquired) "\<not> locked (plist (arr s) p) l" "locked (plist a' p) l" "owns pc' p l"
      | (released) "owns (pcs s t) p l" "\<not> locked (plist a' p) l" "\<not> owns pc' p l"
      using mv unfolding moves_def by blast
    then show ?thesis
    proof cases
      case same
      then have "owns (((pcs s)(t := pc')) u) p l = owns (pcs s u) p l" for u
        by simp
      then show ?thesis
        using same(1) own(1) [of p l] own(2) [where t = u and p = p and l = l and u = v] by simp
    next
      case acquired
      then show ?thesis
        using own(1) [of p l] by auto
    next
      case released
      then have "\<not> owns (((pcs s)(t := pc')) x) p l" for x
        using own(2) [where t = x and p = p and l = l and u = t] by (cases "x = t") auto
      then show ?thesis
        using released(2) by simp
    qed
  qed
  have C: "dbg (plist a' p) c = (if \<exists>u. raised (((pcs s)(t := pc')) u) p c then 1 else 0)" for p c
  proof -
    consider (same) "dbg (plist a' p) c = dbg (plist (arr s) p) c" "raised pc' p c = raised (pcs s t) p c"
      | (up) "owns (pcs s t) p (lock_of c)" "\<not> raised (pcs s t) p c" "raised pc' p c" "dbg (plist a' p) c = dbg (plist (arr s) p) c + 1"
      | (down) "raised (pcs s t) p c" "\<not> raised pc' p c" "dbg (plist a' p) c = dbg (plist (arr s) p) c - 1"
      using mv unfolding moves_def by blast
    then show ?thesis
    proof cases
      case same
      then have "raised (((pcs s)(t := pc')) x) p c = raised (pcs s x) p c" for x
        by simp
      then show ?thesis
        using same(1) cnt by simp
    next
      case up
      then have "\<not> raised (pcs s x) p c" for x
        using excl by blast
      then show ?thesis
        using up(3,4) cnt [of p c] by auto
    next
      case down
      then have "\<not> raised (((pcs s)(t := pc')) x) p c" for x
        using excl [of x p c] raised_owns [of "pcs s t" p c] inv by (cases "x = t") (auto simp: prio_inv_def)
      moreover have "\<exists>x. raised (pcs s x) p c"
        using down(1) by blast
      ultimately show ?thesis
        using down(3) cnt [of p c] by simp
    qed
  qed
  have "pc_ok (((pcs s)(t := pc')) x)" for x
    using ok inv by (simp add: prio_inv_def)
  then show ?thesis
    unfolding prio_inv_def prio_sys.select_convs using L C by blast
qed

lemma start_quiet: "moves a Idle a (prio_start a c) \<and> pc_ok (prio_start a c)"
  by (cases c) (auto simp: InsertTaskWithPriority_def RemoveTaskFromPriority_def RemoveHighestPriorityTask_def same_locks_def intro!: moves_same)

lemma step_active:
  assumes "active (pcs s t)"
  shows "prio_step s t c = (let (a, pc') = prio_run (arr s) (pcs s t) in \<lparr>arr = a, pcs = (pcs s)(t := pc')\<rparr>)"
  using assms unfolding prio_step_def active_def
  by (cases "pcs s t") (simp_all del: prio_run_simps)

lemma step_inv:
  assumes "prio_inv s"
  shows "prio_inv (prio_step s t c)"
proof (cases "active (pcs s t)")
  case True
  obtain a' pc' where r: "prio_run (arr s) (pcs s t) = (a', pc')" by fastforce
  have "prio_step s t c = \<lparr>arr = a', pcs = (pcs s)(t := pc')\<rparr>"
    using step_active [OF True] r by simp
  moreover have "moves (arr s) (pcs s t) a' pc' \<and> pc_ok pc'"
    using run_moves [OF _ inv_counters_seen [OF assms] True r] assms by (simp add: prio_inv_def)
  ultimately show ?thesis
    using moves_inv [OF assms] by simp
next
  case False
  have sys: "\<lparr>arr = arr s, pcs = f\<rparr> = s\<lparr>pcs := f\<rparr>" for f
    by simp
  have "prio_inv (s\<lparr>pcs := (pcs s)(t := prio_start (arr s) c)\<rparr>)" if "pcs s t = Idle"
    using moves_inv [OF assms, of t "arr s" "prio_start (arr s) c"] start_quiet [of "arr s" c] that by (simp add: sys)
  moreover have "prio_inv (s\<lparr>pcs := (pcs s)(t := Idle)\<rparr>)" if "pcs s t = Return r" for r
    using moves_inv [OF assms, of t "arr s" Idle] moves_same [of "arr s" "arr s" Idle "Return r"] that by (simp add: same_locks_def sys)
  ultimately show ?thesis
    using False assms by (cases "pcs s t") (auto simp: prio_step_def active_def)
qed

lemma exec_inv: "prio_inv s \<Longrightarrow> prio_inv (prio_exec s cs)"
  by (induction s cs rule: prio_exec.induct) (simp_all add: step_inv)

end
