(* ===== verification/Prio_Api.thy ===== *)
theory Prio_Api
  imports Prio_Queue
begin

text \<open>
  The priority queues as their clients see them: calls that do not overlap implement one first-in first-out queue per
  priority, and the search serves the highest priority first. The last section has overlapping calls after which a
  task is stranded.
\<close>

section \<open>A call that runs alone\<close>

partial_function (option) finish :: "prio_task_array \<Rightarrow> prio_pc \<Rightarrow> (ret \<times> prio_task_array) option" where
  "finish a pc =
    (if active pc then (let r = prio_run a pc in finish (fst r) (snd r))
     else (case pc of Return r \<Rightarrow> Some (r, a) | _ \<Rightarrow> None))"

lemma finish_Return [simp]: "finish a (Return r) = Some (r, a)"
  by (subst finish.simps) (simp add: active_def)

lemma finish_step:
  assumes "active pc"
  shows "finish a pc = finish (fst (prio_run a pc)) (snd (prio_run a pc))"
  using assms by (subst finish.simps) (simp add: Let_def)

lemma const_upd [simp]: "(\<lambda>_. c)(x := c) = (\<lambda>_. c)"
  by auto

abbreviation rest_list :: "nat \<Rightarrow> nat \<Rightarrow> int \<Rightarrow> int \<Rightarrow> task_list" where
  "rest_list h l ni k \<equiv> \<lparr>locked = (\<lambda>_. False), tl_head = h, tl_tail = l, dbg = (\<lambda>_. 0), nins = ni, tl_count = k\<rparr>"

lemmas solo = finish_step active_def trylock_def set_lock_def upd_list_def acts_step_def bitmap_cas_def insert_acq_acts_def
  insert_rel_acts_def remove_acq_acts_def remove_rel_acts_def removed_task_def

lemma insert_empty:
  assumes "plist a p = rest_list NIL l ni 0"
  shows "finish a (I_tail t p) = Some (RInt 0, a\<lparr>plist := (plist a)(p := rest_list t t ni 1),
    bitmap := (bitmap a)[GET_BYTE_NUM p := SET_BIT (bitmap a ! GET_BYTE_NUM p) (GET_BIT_NUM p)]\<rparr>)"
  using assms by (simp add: solo)

lemma insert_more:
  assumes "plist a p = rest_list h l ni k" "h \<noteq> NIL" "l \<noteq> NIL" "0 < k"
  shows "finish a (I_tail t p) = Some (RInt 0, a\<lparr>plist := (plist a)(p := rest_list h t ni (k + 1)),
    next_queue := (next_queue a)(l := t)\<rparr>)"
  using assms by (cases "k = 1") (simp_all add: solo)

lemma plist_same: "a\<lparr>plist := plist a\<rparr> = a"
  by simp

lemma remove_none:
  assumes "plist a p = rest_list NIL l ni 0"
  shows "finish a (R_head b p) = finish a (removed_task b p (RTask NIL))"
  using assms by (simp add: solo(1-11) fun_upd_idem plist_same)

lemma remove_one:
  assumes "plist a p = rest_list h l ni 1" "h \<noteq> NIL" "next_queue a h = NIL"
  shows "finish a (R_head b p) = Some (RTask h, a\<lparr>plist := (plist a)(p := rest_list NIL NIL ni 0), next_queue := (next_queue a)(h := NIL),
    bitmap := (bitmap a)[GET_BYTE_NUM p := RESET_BIT (bitmap a ! GET_BYTE_NUM p) (GET_BIT_NUM p)]\<rparr>)"
  using assms by (simp add: solo)

lemma remove_more:
  assumes "plist a p = rest_list h l ni k" "h \<noteq> NIL" "next_queue a h \<noteq> NIL" "1 < k"
  shows "finish a (R_head b p) = Some (RTask h, a\<lparr>plist := (plist a)(p := rest_list (next_queue a h) l ni (k - 1)), next_queue := (next_queue a)(h := NIL)\<rparr>)"
  using assms by (simp add: solo)

section \<open>Queues\<close>

text \<open>The tasks \<open>xs\<close> are linked through \<^verbatim>\<open>next_queue\<close>, starting from \<open>h\<close>.\<close>

fun chain :: "(nat \<Rightarrow> nat) \<Rightarrow> nat list \<Rightarrow> nat \<Rightarrow> bool" where
  "chain nq [] h = (h = NIL)"
| "chain nq (x # xs) h = (h = x \<and> x \<noteq> NIL \<and> chain nq xs (nq x))"

definition list_holds :: "prio_task_array \<Rightarrow> nat \<Rightarrow> nat list \<Rightarrow> bool" where
  "list_holds a p xs \<longleftrightarrow> (\<exists>h ni. plist a p = rest_list h (if xs = [] then NIL else last xs) ni (int (length xs)) \<and> chain (next_queue a) xs h) \<and>
     CHECK_BIT (bitmap a ! GET_BYTE_NUM p) (GET_BIT_NUM p) = (xs \<noteq> [])"

text \<open>The lists of tasks, one per priority, that the array holds when no call is under way.\<close>

definition queues :: "prio_task_array \<Rightarrow> (nat \<Rightarrow> nat list) \<Rightarrow> bool" where
  "queues a Q \<longleftrightarrow> num_priorities a > 0 \<and> length (bitmap a) = (num_priorities a - 1) div 8 + 1 \<and>
     (\<forall>p < num_priorities a. list_holds a p (Q p)) \<and> (\<forall>p \<ge> num_priorities a. Q p = []) \<and>
     (\<forall>p. distinct (Q p)) \<and> (\<forall>p q. p \<noteq> q \<longrightarrow> set (Q p) \<inter> set (Q q) = {}) \<and>
     (\<forall>x. (\<forall>p. x \<notin> set (Q p)) \<longrightarrow> next_queue a x = NIL)"

lemma chain_other: "t \<notin> set xs \<Longrightarrow> chain (nq(t := v)) xs h = chain nq xs h"
  by (induction xs arbitrary: h) auto

lemma chain_snoc:
  assumes "chain nq xs h" "xs \<noteq> []" "distinct xs" "t \<notin> set xs" "t \<noteq> NIL" "nq t = NIL"
  shows "chain (nq(last xs := t)) (xs @ [t]) h"
  using assms
proof (induction xs arbitrary: h)
  case (Cons x xs)
  show ?case
  proof (cases "xs = []")
    case True
    then show ?thesis using Cons.prems by auto
  next
    case False
    then have "x \<noteq> last xs"
      using Cons.prems(3) by auto
    then show ?thesis
      using Cons.IH [of "nq x"] Cons.prems False by auto
  qed
qed simp

lemma chain_last: "chain nq xs h \<Longrightarrow> xs \<noteq> [] \<Longrightarrow> h \<noteq> NIL \<and> last xs \<noteq> NIL"
  by (induction xs arbitrary: h) auto

section \<open>Bits\<close>

lemma check_set: "i < 8 \<Longrightarrow> j < 8 \<Longrightarrow> CHECK_BIT (SET_BIT b i) j = (j = i \<or> CHECK_BIT b j)"
  "i < 8 \<Longrightarrow> j < 8 \<Longrightarrow> CHECK_BIT (RESET_BIT b i) j = (j \<noteq> i \<and> CHECK_BIT b j)"
proof -
  have chk: "CHECK_BIT w j = bit w j" if "j < 8" for w j
    using that by (simp add: CHECK_BIT_def and_exp_eq_0_iff_not_bit push_bit_of_1)
  show "i < 8 \<Longrightarrow> j < 8 \<Longrightarrow> CHECK_BIT (SET_BIT b i) j = (j = i \<or> CHECK_BIT b j)"
    "i < 8 \<Longrightarrow> j < 8 \<Longrightarrow> CHECK_BIT (RESET_BIT b i) j = (j \<noteq> i \<and> CHECK_BIT b j)"
    by (auto simp: chk SET_BIT_def RESET_BIT_def bit_simps)
qed

lemma pos_eq: "GET_BYTE_NUM p = GET_BYTE_NUM q \<Longrightarrow> GET_BIT_NUM p = GET_BIT_NUM q \<Longrightarrow> p = q"
  unfolding GET_BYTE_NUM_def GET_BIT_NUM_def by (metis div_mult_mod_eq)

lemma bit_less [simp]: "GET_BIT_NUM p < 8"
  by (simp add: GET_BIT_NUM_def)

lemma byte_in_range: "queues a Q \<Longrightarrow> p < num_priorities a \<Longrightarrow> GET_BYTE_NUM p < length (bitmap a)"
  by (auto simp: queues_def GET_BYTE_NUM_def less_Suc_eq_le intro: div_le_mono)

text \<open>The bit of one priority set or reset, seen from another one.\<close>

lemma bits_upd:
  assumes "GET_BYTE_NUM p < length bm"
  shows "CHECK_BIT (bm[GET_BYTE_NUM p := SET_BIT (bm ! GET_BYTE_NUM p) (GET_BIT_NUM p)] ! GET_BYTE_NUM q) (GET_BIT_NUM q) =
      (q = p \<or> CHECK_BIT (bm ! GET_BYTE_NUM q) (GET_BIT_NUM q))"
    "CHECK_BIT (bm[GET_BYTE_NUM p := RESET_BIT (bm ! GET_BYTE_NUM p) (GET_BIT_NUM p)] ! GET_BYTE_NUM q) (GET_BIT_NUM q) =
      (q \<noteq> p \<and> CHECK_BIT (bm ! GET_BYTE_NUM q) (GET_BIT_NUM q))"
proof -
  have same: "GET_BIT_NUM q = GET_BIT_NUM p \<longleftrightarrow> q = p" if "GET_BYTE_NUM q = GET_BYTE_NUM p"
    using that pos_eq [of q p] by metis
  show "CHECK_BIT (bm[GET_BYTE_NUM p := SET_BIT (bm ! GET_BYTE_NUM p) (GET_BIT_NUM p)] ! GET_BYTE_NUM q) (GET_BIT_NUM q) =
      (q = p \<or> CHECK_BIT (bm ! GET_BYTE_NUM q) (GET_BIT_NUM q))"
    "CHECK_BIT (bm[GET_BYTE_NUM p := RESET_BIT (bm ! GET_BYTE_NUM p) (GET_BIT_NUM p)] ! GET_BYTE_NUM q) (GET_BIT_NUM q) =
      (q \<noteq> p \<and> CHECK_BIT (bm ! GET_BYTE_NUM q) (GET_BIT_NUM q))"
    using assms same by (cases "GET_BYTE_NUM q = GET_BYTE_NUM p"; cases "q = p"; simp add: check_set)+
qed

section \<open>Insertion\<close>

text \<open>Another list does not see that the last task of this one gets a successor.\<close>

lemma list_holds_frame:
  assumes "list_holds a q xs" "plist a' q = plist a q" "\<And>x. x \<in> set xs \<Longrightarrow> next_queue a' x = next_queue a x"
    "CHECK_BIT (bitmap a' ! GET_BYTE_NUM q) (GET_BIT_NUM q) = CHECK_BIT (bitmap a ! GET_BYTE_NUM q) (GET_BIT_NUM q)"
  shows "list_holds a' q xs"
proof -
  have "chain (next_queue a') xs h = chain (next_queue a) xs h" for h
    using assms(3) by (induction xs arbitrary: h) auto
  then show ?thesis
    using assms(1,2,4) by (simp add: list_holds_def)
qed

text \<open>An operation on one list keeps the others.\<close>

lemma queues_upd:
  assumes qs: "queues a Q" and p: "p < num_priorities a" and here: "list_holds a' p xs"
    and fixed: "num_priorities a' = num_priorities a" "length (bitmap a') = length (bitmap a)"
    and lists: "\<And>q. q \<noteq> p \<Longrightarrow> plist a' q = plist a q"
    and bits: "\<And>q. q \<noteq> p \<Longrightarrow> CHECK_BIT (bitmap a' ! GET_BYTE_NUM q) (GET_BIT_NUM q) = CHECK_BIT (bitmap a ! GET_BYTE_NUM q) (GET_BIT_NUM q)"
    and links: "\<And>q x. q \<noteq> p \<Longrightarrow> x \<in> set (Q q) \<Longrightarrow> next_queue a' x = next_queue a x"
    and xs: "distinct xs" "\<And>q. q \<noteq> p \<Longrightarrow> set (Q q) \<inter> set xs = {}"
    and out: "\<And>x. \<forall>q. x \<notin> set ((Q(p := xs)) q) \<Longrightarrow> next_queue a' x = NIL"
  shows "queues a' (Q(p := xs))"
proof -
  have "list_holds a' q (Q q)" if "q < num_priorities a" "q \<noteq> p" for q
    using qs that list_holds_frame [of a q "Q q" a'] lists bits links by (simp add: queues_def)
  moreover have "distinct ((Q(p := xs)) q)" for q
    using qs xs(1) by (simp add: queues_def)
  moreover have "set ((Q(p := xs)) q) \<inter> set ((Q(p := xs)) r) = {}" if "q \<noteq> r" for q r
    using qs xs(2) [of q] xs(2) [of r] that by (auto simp: queues_def)
  ultimately show ?thesis
    using here qs p fixed out unfolding queues_def by simp
qed

lemma insert_queues:
  assumes qs: "queues a Q" and p: "p < num_priorities a" and t: "t \<noteq> NIL" "\<forall>q. t \<notin> set (Q q)"
  shows "\<exists>a'. finish a (I_tail t p) = Some (RInt 0, a') \<and> queues a' (Q(p := Q p @ [t])) \<and> num_priorities a' = num_priorities a \<and>
    priority a' = priority a"
proof -
  have tn: "next_queue a t = NIL"
    using qs t(2) by (simp add: queues_def)
  have lh: "list_holds a q (Q q)" if "q < num_priorities a" for q
    using qs that by (simp add: queues_def)
  obtain h ni where l: "plist a p = rest_list h (if Q p = [] then NIL else last (Q p)) ni (int (length (Q p)))" "chain (next_queue a) (Q p) h"
    using lh [OF p] by (auto simp: list_holds_def)
  have dist: "distinct (Q p)" "\<And>q. q \<noteq> p \<Longrightarrow> set (Q q) \<inter> set (Q p) = {}"
    using qs by (auto simp: queues_def)
  define a' where "a' = (if Q p = [] then a\<lparr>plist := (plist a)(p := rest_list t t ni 1),
      bitmap := (bitmap a)[GET_BYTE_NUM p := SET_BIT (bitmap a ! GET_BYTE_NUM p) (GET_BIT_NUM p)]\<rparr>
    else a\<lparr>plist := (plist a)(p := rest_list h t ni (int (length (Q p)) + 1)), next_queue := (next_queue a)(last (Q p) := t)\<rparr>)"
  have run: "finish a (I_tail t p) = Some (RInt 0, a')"
  proof (cases "Q p = []")
    case True
    then show ?thesis
      using insert_empty [of a p NIL ni] l by (simp add: a'_def)
  next
    case False
    then show ?thesis
      using insert_more [of a p h "last (Q p)" ni "int (length (Q p))"] l chain_last [OF l(2)] by (simp add: a'_def)
  qed
  have here: "list_holds a' p (Q p @ [t])"
  proof (cases "Q p = []")
    case True
    then show ?thesis
      using t tn byte_in_range [OF qs p] by (auto simp: list_holds_def a'_def check_set)
  next
    case False
    then show ?thesis
      using chain_snoc [OF l(2) False dist(1)] t tn lh [OF p] by (auto simp: list_holds_def a'_def)
  qed
  have "next_queue a' x = NIL" if "\<forall>q. x \<notin> set ((Q(p := Q p @ [t])) q)" for x
  proof -
    have out: "x \<notin> set (Q q)" for q
      using that [rule_format, of q] by (cases "q = p") auto
    then have "next_queue a x = NIL"
      using qs by (simp add: queues_def)
    moreover have "x \<noteq> last (Q p)" if "Q p \<noteq> []"
      using out [of p] last_in_set [OF that] by metis
    ultimately show ?thesis by (simp add: a'_def)
  qed
  moreover have "next_queue a' x = next_queue a x" if "q \<noteq> p" "x \<in> set (Q q)" for q x
    using dist(2) [OF that(1)] that(2) last_in_set [of "Q p"] by (auto simp: a'_def)
  moreover have "set (Q q) \<inter> set (Q p @ [t]) = {}" if "q \<noteq> p" for q
    using dist(2) [OF that] t(2) by auto
  ultimately have "queues a' (Q(p := Q p @ [t]))"
    using dist t(2) byte_in_range [OF qs p] by (intro queues_upd [OF qs p here]) (simp_all add: a'_def bits_upd)
  then show ?thesis
    using run by (simp add: a'_def)
qed

section \<open>Removal\<close>

lemma remove_queues:
  assumes qs: "queues a Q" and p: "p < num_priorities a" and Q: "Q p = x # xs"
  shows "\<exists>a'. finish a (R_head b p) = Some (RTask x, a') \<and> queues a' (Q(p := xs)) \<and> num_priorities a' = num_priorities a \<and>
    priority a' = priority a"
proof -
  have lh: "list_holds a q (Q q)" if "q < num_priorities a" for q
    using qs that by (simp add: queues_def)
  obtain ni where l: "plist a p = rest_list x (last (x # xs)) ni (1 + int (length xs))" "x \<noteq> NIL" "chain (next_queue a) xs (next_queue a x)"
    using lh [OF p] by (auto simp: list_holds_def Q)
  have dist: "x \<notin> set xs" "distinct xs" "\<And>q. q \<noteq> p \<Longrightarrow> set (Q q) \<inter> insert x (set xs) = {}"
  proof -
    have "distinct (Q p)" and disj: "\<And>q. q \<noteq> p \<Longrightarrow> set (Q q) \<inter> set (Q p) = {}"
      using qs by (simp_all add: queues_def)
    then show "x \<notin> set xs" "distinct xs" "\<And>q. q \<noteq> p \<Longrightarrow> set (Q q) \<inter> insert x (set xs) = {}"
      by (simp_all add: Q)
  qed
  define a' where "a' = (if xs = [] then a\<lparr>plist := (plist a)(p := rest_list NIL NIL ni 0), next_queue := (next_queue a)(x := NIL),
      bitmap := (bitmap a)[GET_BYTE_NUM p := RESET_BIT (bitmap a ! GET_BYTE_NUM p) (GET_BIT_NUM p)]\<rparr>
    else a\<lparr>plist := (plist a)(p := rest_list (next_queue a x) (last xs) ni (int (length xs))), next_queue := (next_queue a)(x := NIL)\<rparr>)"
  have run: "finish a (R_head b p) = Some (RTask x, a')"
  proof (cases "xs = []")
    case True
    then show ?thesis
      using remove_one [of a p x x ni b] l by (simp add: a'_def)
  next
    case False
    then show ?thesis
      using remove_more [of a p x "last xs" ni "1 + int (length xs)" b] l chain_last [OF l(3)] by (simp add: a'_def)
  qed
  have here: "list_holds a' p xs"
  proof (cases "xs = []")
    case True
    then show ?thesis
      using byte_in_range [OF qs p] by (simp add: list_holds_def a'_def check_set)
  next
    case False
    then show ?thesis
      using l(3) dist(1) lh [OF p] by (simp add: list_holds_def a'_def chain_other Q)
  qed
  have "next_queue a' y = NIL" if "\<forall>q. y \<notin> set ((Q(p := xs)) q)" for y
  proof (cases "y = x")
    case False
    have "y \<notin> set (Q q)" for q
      using that [rule_format, of q] False Q by (cases "q = p") auto
    then have "next_queue a y = NIL"
      using qs by (simp add: queues_def)
    then show ?thesis
      using False by (simp add: a'_def)
  qed (simp add: a'_def)
  moreover have "next_queue a' y = next_queue a y" if "q \<noteq> p" "y \<in> set (Q q)" for q y
    using dist(3) [OF that(1)] that(2) by (auto simp: a'_def)
  moreover have "set (Q q) \<inter> set xs = {}" if "q \<noteq> p" for q
    using dist(3) [OF that] by auto
  ultimately have "queues a' (Q(p := xs))"
    using dist byte_in_range [OF qs p] by (intro queues_upd [OF qs p here]) (simp_all add: a'_def bits_upd)
  then show ?thesis
    using run by (simp add: a'_def)
qed

lemma remove_empty:
  assumes "queues a Q" "p < num_priorities a" "Q p = []"
  shows "finish a (R_head b p) = finish a (removed_task b p (RTask NIL))"
proof -
  obtain ni where "plist a p = rest_list NIL NIL ni 0"
    using assms by (auto simp: queues_def list_holds_def)
  then show ?thesis
    by (rule remove_none)
qed

text \<open>The highest priority below \<open>k\<close> that has a task.\<close>

fun highest :: "(nat \<Rightarrow> nat list) \<Rightarrow> nat \<Rightarrow> nat option" where
  "highest Q 0 = None"
| "highest Q (Suc p) = (if Q p \<noteq> [] then Some p else highest Q p)"

lemma scan_queues:
  assumes "queues a Q"
  shows "finish a (H_scan k) = (case highest Q k of None \<Rightarrow> Some (RTask NIL, a) | Some p \<Rightarrow> finish a (R_head True p))"
proof (induction k)
  case 0
  then show ?case
    by (simp add: finish_step [of "H_scan 0"] active_def scan_run_def)
next
  case (Suc p)
  have "(CHECK_BIT (bitmap a ! GET_BYTE_NUM p) (GET_BIT_NUM p) \<and> p < num_priorities a) = (Q p \<noteq> [])"
  proof (cases "p < num_priorities a")
    case True
    then have "list_holds a p (Q p)"
      using assms by (simp add: queues_def)
    then show ?thesis
      using True by (simp add: list_holds_def)
  next
    case False
    then have "Q p = []"
      using assms by (simp add: queues_def)
    then show ?thesis
      using False by simp
  qed
  then show ?case
    using Suc by (simp add: finish_step [of "H_scan (Suc p)"] active_def scan_run_def)
qed

lemma highest_some: "highest Q k = Some p \<Longrightarrow> Q p \<noteq> [] \<and> p < k"
  by (induction k) (auto split: if_splits)

lemma highest_none: "highest Q k = None \<longleftrightarrow> (\<forall>p < k. Q p = [])"
  by (induction k) (auto simp: less_Suc_eq)

lemma highest_above: "highest Q k = Some p \<Longrightarrow> p < q \<Longrightarrow> q < k \<Longrightarrow> Q q = []"
  by (induction k) (auto simp: less_Suc_eq split: if_splits)

section \<open>Sequences of calls\<close>

text \<open>
  The queues with priorities that the array stands for. A task that is already queued may not be inserted again:
  \<^verbatim>\<open>next_queue\<close> is a field of the task.
\<close>

record task_queues =
  levels :: nat
  queue :: "nat \<Rightarrow> nat list"
  prio_of :: "nat \<Rightarrow> int"

definition spec_remove :: "nat \<Rightarrow> task_queues \<Rightarrow> ret \<times> task_queues" where
  "spec_remove p S = (case queue S p of [] \<Rightarrow> (RTask NIL, S) | x # xs \<Rightarrow> (RTask x, S\<lparr>queue := (queue S)(p := xs)\<rparr>))"

definition spec_insert :: "nat \<Rightarrow> int \<Rightarrow> task_queues \<Rightarrow> ret \<times> task_queues" where
  "spec_insert t p S =
    (if t = NIL \<or> p < 0 \<or> p \<ge> int (levels S) then (RInt (-1), S)
     else (RInt 0, S\<lparr>queue := (queue S)(nat p := queue S (nat p) @ [t])\<rparr>))"

fun spec_op :: "prio_op \<Rightarrow> task_queues \<Rightarrow> ret \<times> task_queues" where
  "spec_op (InsertOp t) S = spec_insert t (prio_of S t) S"
| "spec_op (InsertAtOp t p) S = spec_insert t p S"
| "spec_op (RemoveOp p) S = (if p < 0 \<or> p \<ge> int (levels S) then (RTask NIL, S) else spec_remove (nat p) S)"
| "spec_op RemoveHighestOp S = (case highest (queue S) (levels S) of None \<Rightarrow> (RTask NIL, S) | Some p \<Rightarrow> spec_remove p S)"

definition not_queued :: "nat \<Rightarrow> task_queues \<Rightarrow> bool" where
  "not_queued t S \<longleftrightarrow> (\<forall>p < levels S. t \<notin> set (queue S p))"

fun allowed :: "prio_op \<Rightarrow> task_queues \<Rightarrow> bool" where
  "allowed (InsertOp t) S = (t \<noteq> NIL \<and> 0 \<le> prio_of S t \<and> prio_of S t < int (levels S) \<and> not_queued t S)"
| "allowed (InsertAtOp t p) S = not_queued t S"
| "allowed _ S = True"

definition pta_holds :: "prio_task_array \<Rightarrow> task_queues \<Rightarrow> bool" where
  "pta_holds a S \<longleftrightarrow> queues a (queue S) \<and> num_priorities a = levels S \<and> priority a = prio_of S"

definition prio_call :: "prio_task_array \<Rightarrow> prio_op \<Rightarrow> (ret \<times> prio_task_array) option" where
  "prio_call a c = finish a (prio_start a c)"

text \<open>A call on the array does what the queues do.\<close>

definition agrees :: "(ret \<times> prio_task_array) option \<Rightarrow> ret \<times> task_queues \<Rightarrow> bool" where
  "agrees r s \<longleftrightarrow> (\<exists>a. r = Some (fst s, a) \<and> pta_holds a (snd s))"

lemma not_queued_all: "pta_holds a S \<Longrightarrow> not_queued t S \<Longrightarrow> t \<notin> set (queue S p)"
  by (cases "p < levels S") (auto simp: not_queued_def pta_holds_def queues_def)

lemma insert_agrees:
  assumes "pta_holds a S" "not_queued t S"
  shows "agrees (finish a (InsertTaskWithPriority a t p)) (spec_insert t p S)"
proof (cases "t = NIL \<or> p < 0 \<or> p \<ge> int (levels S)")
  case True
  then show ?thesis
    using assms by (auto simp: agrees_def spec_insert_def InsertTaskWithPriority_def pta_holds_def)
next
  case False
  then have "nat p < num_priorities a" "t \<noteq> NIL" "\<forall>q. t \<notin> set (queue S q)"
    using assms not_queued_all [OF assms] by (auto simp: pta_holds_def)
  then obtain a' where "finish a (I_tail t (nat p)) = Some (RInt 0, a')" "queues a' ((queue S)(nat p := queue S (nat p) @ [t]))"
    "num_priorities a' = num_priorities a" "priority a' = priority a"
    using insert_queues [of a "queue S" "nat p" t] assms(1) by (auto simp: pta_holds_def)
  then show ?thesis
    using False assms(1) by (auto simp: agrees_def spec_insert_def InsertTaskWithPriority_def pta_holds_def)
qed

lemma remove_agrees:
  assumes "pta_holds a S" "p < levels S" "b \<longrightarrow> queue S p \<noteq> []"
  shows "agrees (finish a (R_head b p)) (spec_remove p S)"
proof (cases "queue S p")
  case Nil
  then show ?thesis
    using assms remove_empty [of a "queue S" p b] by (simp add: agrees_def spec_remove_def pta_holds_def removed_task_def)
next
  case (Cons x xs)
  then obtain a' where "finish a (R_head b p) = Some (RTask x, a')" "queues a' ((queue S)(p := xs))"
    "num_priorities a' = num_priorities a" "priority a' = priority a"
    using assms remove_queues [of a "queue S" p x xs b] by (auto simp: pta_holds_def)
  then show ?thesis
    using Cons assms(1) by (simp add: agrees_def spec_remove_def pta_holds_def)
qed

text \<open>Counting insertions in \<^verbatim>\<open>nins\<close> is not visible in the queues.\<close>

lemma nins_queues:
  assumes "queues a Q"
  shows "queues (upd_list p (nins_update f) a) Q"
proof -
  have "list_holds (upd_list p (nins_update f) a) q xs" if "list_holds a q xs" for q xs
    using that by (cases "q = p") (auto simp: list_holds_def upd_list_def)
  then show ?thesis
    using assms by (simp add: queues_def upd_list_def)
qed

text \<open>The positions above the last priority are not in use.\<close>

lemma highest_ext:
  assumes "\<forall>p \<ge> n. Q p = []" "n \<le> k"
  shows "highest Q k = highest Q n"
  using assms(2) by (induction k rule: dec_induct) (use assms(1) in auto)

lemma call_agrees:
  assumes "pta_holds a S" "allowed c S"
  shows "agrees (prio_call a c) (spec_op c S)"
proof (cases c)
  case (InsertOp t)
  let ?a = "upd_list (nat (prio_of S t)) (nins_update (\<lambda>x. x + 1)) a"
  have "pta_holds ?a S"
    using assms(1) nins_queues by (simp add: pta_holds_def upd_list_def)
  moreover have "prio_call a c = finish ?a (InsertTaskWithPriority ?a t (prio_of S t))"
    using assms InsertOp by (simp add: prio_call_def finish_step [of "I_nins t"] active_def pta_holds_def InsertTaskWithPriority_def upd_list_def)
  ultimately show ?thesis
    using assms(2) InsertOp insert_agrees by simp
next
  case (InsertAtOp t p)
  then show ?thesis
    using assms insert_agrees by (simp add: prio_call_def)
next
  case (RemoveOp p)
  then show ?thesis
    using assms remove_agrees [of a S "nat p" False]
    by (auto simp: prio_call_def RemoveTaskFromPriority_def pta_holds_def agrees_def)
next
  case RemoveHighestOp
  have qs: "queues a (queue S)" and n: "num_priorities a = levels S"
    using assms(1) by (simp_all add: pta_holds_def)
  have "length (bitmap a) = (levels S - 1) div 8 + 1" and above: "\<forall>p \<ge> levels S. queue S p = []"
    using qs n by (simp_all add: queues_def)
  then have "levels S \<le> 8 * length (bitmap a)"
    by presburger
  then have h: "highest (queue S) (8 * length (bitmap a)) = highest (queue S) (levels S)"
    by (rule highest_ext [OF above])
  show ?thesis
  proof (cases "highest (queue S) (levels S)")
    case None
    then show ?thesis
      using RemoveHighestOp assms(1) scan_queues [OF qs] h by (simp add: prio_call_def RemoveHighestPriorityTask_def agrees_def)
  next
    case (Some p)
    then show ?thesis
      using RemoveHighestOp assms(1) scan_queues [OF qs] h remove_agrees [of a S p True] highest_some [OF Some]
      by (simp add: prio_call_def RemoveHighestPriorityTask_def)
  qed
qed

fun calls :: "('a \<Rightarrow> prio_op \<Rightarrow> (ret \<times> 'a) option) \<Rightarrow> 'a \<Rightarrow> prio_op list \<Rightarrow> (ret list \<times> 'a) option" where
  "calls f a [] = Some ([], a)"
| "calls f a (c # cs) = (case f a c of None \<Rightarrow> None
     | Some (r, a') \<Rightarrow> (case calls f a' cs of None \<Rightarrow> None | Some (rs, b) \<Rightarrow> Some (r # rs, b)))"

fun spec_ops :: "prio_op list \<Rightarrow> task_queues \<Rightarrow> ret list \<times> task_queues" where
  "spec_ops [] S = ([], S)"
| "spec_ops (c # cs) S = (case spec_op c S of (r, S') \<Rightarrow> case spec_ops cs S' of (rs, T) \<Rightarrow> (r # rs, T))"

fun all_allowed :: "prio_op list \<Rightarrow> task_queues \<Rightarrow> bool" where
  "all_allowed [] S = True"
| "all_allowed (c # cs) S = (allowed c S \<and> all_allowed cs (snd (spec_op c S)))"

lemma all_allowed_append: "all_allowed (cs @ ds) S = (all_allowed cs S \<and> all_allowed ds (snd (spec_ops cs S)))"
  by (induction cs S rule: all_allowed.induct) (simp_all split: prod.splits)

lemma spec_ops_append: "spec_ops (cs @ ds) S = (case spec_ops cs S of (rs, T) \<Rightarrow> case spec_ops ds T of (us, U) \<Rightarrow> (rs @ us, U))"
  by (induction cs S rule: spec_ops.induct) (simp_all split: prod.splits)

text \<open>The tasks in the order in which they are served.\<close>

definition in_order :: "(nat \<Rightarrow> nat list) \<Rightarrow> nat \<Rightarrow> nat list" where
  "in_order Q n = concat (map Q (rev [0..<n]))"

lemma in_order_simps [simp]: "in_order Q 0 = []" "in_order Q (Suc n) = Q n @ in_order Q n"
  by (simp_all add: in_order_def)

lemma in_order_other: "n \<le> p \<Longrightarrow> in_order (Q(p := xs)) n = in_order Q n"
  by (induction n) simp_all

lemma in_order_highest:
  assumes "highest Q n = Some p" "Q p = x # xs"
  shows "in_order Q n = x # in_order (Q(p := xs)) n"
  using assms by (induction n) (auto simp: in_order_other dest: highest_some split: if_splits)

lemma in_order_none: "highest Q n = None \<Longrightarrow> in_order Q n = []"
  by (induction n) (auto split: if_splits)

lemma serve_spec:
  assumes "in_order (queue S) (levels S) = x # xs"
  shows "fst (spec_op RemoveHighestOp S) = RTask x" "in_order (queue (snd (spec_op RemoveHighestOp S))) (levels S) = xs"
    "levels (snd (spec_op RemoveHighestOp S)) = levels S"
proof -
  obtain p where p: "highest (queue S) (levels S) = Some p"
    using assms in_order_none by (cases "highest (queue S) (levels S)") fastforce+
  obtain y ys where q: "queue S p = y # ys"
    using highest_some [OF p] by (cases "queue S p") auto
  then show "fst (spec_op RemoveHighestOp S) = RTask x" "in_order (queue (snd (spec_op RemoveHighestOp S))) (levels S) = xs"
    "levels (snd (spec_op RemoveHighestOp S)) = levels S"
    using in_order_highest [OF p q] assms p by (simp_all add: spec_remove_def)
qed

lemma serve_all_spec:
  "fst (spec_ops (replicate (length (in_order (queue S) (levels S))) RemoveHighestOp) S) = map RTask (in_order (queue S) (levels S))"
proof (induction "in_order (queue S) (levels S)" arbitrary: S)
  case (Cons x xs)
  then show ?case
    using serve_spec [OF Cons.hyps(2) [symmetric]] Cons.hyps(2) [symmetric] Cons.hyps(1) [of "snd (spec_op RemoveHighestOp S)"]
    by (simp add: case_prod_beta)
qed simp

text \<open>Tasks that carry their priority go to the end of its queue.\<close>

definition valid_tasks :: "nat list \<Rightarrow> task_queues \<Rightarrow> bool" where
  "valid_tasks ts S \<longleftrightarrow> distinct ts \<and> (\<forall>t \<in> set ts. t \<noteq> NIL \<and> 0 \<le> prio_of S t \<and> prio_of S t < int (levels S) \<and> not_queued t S)"

lemma insert_all_spec:
  assumes "valid_tasks ts S"
  shows "spec_ops (map InsertOp ts) S =
      (replicate (length ts) (RInt 0), S\<lparr>queue := \<lambda>p. queue S p @ filter (\<lambda>t. prio_of S t = int p) ts\<rparr>)"
    and "all_allowed (map InsertOp ts) S"
proof (atomize (full), use assms in \<open>induction ts arbitrary: S\<close>)
  case (Cons t ts)
  let ?S = "S\<lparr>queue := (queue S)(nat (prio_of S t) := queue S (nat (prio_of S t)) @ [t])\<rparr>"
  have t: "t \<noteq> NIL" "0 \<le> prio_of S t" "prio_of S t < int (levels S)" "not_queued t S"
    using Cons.prems by (simp_all add: valid_tasks_def)
  have "spec_op (InsertOp t) S = (RInt 0, ?S)"
    using t by (simp add: spec_insert_def)
  moreover have "valid_tasks ts ?S"
    using Cons.prems by (auto simp: valid_tasks_def not_queued_def)
  moreover have "(\<lambda>p. queue ?S p @ filter (\<lambda>u. prio_of S u = int p) ts) = (\<lambda>p. queue S p @ filter (\<lambda>u. prio_of S u = int p) (t # ts))"
    using t(2) by (auto simp: fun_eq_iff)
  ultimately show ?case
    using Cons.IH [of ?S] t by simp
qed simp

lemma all_removals_allowed: "all_allowed (replicate n RemoveHighestOp) S"
  by (induction n arbitrary: S) simp_all

text \<open>What a client may rely on: every allowed call returns, with the result of the queues.\<close>

locale task_scheduler =
  fixes exec :: "'a \<Rightarrow> prio_op \<Rightarrow> (ret \<times> 'a) option" and rep :: "'a \<Rightarrow> task_queues \<Rightarrow> bool"
  assumes call: "rep a S \<Longrightarrow> allowed c S \<Longrightarrow> \<exists>a'. exec a c = Some (fst (spec_op c S), a') \<and> rep a' (snd (spec_op c S))"
begin

lemma calls_spec:
  assumes "rep a S" "all_allowed cs S"
  shows "\<exists>a'. calls exec a cs = Some (fst (spec_ops cs S), a') \<and> rep a' (snd (spec_ops cs S))"
  using assms
proof (induction cs arbitrary: a S)
  case (Cons c cs)
  obtain a' where a': "exec a c = Some (fst (spec_op c S), a')" "rep a' (snd (spec_op c S))"
    using call Cons.prems by force
  then obtain b where "calls exec a' cs = Some (fst (spec_ops cs (snd (spec_op c S))), b)" "rep b (snd (spec_ops cs (snd (spec_op c S))))"
    using Cons.IH Cons.prems(2) by force
  then show ?case
    using a' by (simp add: case_prod_beta)
qed simp

text \<open>Tasks given to an empty scheduler come back by decreasing priority, and in their order within a priority.\<close>

lemma drained:
  assumes "rep a S" "queue S = (\<lambda>_. [])" "valid_tasks ts S"
  shows "\<exists>a'. calls exec a (map InsertOp ts @ replicate (length ts) RemoveHighestOp) =
    Some (replicate (length ts) (RInt 0) @ map RTask (in_order (\<lambda>p. filter (\<lambda>t. prio_of S t = int p) ts) (levels S)), a')"
proof -
  let ?Q = "\<lambda>p. filter (\<lambda>t. prio_of S t = int p) ts"
  let ?T = "S\<lparr>queue := ?Q\<rparr>"
  have ins: "spec_ops (map InsertOp ts) S = (replicate (length ts) (RInt 0), ?T)" "all_allowed (map InsertOp ts) S"
    using insert_all_spec [OF assms(3)] by (simp_all add: assms(2))
  have "length (in_order ?Q n) = length (filter (\<lambda>t. prio_of S t < int n) ts)" if "\<forall>t \<in> set ts. 0 \<le> prio_of S t" for n
  proof (induction n)
    case 0
    then show ?case using that by (auto simp: filter_empty_conv)
  next
    case (Suc n)
    have "length (filter (\<lambda>t. prio_of S t < int (Suc n)) us) = length (filter (\<lambda>t. prio_of S t = int n) us) + length (filter (\<lambda>t. prio_of S t < int n) us)" for us
      by (induction us) auto
    then show ?case using Suc by simp
  qed
  then have len: "length (in_order (queue ?T) (levels ?T)) = length ts"
    using assms(3) by (simp add: valid_tasks_def)
  let ?cs = "map InsertOp ts @ replicate (length ts) RemoveHighestOp"
  have "all_allowed ?cs S"
    using ins by (simp add: all_allowed_append all_removals_allowed)
  moreover have "fst (spec_ops ?cs S) = replicate (length ts) (RInt 0) @ map RTask (in_order ?Q (levels S))"
    using serve_all_spec [of ?T] len by (simp add: spec_ops_append ins case_prod_beta)
  ultimately show ?thesis
    using calls_spec [OF assms(1), of ?cs] by auto
qed

end

interpretation pta: task_scheduler prio_call pta_holds
  using call_agrees by unfold_locales (auto simp: agrees_def)

section \<open>Theorems\<close>

lemma initial_inv: "GetPrioTaskArray n nq pr = Some a \<Longrightarrow> prio_inv \<lparr>arr = a, pcs = \<lambda>_. Idle\<rparr>"
  by (auto simp: GetPrioTaskArray_def prio_inv_def task_list_init_def owns_def raised_def split: if_splits)

lemma initial_holds:
  assumes "GetPrioTaskArray n (\<lambda>_. NIL) pr = Some a"
  shows "pta_holds a \<lparr>levels = nat n, queue = \<lambda>_. [], prio_of = pr\<rparr>"
proof -
  have n: "0 < n" "num_priorities a = nat n" "bitmap a = replicate (nat ((n - 1) div 8 + 1)) 0" "plist a = (\<lambda>_. task_list_init)"
    "next_queue a = (\<lambda>_. NIL)" "priority a = pr"
    using assms by (auto simp: GetPrioTaskArray_def split: if_splits)
  have len: "length (bitmap a) = (nat n - 1) div 8 + 1"
    using n(1,3) by (simp add: nat_add_distrib nat_div_distrib nat_diff_distrib)
  have "list_holds a p []" if "p < nat n" for p
  proof -
    have "GET_BYTE_NUM p < length (bitmap a)"
      using that unfolding len GET_BYTE_NUM_def by (simp add: less_Suc_eq_le div_le_mono)
    then have "bitmap a ! GET_BYTE_NUM p = 0"
      using n(3) by simp
    then show ?thesis
      using n by (auto simp: list_holds_def task_list_init_def CHECK_BIT_def)
  qed
  then show ?thesis
    using n len by (simp add: pta_holds_def queues_def)
qed

text \<open>C30. The assertions of the queues hold whatever the threads do: from a new array, in every interleaving of calls of
  the four operations by any number of threads, no assertion on the counters \<^verbatim>\<open>nenq\<close>, \<^verbatim>\<open>ndeq\<close> and \<^verbatim>\<open>neqx\<close> fails.\<close>

theorem prio_assertions_hold:
  assumes "GetPrioTaskArray n nq pr = Some a"
  shows "pcs (prio_exec \<lparr>arr = a, pcs = \<lambda>_. Idle\<rparr> sched) t \<noteq> Failed"
proof
  assume "pcs (prio_exec \<lparr>arr = a, pcs = \<lambda>_. Idle\<rparr> sched) t = Failed"
  moreover have "pc_ok (pcs (prio_exec \<lparr>arr = a, pcs = \<lambda>_. Idle\<rparr> sched) t)"
    using exec_inv [OF initial_inv [OF assms], of sched] unfolding prio_inv_def by blast
  ultimately show False by simp
qed

text \<open>A schedule in which one thread inserts a task and another one takes it.\<close>

theorem prio_assertions_hold_witness:
  "pcs (prio_exec \<lparr>arr = \<lparr>num_priorities = 1, bitmap = [0], plist = \<lambda>_. task_list_init, next_queue = \<lambda>_. 0, priority = \<lambda>_. 0\<rparr>,
     pcs = \<lambda>_. Idle\<rparr> (replicate 20 (0, InsertAtOp 1 0) @ replicate 30 (1, RemoveHighestOp))) 1 \<noteq> Failed"
  by (rule prio_assertions_hold [of 1 "\<lambda>_. 0" "\<lambda>_. 0"]) (simp add: GetPrioTaskArray_def)

text \<open>C31. Calls that do not overlap implement queues with priorities: from a new array and tasks that are in no queue,
  every sequence of calls that inserts no task twice and calls \<^verbatim>\<open>InsertTask\<close> with valid tasks returns the results that
  one first-in first-out queue per priority gives, and the array holds the queues afterwards.\<close>

theorem prio_sequential:
  assumes "GetPrioTaskArray n (\<lambda>_. NIL) pr = Some a" "all_allowed cs \<lparr>levels = nat n, queue = \<lambda>_. [], prio_of = pr\<rparr>"
  shows "\<exists>a'. calls prio_call a cs = Some (fst (spec_ops cs \<lparr>levels = nat n, queue = \<lambda>_. [], prio_of = pr\<rparr>), a') \<and>
    pta_holds a' (snd (spec_ops cs \<lparr>levels = nat n, queue = \<lambda>_. [], prio_of = pr\<rparr>))"
  using pta.calls_spec [OF initial_holds [OF assms(1)] assms(2)] .

theorem prio_sequential_witness:
  "\<exists>a'. calls prio_call \<lparr>num_priorities = 9, bitmap = [0, 0], plist = \<lambda>_. task_list_init, next_queue = \<lambda>_. 0, priority = \<lambda>_. 0\<rparr>
     [InsertAtOp 1 0, InsertAtOp 2 8, RemoveHighestOp, RemoveOp 0, RemoveHighestOp, InsertAtOp 2 9] =
       Some ([RInt 0, RInt 0, RTask 2, RTask 1, RTask 0, RInt (-1)], a')"
proof -
  have new: "GetPrioTaskArray 9 (\<lambda>_. NIL) (\<lambda>_. 0) =
    Some \<lparr>num_priorities = 9, bitmap = [0, 0], plist = \<lambda>_. task_list_init, next_queue = \<lambda>_. 0, priority = \<lambda>_. 0\<rparr>"
    by (simp add: GetPrioTaskArray_def numeral_2_eq_2)
  show ?thesis
    using prio_sequential [OF new, of "[InsertAtOp 1 0, InsertAtOp 2 8, RemoveHighestOp, RemoveOp 0, RemoveHighestOp, InsertAtOp 2 9]"]
    by (simp add: not_queued_def spec_insert_def spec_remove_def eval_nat_numeral del: calls.simps) blast
qed

text \<open>No task is lost and the order is the one of the priorities: when distinct tasks with valid priorities are
  inserted in a new array, as many calls of \<^verbatim>\<open>RemoveHighestPriorityTask\<close> return all of them, by decreasing priority,
  and within a priority in the order of the insertions.\<close>

theorem prio_drained:
  assumes "GetPrioTaskArray n (\<lambda>_. NIL) pr = Some a" "distinct ts" "\<forall>t \<in> set ts. t \<noteq> NIL \<and> 0 \<le> pr t \<and> pr t < n"
  shows "\<exists>a'. calls prio_call a (map InsertOp ts @ replicate (length ts) RemoveHighestOp) =
    Some (replicate (length ts) (RInt 0) @ map RTask (concat (map (\<lambda>p. filter (\<lambda>t. pr t = int p) ts) (rev [0..<nat n]))), a')"
proof -
  have "valid_tasks ts \<lparr>levels = nat n, queue = \<lambda>_. [], prio_of = pr\<rparr>"
    using assms(2,3) by (auto simp: valid_tasks_def not_queued_def)
  then show ?thesis
    using pta.drained [OF initial_holds [OF assms(1)], of ts] by (simp add: in_order_def)
qed

theorem prio_drained_witness:
  "\<exists>a'. calls prio_call \<lparr>num_priorities = 2, bitmap = [0], plist = \<lambda>_. task_list_init, next_queue = \<lambda>_. 0, priority = \<lambda>t. int t mod 2\<rparr>
     [InsertOp 4, InsertOp 1, InsertOp 2, InsertOp 3, RemoveHighestOp, RemoveHighestOp, RemoveHighestOp, RemoveHighestOp] =
       Some ([RInt 0, RInt 0, RInt 0, RInt 0, RTask 1, RTask 3, RTask 4, RTask 2], a')"
proof -
  have new: "GetPrioTaskArray 2 (\<lambda>_. NIL) (\<lambda>t. int t mod 2) =
    Some \<lparr>num_priorities = 2, bitmap = [0], plist = \<lambda>_. task_list_init, next_queue = \<lambda>_. 0, priority = \<lambda>t. int t mod 2\<rparr>"
    by (simp add: GetPrioTaskArray_def)
  show ?thesis
    using prio_drained [OF new, of "[4, 1, 2, 3]"] by (simp add: eval_nat_numeral del: calls.simps)
qed

section \<open>A task left behind\<close>

text \<open>
  Thread 3 inserts task 3. Thread 1 finds the bit of the priority set, but before it takes the lock thread 3 takes the
  task. Thread 1 then reads the count zero and asks for one lock only, so that it works in parallel with thread 0,
  which inserts task 1: it removes this task, and is held up before it resets the bit. Thread 2 inserts task 2 and sets
  the bit, then thread 1 resets it.
\<close>

lemma exec_replicate:
  "prio_exec s (replicate (numeral k) (t, c)) = prio_exec (prio_step s t c) (replicate (pred_numeral k) (t, c))"
  "prio_exec s (replicate (numeral k) (t, c) @ cs) = prio_exec (prio_step s t c) (replicate (pred_numeral k) (t, c) @ cs)"
  by (simp_all add: numeral_eq_Suc)

lemma nat_numeral_case: "(case (numeral k :: nat) of 0 \<Rightarrow> x | Suc p \<Rightarrow> f p) = f (pred_numeral k)"
  by (simp add: numeral_eq_Suc)

lemmas concurrent = prio_step_def trylock_def set_lock_def upd_list_def acts_step_def bitmap_cas_def insert_acq_acts_def
  insert_rel_acts_def remove_acq_acts_def remove_rel_acts_def removed_task_def task_list_init_def InsertTaskWithPriority_def RemoveHighestPriorityTask_def
  scan_run_def CHECK_BIT_def nat_numeral_case
  GET_BYTE_NUM_def GET_BIT_NUM_def SET_BIT_def RESET_BIT_def

definition first_array :: prio_task_array where
  "first_array = \<lparr>num_priorities = 1, bitmap = [0], plist = \<lambda>_. task_list_init, next_queue = \<lambda>_. 0, priority = \<lambda>_. 0\<rparr>"

definition stranding :: "(tid \<times> prio_op) list" where
  "stranding = replicate 13 (3, InsertAtOp 3 0) @ replicate 9 (1, RemoveHighestOp) @ replicate 30 (3, RemoveHighestOp) @
     replicate 6 (0, InsertAtOp 1 0) @ replicate 9 (1, RemoveHighestOp) @ replicate 7 (0, InsertAtOp 1 0) @ replicate 1 (1, RemoveHighestOp) @
     replicate 13 (2, InsertAtOp 2 0) @ replicate 5 (1, RemoveHighestOp)"

definition stranded :: prio_sys where
  "stranded = prio_exec \<lparr>arr = first_array, pcs = \<lambda>_. Idle\<rparr> stranding"

lemma stranded_state:
  "pcs stranded = (\<lambda>_. Idle)" "arr stranded = first_array\<lparr>plist := (\<lambda>_. task_list_init)(0 := rest_list 2 2 0 1)\<rparr>"
  by (auto simp: exec_replicate concurrent first_array_def stranding_def stranded_def fun_eq_iff)

text \<open>A list with tasks whose bit is not set: the search does not find it, and further tasks do not set the bit.\<close>

definition overlooked :: "prio_task_array \<Rightarrow> bool" where
  "overlooked a \<longleftrightarrow> num_priorities a = 1 \<and> bitmap a = [0] \<and> (\<exists>h l ni k. plist a 0 = rest_list h l ni k \<and> h \<noteq> NIL \<and> l \<noteq> NIL \<and> 0 < k)"

lemma scan_zero: "finish a (H_scan k) = Some (RTask NIL, a)" if "bitmap a = [0]" "k \<le> 8" for k
  using that(2)
proof (induction k)
  case (Suc k)
  then show ?case
    using that(1) by (simp add: finish_step [of "H_scan (Suc k)"] active_def scan_run_def GET_BYTE_NUM_def CHECK_BIT_def)
qed (simp add: finish_step [of "H_scan 0"] active_def scan_run_def)

lemma overlooked_search: "overlooked a \<Longrightarrow> prio_call a RemoveHighestOp = Some (RTask NIL, a)"
  using scan_zero by (simp add: overlooked_def prio_call_def RemoveHighestPriorityTask_def)

lemma overlooked_insert:
  assumes "overlooked a"
  shows "\<exists>r a'. prio_call a (InsertAtOp t p) = Some (RInt r, a') \<and> r \<in> {0, -1} \<and> overlooked a'"
proof (cases "t = NIL \<or> p \<noteq> 0")
  case True
  then show ?thesis
    using assms by (auto simp: overlooked_def prio_call_def InsertTaskWithPriority_def)
next
  case False
  obtain h l ni k where l: "plist a 0 = rest_list h l ni k" "h \<noteq> NIL" "l \<noteq> NIL" "0 < k"
    using assms unfolding overlooked_def by blast
  then show ?thesis
    using insert_more [OF l, of t] assms False by (auto simp: overlooked_def prio_call_def InsertTaskWithPriority_def)
qed

text \<open>C32. A task can be left behind for good: after the schedule \<open>stranding\<close> on a new array with one priority no thread
  is in a call, the queue holds task 2, but from there on, whatever tasks are inserted, no call of
  \<^verbatim>\<open>RemoveHighestPriorityTask\<close> returns a task.\<close>

theorem prio_task_stranded:
  "GetPrioTaskArray 1 (\<lambda>_. NIL) (\<lambda>_. 0) = Some first_array \<and> stranded = prio_exec \<lparr>arr = first_array, pcs = \<lambda>_. Idle\<rparr> stranding \<and>
   pcs stranded = (\<lambda>_. Idle) \<and> tl_head (plist (arr stranded) 0) = 2 \<and>
   (\<exists>rs a. calls prio_call (arr stranded) (map (\<lambda>x. case x of None \<Rightarrow> RemoveHighestOp | Some (t, p) \<Rightarrow> InsertAtOp t p) xs) = Some (rs, a) \<and>
     set rs \<subseteq> {RTask NIL, RInt 0, RInt (-1)})"
proof -
  let ?op = "\<lambda>x. case x of None \<Rightarrow> RemoveHighestOp | Some (t, p) \<Rightarrow> InsertAtOp t p"
  have "\<exists>rs b. calls prio_call a (map ?op xs) = Some (rs, b) \<and> set rs \<subseteq> {RTask NIL, RInt 0, RInt (-1)}" if "overlooked a" for a
    using that
  proof (induction xs arbitrary: a)
    case (Cons x xs)
    have "\<exists>r b. prio_call a (?op x) = Some (r, b) \<and> r \<in> {RTask NIL, RInt 0, RInt (-1)} \<and> overlooked b"
      using Cons.prems overlooked_search [of a] overlooked_insert [of a] by (cases x) fastforce+
    then show ?case
      using Cons.IH by fastforce
  qed simp
  moreover have "overlooked (arr stranded)"
    by (simp add: stranded_state overlooked_def first_array_def)
  moreover have "GetPrioTaskArray 1 (\<lambda>_. NIL) (\<lambda>_. 0) = Some first_array"
    by (simp add: GetPrioTaskArray_def first_array_def)
  moreover have "tl_head (plist (arr stranded) 0) = 2"
    by (simp add: stranded_state)
  ultimately show ?thesis
    using stranded_state(1) stranded_def by blast
qed

end
