(* ===== verification/Task_Pool.thy ===== *)
theory Task_Pool
  imports Stm_Prelude
begin

text \<open>
  The pool of tasks of the TPC-C server (\<^verbatim>\<open>TPCC/Server/mm/taskpool.c\<close>): an array of tasks and a list of the free
  ones, protected by one spin lock; \<^verbatim>\<open>GetTask\<close> looks at the head of the list before it takes the lock.

  A thread is at a program counter that names its next access to the pool; \<open>pool_run\<close> makes this access. Element \<open>i\<close>
  of the array has the address \<open>i + 1\<close>, zero is the null pointer. The accesses to the fields of a task that a thread
  has taken out of the list are one step. The set \<open>out\<close> records the tasks that \<^verbatim>\<open>GetTask\<close> has returned and that
  have not been given back; a caller gives back only such tasks.

  The theorems: no task is handed out twice, a task handed out is in no queue, and when no call is under way the free
  list has exactly the tasks that are not handed out, and the counter is right.
\<close>

section \<open>State\<close>

abbreviation NO_TASK :: nat where "NO_TASK \<equiv> 0"

record task =
  t_connection :: int
  t_priority :: int
  t_transaction :: int
  t_arguments :: "nat list"
  t_next_queue :: nat
  t_next_free :: nat
  t_free_gc :: int
  t_next_gc :: nat
  t_stats_valid :: int
  t_stats_aborts :: int
  t_stats_commits :: int
  t_times :: "(int \<times> int) list"

record task_pool =
  pool_init :: bool
  pool_size :: nat
  tasks :: "nat \<Rightarrow> task"
  pool_lock :: bool
  pool_head :: nat
  pool_tail :: nat
  num_free_tasks :: int

definition init_task :: "nat \<Rightarrow> task" where
  "init_task nxt = \<lparr>t_connection = -1, t_priority = -1, t_transaction = -1, t_arguments = replicate 256 0,
     t_next_queue = NO_TASK, t_next_free = nxt, t_free_gc = 0, t_next_gc = NO_TASK,
     t_stats_valid = 0, t_stats_aborts = 0, t_stats_commits = 0, t_times = replicate 3 (0, 0)\<rparr>"

text \<open>Memory is never exhausted; the result is the one of the C function.\<close>

definition TaskPoolInit :: "int \<Rightarrow> task_pool \<Rightarrow> int \<times> task_pool" where
  "TaskPoolInit n p =
    (if pool_init p then (-1, p) else if n \<le> 0 then (-1, p)
     else (0, p\<lparr>pool_size := nat n, pool_lock := False, pool_head := 1, pool_tail := nat n,
       tasks := (\<lambda>i. if 1 \<le> i \<and> i \<le> nat n then init_task (if i = nat n then NO_TASK else i + 1) else tasks p i),
       num_free_tasks := n, pool_init := True\<rparr>))"

definition TaskPoolDestroy :: "task_pool \<Rightarrow> task_pool" where
  "TaskPoolDestroy p = (if pool_init p then p\<lparr>pool_init := False\<rparr> else p)"

definition GetNumFreeTasks :: "task_pool \<Rightarrow> int" where
  "GetNumFreeTasks p = num_free_tasks p"

definition clear_taken :: "task \<Rightarrow> task" where
  "clear_taken x = x\<lparr>t_next_queue := NO_TASK, t_next_free := NO_TASK, t_free_gc := 0, t_next_gc := NO_TASK,
     t_stats_valid := 0, t_stats_aborts := 0, t_stats_commits := 0\<rparr>"

definition clear_freed :: "task \<Rightarrow> task" where
  "clear_freed x = clear_taken (x\<lparr>t_connection := -1, t_priority := -1, t_transaction := -1, t_arguments := replicate 256 0\<rparr>)"

section \<open>Steps\<close>

datatype pool_pc =
    P_idle
  | G_look | G_lock | G_check | G_task | G_head nat | G_empty nat | G_tail nat | G_unlock nat | G_dec nat | G_clear nat
  | G_ret nat
  | F_clear nat | F_lock nat | F_check nat | F_last nat | F_link nat nat | F_tail nat | F_new nat | F_head nat
  | F_unlock | F_inc | F_ret

datatype pool_op = GetOp | FreeOp nat

fun GetTask :: "task_pool \<Rightarrow> pool_pc" where
  "GetTask p = (if pool_init p then G_look else G_ret NO_TASK)"

fun FreeTask :: "task_pool \<Rightarrow> nat \<Rightarrow> pool_pc" where
  "FreeTask p t = (if t = NO_TASK then F_ret else if pool_init p then F_clear t else F_ret)"

definition set_next_free :: "nat \<Rightarrow> nat \<Rightarrow> task_pool \<Rightarrow> task_pool" where
  "set_next_free q t p = p\<lparr>tasks := (tasks p)(q := (tasks p q)\<lparr>t_next_free := t\<rparr>)\<rparr>"

fun pool_run :: "task_pool \<Rightarrow> pool_pc \<Rightarrow> task_pool \<times> pool_pc" where
  "pool_run p G_look = (p, if pool_head p = NO_TASK then G_ret NO_TASK else G_lock)"
| "pool_run p G_lock = (if pool_lock p then (p, G_look) else (p\<lparr>pool_lock := True\<rparr>, G_check))"
| "pool_run p G_check = (p, if pool_head p \<noteq> NO_TASK then G_task else G_unlock NO_TASK)"
| "pool_run p G_task = (p, G_head (pool_head p))"
| "pool_run p (G_head t) = (p\<lparr>pool_head := t_next_free (tasks p t)\<rparr>, G_empty t)"
| "pool_run p (G_empty t) = (p, if pool_head p = NO_TASK then G_tail t else G_unlock t)"
| "pool_run p (G_tail t) = (p\<lparr>pool_tail := NO_TASK\<rparr>, G_unlock t)"
| "pool_run p (G_unlock t) = (p\<lparr>pool_lock := False\<rparr>, if t = NO_TASK then G_look else G_dec t)"
| "pool_run p (G_dec t) = (p\<lparr>num_free_tasks := num_free_tasks p - 1\<rparr>, G_clear t)"
| "pool_run p (G_clear t) = (p\<lparr>tasks := (tasks p)(t := clear_taken (tasks p t))\<rparr>, G_ret t)"
| "pool_run p (F_clear t) = (p\<lparr>tasks := (tasks p)(t := clear_freed (tasks p t))\<rparr>, F_lock t)"
| "pool_run p (F_lock t) = (if pool_lock p then (p, F_lock t) else (p\<lparr>pool_lock := True\<rparr>, F_check t))"
| "pool_run p (F_check t) = (p, if pool_tail p \<noteq> NO_TASK then F_last t else F_new t)"
| "pool_run p (F_last t) = (p, F_link t (pool_tail p))"
| "pool_run p (F_link t q) = (set_next_free q t p, F_tail t)"
| "pool_run p (F_tail t) = (p\<lparr>pool_tail := t\<rparr>, F_unlock)"
| "pool_run p (F_new t) = (p\<lparr>pool_tail := t\<rparr>, F_head t)"
| "pool_run p (F_head t) = (p\<lparr>pool_head := t\<rparr>, F_unlock)"
| "pool_run p F_unlock = (p\<lparr>pool_lock := False\<rparr>, F_inc)"
| "pool_run p F_inc = (p\<lparr>num_free_tasks := num_free_tasks p + 1\<rparr>, F_ret)"
| "pool_run p pc = (p, pc)"

record pool_sys =
  pool :: task_pool
  pool_pcs :: "tid \<Rightarrow> pool_pc"
  out :: "nat set"

definition pool_step :: "pool_sys \<Rightarrow> tid \<Rightarrow> pool_op \<Rightarrow> pool_sys" where
  "pool_step s t c = (case pool_pcs s t of
     P_idle \<Rightarrow> (case c of
         GetOp \<Rightarrow> s\<lparr>pool_pcs := (pool_pcs s)(t := GetTask (pool s))\<rparr>
       | FreeOp x \<Rightarrow> if x = NO_TASK \<or> x \<in> out s
           then s\<lparr>pool_pcs := (pool_pcs s)(t := FreeTask (pool s) x), out := out s - {x}\<rparr> else s)
   | G_ret x \<Rightarrow> s\<lparr>pool_pcs := (pool_pcs s)(t := P_idle), out := (if x = NO_TASK then out s else insert x (out s))\<rparr>
   | F_ret \<Rightarrow> s\<lparr>pool_pcs := (pool_pcs s)(t := P_idle)\<rparr>
   | pc \<Rightarrow> (let (p, pc') = pool_run (pool s) pc in s\<lparr>pool := p, pool_pcs := (pool_pcs s)(t := pc')\<rparr>))"

fun pool_exec :: "pool_sys \<Rightarrow> (tid \<times> pool_op) list \<Rightarrow> pool_sys" where
  "pool_exec s [] = s"
| "pool_exec s ((t, c) # cs) = pool_exec (pool_step s t c) cs"

section \<open>Invariant\<close>

fun linked :: "(nat \<Rightarrow> task) \<Rightarrow> nat list \<Rightarrow> nat \<Rightarrow> bool" where
  "linked T [] h = (h = NO_TASK)"
| "linked T (x # xs) h = (h = x \<and> x \<noteq> NO_TASK \<and> linked T xs (t_next_free (T x)))"

definition last_of :: "nat list \<Rightarrow> nat" where
  "last_of xs = (if xs = [] then NO_TASK else last xs)"

definition settled :: "task_pool \<Rightarrow> nat list \<Rightarrow> bool" where
  "settled p xs \<longleftrightarrow> linked (tasks p) xs (pool_head p) \<and> pool_tail p = last_of xs"

text \<open>The free list as the thread that holds the lock sees it.\<close>

fun list_at :: "task_pool \<Rightarrow> pool_pc \<Rightarrow> nat list \<Rightarrow> bool" where
  "list_at p G_task xs = (settled p xs \<and> xs \<noteq> [])"
| "list_at p (G_head t) xs = (settled p xs \<and> xs \<noteq> [] \<and> hd xs = t)"
| "list_at p (G_empty t) xs = (linked (tasks p) xs (pool_head p) \<and> pool_tail p = last (t # xs))"
| "list_at p (G_tail t) xs = (xs = [] \<and> pool_head p = NO_TASK)"
| "list_at p (F_last t) xs = (settled p xs \<and> xs \<noteq> [])"
| "list_at p (F_link t q) xs = (settled p xs \<and> xs \<noteq> [] \<and> q = last xs)"
| "list_at p (F_tail t) xs = (linked (tasks p) xs (pool_head p) \<and> xs \<noteq> [] \<and> last xs = t)"
| "list_at p (F_new t) xs = (settled p xs \<and> xs = [])"
| "list_at p (F_head t) xs = (xs = [] \<and> pool_head p = NO_TASK \<and> pool_tail p = t)"
| "list_at p pc xs = settled p xs"

fun in_cs :: "pool_pc \<Rightarrow> bool" where
  "in_cs G_check = True" | "in_cs G_task = True" | "in_cs (G_head t) = True" | "in_cs (G_empty t) = True"
| "in_cs (G_tail t) = True" | "in_cs (G_unlock t) = True" | "in_cs (F_check t) = True" | "in_cs (F_last t) = True"
| "in_cs (F_link t q) = True" | "in_cs (F_tail t) = True" | "in_cs (F_new t) = True" | "in_cs (F_head t) = True"
| "in_cs F_unlock = True" | "in_cs pc = False"

text \<open>The task that a thread has to itself, and what it knows of it.\<close>

fun in_hand :: "pool_pc \<Rightarrow> nat set" where
  "in_hand (G_empty t) = {t}" | "in_hand (G_tail t) = {t}" | "in_hand (G_unlock t) = {t} - {NO_TASK}" | "in_hand (G_dec t) = {t}"
| "in_hand (G_clear t) = {t}" | "in_hand (G_ret t) = {t} - {NO_TASK}" | "in_hand (F_clear t) = {t}" | "in_hand (F_lock t) = {t}"
| "in_hand (F_check t) = {t}" | "in_hand (F_last t) = {t}" | "in_hand (F_link t q) = {t}" | "in_hand (F_new t) = {t}" | "in_hand (F_head t) = {t}"
| "in_hand pc = {}"

fun known :: "task_pool \<Rightarrow> pool_pc \<Rightarrow> bool" where
  "known p (G_ret t) = (t \<noteq> NO_TASK \<longrightarrow> t_next_queue (tasks p t) = NO_TASK)"
| "known p (F_lock t) = (t_next_free (tasks p t) = NO_TASK)" | "known p (F_check t) = (t_next_free (tasks p t) = NO_TASK)"
| "known p (F_last t) = (t_next_free (tasks p t) = NO_TASK)" | "known p (F_link t q) = (t_next_free (tasks p t) = NO_TASK)"
| "known p (F_new t) = (t_next_free (tasks p t) = NO_TASK)" | "known p (F_head t) = (t_next_free (tasks p t) = NO_TASK)"
| "known p pc = True"

text \<open>What the counter is off by: tasks taken that it still counts, tasks given back that it does not count yet.\<close>

fun off :: "pool_pc \<Rightarrow> int" where
  "off (G_empty t) = 1" | "off (G_tail t) = 1" | "off (G_unlock t) = (if t = NO_TASK then 0 else 1)" | "off (G_dec t) = 1"
| "off (F_tail t) = -1" | "off F_unlock = -1" | "off F_inc = -1" | "off pc = 0"

definition pool_inv :: "tid set \<Rightarrow> nat list \<Rightarrow> pool_sys \<Rightarrow> bool" where
  "pool_inv N xs s \<longleftrightarrow>
     finite N \<and> (\<forall>t. t \<notin> N \<longrightarrow> pool_pcs s t = P_idle) \<and> pool_init (pool s) \<and>
     distinct xs \<and> set xs \<inter> out s = {} \<and> set xs \<union> out s \<union> (\<Union>t. in_hand (pool_pcs s t)) = {1..pool_size (pool s)} \<and>
     (\<forall>t. in_hand (pool_pcs s t) \<inter> (set xs \<union> out s) = {}) \<and>
     (\<forall>t u. t \<noteq> u \<longrightarrow> in_hand (pool_pcs s t) \<inter> in_hand (pool_pcs s u) = {}) \<and>
     (pool_lock (pool s) \<longleftrightarrow> (\<exists>t. in_cs (pool_pcs s t))) \<and>
     (\<forall>t u. in_cs (pool_pcs s t) \<longrightarrow> in_cs (pool_pcs s u) \<longrightarrow> t = u) \<and>
     (\<forall>t. in_cs (pool_pcs s t) \<longrightarrow> list_at (pool s) (pool_pcs s t) xs) \<and>
     (\<not> pool_lock (pool s) \<longrightarrow> settled (pool s) xs) \<and>
     (\<forall>t. known (pool s) (pool_pcs s t)) \<and>
     num_free_tasks (pool s) = int (length xs) + (\<Sum>t\<in>N. off (pool_pcs s t))"

lemma linked_cong: "(\<And>x. x \<in> set xs \<Longrightarrow> t_next_free (T' x) = t_next_free (T x)) \<Longrightarrow> linked T' xs h = linked T xs h"
  by (induction xs arbitrary: h) auto

lemma linked_hd: "linked T xs h \<Longrightarrow> xs \<noteq> [] \<Longrightarrow> hd xs = h \<and> h \<noteq> NO_TASK"
  by (cases xs) auto

lemma linked_last: "linked T xs h \<Longrightarrow> xs \<noteq> [] \<Longrightarrow> last xs \<noteq> NO_TASK"
  by (induction xs arbitrary: h) auto

lemma linked_snoc:
  assumes "linked T xs h" "xs \<noteq> []" "distinct xs" "t \<notin> set xs" "t \<noteq> NO_TASK" "t_next_free (T t) = NO_TASK"
  shows "linked (T(last xs := (T (last xs))\<lparr>t_next_free := t\<rparr>)) (xs @ [t]) h"
  using assms
proof (induction xs arbitrary: h)
  case (Cons x xs)
  then show ?case by (cases "xs = []") auto
qed simp

lemma list_at_cong:
  assumes "pool_head p' = pool_head p" "pool_tail p' = pool_tail p" "\<And>x. x \<in> set xs \<Longrightarrow> t_next_free (tasks p' x) = t_next_free (tasks p x)"
  shows "list_at p' pc xs = list_at p pc xs" "settled p' xs = settled p xs"
  using assms linked_cong [of xs "tasks p'" "tasks p"] by (cases pc; simp add: settled_def)+

lemma known_cong: "(\<And>x. x \<in> in_hand pc \<Longrightarrow> tasks p' x = tasks p x) \<Longrightarrow> known p' pc = known p pc"
  by (cases pc) auto

text \<open>A step of a thread, described by what it does to the lock, the list and the tasks it has.\<close>

definition locking :: "task_pool \<Rightarrow> pool_pc \<Rightarrow> task_pool \<Rightarrow> pool_pc \<Rightarrow> bool" where
  "locking p pc p' pc' \<longleftrightarrow> in_cs pc' = in_cs pc \<and> pool_lock p' = pool_lock p \<or>
     \<not> pool_lock p \<and> pool_lock p' \<and> \<not> in_cs pc \<and> in_cs pc' \<or> in_cs pc \<and> \<not> pool_lock p' \<and> \<not> in_cs pc'"

definition listing :: "task_pool \<Rightarrow> pool_pc \<Rightarrow> nat list \<Rightarrow> task_pool \<Rightarrow> pool_pc \<Rightarrow> nat list \<Rightarrow> bool" where
  "listing p pc xs p' pc' xs' \<longleftrightarrow>
    (if in_cs pc' then list_at p' pc' xs' else if in_cs pc then settled p' xs'
     else xs' = xs \<and> pool_head p' = pool_head p \<and> pool_tail p' = pool_tail p \<and>
       (\<forall>x \<in> set xs. t_next_free (tasks p' x) = t_next_free (tasks p x)))"

lemma pool_invD:
  assumes "pool_inv N xs s"
  shows "finite N" "t \<notin> N \<Longrightarrow> pool_pcs s t = P_idle" "pool_init (pool s)" "distinct xs" "set xs \<inter> out s = {}"
    "set xs \<union> out s \<union> (\<Union>t. in_hand (pool_pcs s t)) = {1..pool_size (pool s)}"
    "in_hand (pool_pcs s t) \<inter> (set xs \<union> out s) = {}"
    "t \<noteq> u \<Longrightarrow> in_hand (pool_pcs s t) \<inter> in_hand (pool_pcs s u) = {}"
    "pool_lock (pool s) \<longleftrightarrow> (\<exists>t. in_cs (pool_pcs s t))"
    "in_cs (pool_pcs s t) \<Longrightarrow> in_cs (pool_pcs s u) \<Longrightarrow> t = u"
    "in_cs (pool_pcs s t) \<Longrightarrow> list_at (pool s) (pool_pcs s t) xs"
    "\<not> pool_lock (pool s) \<Longrightarrow> settled (pool s) xs"
    "known (pool s) (pool_pcs s t)"
    "num_free_tasks (pool s) = int (length xs) + (\<Sum>t\<in>N. off (pool_pcs s t))"
  using assms unfolding pool_inv_def by blast+

lemma step_lock:
  assumes inv: "pool_inv N xs s" and u: "pool_pcs s u = pc" and lock: "locking (pool s) pc p' pc'"
  shows "in_cs pc' \<or> in_cs pc \<Longrightarrow> v \<noteq> u \<Longrightarrow> \<not> in_cs (pool_pcs s v)"
    and "in_cs (((pool_pcs s)(u := pc')) t) \<Longrightarrow> in_cs (((pool_pcs s)(u := pc')) v) \<Longrightarrow> t = v"
    and "pool_lock p' \<longleftrightarrow> (\<exists>t. in_cs (((pool_pcs s)(u := pc')) t))"
proof -
  let ?P = "pool_pcs s" and ?P' = "(pool_pcs s)(u := pc')"
  note D = pool_invD [OF inv]
  have excl: "\<not> in_cs (?P v)" if "in_cs pc' \<or> in_cs pc" "v \<noteq> u" for v
    using lock that D(9) D(10) [of v u] u unfolding locking_def by blast
  show "in_cs pc' \<or> in_cs pc \<Longrightarrow> v \<noteq> u \<Longrightarrow> \<not> in_cs (?P v)"
    by (rule excl)
  show "t = v" if "in_cs (?P' t)" "in_cs (?P' v)"
    using that D(10) [of t v] excl by (cases "t = u"; cases "v = u") auto
  show "pool_lock p' \<longleftrightarrow> (\<exists>t. in_cs (?P' t))"
  proof (cases "in_cs pc' \<or> in_cs pc")
    case True
    then have "(\<exists>t. in_cs (?P' t)) \<longleftrightarrow> in_cs pc'"
      using excl by (metis fun_upd_apply)
    moreover have "in_cs pc \<Longrightarrow> pool_lock (pool s)"
      using D(9) u by blast
    ultimately show ?thesis
      using True lock unfolding locking_def by blast
  next
    case False
    then have "(\<exists>t. in_cs (?P' t)) \<longleftrightarrow> (\<exists>t. in_cs (?P t))"
      using u by (metis fun_upd_apply)
    then show ?thesis
      using False lock D(9) unfolding locking_def by blast
  qed
qed

lemma step_list:
  assumes inv: "pool_inv N xs s" and u: "pool_pcs s u = pc" and lock: "locking (pool s) pc p' pc'"
    and lst: "listing (pool s) pc xs p' pc' xs'"
  shows "in_cs (((pool_pcs s)(u := pc')) t) \<Longrightarrow> list_at p' (((pool_pcs s)(u := pc')) t) xs'"
    and "\<not> pool_lock p' \<Longrightarrow> settled p' xs'"
proof -
  note D = pool_invD [OF inv] and L = step_lock [OF inv u lock]
  show "list_at p' (((pool_pcs s)(u := pc')) t) xs'" if "in_cs (((pool_pcs s)(u := pc')) t)"
  proof (cases "t = u")
    case False
    then have "in_cs (pool_pcs s t)"
      using that by simp
    then have "\<not> in_cs pc'" "\<not> in_cs pc" "list_at (pool s) (pool_pcs s t) xs"
      using L(1) [OF _ False] D(11) by blast+
    then show ?thesis
      using lst False list_at_cong(1) [of p' "pool s" xs] by (simp add: listing_def)
  qed (use lst that in \<open>simp add: listing_def\<close>)
  show "settled p' xs'" if free: "\<not> pool_lock p'"
  proof -
    have "\<not> in_cs pc'"
      using free L(3) by (metis fun_upd_same)
    then show ?thesis
      using lst lock free D(12) list_at_cong(2) [of p' "pool s" xs] by (cases "in_cs pc") (auto simp: listing_def locking_def)
  qed
qed

lemma inv_step:
  assumes inv: "pool_inv N xs s" and u: "u \<in> N" "pool_pcs s u = pc"
    and res: "set xs' \<union> out' \<union> in_hand pc' = set xs \<union> out s \<union> in_hand pc" "distinct xs'" "set xs' \<inter> out' = {}" "in_hand pc' \<inter> (set xs' \<union> out') = {}"
    and fixed: "pool_init p' = pool_init (pool s)" "pool_size p' = pool_size (pool s)"
    and lock: "locking (pool s) pc p' pc'" and lst: "listing (pool s) pc xs p' pc' xs'"
    and kn: "known p' pc'" "\<And>x. x \<notin> in_hand pc \<union> set xs \<Longrightarrow> tasks p' x = tasks (pool s) x"
    and cnt: "num_free_tasks p' - int (length xs') - off pc' = num_free_tasks (pool s) - int (length xs) - off pc"
  shows "pool_inv N xs' \<lparr>pool = p', pool_pcs = (pool_pcs s)(u := pc'), out = out'\<rparr>"
proof -
  let ?P = "pool_pcs s" and ?P' = "(pool_pcs s)(u := pc')"
  note D = pool_invD [OF inv]
  have others: "in_hand (?P t) \<inter> (set xs \<union> out s \<union> in_hand pc) = {}" if "t \<noteq> u" for t
    using D(7) [of t] D(8) [OF that] u(2) by auto
  have own: "(\<Union>t. in_hand (?P' t)) = (\<Union>t\<in>UNIV - {u}. in_hand (?P t)) \<union> in_hand pc'"
    by (auto split: if_splits)
  have own0: "(\<Union>t. in_hand (?P t)) = (\<Union>t\<in>UNIV - {u}. in_hand (?P t)) \<union> in_hand pc"
    using u(2) by auto
  have all: "set xs' \<union> out' \<union> (\<Union>t. in_hand (?P' t)) = {1..pool_size p'}"
    using D(6) res(1) unfolding own fixed own0 by blast
  have sep: "in_hand (?P' t) \<inter> (set xs' \<union> out') = {}" for t
    using others [of t] res(1,4) by (cases "t = u") auto
  have sep2: "in_hand (?P' t) \<inter> in_hand (?P' v) = {}" if "t \<noteq> v" for t v
    using D(8) [OF that] others [of t] others [of v] res(1) that by auto
  have kn': "known p' (?P' t)" for t
  proof (cases "t = u")
    case False
    have "tasks p' x = tasks (pool s) x" if "x \<in> in_hand (?P t)" for x
      using others [OF False] that kn(2) [of x] by auto
    then show ?thesis
      using D(13) [of t] False known_cong [of "?P t" p' "pool s"] by simp
  qed (simp add: kn)
  have "(\<Sum>t\<in>N. off (?P' t)) = (\<Sum>t\<in>N. off (?P t)) - off pc + off pc'"
    using D(1) u by (simp add: sum.remove [of N u])
  then have "num_free_tasks p' = int (length xs') + (\<Sum>t\<in>N. off (?P' t))"
    using D(14) cnt by linarith
  moreover have "?P' t = P_idle" if "t \<notin> N" for t
    using D(2) [OF that] u(1) that by auto
  moreover have "pool_init p'"
    using D(3) fixed by simp
  ultimately show ?thesis
    unfolding pool_inv_def pool_sys.simps using D(1) res(2,3) all sep sep2 step_lock(2,3) [OF inv u(2) lock]
      step_list [OF inv u(2) lock lst] kn' by blast
qed

text \<open>The free list after the step of a thread at \<open>pc\<close>.\<close>

fun next_list :: "pool_pc \<Rightarrow> nat list \<Rightarrow> nat list" where
  "next_list (G_head t) xs = tl xs"
| "next_list (F_link t q) xs = xs @ [t]"
| "next_list (F_head t) xs = [t]"
| "next_list pc xs = xs"

definition running :: "pool_pc \<Rightarrow> bool" where
  "running pc \<longleftrightarrow> pc \<noteq> P_idle \<and> pc \<noteq> F_ret \<and> (\<forall>t. pc \<noteq> G_ret t)"

definition may_run :: "task_pool \<Rightarrow> pool_pc \<Rightarrow> nat list \<Rightarrow> nat set \<Rightarrow> bool" where
  "may_run p pc xs ys \<longleftrightarrow> running pc \<and> (in_cs pc \<longrightarrow> list_at p pc xs \<and> pool_lock p) \<and> (\<not> pool_lock p \<longrightarrow> settled p xs) \<and> known p pc \<and>
     in_hand pc \<inter> (set xs \<union> ys) = {} \<and> NO_TASK \<notin> in_hand pc \<union> set xs \<and> distinct xs \<and> set xs \<inter> ys = {}"

lemma run_tasks:
  assumes "may_run p pc xs ys" "pool_run p pc = (p', pc')"
  shows "set (next_list pc xs) \<union> ys \<union> in_hand pc' = set xs \<union> ys \<union> in_hand pc" "distinct (next_list pc xs)"
    "set (next_list pc xs) \<inter> ys = {}" "in_hand pc' \<inter> (set (next_list pc xs) \<union> ys) = {}"
  using assms by (cases pc; cases xs; auto simp: may_run_def running_def split: if_splits)+

lemma run_fixed:
  assumes "may_run p pc xs ys" "pool_run p pc = (p', pc')"
  shows "pool_init p' = pool_init p" "pool_size p' = pool_size p" "locking p pc p' pc'"
    "num_free_tasks p' - int (length (next_list pc xs)) - off pc' = num_free_tasks p - int (length xs) - off pc"
    "x \<notin> in_hand pc \<union> set xs \<Longrightarrow> tasks p' x = tasks p x"
  using assms by (cases pc; cases xs; auto simp: may_run_def running_def locking_def set_next_free_def split: if_splits)+

lemma run_known:
  assumes "may_run p pc xs ys" "pool_run p pc = (p', pc')"
  shows "known p' pc'"
  using assms by (cases pc) (auto simp: may_run_def running_def clear_taken_def clear_freed_def split: if_splits)

lemma run_listing:
  assumes "may_run p pc xs ys" "pool_run p pc = (p', pc')"
  shows "listing p pc xs p' pc' (next_list pc xs)"
proof (cases pc)
  case (F_link t q)
  then show ?thesis
    using assms linked_snoc [of "tasks p" xs "pool_head p" t]
    by (auto simp: may_run_def listing_def settled_def set_next_free_def)
next
  case (G_head t)
  then show ?thesis
    using assms by (cases xs) (auto simp: may_run_def listing_def settled_def last_of_def)
qed (use assms in
  \<open>auto simp: may_run_def running_def listing_def settled_def last_of_def dest: linked_hd linked_last split: if_splits\<close>)

lemma pool_run_inv:
  assumes inv: "pool_inv N xs s" and u: "u \<in> N" "running (pool_pcs s u)"
    and run: "pool_run (pool s) (pool_pcs s u) = (p', pc')"
  shows "pool_inv N (next_list (pool_pcs s u) xs) \<lparr>pool = p', pool_pcs = (pool_pcs s)(u := pc'), out = out s\<rparr>"
proof -
  note D = pool_invD [OF inv]
  have "set xs \<union> in_hand (pool_pcs s u) \<subseteq> {1..pool_size (pool s)}"
    using D(6) by auto
  then have "NO_TASK \<notin> in_hand (pool_pcs s u) \<union> set xs"
    by auto
  then have may: "may_run (pool s) (pool_pcs s u) xs (out s)"
    using D(4,5,9,12) D(7,11,13) [of u] u(2) unfolding may_run_def by blast
  show ?thesis
    using inv_step [OF inv u(1) refl run_tasks [OF may run] run_fixed(1-3) [OF may run] run_listing [OF may run] run_known [OF may run]]
      run_fixed(4,5) [OF may run] by blast
qed

lemma same_out: "s\<lparr>pool_pcs := P, out := out s\<rparr> = s\<lparr>pool_pcs := P\<rparr>"
  by (cases s) simp

lemma pool_step_inv:
  assumes inv: "pool_inv N xs s" and u: "u \<in> N"
  shows "\<exists>xs'. pool_inv N xs' (pool_step s u c)"
proof (cases "running (pool_pcs s u)")
  case True
  obtain p' pc' where run: "pool_run (pool s) (pool_pcs s u) = (p', pc')"
    by fastforce
  have "pool_step s u c = s\<lparr>pool := p', pool_pcs := (pool_pcs s)(u := pc')\<rparr>"
    using True run by (cases "pool_pcs s u") (simp_all add: pool_step_def running_def del: pool_run.simps)
  then have "pool_step s u c = \<lparr>pool = p', pool_pcs = (pool_pcs s)(u := pc'), out = out s\<rparr>"
    by (cases s) simp
  then show ?thesis
    using pool_run_inv [OF inv u True run] by auto
next
  case False
  note D = pool_invD [OF inv]
  have sub: "out s \<subseteq> {1..pool_size (pool s)}"
    using D(6) by auto
  then have "out s - {NO_TASK} = out s"
    by auto
  let ?up = "\<lambda>pc' out'. s\<lparr>pool_pcs := (pool_pcs s)(u := pc'), out := out'\<rparr>"
  have move: "pool_inv N xs (?up pc' out')"
    if "out' \<union> in_hand pc' = out s \<union> in_hand (pool_pcs s u)" "in_hand pc' \<inter> out' = {}" "\<not> in_cs pc'" "known (pool s) pc'" "off pc' = 0" for pc' out'
  proof -
    have pc: "\<not> in_cs (pool_pcs s u)" "off (pool_pcs s u) = 0"
      using False by (auto simp: running_def)
    have "set xs \<inter> (out' \<union> in_hand pc') = {}"
      using that(1) D(5) D(7) [of u] by auto
    then have "pool_inv N xs \<lparr>pool = pool s, pool_pcs = (pool_pcs s)(u := pc'), out = out'\<rparr>"
      using that pc D(4) by (intro inv_step [OF inv u refl]) (auto simp: locking_def listing_def)
    then show ?thesis
      by (cases s) simp
  qed
  consider "pool_pcs s u = P_idle" "c = GetOp" | x where "pool_pcs s u = P_idle" "c = FreeOp x" "x = NO_TASK \<or> x \<in> out s"
    | x where "pool_pcs s u = P_idle" "c = FreeOp x" "x \<noteq> NO_TASK" "x \<notin> out s" | x where "pool_pcs s u = G_ret x" | "pool_pcs s u = F_ret"
    using False by (cases c) (auto simp: running_def)
  then show ?thesis
  proof cases
    case 1
    then show ?thesis
      using move [of "out s" G_look] D(3) by (auto simp: pool_step_def same_out)
  next
    case (2 x)
    then show ?thesis
      using move [of "out s - {x}" "FreeTask (pool s) x"] D(3) sub \<open>out s - {NO_TASK} = out s\<close>
      by (auto simp: pool_step_def insert_absorb)
  next
    case (3 x)
    then show ?thesis
      using inv by (auto simp: pool_step_def)
  next
    case (4 x)
    then show ?thesis
      using move [of "if x = NO_TASK then out s else insert x (out s)" P_idle] by (auto simp: pool_step_def)
  next
    case 5
    then show ?thesis
      using move [of "out s" P_idle] by (auto simp: pool_step_def same_out)
  qed
qed

lemma exec_pool_inv:
  assumes "pool_inv N xs s" "fst ` set cs \<subseteq> N"
  shows "\<exists>xs'. pool_inv N xs' (pool_exec s cs)"
  using assms
proof (induction s cs arbitrary: xs rule: pool_exec.induct)
  case (2 s t c cs)
  then show ?case
    using pool_step_inv [of N xs s t c] by auto
qed auto

section \<open>Theorems\<close>

lemma linked_up: "linked T [k..<n] k" if "0 < k" "k < n" "\<And>i. k \<le> i \<Longrightarrow> i < n \<Longrightarrow> t_next_free (T i) = (if i = n - 1 then NO_TASK else i + 1)"
  using that
proof (induction "n - k" arbitrary: k)
  case (Suc m)
  then show ?case
    using Suc.hyps(1) [of "k + 1"] by (cases "k + 1 = n") (auto simp: upt_conv_Cons)
qed simp

definition start :: "task_pool \<Rightarrow> pool_sys" where
  "start p = \<lparr>pool = p, pool_pcs = \<lambda>_. P_idle, out = {}\<rparr>"

lemma initial_pool_inv:
  assumes "TaskPoolInit n p0 = (0, p)" "finite N"
  shows "pool_inv N [1..<nat n + 1] (start p)" "pool_size p = nat n"
proof -
  have n: "0 < n" "p = p0\<lparr>pool_size := nat n, pool_lock := False, pool_head := 1, pool_tail := nat n,
       tasks := (\<lambda>i. if 1 \<le> i \<and> i \<le> nat n then init_task (if i = nat n then NO_TASK else i + 1) else tasks p0 i),
       num_free_tasks := n, pool_init := True\<rparr>"
    using assms(1) by (auto simp: TaskPoolInit_def split: if_splits)
  have "linked (tasks p) [1..<nat n + 1] 1"
    using n by (intro linked_up) (auto simp: init_task_def)
  then show "pool_inv N [1..<nat n + 1] (start p)" "pool_size p = nat n"
    using n assms(2) by (auto simp: pool_inv_def start_def settled_def last_of_def)
qed

lemma reachable_inv:
  assumes "TaskPoolInit n p0 = (0, p)"
  shows "\<exists>xs. pool_inv (fst ` set sched) xs (pool_exec (start p) sched)"
  using exec_pool_inv [OF initial_pool_inv(1) [OF assms, of "fst ` set sched"]] by simp

text \<open>No task is handed out twice: in every execution, a task that \<^verbatim>\<open>GetTask\<close> is about to return is one of the pool
  that no caller has, no other thread is about to return it, and it is in no queue.\<close>

lemma pool_exclusive:
  assumes "TaskPoolInit n p0 = (0, p)" "s = pool_exec (start p) sched" "pool_pcs s t = G_ret x" "x \<noteq> NO_TASK"
  shows "x \<notin> out s \<and> (\<forall>u. pool_pcs s u = G_ret x \<longrightarrow> u = t) \<and> t_next_queue (tasks (pool s) x) = NO_TASK"
proof -
  obtain xs where inv: "pool_inv (fst ` set sched) xs s"
    using reachable_inv [OF assms(1)] assms(2) by blast
  note D = pool_invD [OF inv]
  have "pool_pcs s u \<noteq> G_ret x" if "u \<noteq> t" for u
    using D(8) [OF that] assms(3,4) by auto
  then show ?thesis
    using D(7) [of t] D(13) [of t] assms(3,4) by auto
qed

text \<open>When no call is under way every task of the pool is either with a caller or in the free list, where each is
  found once from the head and the last one is the tail, and the counter has the number of free tasks.\<close>

lemma pool_exact:
  assumes "TaskPoolInit n p0 = (0, p)" "s = pool_exec (start p) sched" "\<forall>t. pool_pcs s t = P_idle"
  shows "\<exists>xs. linked (tasks (pool s)) xs (pool_head (pool s)) \<and> pool_tail (pool s) = last_of xs \<and> distinct xs \<and>
    set xs = {1..pool_size (pool s)} - out s \<and> GetNumFreeTasks (pool s) = int (length xs)"
proof -
  obtain xs where inv: "pool_inv (fst ` set sched) xs s"
    using reachable_inv [OF assms(1)] assms(2) by blast
  note D = pool_invD [OF inv]
  have "settled (pool s) xs" "GetNumFreeTasks (pool s) = int (length xs)"
    using D(9,12,14) assms(3) by (simp_all add: GetNumFreeTasks_def)
  moreover have "set xs = {1..pool_size (pool s)} - out s"
    using D(5,6) assms(3) by auto
  ultimately show ?thesis
    using D(4) unfolding settled_def by blast
qed

text \<open>C33. The pool hands out each task once. In every execution, a task that \<^verbatim>\<open>GetTask\<close> is about to return is with no
  caller, no other thread is about to return it, and it is linked to no queue. When no call is under way, every task of
  the pool is either with a caller or in the free list, where each is found once from the head and the last one is the
  tail, and \<^verbatim>\<open>GetNumFreeTasks\<close> returns the number of free tasks.\<close>

theorem pool_hands_out_once:
  assumes "TaskPoolInit n p0 = (0, p)" "s = pool_exec (start p) sched"
  shows "(\<forall>t x. pool_pcs s t = G_ret x \<and> x \<noteq> NO_TASK \<longrightarrow>
      x \<notin> out s \<and> (\<forall>u. pool_pcs s u = G_ret x \<longrightarrow> u = t) \<and> t_next_queue (tasks (pool s) x) = NO_TASK) \<and>
    ((\<forall>t. pool_pcs s t = P_idle) \<longrightarrow>
      (\<exists>xs. linked (tasks (pool s)) xs (pool_head (pool s)) \<and> pool_tail (pool s) = last_of xs \<and> distinct xs \<and>
        set xs = {1..pool_size (pool s)} - out s \<and> GetNumFreeTasks (pool s) = int (length xs)))"
  using pool_exclusive [OF assms] pool_exact [OF assms] by blast

definition new_pool :: task_pool where
  "new_pool = \<lparr>pool_init = False, pool_size = 0, tasks = \<lambda>_. init_task NO_TASK, pool_lock = False, pool_head = NO_TASK,
     pool_tail = NO_TASK, num_free_tasks = 0\<rparr>"

lemma pool_exec_replicate:
  "pool_exec s (replicate (numeral k) (t, c)) = pool_exec (pool_step s t c) (replicate (pred_numeral k) (t, c))"
  by (simp add: numeral_eq_Suc)

lemma one_taken:
  "pool_exec (start (snd (TaskPoolInit 2 new_pool))) (replicate 11 (7, GetOp)) =
    (start (snd (TaskPoolInit 2 new_pool)))\<lparr>out := {1}, pool := (snd (TaskPoolInit 2 new_pool))\<lparr>pool_head := 2, num_free_tasks := 1,
      tasks := (tasks (snd (TaskPoolInit 2 new_pool)))(1 := clear_taken (init_task 2))\<rparr>\<rparr>"
  by (simp add: pool_exec_replicate start_def TaskPoolInit_def new_pool_def pool_step_def init_task_def clear_taken_def fun_eq_iff)

text \<open>One of two tasks is taken.\<close>

theorem pool_hands_out_once_witness:
  "\<exists>s xs. s = pool_exec (start (snd (TaskPoolInit 2 new_pool))) (replicate 11 (7, GetOp)) \<and> out s = {1} \<and>
     linked (tasks (pool s)) xs (pool_head (pool s)) \<and> set xs = {2} \<and> GetNumFreeTasks (pool s) = int (length xs)"
proof -
  have "TaskPoolInit 2 new_pool = (0, snd (TaskPoolInit 2 new_pool))"
    by (simp add: TaskPoolInit_def new_pool_def)
  note P = pool_hands_out_once [OF this refl, of "replicate 11 (7, GetOp)"]
  have "{1..2} - {1} = {2 :: nat}"
    by auto
  then show ?thesis
    using P unfolding one_taken by (auto simp: start_def TaskPoolInit_def new_pool_def)
qed

end
