(* ===== verification/Spec2Isabelle.thy ===== *)
theory Spec2Isabelle
  imports Stm_Theorems Stm_Calls Stm_Progress Wrappers Gc Mod_Mem Mod_Cb Mod_Log Mod_Stats Quiescence Stm_Modules Stm_Api Nbb_List Tpcc_Manager Rb_Api Prio_Api Task_Pool
begin

text \<open>
  Verification of TinySTM with in-transaction revalidation and of the TPC-C server that runs on it.

  \<^bold>\<open>The program.\<close> \<^verbatim>\<open>tinySTM/\<close> is a word-based software transactional memory: transactions read and write words of
  shared memory through a table of versioned locks and a global clock, and plug-in modules add memory
  management, callbacks, an undo log and statistics. \<^verbatim>\<open>timestretch/\<close> is a Linux kernel module that delivers
  extra timer ticks to a thread, on which the library revalidates the running transaction. \<^verbatim>\<open>TPCC/\<close> is a
  server that keeps the TPC-C database in red-black trees, runs the benchmark's five transactions as
  transactions of TinySTM, and hands requests to its workers through queues with priorities, in another build through
  a non-blocking list.

  \<^bold>\<open>Theories and what they model.\<close>
  \<^item> \<open>Stm_Prelude\<close>: lemmas on words, masks and lists that the components share.
  \<^item> \<open>Lock_Word\<close>: the macros on lock words of \<^verbatim>\<open>stm.c\<close> (owner bits, addresses, timestamps, incarnations, the
    hash of an address) and \<open>enc_lock\<close>, the word that represents an abstract lock. The theorem below
    justifies that the protocol theories use the abstract lock.
  \<^item> \<open>Tick\<close>: the control buffer and the decision of the timer interrupt handler (\<^verbatim>\<open>timestretch.c\<close>,
    \<^verbatim>\<open>controlbuffer.h\<close>).
  \<^item> \<open>Stm_Types\<close>, \<open>Stm_Steps\<close>: the protocol of \<^verbatim>\<open>stm.c\<close> in the default design (write-back, commit-time
    locking): the descriptor \<^verbatim>\<open>stm_tx_t\<close> is \<open>stm_tx\<close>, the shared state (memory, locks, clock) is \<open>shared\<close>, and
    \<^verbatim>\<open>stm_start\<close>, \<^verbatim>\<open>stm_load\<close>, \<^verbatim>\<open>stm_store\<close>, \<^verbatim>\<open>stm_commit\<close>, \<^verbatim>\<open>stm_abort\<close>, \<^verbatim>\<open>stm_rollback\<close>, \<^verbatim>\<open>stm_extend\<close>, the unit
    operations, the early revalidation (\<^verbatim>\<open>stm_et_callback.S\<close>) and the reset of the clock are steps that make one
    shared access each; \<open>stm_step\<close> interleaves any number of threads.
  \<^item> \<open>Stm_Ghost\<close>, \<open>Stm_Inv\<close>, \<open>Stm_Local\<close>, \<open>Stm_Reads\<close>, \<open>Stm_Shared\<close>, \<open>Stm_Commit\<close>, \<open>Stm_Safety\<close>: an observer
    that records the serial history, the inductive invariant, and its preservation by each step.
  \<^item> \<open>Stm_Theorems\<close>, \<open>Stm_Progress\<close>: opacity, serializability, locking discipline, rollback,
    safety of the clock reset, bounds of the clock and of the read and write sets, progress of an undisturbed
    commit. \<open>Stm_Calls\<close>: whole calls of \<^verbatim>\<open>stm_load\<close> and \<^verbatim>\<open>stm_store2\<close> in any interleaving, what a load returns, and
    that it sees the transaction's own stores. \<open>Stm_Demo\<close> holds the executions on which the theorems are exercised.
  \<^item> \<open>Quiescence\<close>: the list of threads and the barrier of \<^verbatim>\<open>stm.c\<close>, with condition variables; it justifies that
    the reset of the clock is one step of the protocol.
  \<^item> \<open>Stm_Modules\<close>, \<open>Stm_Api\<close>: registration of modules, transaction-specific data, initialisation, inquiries,
    parameters, contention managers.
  \<^item> \<open>Wrappers\<close>: typed and byte-wise accesses (\<^verbatim>\<open>wrappers.c\<close>); the locale \<open>word_memory\<close> states what they need of
    the word accesses and is interpreted on the read and write sets of the protocol.
  \<^item> \<open>Gc\<close>, \<open>Mod_Mem\<close>, \<open>Mod_Cb\<close>, \<open>Mod_Log\<close>, \<open>Mod_Stats\<close>: the collector and the modules (\<^verbatim>\<open>gc.c\<close>, \<^verbatim>\<open>mod_*.c\<close>).
  \<^item> \<open>Nbb_List\<close>: the non-blocking list (\<^verbatim>\<open>TPCC/Server/core/nbblist.c\<close>), one shared access per step; linearizable
    to a bounded queue, and a call that runs alone returns.
  \<^item> \<open>Prio_Queue\<close>, \<open>Prio_Api\<close>: the queues with priorities (\<^verbatim>\<open>TPCC/Server/core/priority.c\<close>, \<^verbatim>\<open>priority.h\<close>), one shared
    access per step. The assertions of the code hold in every interleaving; the locale \<open>task_scheduler\<close> states what a
    client gets from calls that do not overlap, and is interpreted on the calls of the code; a schedule of overlapping
    calls after which a task is never served is at the end.
  \<^item> \<open>Task_Pool\<close>: the pool that the tasks of these queues come from (\<^verbatim>\<open>TPCC/Server/mm/taskpool.c\<close>), one shared access per
    step; a task is handed out to one caller at a time and is then in no queue, as \<open>Prio_Api\<close> needs it.
  \<^item> \<open>Rbtree\<close>: the red-black tree (\<^verbatim>\<open>TPCC/lib/rbtree.c\<close>) on a memory of linked nodes, with the null pointer and
    the loops of the code. \<open>Rb_Shape\<close> has the trees and paths it represents and the repairs on them, \<open>Rb_Refine\<close>
    the rotations and the repair after an insertion, \<open>Rb_Insert\<close>, \<open>Rb_Delete\<close>, \<open>Rb_Remove\<close> the operations,
    \<open>Rb_Map\<close> the finite map of a tree; \<open>Rb_Api\<close> has the interface as the locales \<open>map_impl\<close> and
    \<open>map_impl_owned\<close>, both interpreted on the operations of the code, and the theorems about any sequence of
    operations.
  \<^item> \<open>Mt19937\<close>, \<open>Float32\<close>: the random generator (\<^verbatim>\<open>TPCC/lib/mt19937ar.c\<close>, \<^verbatim>\<open>random.c\<close>) and the single-precision
    arithmetic of C.
  \<^item> \<open>Tpcc_Tables\<close>, \<open>Tpcc_Manager\<close>: the rows and the filling of the tables (\<^verbatim>\<open>TPCC/Server/dataTable\<close>), and the
    five transactions of \<^verbatim>\<open>TPCC/Server/manager.c\<close> as functions on the database.

  \<^bold>\<open>How the parts fit.\<close> A transaction of the server acts as one step on the tables because the protocol is
  serializable (\<open>Stm_Theorems\<close>); the tables are finite maps because any sequence of tree operations answers as the
  finite map does (\<open>Rb_Api\<close>); the plain and the transactional variants of the tree are one definition for the same
  reason. The random generator is shared but not transactional, so it keeps its state when a transaction restarts.

  \<^bold>\<open>What the models assume.\<close>
  \<^item> Threads interleave at single accesses in sequentially consistent order, the order that the atomic
    operations of the code ask for.
  \<^item> Timestamps of the protocol are natural numbers. \<open>Stm_Progress\<close> shows that the clock stays below
    \<^verbatim>\<open>VERSION_MAX\<close> plus two increments per thread, where they are the word-sized values of the code.
  \<^item> The set of threads is fixed during an execution; \<open>op_ok\<close> is the documented use of the interface (operations
    inside a transaction, aligned addresses); \<open>cfg_ok\<close> selects consistent build options.
  \<^item> A call of the collector or of a module is one step, apart from the exits of \<open>Mod_Stats\<close>. A block of \<open>Gc\<close>
    carries the epoch it was freed in, which the code does not store and the model does not use.
  \<^item> The non-blocking list needs zeroed entries, positive values that fit their field, and fewer insertions than
    the versions can count; these are hypotheses of its theorems.
  \<^item> A task is inserted in one queue at a time and given back to the pool by a caller that has it; the pool is not
    destroyed while it is in use.
  \<^item> The tree needs a \<^verbatim>\<open>malloc\<close> that returns a block not in use and keys from \<open>- 2 ^ 62\<close> to below \<open>2 ^ 62\<close>; what happens
    otherwise is shown at the end of \<open>Rb_Api\<close>.
  \<^item> Read and write sets grow without bound: the doubling of an \<^verbatim>\<open>int\<close> size and the failure of \<^verbatim>\<open>realloc\<close>, which ends
    the process, are not modelled. The set of allocated nodes of the tree does not show a second release.
  \<^item> The undo log is covered for transactions that do not follow an abort and do not use the logging functions
    for 16-, 32- and 64-bit unsigned integers; what happens otherwise is shown at the end of \<open>Mod_Log\<close>.
  \<^item> \<^verbatim>\<open>long\<close> counters and identifiers of the tables are unbounded integers; where the code leaves its array (stock level
    for item 100000) the model stops with a fault and leaves the tables as they are; \<^verbatim>\<open>float\<close> values are rational numbers rounded to
    24 bits after each operation.

  \<^bold>\<open>Loops.\<close> Loops over sets, tables and arrays are structural or have a measure. The loops of the tree follow
  pointers and are \<open>partial_function\<close>s: a result \<open>None\<close> is a null pointer followed or a loop without end, and the
  theorems state that the result is \<open>Some\<close>; so is \<open>finish\<close>, which runs a call of the queues alone. The retry loops of the protocol, of the queues and of the non-blocking list are steps
  of the interleaving; their ends are stated as progress properties with explicit bounds. No definition uses fuel.

  \<^bold>\<open>Not modelled.\<close>
  \<^item> The designs \<^verbatim>\<open>WRITE_BACK_ETL\<close>, \<^verbatim>\<open>WRITE_THROUGH\<close> and \<^verbatim>\<open>MODULAR\<close> with visible reads, irrevocable transactions, the
    hybrid and conflict-tracking options of \<^verbatim>\<open>stm.c\<close>: other builds than the default one. Of the contention managers
    only the decision functions are there.
  \<^item> \<^verbatim>\<open>stm_exit\<close>, \<^verbatim>\<open>stm_exit_thread\<close> and the signal handler: release of memory and process control.
  \<^item> \<^verbatim>\<open>stm_stats.h\<close>, \<^verbatim>\<open>stm_ea.h\<close>, \<^verbatim>\<open>mod_adaptive.c\<close>, the learning part of \<^verbatim>\<open>mod_stats.c\<close>, \<^verbatim>\<open>libfann\<close>: measurements and
    cost models of experimental builds, and a vendored library.
  \<^item> The rest of the kernel module: interrupt controller, page tables and device registration of Linux.
  \<^item> The atomic operations (vendored): each is one step. The compiler glue and the tests.
  \<^item> In the server: sockets, processes, preemption by signals, the release of the queues, the bitmap allocator of
    \<^verbatim>\<open>nbblist.c\<close>, and the containers of \<^verbatim>\<open>TPCC/lib\<close> other than the red-black tree.
\<close>

section \<open>Lock words\<close>

text \<open>
  C15. Under commit-time locking, the tests the code makes on a lock word decide the state of the
  lock, for the version numbers the clock can reach and write sets the allocator keeps apart:
  \<^verbatim>\<open>LOCK_GET_OWNED\<close> is zero exactly for a version, which \<^verbatim>\<open>LOCK_GET_TIMESTAMP\<close> then returns; for an owned lock,
  the range test of a thread on its write set with \<open>nb\<close> entries in use succeeds exactly when it is the
  owner through one of them, and \<^verbatim>\<open>LOCK_GET_ADDR\<close> returns the address of that entry; the comparison with
  \<^verbatim>\<open>LOCK_UNIT\<close> recognises a unit store; and two words are equal, for the comparisons and the
  compare-and-swap, exactly when the states are.
\<close>

theorem lock_words_faithful:
  assumes "ws_layout ws cap" "lock_ok cap k"
  shows "(LOCK_GET_OWNED (enc_lock ws k) = 0 \<longleftrightarrow> (\<exists>n. k = Version n)) \<and>
    (\<forall>n. k = Version n \<longrightarrow> unat (LOCK_GET_TIMESTAMP (enc_lock ws k)) = n) \<and>
    (LOCK_GET_OWNED (enc_lock ws k) \<noteq> 0 \<longrightarrow>
       (\<forall>me nb. nb \<le> cap me \<longrightarrow> points_into (ws me) nb (enc_lock ws k) = (\<exists>i<nb. k = Owned me i))) \<and>
    (\<forall>t i. k = Owned t i \<longrightarrow> LOCK_GET_ADDR (enc_lock ws k) = ws t + 64 * of_nat i) \<and>
    (enc_lock ws k = LOCK_UNIT \<longleftrightarrow> k = LockUnit) \<and>
    (\<forall>l. lock_ok cap l \<longrightarrow> (enc_lock ws k = enc_lock ws l \<longleftrightarrow> k = l))"
proof (intro conjI allI impI)
  show "LOCK_GET_OWNED (enc_lock ws k) = 0 \<longleftrightarrow> (\<exists>n. k = Version n)"
    using owned_enc [of ws k] by blast
  show "unat (LOCK_GET_TIMESTAMP (enc_lock ws k)) = n" if "k = Version n" for n
    using get_timestamp_enc that assms(2) by simp
  show "points_into (ws me) nb (enc_lock ws k) = (\<exists>i<nb. k = Owned me i)"
    if "LOCK_GET_OWNED (enc_lock ws k) \<noteq> 0" "nb \<le> cap me" for me nb
    using points_into_enc [OF assms] that owned_enc [of ws k] by blast
  show "LOCK_GET_ADDR (enc_lock ws k) = ws t + 64 * of_nat i" if "k = Owned t i" for t i
    using that assms entry_addr(2) [OF assms(1), of i t] by (simp add: lock_ok_def enc_lock_def wb.get_set_addr)
  show "enc_lock ws k = LOCK_UNIT \<longleftrightarrow> k = LockUnit"
    using enc_lock_inject [OF assms, of LockUnit] by (simp add: enc_lock_def lock_ok_def)
  show "enc_lock ws k = enc_lock ws l \<longleftrightarrow> k = l" if "lock_ok cap l" for l
    using assms that by (rule enc_lock_inject)
qed

text \<open>Thread 0 holds a lock through entry 3 of a write set of four entries.\<close>

theorem lock_words_faithful_witness:
  "let ws = (\<lambda>t. if t = 0 then 64 else 4096); l = enc_lock ws (Owned 0 3) in
   LOCK_GET_OWNED l \<noteq> 0 \<and> points_into 64 4 l \<and> \<not> points_into 64 3 l \<and> \<not> points_into 4096 0 l \<and>
   LOCK_GET_ADDR l = 256 \<and> l \<noteq> LOCK_UNIT \<and> l \<noteq> enc_lock ws (Version 5)"
proof -
  let ?ws = "\<lambda>t. if t = 0 then 64 else 4096" and ?cap = "\<lambda>t. if t = 0 then 4 else 0 :: nat"
  have "ws_layout ?ws ?cap" "lock_ok ?cap (Owned 0 3)" "lock_ok ?cap (Version 5)"
    by (auto simp: ws_layout_def lock_ok_def MAX_THREADS_def)
  note f = lock_words_faithful [OF this(1,2)] and l = this(3)
  note own = f [THEN conjunct1] and into = f [THEN conjunct2, THEN conjunct2, THEN conjunct1]
    and ad = f [THEN conjunct2, THEN conjunct2, THEN conjunct2, THEN conjunct1]
    and eq = f [THEN conjunct2, THEN conjunct2, THEN conjunct2, THEN conjunct2]
  have o: "LOCK_GET_OWNED (enc_lock ?ws (Owned 0 3)) \<noteq> 0"
    using own by simp
  note p = into [rule_format, OF o]
  have "points_into 64 4 (enc_lock ?ws (Owned 0 3))" "\<not> points_into 64 3 (enc_lock ?ws (Owned 0 3))"
    "\<not> points_into 4096 0 (enc_lock ?ws (Owned 0 3))"
    using p [of 4 0] p [of 3 0] p [of 0 1] by simp_all
  moreover have "LOCK_GET_ADDR (enc_lock ?ws (Owned 0 3)) = 256"
    using ad [rule_format, OF refl] by simp
  moreover have "enc_lock ?ws (Owned 0 3) \<noteq> LOCK_UNIT" "enc_lock ?ws (Owned 0 3) \<noteq> enc_lock ?ws (Version 5)"
    using eq [THEN conjunct1] eq [THEN conjunct2, rule_format, OF l] by simp_all
  ultimately show ?thesis
    using o by (simp only: Let_def simp_thms)
qed

end
